(* ===== verification/Prelude.thy ===== *)
theory Prelude
  imports Main "HOL-Library.Word" "HOL-Library.Multiset"
begin

text \<open>
  Shared ground of the development: the machine types of the 32-bit little-endian
  MIPS build (\<open>int\<close> and \<open>long\<close> of 32 bits, \<open>quad\<close> and \<open>register_t\<close> of 64 bits, signed
  \<open>char\<close>), the C character class tables of \<^verbatim>\<open>lib/libc/ctype_.c\<close>,
  \<^verbatim>\<open>toupper_.c\<close> and \<^verbatim>\<open>tolower_.c\<close>, the byte-addressed memory, and the
  generic lemmas on lists and words that the component theories use.
\<close>

unbundle bit_operations_syntax

named_theorems ctype_simps "character class facts"
named_theorems mem_simps "reading back what was stored in memory"

section \<open>Machine types\<close>

type_synonym u8 = "8 word"
type_synonym u16 = "16 word"
type_synonym u32 = "32 word"
type_synonym u64 = "64 word"

text \<open>
  A C string is the list of its characters before the terminating \<open>NUL\<close>. A buffer is
  the list of all its bytes, the \<open>NUL\<close> included.
\<close>

type_synonym cstr = string
type_synonym cbuf = "char list"

abbreviation NUL :: char where
  "NUL \<equiv> CHR 0x00"

definition wf_cstr :: "cstr \<Rightarrow> bool" where
  "wf_cstr s \<longleftrightarrow> NUL \<notin> set s"

definition cstr_of :: "cbuf \<Rightarrow> cstr" where
  "cstr_of b = takeWhile (\<lambda>c. c \<noteq> NUL) b"

definition uchar :: "char \<Rightarrow> nat" where
  "uchar c = of_char c"

definition schar :: "char \<Rightarrow> int" where
  "schar c = (if uchar c < 128 then int (uchar c) else int (uchar c) - 256)"

definition byte_of :: "char \<Rightarrow> u8" where
  "byte_of c = of_nat (uchar c)"

definition char_of_byte :: "u8 \<Rightarrow> char" where
  "char_of_byte b = char_of (unat b)"

lemma uchar_less [simp]: "uchar c < 256"
  using nat_of_char_less_256 [of c] by (simp add: uchar_def)

lemma uchar_inject [simp]: "uchar c = uchar d \<longleftrightarrow> c = d"
  by (simp add: uchar_def of_char_eq_iff)

lemma uchar_char_of [simp]: "n < 256 \<Longrightarrow> uchar (char_of n) = n"
  by (simp add: uchar_def)

lemma char_of_uchar [simp]: "char_of (uchar c) = c"
  by (simp add: uchar_def)

lemma char_of_byte_of [simp]: "char_of_byte (byte_of c) = c"
  using uchar_less [of c]
  by (simp add: char_of_byte_def byte_of_def unat_of_nat)

lemma unat_byte_less [simp]: "unat (b :: u8) < 256"
proof -
  have "unat b < 2 ^ LENGTH(8)" by (rule unsigned_less)
  then show ?thesis by simp
qed

lemma byte_of_char_of_byte [simp]: "byte_of (char_of_byte b) = b"
  by (simp add: char_of_byte_def byte_of_def)

lemma schar_nonneg: "uchar c < 128 \<Longrightarrow> schar c = int (uchar c)"
  by (simp add: schar_def)

lemma unat_of_nat_less:
  "n < 2 ^ LENGTH('a) \<Longrightarrow> unat (of_nat n :: 'a::len word) = n"
  by (simp add: unat_of_nat)

lemma sint_count: "n < 2 ^ 31 \<Longrightarrow> sint (of_nat n :: u32) = int n"
  by (simp add: signed_of_nat signed_take_bit_int_eq_self)

section \<open>C strings and buffers\<close>

lemma wf_cstr_Nil [simp]: "wf_cstr []"
  by (simp add: wf_cstr_def)

lemma wf_cstr_Cons [simp]: "wf_cstr (c # s) \<longleftrightarrow> c \<noteq> NUL \<and> wf_cstr s"
  by (auto simp: wf_cstr_def)

lemma wf_cstr_append [simp]: "wf_cstr (s @ t) \<longleftrightarrow> wf_cstr s \<and> wf_cstr t"
  by (auto simp: wf_cstr_def)

lemma wf_cstr_cstr_of [simp]: "wf_cstr (cstr_of b)"
  by (auto simp: wf_cstr_def cstr_of_def dest: set_takeWhileD)

lemma cstr_of_Nil [simp]: "cstr_of [] = []"
  by (simp add: cstr_of_def)

lemma cstr_of_Cons [simp]: "cstr_of (c # b) = (if c = NUL then [] else c # cstr_of b)"
  by (simp add: cstr_of_def)

lemma cstr_of_append_NUL: "wf_cstr s \<Longrightarrow> cstr_of (s @ NUL # b) = s"
  by (induction s) auto

lemma cstr_of_append_wf: "wf_cstr s \<Longrightarrow> cstr_of (s @ b) = s @ cstr_of b"
  by (induction s) auto

lemma cstr_of_wf: "wf_cstr s \<Longrightarrow> cstr_of s = s"
  by (induction s) auto

text \<open>A terminated buffer splits at its first \<open>NUL\<close>.\<close>

lemma cbuf_split:
  assumes "NUL \<in> set b"
  shows "\<exists>rest. b = cstr_of b @ NUL # rest"
  using assms by (induction b) auto

section \<open>Character classes\<close>

text \<open>The flags \<open>_U _L _N _S _P _C _X _B\<close> of \<^verbatim>\<open>include/ctype.h\<close>, in that order of bits.\<close>

text \<open>
  The initialiser of the table, its rows gathered into runs of equal entries and the
  entries written as sums of those flags. The C table has 257 entries: the first is for
  \<open>EOF\<close>, those past the initialiser are zero.
\<close>

definition ctype_entry :: "nat \<Rightarrow> nat" where
  "ctype_entry n =
     (if n < 9 then 32                 \<comment> \<open>\<open>_C\<close>\<close>
      else if n < 14 then 32 + 8       \<comment> \<open>\<open>_C|_S\<close>\<close>
      else if n < 32 then 32
      else if n = 32 then 8 + 128      \<comment> \<open>\<open>_S|_B\<close>\<close>
      else if n < 48 then 16           \<comment> \<open>\<open>_P\<close>\<close>
      else if n < 58 then 4            \<comment> \<open>\<open>_N\<close>\<close>
      else if n < 65 then 16
      else if n < 71 then 1 + 64       \<comment> \<open>\<open>_U|_X\<close>\<close>
      else if n < 91 then 1
      else if n < 97 then 16
      else if n < 103 then 2 + 64      \<comment> \<open>\<open>_L|_X\<close>\<close>
      else if n < 123 then 2
      else if n < 127 then 16
      else if n = 127 then 32
      else 0)"

definition ctype_of :: "char \<Rightarrow> nat" where
  "ctype_of c = ctype_entry (uchar c)"

definition isdigit :: "char \<Rightarrow> bool" where
  "isdigit c \<longleftrightarrow> ctype_of c AND 4 \<noteq> 0"

definition isspace :: "char \<Rightarrow> bool" where
  "isspace c \<longleftrightarrow> ctype_of c AND 8 \<noteq> 0"

definition isalpha :: "char \<Rightarrow> bool" where
  "isalpha c \<longleftrightarrow> ctype_of c AND 3 \<noteq> 0"

definition isxdigit :: "char \<Rightarrow> bool" where
  "isxdigit c \<longleftrightarrow> ctype_of c AND 68 \<noteq> 0"

definition isprint :: "char \<Rightarrow> bool" where
  "isprint c \<longleftrightarrow> ctype_of c AND 151 \<noteq> 0"

definition toupper_tab :: "nat list" where
  "toupper_tab = [
    0, 1, 2, 3, 4, 5, 6, 7, 8, 9, 10, 11, 12, 13, 14, 15,
    16, 17, 18, 19, 20, 21, 22, 23, 24, 25, 26, 27, 28, 29, 30, 31,
    32, 33, 34, 35, 36, 37, 38, 39, 40, 41, 42, 43, 44, 45, 46, 47,
    48, 49, 50, 51, 52, 53, 54, 55, 56, 57, 58, 59, 60, 61, 62, 63,
    64, 65, 66, 67, 68, 69, 70, 71, 72, 73, 74, 75, 76, 77, 78, 79,
    80, 81, 82, 83, 84, 85, 86, 87, 88, 89, 90, 91, 92, 93, 94, 95,
    96, 65, 66, 67, 68, 69, 70, 71, 72, 73, 74, 75, 76, 77, 78, 79,
    80, 81, 82, 83, 84, 85, 86, 87, 88, 89, 90, 123, 124, 125, 126, 127,
    128, 129, 130, 131, 132, 133, 134, 135, 136, 137, 138, 139, 140, 141, 142, 143,
    144, 145, 146, 147, 148, 149, 150, 151, 152, 153, 154, 155, 156, 157, 158, 159,
    160, 161, 162, 163, 164, 165, 166, 167, 168, 169, 170, 171, 172, 173, 174, 175,
    176, 177, 178, 179, 180, 181, 182, 183, 184, 185, 186, 187, 188, 189, 190, 191,
    192, 193, 194, 195, 196, 197, 198, 199, 200, 201, 202, 203, 204, 205, 206, 207,
    208, 209, 210, 211, 212, 213, 214, 215, 216, 217, 218, 219, 220, 221, 222, 223,
    224, 225, 226, 227, 228, 229, 230, 231, 232, 233, 234, 235, 236, 237, 238, 239,
    240, 241, 242, 243, 244, 245, 246, 247, 248, 249, 250, 251, 252, 253, 254, 255]"

definition tolower_tab :: "nat list" where
  "tolower_tab = [
    0, 1, 2, 3, 4, 5, 6, 7, 8, 9, 10, 11, 12, 13, 14, 15,
    16, 17, 18, 19, 20, 21, 22, 23, 24, 25, 26, 27, 28, 29, 30, 31,
    32, 33, 34, 35, 36, 37, 38, 39, 40, 41, 42, 43, 44, 45, 46, 47,
    48, 49, 50, 51, 52, 53, 54, 55, 56, 57, 58, 59, 60, 61, 62, 63,
    64, 97, 98, 99, 100, 101, 102, 103, 104, 105, 106, 107, 108, 109, 110, 111,
    112, 113, 114, 115, 116, 117, 118, 119, 120, 121, 122, 91, 92, 93, 94, 95,
    96, 97, 98, 99, 100, 101, 102, 103, 104, 105, 106, 107, 108, 109, 110, 111,
    112, 113, 114, 115, 116, 117, 118, 119, 120, 121, 122, 123, 124, 125, 126, 127,
    128, 129, 130, 131, 132, 133, 134, 135, 136, 137, 138, 139, 140, 141, 142, 143,
    144, 145, 146, 147, 148, 149, 150, 151, 152, 153, 154, 155, 156, 157, 158, 159,
    160, 161, 162, 163, 164, 165, 166, 167, 168, 169, 170, 171, 172, 173, 174, 175,
    176, 177, 178, 179, 180, 181, 182, 183, 184, 185, 186, 187, 188, 189, 190, 191,
    192, 193, 194, 195, 196, 197, 198, 199, 200, 201, 202, 203, 204, 205, 206, 207,
    208, 209, 210, 211, 212, 213, 214, 215, 216, 217, 218, 219, 220, 221, 222, 223,
    224, 225, 226, 227, 228, 229, 230, 231, 232, 233, 234, 235, 236, 237, 238, 239,
    240, 241, 242, 243, 244, 245, 246, 247, 248, 249, 250, 251, 252, 253, 254, 255]"

definition toupper :: "char \<Rightarrow> char" where
  "toupper c = char_of (toupper_tab ! uchar c)"

definition tolower :: "char \<Rightarrow> char" where
  "tolower c = char_of (tolower_tab ! uchar c)"

lemmas ctype_at = ctype_of_def ctype_entry_def

lemma isdigit_range [ctype_simps]: "isdigit c \<longleftrightarrow> 48 \<le> uchar c \<and> uchar c \<le> 57"
  by (auto simp: isdigit_def ctype_at)

lemma isspace_range [ctype_simps]: "isspace c \<longleftrightarrow> 9 \<le> uchar c \<and> uchar c \<le> 13 \<or> uchar c = 32"
  by (auto simp: isspace_def ctype_at)

lemma isalpha_range [ctype_simps]:
  "isalpha c \<longleftrightarrow> 65 \<le> uchar c \<and> uchar c \<le> 90 \<or> 97 \<le> uchar c \<and> uchar c \<le> 122"
  by (auto simp: isalpha_def ctype_at)

lemma isxdigit_range [ctype_simps]:
  "isxdigit c \<longleftrightarrow> 48 \<le> uchar c \<and> uchar c \<le> 57 \<or> 65 \<le> uchar c \<and> uchar c \<le> 70
    \<or> 97 \<le> uchar c \<and> uchar c \<le> 102"
  by (auto simp: isxdigit_def ctype_at)

lemma isprint_range [ctype_simps]: "isprint c \<longleftrightarrow> 32 \<le> uchar c \<and> uchar c \<le> 126"
  by (auto simp: isprint_def ctype_at)

lemma toupper_tab_eq: "toupper_tab = map (\<lambda>n. if 97 \<le> n \<and> n \<le> 122 then n - 32 else n) [0..<256]"
  by code_simp

lemma tolower_tab_eq: "tolower_tab = map (\<lambda>n. if 65 \<le> n \<and> n \<le> 90 then n + 32 else n) [0..<256]"
  by code_simp

lemma uchar_toupper:
  "uchar (toupper c) = (if 97 \<le> uchar c \<and> uchar c \<le> 122 then uchar c - 32 else uchar c)"
  by (simp add: toupper_def toupper_tab_eq less_imp_diff_less)

lemma uchar_tolower:
  "uchar (tolower c) = (if 65 \<le> uchar c \<and> uchar c \<le> 90 then uchar c + 32 else uchar c)"
  by (auto simp: tolower_def tolower_tab_eq)

text \<open>Evaluation on literals.\<close>

lemma uchar_Char [simp, code]:
  "uchar (Char b0 b1 b2 b3 b4 b5 b6 b7) =
    of_bool b0 + 2 * of_bool b1 + 4 * of_bool b2 + 8 * of_bool b3
    + 16 * of_bool b4 + 32 * of_bool b5 + 64 * of_bool b6 + 128 * of_bool b7"
  by (simp add: uchar_def of_char_Char)

lemma toupper_Char [code, simp]:
  "toupper (Char b0 b1 b2 b3 b4 b5 b6 b7) =
    (if b6 \<and> b5 \<and> \<not> b7 \<and> (b0 \<or> b1 \<or> b2 \<or> b3 \<or> b4) \<and> \<not> (b4 \<and> b3 \<and> (b2 \<or> b1 \<and> b0))
     then Char b0 b1 b2 b3 b4 False b6 b7 else Char b0 b1 b2 b3 b4 b5 b6 b7)"
  unfolding uchar_inject [symmetric] uchar_toupper if_distrib [of uchar] uchar_Char
  by (cases b0; cases b1; cases b2; cases b3; cases b4; cases b5; cases b6; cases b7; simp)

lemma tolower_Char [code, simp]:
  "tolower (Char b0 b1 b2 b3 b4 b5 b6 b7) =
    (if b6 \<and> \<not> b5 \<and> \<not> b7 \<and> (b0 \<or> b1 \<or> b2 \<or> b3 \<or> b4) \<and> \<not> (b4 \<and> b3 \<and> (b2 \<or> b1 \<and> b0))
     then Char b0 b1 b2 b3 b4 True b6 b7 else Char b0 b1 b2 b3 b4 b5 b6 b7)"
  unfolding uchar_inject [symmetric] uchar_tolower if_distrib [of uchar] uchar_Char
  by (cases b0; cases b1; cases b2; cases b3; cases b4; cases b5; cases b6; cases b7; simp)

lemma isspace_Char [code, simp]:
  "isspace (Char b0 b1 b2 b3 b4 b5 b6 b7) \<longleftrightarrow>
    \<not> b7 \<and> \<not> b6 \<and> \<not> b4 \<and>
    (if b5 then \<not> b3 \<and> \<not> b2 \<and> \<not> b1 \<and> \<not> b0 else b3 \<and> (b0 \<or> b1 \<or> b2) \<and> \<not> (b2 \<and> b1))"
  unfolding isspace_range uchar_Char
  by (cases b0; cases b1; cases b2; cases b3; cases b4; cases b5; cases b6; cases b7; simp)

lemma isdigit_Char [code, simp]:
  "isdigit (Char b0 b1 b2 b3 b4 b5 b6 b7) \<longleftrightarrow>
    \<not> b7 \<and> \<not> b6 \<and> b5 \<and> b4 \<and> \<not> (b3 \<and> (b1 \<or> b2))"
  unfolding isdigit_range uchar_Char
  by (cases b0; cases b1; cases b2; cases b3; cases b4; cases b5; cases b6; cases b7; simp)

lemma toupper_if_tolower_eq: "tolower c = tolower d \<Longrightarrow> toupper c = toupper d"
  by (auto simp: uchar_toupper uchar_tolower simp flip: uchar_inject split: if_splits)

lemma toupper_NUL [simp]: "toupper c = NUL \<longleftrightarrow> c = NUL" "toupper NUL = NUL"
proof -
  have nul: "uchar NUL = 0" by (simp add: uchar_def)
  show "toupper c = NUL \<longleftrightarrow> c = NUL"
    using uchar_toupper [of c] nul by (auto simp flip: uchar_inject split: if_splits)
  then show "toupper NUL = NUL"
    using uchar_toupper [of NUL] nul by (auto simp flip: uchar_inject)
qed

section \<open>Memory\<close>

text \<open>
  The address space the monitor works on: one byte per 32-bit address. \<open>store_bytes\<close>
  and \<open>load_bytes\<close> move a run of bytes, addresses wrapping at \<open>2\<^sup>3\<^sup>2\<close> as the C
  expression \<open>adr++\<close> does.
\<close>

type_synonym mem = "u32 \<Rightarrow> u8"

fun store_bytes :: "mem \<Rightarrow> u32 \<Rightarrow> u8 list \<Rightarrow> mem" where
  "store_bytes m a [] = m"
| "store_bytes m a (b # bs) = store_bytes (m(a := b)) (a + 1) bs"

fun load_bytes :: "mem \<Rightarrow> u32 \<Rightarrow> nat \<Rightarrow> u8 list" where
  "load_bytes m a 0 = []"
| "load_bytes m a (Suc n) = m a # load_bytes m (a + 1) n"

lemma length_load_bytes [simp]: "length (load_bytes m a n) = n"
  by (induction n arbitrary: a) auto

lemma store_bytes_append:
  "store_bytes m a (xs @ ys) = store_bytes (store_bytes m a xs) (a + of_nat (length xs)) ys"
  by (induction xs arbitrary: m a) (auto simp: algebra_simps)

lemma store_bytes_outside:
  assumes "\<forall>i < length bs. x \<noteq> a + of_nat i"
  shows "store_bytes m a bs x = m x"
  using assms
proof (induction bs arbitrary: m a)
  case Nil
  then show ?case by simp
next
  case (Cons b bs)
  have ne: "x \<noteq> a" using Cons.prems by (auto dest: spec [of _ 0])
  have "\<forall>i < length bs. x \<noteq> (a + 1) + of_nat i"
  proof (intro allI impI)
    fix i assume "i < length bs"
    with Cons.prems have "x \<noteq> a + of_nat (Suc i)" by (metis Suc_less_eq length_Cons)
    then show "x \<noteq> (a + 1) + of_nat i" by (simp add: algebra_simps)
  qed
  then have "store_bytes (m(a := b)) (a + 1) bs x = (m(a := b)) x" by (rule Cons.IH)
  with ne show ?case by simp
qed

lemma word_offset_inject:
  fixes a :: "'a::len word"
  assumes "i < 2 ^ LENGTH('a)" and "j < 2 ^ LENGTH('a)"
  shows "a + of_nat i = a + of_nat j \<longleftrightarrow> i = j"
proof
  assume "a + of_nat i = a + of_nat j"
  then have "(of_nat i :: 'a word) = of_nat j" by simp
  then have "unat (of_nat i :: 'a word) = unat (of_nat j :: 'a word)" by simp
  with assms show "i = j" by (simp add: unat_of_nat)
qed simp

lemma load_bytes_store_bytes [mem_simps]:
  assumes "length bs \<le> 2 ^ 32"
  shows "load_bytes (store_bytes m a bs) a (length bs) = bs"
  using assms
proof (induction bs arbitrary: m a)
  case Nil
  then show ?case by simp
next
  case (Cons b bs)
  have "\<forall>i < length bs. a \<noteq> (a + 1) + of_nat i"
  proof (intro allI impI)
    fix i assume i: "i < length bs"
    with Cons.prems have "a + of_nat 0 \<noteq> a + of_nat (Suc i)"
      by (subst word_offset_inject) auto
    then show "a \<noteq> (a + 1) + of_nat i" by (simp add: algebra_simps)
  qed
  then have "store_bytes (m(a := b)) (a + 1) bs a = b"
    by (subst store_bytes_outside) auto
  with Cons show ?case by simp
qed

lemma load_bytes_nth: "i < n \<Longrightarrow> load_bytes m a n ! i = m (a + of_nat i)"
proof (induction n arbitrary: a i)
  case (Suc n)
  then show ?case by (cases i) (auto simp: algebra_simps)
qed simp

section \<open>Lines\<close>

text \<open>The size of the buffers for a line of input.\<close>

definition LINESZ :: nat where "LINESZ = 200"

section \<open>Lists\<close>

text \<open>The C idiom \<open>swap (x[i], x[j])\<close>.\<close>

definition swap :: "'a list \<Rightarrow> nat \<Rightarrow> nat \<Rightarrow> 'a list" where
  "swap xs i j = xs[i := xs ! j, j := xs ! i]"

lemma length_swap [simp]: "length (swap xs i j) = length xs"
  by (simp add: swap_def)

lemma mset_swap_eq [simp]:
  "i < length xs \<Longrightarrow> j < length xs \<Longrightarrow> mset (swap xs i j) = mset xs"
  by (simp add: swap_def mset_swap)

lemma nth_swap:
  "i < length xs \<Longrightarrow> j < length xs \<Longrightarrow>
   swap xs i j ! k = (if k = j then xs ! i else if k = i then xs ! j else xs ! k)"
  by (auto simp: swap_def nth_list_update)

end
