(* ===== verification/CString.thy ===== *)
theory CString
  imports Prelude
begin

text \<open>
  The string library of the monitor, \<^verbatim>\<open>lib/libc/str*.c\<close>, \<^verbatim>\<open>getword.c\<close>,
  \<^verbatim>\<open>index.c\<close> and \<^verbatim>\<open>rindex.c\<close>. A pointer into a string that a function returns is
  the offset it points to, \<open>None\<close> for the null pointer. The functions that only read are
  recursions over the string; the functions that write (copy, concatenate, insert and delete
  a character in place) are loops over a buffer that answer \<open>None\<close> where the C code would
  write or read past its end. The refinement lemmas at the end reduce the second kind to
  plain list operations.
\<close>

section \<open>Comparing and searching\<close>

definition strlen :: "cstr \<Rightarrow> nat" where
  "strlen s = length s"

fun strcmp :: "cstr \<Rightarrow> cstr \<Rightarrow> int" where
  "strcmp [] [] = 0"
| "strcmp [] (d # t) = - int (uchar d)"
| "strcmp (c # s) [] = int (uchar c)"
| "strcmp (c # s) (d # t) =
     (if c = d then strcmp s t else int (uchar c) - int (uchar d))"

fun strncmp :: "cstr \<Rightarrow> cstr \<Rightarrow> nat \<Rightarrow> int" where
  "strncmp s t 0 = 0"
| "strncmp [] [] (Suc n) = 0"
| "strncmp [] (d # t) (Suc n) = - schar d"
| "strncmp (c # s) [] (Suc n) = schar c"
| "strncmp (c # s) (d # t) (Suc n) =
     (if c = d then strncmp s t n else schar c - schar d)"

fun strcasecmp :: "cstr \<Rightarrow> cstr \<Rightarrow> int" where
  "strcasecmp [] [] = 0"
| "strcasecmp [] (d # t) = - int (uchar (tolower d))"
| "strcasecmp (c # s) [] = int (uchar (tolower c))"
| "strcasecmp (c # s) (d # t) =
     (if tolower c = tolower d then strcasecmp s t
      else int (uchar (tolower c)) - int (uchar (tolower d)))"

text \<open>The loop stops at the \<open>NUL\<close>, which is therefore never found.\<close>

fun strchr :: "cstr \<Rightarrow> char \<Rightarrow> nat option" where
  "strchr [] c = None"
| "strchr (x # xs) c = (if x = c then Some 0 else map_option Suc (strchr xs c))"

definition index :: "cstr \<Rightarrow> char \<Rightarrow> nat option" where
  "index s c = strchr s c"

text \<open>\<open>strrchr\<close> and \<open>rindex\<close> walk down from the terminating \<open>NUL\<close>, which they can find.\<close>

definition char_at :: "cstr \<Rightarrow> nat \<Rightarrow> char" where
  "char_at s i = (if i < length s then s ! i else NUL)"

fun strrchr_from :: "cstr \<Rightarrow> char \<Rightarrow> nat \<Rightarrow> nat option" where
  "strrchr_from s c i =
     (if char_at s i = c then Some i
      else case i of 0 \<Rightarrow> None | Suc j \<Rightarrow> strrchr_from s c j)"

declare strrchr_from.simps [simp del]

definition strrchr :: "cstr \<Rightarrow> char \<Rightarrow> nat option" where
  "strrchr s c = strrchr_from s c (length s)"

definition rindex :: "cstr \<Rightarrow> char \<Rightarrow> nat option" where
  "rindex s c = strrchr_from s c (length s)"

text \<open>The inner loop of \<open>strposn\<close> and \<open>strstr\<close>: is \<open>q\<close> at the start of \<open>p\<close>?\<close>

fun posn_here :: "cstr \<Rightarrow> cstr \<Rightarrow> bool" where
  "posn_here [] q = (q = [])"
| "posn_here (x # p) [] = True"
| "posn_here (x # p) (y # q) = (if x \<noteq> y then False else posn_here p q)"

fun posn_scan :: "cstr \<Rightarrow> cstr \<Rightarrow> nat option" where
  "posn_scan [] q = None"
| "posn_scan (x # p) q =
     (if q \<noteq> [] \<and> x = hd q \<and> posn_here (x # p) q then Some 0
      else map_option Suc (posn_scan p q))"

definition strposn :: "cstr \<Rightarrow> cstr \<Rightarrow> nat option" where
  "strposn p q = (if q = [] then Some (length p) else posn_scan p q)"

definition strstr :: "cstr \<Rightarrow> cstr \<Rightarrow> nat option" where
  "strstr p q = (if q = [] then Some 0 else posn_scan p q)"

fun strspn :: "cstr \<Rightarrow> cstr \<Rightarrow> nat" where
  "strspn [] s = 0"
| "strspn (x # p) s = (if x \<in> set s then Suc (strspn p s) else 0)"

fun strcspn :: "cstr \<Rightarrow> cstr \<Rightarrow> nat" where
  "strcspn [] s = 0"
| "strcspn (x # p) s = (if x \<in> set s then 0 else Suc (strcspn p s))"

fun strpbrk :: "cstr \<Rightarrow> cstr \<Rightarrow> nat option" where
  "strpbrk [] s = None"
| "strpbrk (x # p) s =
     (if strchr s x \<noteq> None then Some 0 else map_option Suc (strpbrk p s))"

fun striequ :: "cstr \<Rightarrow> cstr \<Rightarrow> bool" where
  "striequ [] [] = True"
| "striequ [] (d # t) = False"
| "striequ (c # s) [] = (if toupper c \<noteq> toupper NUL then False else striequ s [])"
| "striequ (c # s) (d # t) = (if toupper c \<noteq> toupper d then False else striequ s t)"

fun strempty :: "cstr \<Rightarrow> bool" where
  "strempty [] = True"
| "strempty (c # s) = (if \<not> isspace c then False else strempty s)"

fun strbequ :: "cstr \<Rightarrow> cstr \<Rightarrow> bool" where
  "strbequ s [] = True"
| "strbequ [] (d # t) = False"
| "strbequ (c # s) (d # t) = (if c \<noteq> d then False else strbequ s t)"

definition strtoupper :: "cstr \<Rightarrow> cstr" where
  "strtoupper p = map toupper p"

text \<open>\<open>getword\<close>: the word copied to \<open>dst\<close> and what is left of \<open>p\<close> after it. The code copies without a bound; that
  the destination is large enough is checked where it is called (\<open>bang_subst\<close> in \<open>Hist\<close>, \<open>rpt_line\<close> in
  \<open>Cmdparser\<close>; \<open>matchval\<close> in \<open>Env\<close> reads constant lists).\<close>

definition getword :: "cstr \<Rightarrow> (cstr \<times> cstr) option" where
  "getword p =
     (let p1 = dropWhile isspace p
      in if p1 = [] then None
         else Some (takeWhile (\<lambda>c. \<not> isspace c) p1, dropWhile (\<lambda>c. \<not> isspace c) p1))"

definition wordsz :: "cstr \<Rightarrow> nat" where
  "wordsz p = length (takeWhile (\<lambda>c. \<not> isspace c) (dropWhile isspace p))"

text \<open>\<open>strbalp\<close>: the offset of the bracket that closes the one \<open>p\<close> starts with.\<close>

fun strbalp_loop :: "char \<Rightarrow> char \<Rightarrow> int \<Rightarrow> cstr \<Rightarrow> nat option" where
  "strbalp_loop b e n [] = None"
| "strbalp_loop b e n (x # p) =
     (if x = b then map_option Suc (strbalp_loop b e (n + 1) p)
      else if x = e then
        (if n - 1 = 0 then Some 0 else map_option Suc (strbalp_loop b e (n - 1) p))
      else map_option Suc (strbalp_loop b e n p))"

definition strbalp :: "cstr \<Rightarrow> nat option" where
  "strbalp p =
     (case p of [] \<Rightarrow> None
      | b # _ \<Rightarrow>
        (case strchr ''({[<'' b of None \<Rightarrow> None
         | Some i \<Rightarrow> strbalp_loop b ('')}]>'' ! i) 0 p))"

text \<open>
  \<open>strrpset\<close>: the last character of \<open>str\<close>, its first one excepted, that is in \<open>set\<close> and
  outside parentheses.
\<close>

fun strrpset_loop :: "cstr \<Rightarrow> cstr \<Rightarrow> nat \<Rightarrow> int \<Rightarrow> nat option" where
  "strrpset_loop str st 0 n = None"
| "strrpset_loop str st (Suc i) n =
     (let c = str ! Suc i
      in if c = CHR ''('' then strrpset_loop str st i (n + 1)
         else if c = CHR '')'' then strrpset_loop str st i (n - 1)
         else if strchr st c \<noteq> None \<and> n = 0 then Some (Suc i)
         else strrpset_loop str st i n)"

definition strrpset :: "cstr \<Rightarrow> cstr \<Rightarrow> nat option" where
  "strrpset str st = (if str = [] then None else strrpset_loop str st (length str - 1) 0)"

section \<open>Wildcard matching\<close>

definition BANCHOR :: char where
  "BANCHOR = CHR 0xDE"

definition EANCHOR :: char where
  "EANCHOR = CHR 0xA4"

function strpat_loop :: "cstr \<Rightarrow> cstr \<Rightarrow> bool" where
  "strpat_loop p pat =
     (if p \<noteq> [] \<and> pat \<noteq> [] then
        (if hd pat = CHR ''*'' then
           (let tmp = takeWhile (\<lambda>c. c \<noteq> CHR ''*'' \<and> c \<noteq> CHR ''?'') (tl pat)
            in case strposn p tmp of
                 None \<Rightarrow> False
               | Some k \<Rightarrow> strpat_loop (drop (k + length tmp) p) (drop (length tmp) (tl pat)))
         else if hd pat = CHR ''?'' \<or> hd pat = hd p then strpat_loop (tl p) (tl pat)
         else False)
      else p = [] \<and> pat = [] \<or> p = [] \<and> pat = ''*'')"
  by pat_completeness auto
termination
  by (relation "measure (\<lambda>(p, pat). length pat)") (auto simp: neq_Nil_conv)

declare strpat_loop.simps [simp del]

text \<open>The code puts the anchors around the two strings in buffers of \<open>MAXLN\<close> bytes without a bound; the model has no
  such buffers, so it is that of strings of less than \<open>MAXLN - 2\<close> characters.\<close>

definition strpat :: "cstr \<Rightarrow> cstr \<Rightarrow> bool" where
  "strpat s1 s2 =
     strpat_loop ([BANCHOR] @ s1 @ [EANCHOR]) ([BANCHOR] @ s2 @ [EANCHOR])"

section \<open>Writing into buffers\<close>

fun strcpy_loop :: "cbuf \<Rightarrow> nat \<Rightarrow> cstr \<Rightarrow> cbuf option" where
  "strcpy_loop d i [] = (if i < length d then Some (d[i := NUL]) else None)"
| "strcpy_loop d i (c # s) =
     (if i < length d then strcpy_loop (d[i := c]) (Suc i) s else None)"

text \<open>A null source leaves the empty string in the destination.\<close>

definition strcpy :: "cbuf \<Rightarrow> cstr option \<Rightarrow> cbuf option" where
  "strcpy d src =
     (if d = [] then None
      else (let d0 = d[0 := NUL]
            in case src of None \<Rightarrow> Some d0 | Some s \<Rightarrow> strcpy_loop d0 0 s))"

fun strncpy_loop :: "cbuf \<Rightarrow> nat \<Rightarrow> cstr \<Rightarrow> nat \<Rightarrow> cbuf option" where
  "strncpy_loop d i s 0 = Some d"
| "strncpy_loop d i [] (Suc n) =
     (if i < length d then strncpy_loop (d[i := NUL]) (Suc i) [] n else None)"
| "strncpy_loop d i (c # s) (Suc n) =
     (if i < length d then strncpy_loop (d[i := c]) (Suc i) s n else None)"

definition strncpy :: "cbuf \<Rightarrow> cstr \<Rightarrow> nat \<Rightarrow> cbuf option" where
  "strncpy d s n = strncpy_loop d 0 s n"

definition strcat :: "cbuf \<Rightarrow> cstr \<Rightarrow> cbuf option" where
  "strcat d s = strcpy_loop d (length (cstr_of d)) s"

definition strccat :: "cbuf \<Rightarrow> char \<Rightarrow> cbuf option" where
  "strccat d c =
     (let len = length (cstr_of d)
      in if Suc len < length d then Some (d[len := c, Suc len := NUL]) else None)"

function strdchr_loop :: "cbuf \<Rightarrow> nat \<Rightarrow> cbuf option" where
  "strdchr_loop b t =
     (if t < length b then
        (if b ! t = NUL then Some b
         else if Suc t < length b then strdchr_loop (b[t := b ! Suc t]) (Suc t)
         else None)
      else None)"
  by pat_completeness auto
termination
  by (relation "measure (\<lambda>(b, t). length b - t)") auto

declare strdchr_loop.simps [simp del]

definition strdchr :: "cbuf \<Rightarrow> cbuf option" where
  "strdchr b = strdchr_loop b 0"

fun strichr_shift :: "cbuf \<Rightarrow> nat \<Rightarrow> cbuf" where
  "strichr_shift b 0 = b[Suc 0 := b ! 0]"
| "strichr_shift b (Suc t) = strichr_shift (b[Suc (Suc t) := b ! Suc t]) t"

definition strichr :: "cbuf \<Rightarrow> char \<Rightarrow> cbuf option" where
  "strichr b c =
     (let t = length (cstr_of b)
      in if Suc t < length b then Some ((strichr_shift b t)[0 := c]) else None)"

text \<open>\<open>stristr\<close> inserts the characters of \<open>p\<close> one by one, each after the last.\<close>

fun stristr_loop :: "cbuf \<Rightarrow> nat \<Rightarrow> cstr \<Rightarrow> cbuf option" where
  "stristr_loop b i [] = Some b"
| "stristr_loop b i (c # p) =
     (case strichr (drop i b) c of None \<Rightarrow> None
      | Some b' \<Rightarrow> stristr_loop (take i b @ b') (Suc i) p)"

definition stristr :: "cbuf \<Rightarrow> cstr \<Rightarrow> cbuf option" where
  "stristr b p = stristr_loop b 0 p"

datatype fmt = FMT_RJUST | FMT_LJUST | FMT_RJUST0 | FMT_CENTER

text \<open>\<open>str_fmt\<close> pads on the left with \<open>strichr\<close>, on the right with \<open>strcat\<close>.\<close>

fun str_fmt :: "cstr \<Rightarrow> int \<Rightarrow> fmt \<Rightarrow> cstr" where
  "str_fmt p w FMT_RJUST = replicate (nat (w - int (length p))) CHR '' '' @ p"
| "str_fmt p w FMT_LJUST = p @ replicate (nat (w - int (length p))) CHR '' ''"
| "str_fmt p w FMT_RJUST0 = replicate (nat (w - int (length p))) CHR ''0'' @ p"
| "str_fmt p w FMT_CENTER =
     (let len = int (length p);
          m = (if w - len \<ge> 0 then (w - len) div 2 else - ((len - w) div 2));
          n = w - (len + m)
      in replicate (nat n) CHR '' '' @ p @ replicate (nat m) CHR '' '')"

section \<open>Facts about comparing and searching\<close>

lemma uchar_pos [simp]: "0 < uchar c \<longleftrightarrow> c \<noteq> NUL"
proof -
  have "uchar NUL = 0" by (simp add: uchar_def)
  then show ?thesis using uchar_inject [of c NUL] by (metis gr0I less_numeral_extra(3))
qed

lemma strcmp_eq_0:
  "wf_cstr s \<Longrightarrow> wf_cstr t \<Longrightarrow> strcmp s t = 0 \<longleftrightarrow> s = t"
  by (induction s t rule: strcmp.induct) auto

lemma strcmp_sym: "strcmp t s = - strcmp s t"
  by (induction s t rule: strcmp.induct) auto

lemma strcmp_lexord:
  "wf_cstr s \<Longrightarrow> wf_cstr t \<Longrightarrow>
   strcmp s t < 0 \<longleftrightarrow> (map uchar s, map uchar t) \<in> lexord {(a, b). a < b}"
  by (induction s t rule: strcmp.induct) auto

lemma strcmp_le_trans:
  assumes wf: "wf_cstr s" "wf_cstr t" "wf_cstr u"
    and st: "strcmp s t \<le> 0" and tu: "strcmp t u \<le> 0"
  shows "strcmp s u \<le> 0"
proof (cases "s = t \<or> t = u")
  case True
  with st tu show ?thesis by auto
next
  case False
  with wf st tu have "strcmp s t < 0" "strcmp t u < 0"
    using strcmp_eq_0 by fastforce+
  then have "strcmp s u < 0"
    using lexord_trans [of "map uchar s" "map uchar t" "{(a, b). a < b}" "map uchar u"] wf
    by (simp add: strcmp_lexord trans_def)
  then show ?thesis by simp
qed

lemma striequ_iff: "wf_cstr s \<Longrightarrow> wf_cstr t \<Longrightarrow> striequ s t \<longleftrightarrow> map toupper s = map toupper t"
  by (induction s t rule: striequ.induct) auto

lemma strbequ_iff: "strbequ s t \<longleftrightarrow> take (length t) s = t"
  by (induction s t rule: strbequ.induct) auto

lemma strempty_iff: "strempty s \<longleftrightarrow> (\<forall>c \<in> set s. isspace c)"
  by (induction s) auto

lemma strchr_None [simp]: "strchr s c = None \<longleftrightarrow> c \<notin> set s"
  by (induction s) auto

lemma strchr_Some:
  "strchr s c = Some k \<longleftrightarrow> k < length s \<and> s ! k = c \<and> c \<notin> set (take k s)"
proof (induction s arbitrary: k)
  case (Cons x s)
  then show ?case by (cases k) auto
qed simp

lemma strchr_split:
  "strchr s c = Some k \<Longrightarrow> s = take k s @ c # drop (Suc k) s \<and> c \<notin> set (take k s)"
  using id_take_nth_drop [of k s] by (auto simp: strchr_Some)

lemma strrchr_from_Some:
  "strrchr_from s c i = Some k \<Longrightarrow> k \<le> i \<and> char_at s k = c \<and> (\<forall>j. k < j \<and> j \<le> i \<longrightarrow> char_at s j \<noteq> c)"
proof (induction i)
  case 0
  then show ?case by (auto simp: strrchr_from.simps [of s c 0] split: if_splits)
next
  case (Suc i)
  then show ?case
    by (auto simp: strrchr_from.simps [of s c "Suc i"] le_Suc_eq split: if_splits)
qed

lemma posn_here_iff: "posn_here p q \<longleftrightarrow> take (length q) p = q"
  by (induction p q rule: posn_here.induct) auto

lemma posn_scan_Some:
  "q \<noteq> [] \<Longrightarrow> posn_scan p q = Some k \<longleftrightarrow>
     take (length q) (drop k p) = q \<and> (\<forall>j < k. take (length q) (drop j p) \<noteq> q)"
proof (induction p arbitrary: k)
  case Nil
  then show ?case by auto
next
  case (Cons x p)
  have here: "x = hd q \<and> posn_here (x # p) q \<longleftrightarrow> take (length q) (x # p) = q"
    using Cons.prems by (cases q) (auto simp: posn_here_iff)
  show ?case
  proof (cases k)
    case 0
    with here Cons.prems show ?thesis by auto
  next
    case (Suc k')
    with here Cons show ?thesis
      by (auto simp: less_Suc_eq_0_disj)
  qed
qed

lemma posn_scan_None:
  "q \<noteq> [] \<Longrightarrow> posn_scan p q = None \<longleftrightarrow> (\<forall>k. take (length q) (drop k p) \<noteq> q)"
proof (induction p)
  case Nil
  then show ?case by auto
next
  case (Cons x p)
  have here: "x = hd q \<and> posn_here (x # p) q \<longleftrightarrow> take (length q) (x # p) = q"
    using Cons.prems by (cases q) (auto simp: posn_here_iff)
  have "(\<forall>k. take (length q) (drop k (x # p)) \<noteq> q) \<longleftrightarrow>
    take (length q) (x # p) \<noteq> q \<and> (\<forall>k. take (length q) (drop k p) \<noteq> q)"
    by (metis drop0 drop_Suc_Cons not0_implies_Suc)
  with here Cons show ?case by auto
qed

lemma getword_Some:
  "getword p = Some (w, r) \<Longrightarrow>
     w \<noteq> [] \<and> (\<forall>c \<in> set w. \<not> isspace c) \<and> length w \<le> length p \<and> length r < length p"
proof -
  let ?p1 = "dropWhile isspace p"
  assume "getword p = Some (w, r)"
  then have ne: "?p1 \<noteq> []" and w: "w = takeWhile (\<lambda>c. \<not> isspace c) ?p1"
    and r: "r = dropWhile (\<lambda>c. \<not> isspace c) ?p1"
    by (auto simp: getword_def Let_def split: if_splits)
  from ne have hd: "\<not> isspace (hd ?p1)" by (rule hd_dropWhile)
  with ne w have "w \<noteq> []" by (cases ?p1) auto
  moreover have "length w + length r = length ?p1"
    unfolding w r by (metis length_append takeWhile_dropWhile_id)
  moreover have "length ?p1 \<le> length p" by (rule length_dropWhile_le)
  moreover have "\<forall>c \<in> set w. \<not> isspace c" unfolding w by (auto dest: set_takeWhileD)
  ultimately show ?thesis by (cases w) auto
qed

lemma wordsz_getword: "getword p = Some (w, r) \<Longrightarrow> wordsz p = length w"
  by (auto simp: getword_def wordsz_def Let_def split: if_splits)

lemma strrpset_loop_Some:
  "strrpset_loop str st i n = Some k \<Longrightarrow> 0 < k \<and> k \<le> i \<and> str ! k \<in> set st \<and> str ! k \<noteq> CHR ''(''
     \<and> str ! k \<noteq> CHR '')''"
  by (induction str st i n rule: strrpset_loop.induct)
    (auto simp: Let_def split: if_splits)

lemma strrpset_Some:
  "strrpset str st = Some k \<Longrightarrow> 0 < k \<and> k < length str \<and> str ! k \<in> set st"
  by (cases str) (auto simp: strrpset_def dest!: strrpset_loop_Some split: if_splits)

lemma strbalp_loop_less: "strbalp_loop b e n p = Some k \<Longrightarrow> k < length p \<and> p ! k = e"
  by (induction b e n p arbitrary: k rule: strbalp_loop.induct) (auto split: if_splits)

lemma strbalp_less: "strbalp p = Some k \<Longrightarrow> k < length p"
  by (auto simp: strbalp_def dest: strbalp_loop_less split: list.splits option.splits)

section \<open>Wildcard matching against its specification\<close>

text \<open>What \<open>*\<close> and \<open>?\<close> mean, with full backtracking.\<close>

fun glob :: "cstr \<Rightarrow> cstr \<Rightarrow> bool" where
  "glob [] s = (s = [])"
| "glob (p # ps) s =
     (if p = CHR ''*'' then \<exists>k \<le> length s. glob ps (drop k s)
      else case s of [] \<Rightarrow> False | c # cs \<Rightarrow> (p = CHR ''?'' \<or> p = c) \<and> glob ps cs)"

abbreviation wild :: "char \<Rightarrow> bool" where
  "wild c \<equiv> c = CHR ''*'' \<or> c = CHR ''?''"

lemma glob_literal:
  "(\<forall>c \<in> set lit. \<not> wild c) \<Longrightarrow>
   glob (lit @ ps) s \<longleftrightarrow> take (length lit) s = lit \<and> glob ps (drop (length lit) s)"
  by (induction lit arbitrary: s) (auto split: list.splits)

lemma glob_snoc:
  "\<not> wild e \<Longrightarrow> glob (ps @ [e]) s \<longleftrightarrow> (\<exists>t. s = t @ [e] \<and> glob ps t)"
proof (induction ps arbitrary: s)
  case Nil
  then show ?case by (auto split: list.splits)
next
  case (Cons p ps)
  show ?case
  proof (cases "p = CHR ''*''")
    case True
    have "(\<exists>k \<le> length s. \<exists>t. drop k s = t @ [e] \<and> glob ps t) \<longleftrightarrow>
      (\<exists>t. s = t @ [e] \<and> (\<exists>k \<le> length t. glob ps (drop k t)))" (is "?L \<longleftrightarrow> ?R")
    proof
      assume ?L
      then obtain k t where "k \<le> length s" "drop k s = t @ [e]" "glob ps t" by blast
      then have "s = (take k s @ t) @ [e]" "glob ps (drop k (take k s @ t))" "k \<le> length (take k s @ t)"
        by (metis append.assoc append_take_drop_id, simp, simp)
      then show ?R by blast
    next
      assume ?R
      then obtain k t where "s = t @ [e]" "k \<le> length t" "glob ps (drop k t)" by blast
      then have "drop k s = drop k t @ [e]" "k \<le> length s" by simp_all
      with \<open>glob ps (drop k t)\<close> show ?L by blast
    qed
    with True Cons show ?thesis by simp
  next
    case False
    show ?thesis
    proof (cases s)
      case Nil
      then show ?thesis using False by simp
    next
      case s: (Cons c cs)
      have "glob ((p # ps) @ [e]) s \<longleftrightarrow> (p = CHR ''?'' \<or> p = c) \<and> (\<exists>t. cs = t @ [e] \<and> glob ps t)"
        using False s Cons by simp
      also have "\<dots> \<longleftrightarrow> (\<exists>t. s = (c # t) @ [e] \<and> glob (p # ps) (c # t))"
        using False s by auto
      also have "\<dots> \<longleftrightarrow> (\<exists>t. s = t @ [e] \<and> glob (p # ps) t)"
        using False s by (auto split: list.splits) (metis append_Cons list.inject neq_Nil_conv append_Nil)+
      finally show ?thesis .
    qed
  qed
qed

lemma anchors_not_wild: "\<not> wild BANCHOR" "\<not> wild EANCHOR"
  by (simp_all add: BANCHOR_def EANCHOR_def)

lemma glob_anchored:
  "glob ([BANCHOR] @ pat @ [EANCHOR]) ([BANCHOR] @ s @ [EANCHOR]) \<longleftrightarrow> glob pat s"
  using glob_snoc [OF anchors_not_wild(2), of pat "s @ [EANCHOR]"] anchors_not_wild
  by simp

lemma takeWhile_lit: "\<forall>c \<in> set (takeWhile (\<lambda>c. c \<noteq> CHR ''*'' \<and> c \<noteq> CHR ''?'') p). \<not> wild c"
  by (auto dest: set_takeWhileD)

lemma strposn_Some_take:
  "strposn p q = Some k \<Longrightarrow> k \<le> length p \<and> take (length q) (drop k p) = q"
proof (cases "q = []")
  case False
  assume "strposn p q = Some k"
  with False have "take (length q) (drop k p) = q"
    by (simp add: strposn_def posn_scan_Some)
  moreover from this False have "k \<le> length p" by (cases "k \<le> length p") auto
  ultimately show ?thesis by simp
qed (simp add: strposn_def)

abbreviation lit :: "cstr \<Rightarrow> cstr" where
  "lit \<equiv> takeWhile (\<lambda>c. c \<noteq> CHR ''*'' \<and> c \<noteq> CHR ''?'')"

lemma strpat_loop_star:
  "p \<noteq> [] \<Longrightarrow> strpat_loop p (CHR ''*'' # ys) =
     (case strposn p (lit ys) of None \<Rightarrow> False
      | Some k \<Rightarrow> strpat_loop (drop (k + length (lit ys)) p) (drop (length (lit ys)) ys))"
  by (simp add: strpat_loop.simps [of p "CHR ''*'' # ys"] Let_def cong: option.case_cong)

lemma strpat_loop_char:
  "y \<noteq> CHR ''*'' \<Longrightarrow> strpat_loop (x # xs) (y # ys) = ((y = CHR ''?'' \<or> y = x) \<and> strpat_loop xs ys)"
  by (simp add: strpat_loop.simps [of "x # xs" "y # ys"])

lemma strpat_loop_end:
  "p = [] \<or> pat = [] \<Longrightarrow> strpat_loop p pat = (p = [] \<and> (pat = [] \<or> pat = ''*''))"
  by (auto simp: strpat_loop.simps [of p pat])

lemma lit_split: "lit ys @ drop (length (lit ys)) ys = ys"
  using takeWhile_dropWhile_id [of "\<lambda>c. c \<noteq> CHR ''*'' \<and> c \<noteq> CHR ''?''" ys]
  by (simp add: dropWhile_eq_drop)

lemma glob_lit:
  "glob ys s \<longleftrightarrow> take (length (lit ys)) s = lit ys \<and> glob (drop (length (lit ys)) ys) (drop (length (lit ys)) s)"
  using glob_literal [OF takeWhile_lit, of ys "drop (length (lit ys)) ys" s] by (simp add: lit_split)

lemma strpat_loop_sound: "strpat_loop p pat \<Longrightarrow> glob pat p"
proof (induction p pat rule: strpat_loop.induct)
  case (1 p pat)
  consider "p = [] \<or> pat = []" | ys where "p \<noteq> []" "pat = CHR ''*'' # ys"
    | x xs y ys where "p = x # xs" "pat = y # ys" "y \<noteq> CHR ''*''"
    by (metis neq_Nil_conv)
  then show ?case
  proof cases
    case 1
    with "1.prems" show ?thesis by (auto simp: strpat_loop_end)
  next
    case 2
    with "1.prems" obtain k where k: "strposn p (lit ys) = Some k"
      and rec: "strpat_loop (drop (k + length (lit ys)) p) (drop (length (lit ys)) ys)"
      by (auto simp: strpat_loop_star split: option.splits)
    have "glob (drop (length (lit ys)) ys) (drop (k + length (lit ys)) p)"
      using "1.IH"(1) 2 k rec by simp
    moreover note strposn_Some_take [OF k]
    ultimately have "glob ys (drop k p)" "k \<le> length p"
      using glob_lit [of ys "drop k p"] by (simp_all add: add.commute)
    with 2 show ?thesis by auto
  next
    case 3
    with "1.prems" have "y = CHR ''?'' \<or> y = x" "strpat_loop xs ys"
      by (simp_all add: strpat_loop_char)
    moreover have "glob ys xs" using "1.IH"(2) 3 calculation by auto
    ultimately show ?thesis using 3 by auto
  qed
qed

text \<open>
  The matcher takes the leftmost occurrence of the literal after a star and never
  reconsiders it, so it is complete only when no \<open>?\<close> and no second \<open>*\<close> follows a star.
\<close>

fun simple_tail :: "bool \<Rightarrow> cstr \<Rightarrow> bool" where
  "simple_tail star [] = True"
| "simple_tail star (c # pat) =
     (if c = CHR ''*'' then (case pat of [] \<Rightarrow> True | d # _ \<Rightarrow> d \<noteq> CHR ''*'') \<and> simple_tail True pat
      else if c = CHR ''?'' then \<not> star \<and> simple_tail star pat
      else simple_tail star pat)"

lemma glob_star_drop:
  "glob (CHR ''*'' # ps) (drop k s) \<Longrightarrow> glob (CHR ''*'' # ps) s"
proof -
  assume "glob (CHR ''*'' # ps) (drop k s)"
  then obtain j where "j \<le> length (drop k s)" "glob ps (drop (j + k) s)" by auto
  moreover have "drop (j + k) s = drop (min (j + k) (length s)) s" by (simp add: min_def)
  ultimately have "glob ps (drop (min (j + k) (length s)) s)" by simp
  then show ?thesis by (auto intro: exI [of _ "min (j + k) (length s)"])
qed


lemma strposn_least:
  assumes "q \<noteq> []" and "take (length q) (drop k p) = q"
  shows "\<exists>j \<le> k. strposn p q = Some j"
proof (cases "strposn p q")
  case None
  with assms show ?thesis by (auto simp: strposn_def posn_scan_None)
next
  case (Some j)
  with assms have "\<not> k < j" by (auto simp: strposn_def posn_scan_Some)
  with Some show ?thesis by (auto simp: not_less)
qed

text \<open>What a star leaves to match after its literal: a further star, or nothing.\<close>

lemma simple_tail_star_rest:
  "simple_tail True ys \<Longrightarrow>
     drop (length (lit ys)) ys = [] \<or> (\<exists>zs. drop (length (lit ys)) ys = CHR ''*'' # zs)"
  by (induction ys) auto

lemma simple_tail_drop_lit: "simple_tail b ys \<Longrightarrow> simple_tail b (drop (length (lit ys)) ys)"
  by (induction ys) auto

lemma anchored_end_unique:
  assumes "take (length q) (drop j s) = q" and "q \<noteq> []" and "last q = e"
    and "s = t @ [e]" and "e \<notin> set t"
  shows "j + length q = length s"
proof -
  have len: "j + length q \<le> length s"
    using assms(1,2) by (metis append_take_drop_id drop_eq_Nil length_append length_drop linorder_not_le
        take_Nil le_diff_conv2 length_take min.absorb_iff2 add.commute less_imp_le)
  have "s ! (j + length q - 1) = e"
  proof -
    have "q ! (length q - 1) = e" using assms(2,3) by (simp add: last_conv_nth)
    then have "take (length q) (drop j s) ! (length q - 1) = e" using assms(1) by simp
    with assms(2) len show ?thesis by (cases q) simp_all
  qed
  then have "\<not> j + length q - 1 < length t"
    using assms(4,5) by (auto simp: nth_append dest: nth_mem)
  with len assms(2,4) show ?thesis by (cases q) auto
qed


definition anchored :: "cstr \<Rightarrow> bool" where
  "anchored s \<longleftrightarrow> s = [] \<or> (\<exists>t. s = t @ [EANCHOR] \<and> EANCHOR \<notin> set t)"

lemma anchored_drop: "anchored s \<Longrightarrow> anchored (drop n s)"
proof (cases "n < length s")
  case True
  assume "anchored s"
  with True obtain t where "s = t @ [EANCHOR]" "EANCHOR \<notin> set t" by (auto simp: anchored_def)
  then show ?thesis using True by (auto simp: anchored_def dest: in_set_dropD)
qed (simp add: anchored_def)

lemma strpat_loop_complete:
  assumes "anchored p" "anchored pat" "simple_tail b pat" "glob pat p"
  shows "strpat_loop p pat"
  using assms
proof (induction p pat arbitrary: b rule: strpat_loop.induct)
  case (1 p pat)
  consider "p = [] \<or> pat = []" | ys where "p \<noteq> []" "pat = CHR ''*'' # ys"
    | x xs y ys where "p = x # xs" "pat = y # ys" "y \<noteq> CHR ''*''"
    by (metis neq_Nil_conv)
  then show ?case
  proof cases
    case 1
    from "1.prems"(2) consider "pat = []" | t where "pat = t @ [EANCHOR]"
      by (auto simp: anchored_def)
    then show ?thesis
    proof cases
      case 1
      with "1.prems"(4) show ?thesis by (simp add: strpat_loop_end)
    next
      case 2
      with "1.prems"(4) have "p \<noteq> []" using glob_snoc [OF anchors_not_wild(2)] by auto
      with 1 2 show ?thesis by simp
    qed
  next
    case 2
    from "1.prems"(4) 2 obtain k where k: "k \<le> length p" "glob ys (drop k p)" by auto
    from "1.prems"(2) 2 have "ys \<noteq> []" "last ys = EANCHOR"
      by (auto simp: anchored_def Cons_eq_append_conv EANCHOR_def)
    with "1.prems"(3) 2 have lit: "lit ys \<noteq> []" "simple_tail True ys" by (cases ys; auto)+
    from k(2) have at: "take (length (lit ys)) (drop k p) = lit ys"
      and rest: "glob (drop (length (lit ys)) ys) (drop (length (lit ys) + k) p)"
      unfolding glob_lit [of ys] by simp_all
    from strposn_least [OF lit(1) at] obtain j where j: "j \<le> k" "strposn p (lit ys) = Some j"
      by blast
    from "1.prems"(1) 2 obtain t where t: "p = t @ [EANCHOR]" "EANCHOR \<notin> set t"
      by (auto simp: anchored_def)
    let ?R = "drop (length (lit ys)) ys" and ?P = "drop (j + length (lit ys)) p"
    have "glob ?R ?P"
    proof (cases "?R = []")
      case True
      then have ys: "lit ys = ys" using lit_split [of ys] by simp
      have "last (lit ys) = EANCHOR" unfolding ys by fact
      moreover from strposn_Some_take [OF j(2)] have "take (length (lit ys)) (drop j p) = lit ys" by simp
      ultimately have "j + length (lit ys) = length p"
        using anchored_end_unique [OF _ lit(1) _ t, of j] by blast
      with True show ?thesis by simp
    next
      case False
      then obtain zs where zs: "?R = CHR ''*'' # zs" using simple_tail_star_rest [OF lit(2)] by blast
      have "drop (length (lit ys) + k) p = drop (k - j) ?P" using j(1) by (simp add: add.commute)
      with rest zs have "glob (CHR ''*'' # zs) (drop (k - j) ?P)" by (simp only:)
      then have "glob (CHR ''*'' # zs) ?P" by (rule glob_star_drop)
      with zs show ?thesis by (simp only:)
    qed
    moreover have "anchored ?R" "anchored ?P"
      using anchored_drop [OF "1.prems"(2), of "Suc (length (lit ys))"] anchored_drop [OF "1.prems"(1)] 2
      by simp_all
    moreover have "simple_tail True ?R" using simple_tail_drop_lit [OF lit(2)] .
    ultimately have "strpat_loop ?P ?R"
      using "1.IH"(1) [of "lit ys" j True] 2 j(2) by simp
    with 2 j(2) show ?thesis by (simp add: strpat_loop_star)
  next
    case 3
    with "1.prems"(4) have "y = CHR ''?'' \<or> y = x" "glob ys xs" by auto
    moreover have "anchored ys" "anchored xs"
      using anchored_drop [OF "1.prems"(2), of 1] anchored_drop [OF "1.prems"(1), of 1] 3 by simp_all
    moreover have "simple_tail b ys" using "1.prems"(3) 3 by (auto split: if_splits)
    ultimately show ?thesis using "1.IH"(2) [of b] 3 by (simp add: strpat_loop_char)
  qed
qed

lemma simple_tail_snoc_anchor:
  "simple_tail b (pat @ [EANCHOR]) = simple_tail b pat"
  by (induction b pat rule: simple_tail.induct) (auto simp: EANCHOR_def split: list.splits)

lemma strpat_sound: "strpat s pat \<Longrightarrow> glob pat s"
  unfolding strpat_def using strpat_loop_sound glob_anchored by blast

lemma strpat_complete:
  assumes "EANCHOR \<notin> set s" "EANCHOR \<notin> set pat" "simple_tail False pat" "glob pat s"
  shows "strpat s pat"
proof -
  let ?s = "[BANCHOR] @ s @ [EANCHOR]" and ?p = "[BANCHOR] @ pat @ [EANCHOR]"
  have ne: "BANCHOR \<noteq> EANCHOR" by (simp add: BANCHOR_def EANCHOR_def)
  have "anchored ([BANCHOR] @ s @ [EANCHOR])" "anchored ([BANCHOR] @ pat @ [EANCHOR])"
    using assms(1,2) ne
    by (auto simp: anchored_def intro!: exI [of _ "BANCHOR # s"] exI [of _ "BANCHOR # pat"])
  moreover have "simple_tail False ?p"
    using assms(3) anchors_not_wild by (simp add: simple_tail_snoc_anchor)
  moreover have "glob ?p ?s" using assms(4) glob_anchored by blast
  ultimately show ?thesis unfolding strpat_def by (rule strpat_loop_complete)
qed

section \<open>Buffer operations as list operations\<close>

lemma strcpy_loop_eq:
  "i + length s < length d \<Longrightarrow>
   strcpy_loop d i s = Some (take i d @ s @ [NUL] @ drop (Suc (i + length s)) d)"
proof (induction d i s rule: strcpy_loop.induct)
  case (1 d i)
  then show ?case by (simp add: upd_conv_take_nth_drop)
next
  case (2 d i c s)
  then show ?case
    by (simp add: take_Suc_conv_app_nth)
qed

lemma strcpy_loop_None: "length d \<le> i + length s \<Longrightarrow> strcpy_loop d i s = None"
  by (induction d i s rule: strcpy_loop.induct) auto

lemma strcpy_eq:
  "strcpy d (Some s) =
     (if length s < length d then Some (s @ [NUL] @ drop (Suc (length s)) d) else None)"
proof (cases "length s < length d")
  case True
  then have "d \<noteq> []" by auto
  then have "strcpy d (Some s) = strcpy_loop (d[0 := NUL]) 0 s" by (simp add: strcpy_def Let_def)
  also have "\<dots> = Some (s @ [NUL] @ drop (Suc (length s)) d)"
    using strcpy_loop_eq [of 0 s "d[0 := NUL]"] True by simp
  finally show ?thesis using True by simp
next
  case False
  then show ?thesis by (auto simp: strcpy_def Let_def strcpy_loop_None)
qed

lemma strcat_eq:
  "strcat d s =
     (if length (cstr_of d) + length s < length d
      then Some (cstr_of d @ s @ [NUL] @ drop (Suc (length (cstr_of d) + length s)) d) else None)"
proof -
  have "take (length (cstr_of d)) d = cstr_of d"
    by (metis cstr_of_def takeWhile_eq_take)
  then show ?thesis
    using strcpy_loop_eq [of "length (cstr_of d)" s d] strcpy_loop_None [of d "length (cstr_of d)" s]
    by (auto simp: strcat_def)
qed

lemma strncpy_loop_eq:
  "i + n \<le> length d \<Longrightarrow>
   strncpy_loop d i s n =
     Some (take i d @ take n s @ replicate (n - length s) NUL @ drop (i + n) d)"
proof (induction d i s n rule: strncpy_loop.induct)
  case (2 d i n)
  then show ?case by (simp add: take_Suc_conv_app_nth)
next
  case (3 d i c s n)
  then show ?case by (simp add: take_Suc_conv_app_nth)
qed simp

lemma strncpy_eq:
  "n \<le> length d \<Longrightarrow>
   strncpy d s n = Some (take n s @ replicate (n - length s) NUL @ drop n d)"
  using strncpy_loop_eq [of 0 n d s] by (simp add: strncpy_def)

lemma strdchr_loop_eq:
  "wf_cstr s \<Longrightarrow>
   strdchr_loop (l @ s @ NUL # r) (length l) =
     Some (l @ (if s = [] then [] else tl s @ [NUL]) @ NUL # r)"
proof (induction s arbitrary: l)
  case Nil
  then show ?case by (simp add: strdchr_loop.simps [of "l @ NUL # r"])
next
  case (Cons c s)
  let ?x = "hd (s @ [NUL])"
  have "strdchr_loop (l @ (c # s) @ NUL # r) (length l)
    = strdchr_loop ((l @ [?x]) @ s @ NUL # r) (length (l @ [?x]))"
    using Cons.prems by (cases s) (auto simp: strdchr_loop.simps [of "l @ c # _"] nth_append)
  also have "\<dots> = Some ((l @ [?x]) @ (if s = [] then [] else tl s @ [NUL]) @ NUL # r)"
    using Cons.prems by (intro Cons.IH) simp
  finally show ?case by (cases s) auto
qed

lemma strdchr_eq:
  assumes "wf_cstr s"
  shows "strdchr (s @ NUL # r) = Some (if s = [] then NUL # r else tl s @ NUL # NUL # r)"
  using strdchr_loop_eq [OF assms, of "[]" r] by (simp add: strdchr_def)

lemma strichr_shift_eq:
  "Suc t < length b \<Longrightarrow>
   strichr_shift b t = b ! 0 # take (Suc t) b @ drop (Suc (Suc t)) b"
proof (induction b t rule: strichr_shift.induct)
  case (1 b)
  then show ?case by (cases b) (auto simp: upd_conv_take_nth_drop)
next
  case (2 b t)
  have "strichr_shift b (Suc t) =
    b ! 0 # take (Suc t) b @ drop (Suc (Suc t)) (b[Suc (Suc t) := b ! Suc t])"
    using 2 by (simp add: nth_list_update)
  also have "drop (Suc (Suc t)) (b[Suc (Suc t) := b ! Suc t]) = b ! Suc t # drop (Suc (Suc (Suc t))) b"
    using 2(2) by (simp add: upd_conv_take_nth_drop)
  finally show ?case using 2(2) by (simp add: take_Suc_conv_app_nth)
qed

lemma strichr_eq:
  assumes "wf_cstr s" and "r \<noteq> []"
  shows "strichr (s @ NUL # r) c = Some (c # s @ NUL # tl r)"
proof -
  have len: "length (cstr_of (s @ NUL # r)) = length s"
    using assms(1) by (simp add: cstr_of_append_NUL)
  have "strichr_shift (s @ NUL # r) (length s) = (s @ NUL # r) ! 0 # (s @ [NUL]) @ tl r"
    using assms(2) by (subst strichr_shift_eq) (auto simp: take_Suc_conv_app_nth nth_append neq_Nil_conv)
  with len assms(2) show ?thesis by (simp add: strichr_def Let_def neq_Nil_conv)
qed

lemma strichr_None: "wf_cstr s \<Longrightarrow> strichr (s @ [NUL]) c = None"
  by (simp add: strichr_def Let_def cstr_of_append_NUL)

section \<open>Properties\<close>

text \<open>The wildcard matcher accepts only strings that the pattern describes, and accepts all
  of them when the pattern has no question mark and no second star after a star (the matcher
  never goes back to a later occurrence) and neither text contains the anchor characters.\<close>
theorem strpat_glob:
  assumes "EANCHOR \<notin> set s" "EANCHOR \<notin> set pat"
  shows "(strpat s pat \<longrightarrow> glob pat s) \<and> (simple_tail False pat \<longrightarrow> strpat s pat = glob pat s)"
  using strpat_sound strpat_complete [OF assms] by blast

theorem strpat_glob_witness: "glob ''in*se'' ''inbase'' \<and> \<not> glob ''in*sa'' ''inbase''"
proof -
  have a: "EANCHOR \<notin> set ''inbase''" "EANCHOR \<notin> set ''in*se''" "EANCHOR \<notin> set ''in*sa''"
    by (simp_all add: EANCHOR_def)
  have "strpat ''inbase'' ''in*se''" "\<not> strpat ''inbase'' ''in*sa''" "simple_tail False ''in*sa''" by code_simp+
  then show ?thesis using strpat_glob [OF a(1,2)] strpat_glob [OF a(1,3)] by simp
qed

text \<open>Deleting and inserting a character in place, the copy loops of \<open>strdchr\<close> and \<open>strichr\<close>,
  are the list operations on the string in the buffer; the terminating \<open>NUL\<close> moves with the
  text, nothing behind it is changed by a deletion, and an insertion needs one free byte.\<close>
theorem edit_in_place:
  assumes "wf_cstr s" "r \<noteq> []"
  shows "strdchr (s @ NUL # r) = Some (if s = [] then NUL # r else tl s @ NUL # NUL # r) \<and>
    strichr (s @ NUL # r) c = Some (c # s @ NUL # tl r) \<and> strichr (s @ [NUL]) c = None"
  using strdchr_eq [OF assms(1)] strichr_eq [OF assms] strichr_None [OF assms(1)] by simp

theorem edit_in_place_witness:
  "strdchr (''bc'' @ NUL # ''zz'') = Some (''c'' @ NUL # NUL # ''zz'') \<and>
   strichr (''bc'' @ NUL # ''zz'') CHR ''a'' = Some (''abc'' @ NUL # ''z'')"
  using edit_in_place [of "''bc''" "''zz''" "CHR ''a''"] by (simp add: wf_cstr_def)

end
