(* ===== verification/Number.thy ===== *)
theory Number
  imports CString
begin

text \<open>
  Numbers and text, \<^verbatim>\<open>lib/libc/atob.c\<close>: the parser behind every number typed at the
  prompt (\<open>atob\<close>, \<open>llatob\<close>), the printers \<open>btoa\<close> and \<open>llbtoa\<close>, and the fixed-width
  hexadecimal reader \<open>gethex\<close> of the S-record loader. A function that answers 0 or 1 and
  writes \<open>*vp\<close> becomes a pair of the answer and the new \<open>*vp\<close>, or an option where \<open>*vp\<close> is
  left alone on failure.
\<close>

section \<open>Parsing\<close>

definition digit_val :: "char \<Rightarrow> int option" where
  "digit_val c =
     (if uchar CHR ''0'' \<le> uchar c \<and> uchar c \<le> uchar CHR ''9'' then Some (int (uchar c) - 48)
      else if uchar CHR ''a'' \<le> uchar c \<and> uchar c \<le> uchar CHR ''f'' then Some (int (uchar c) - 97 + 10)
      else if uchar CHR ''A'' \<le> uchar c \<and> uchar c \<le> uchar CHR ''F'' then Some (int (uchar c) - 65 + 10)
      else None)"

definition getbase :: "cstr \<Rightarrow> cstr \<times> int" where
  "getbase p =
     (if char_at p 0 = CHR ''0'' then
        (let c = char_at p 1
         in if c = CHR ''x'' then (drop 2 p, 16)
            else if c = CHR ''t'' \<or> c = CHR ''n'' then (drop 2 p, 10)
            else if c = CHR ''o'' then (drop 2 p, 8)
            else (p, 10))
      else (p, 10))"

text \<open>The digit loop of \<open>_atob\<close>, on the 64-bit \<open>value\<close>.\<close>

fun atob_digits :: "int \<Rightarrow> cstr \<Rightarrow> u64 \<Rightarrow> u64 option" where
  "atob_digits base [] value = Some value"
| "atob_digits base (c # p) value =
     (case digit_val c of None \<Rightarrow> None
      | Some digit \<Rightarrow>
          if digit \<ge> base then None
          else atob_digits base p (value * of_int base + of_int digit))"

definition skip_0x :: "cstr \<Rightarrow> int \<Rightarrow> cstr \<times> int" where
  "skip_0x p base =
     (if char_at p 0 = CHR ''0'' \<and> (char_at p 1 = CHR ''x'' \<or> char_at p 1 = CHR ''X'')
      then (drop 2 p, 16) else (p, base))"

lemma skip_0x_length: "length (fst (skip_0x p base)) \<le> length p"
  by (simp add: skip_0x_def)

text \<open>
  \<open>_atob\<close>. In base 16 the text \<open>hi.lo\<close> is read as two numbers, the first shifted by 16.
  The first component is the answer, the second what \<open>*vp\<close> holds afterwards.
\<close>

function atob_num :: "u64 \<Rightarrow> cstr \<Rightarrow> int \<Rightarrow> bool \<times> u64" where
  "atob_num vp p0 base0 =
     (let (p, base) = skip_0x p0 base0
      in case (if base = 16 then strchr p CHR ''.'' else None) of
           Some k \<Rightarrow>
             (if k > 19 then (False, vp)
              else (let (ok1, v1) = atob_num 0 (take k p) 16
                    in if \<not> ok1 then (False, vp)
                       else (let q = drop (Suc k) p
                             in if strchr q CHR ''.'' \<noteq> None then (False, vp)
                                else (let (ok2, v2) = atob_num 0 q 16
                                      in if \<not> ok2 then (False, vp)
                                         else (True, push_bit 16 v1 + v2)))))
         | None \<Rightarrow>
             (case atob_digits base p 0 of
                None \<Rightarrow> (False, 0)
              | Some value \<Rightarrow> (True, value)))"
  by pat_completeness auto
termination
proof (relation "measure (\<lambda>(vp, p, base). length p)", goal_cases)
  case (2 vp p0 base0 x p base k)
  from 2(1,2) have "length p \<le> length p0" using skip_0x_length [of p0 base0] by (metis fst_conv)
  moreover from 2 have "k < length p" by (auto simp: strchr_Some split: if_splits)
  ultimately show ?case by simp
next
  case (3 vp p0 base0 x p base k)
  from 3(1,2) have "length p \<le> length p0" using skip_0x_length [of p0 base0] by (metis fst_conv)
  moreover from 3 have "k < length p" by (auto simp: strchr_Some split: if_splits)
  ultimately show ?case using 3 by simp
qed simp

declare atob_num.simps [simp del]

text \<open>\<open>atob\<close> stores the low 32 bits, and leaves \<open>*vp\<close> alone when it fails.\<close>

definition atob :: "cstr \<Rightarrow> int \<Rightarrow> u32 option" where
  "atob p base =
     (let (p', base') = (if base = 0 then getbase p else (p, base));
          (ok, v) = atob_num 0 p' base'
      in if ok then Some (ucast v) else None)"

definition llatob :: "u64 \<Rightarrow> cstr \<Rightarrow> int \<Rightarrow> bool \<times> u64" where
  "llatob vp p base =
     (let (p', base') = (if base = 0 then getbase p else (p, base))
      in atob_num vp p' base')"

fun gethex_loop :: "u32 \<Rightarrow> cstr \<Rightarrow> nat \<Rightarrow> u32 option" where
  "gethex_loop v p 0 = Some v"
| "gethex_loop v [] (Suc n) = None"
| "gethex_loop v (c # p) (Suc n) =
     (case digit_val c of None \<Rightarrow> None
      | Some digit \<Rightarrow> gethex_loop (push_bit 4 v OR of_int digit) p n)"

definition gethex :: "cstr \<Rightarrow> int \<Rightarrow> u32 option" where
  "gethex p n = gethex_loop 0 p (nat n)"

section \<open>Printing\<close>

definition digit_char :: "nat \<Rightarrow> char option" where
  "digit_char rem =
     (if rem \<le> 9 then Some (char_of (rem + 48))
      else if rem \<le> 36 then Some (char_of (rem - 10 + 97))
      else None)"

text \<open>
  The digit loop, least significant digit first. \<open>None\<close> stands for the calls that have no
  result in C: a base of 0 (division by zero) or 1 (no end), and a digit past 36, for which
  the code stores an uninitialised character.
\<close>

function btoa_digits :: "'a::len word \<Rightarrow> 'a word \<Rightarrow> cstr option" where
  "btoa_digits value base =
     (if value = 0 then Some []
      else if unat base \<le> 1 then None
      else case digit_char (unat (value mod base)) of
             None \<Rightarrow> None
           | Some d \<Rightarrow> map_option ((#) d) (btoa_digits (value div base) base))"
  by pat_completeness auto
termination
proof (relation "measure (\<lambda>(value, base). unat value)", goal_cases)
  case (2 v base d)
  then have "0 < unat v" "1 < unat base" by (simp_all add: unat_gt_0)
  then show ?case by (simp add: unat_div)
qed simp

declare btoa_digits.simps [simp del]

text \<open>
  \<open>btoa\<close> and \<open>llbtoa\<close>: base \<open>-10\<close> asks for a signed decimal number. The text is built
  backwards, sign last, and then reversed.
\<close>

definition btoa_word :: "'a::len word \<Rightarrow> int \<Rightarrow> cstr option" where
  "btoa_word value base =
     (if value = 0 then Some ''0''
      else (let signed = (base = -10);
                neg = (signed \<and> bit value (LENGTH('a) - 1));
                base' = (if signed then 10 else of_int base);
                value' = (if neg then NOT value + 1 else value)
            in case btoa_digits value' base' of
                 None \<Rightarrow> None
               | Some buf \<Rightarrow> Some (rev (if neg then buf @ ''-'' else buf))))"

definition btoa :: "u32 \<Rightarrow> int \<Rightarrow> cstr option" where
  "btoa value base = btoa_word value base"

definition llbtoa :: "u64 \<Rightarrow> int \<Rightarrow> cstr option" where
  "llbtoa value base = btoa_word value base"

section \<open>Reference semantics of digit strings\<close>

fun horner :: "nat \<Rightarrow> cstr \<Rightarrow> nat \<Rightarrow> nat option" where
  "horner b [] v = Some v"
| "horner b (c # p) v =
     (case digit_val c of None \<Rightarrow> None
      | Some d \<Rightarrow> if int b \<le> d then None else horner b p (v * b + nat d))"

fun nat_digits :: "nat \<Rightarrow> nat \<Rightarrow> cstr" where
  "nat_digits b v =
     (if v = 0 \<or> b < 2 then [] else nat_digits b (v div b) @ [the (digit_char (v mod b))])"

declare nat_digits.simps [simp del]

lemma digit_val_bounds: "digit_val c = Some d \<Longrightarrow> 0 \<le> d \<and> d < 16"
  by (auto simp: digit_val_def uchar_def split: if_splits)

lemma digit_val_digit_char:
  "n < 16 \<Longrightarrow> digit_char n = Some c \<Longrightarrow> digit_val c = Some (int n)"
  by (auto simp: digit_val_def digit_char_def uchar_def split: if_splits)

lemma digit_char_some: "n < 16 \<Longrightarrow> \<exists>c. digit_char n = Some c"
  by (simp add: digit_char_def)

lemma atob_digits_horner:
  "atob_digits (int b) p (of_nat v) = map_option of_nat (horner b p v)"
proof (induction p arbitrary: v)
  case (Cons c p)
  show ?case
  proof (cases "digit_val c")
    case (Some d)
    then have "of_int d = (of_nat (nat d) :: u64)" using digit_val_bounds [OF Some] by simp
    with Some Cons [of "v * b + nat d"] show ?thesis by simp
  qed simp
qed simp

lemma horner_append:
  "horner b (p @ q) v = (case horner b p v of None \<Rightarrow> None | Some w \<Rightarrow> horner b q w)"
  by (induction b p v rule: horner.induct) (auto split: option.splits)

lemma horner_nat_digits:
  assumes "2 \<le> b" "b \<le> 16"
  shows "horner b (nat_digits b v) 0 = Some v"
proof (induction v rule: less_induct)
  case (less v)
  show ?case
  proof (cases "v = 0")
    case True
    then show ?thesis by (simp add: nat_digits.simps)
  next
    case False
    have m: "v mod b < 16" "v mod b < b"
      using assms by (auto intro: less_le_trans [of _ b])
    then obtain c where c: "digit_char (v mod b) = Some c" using digit_char_some by blast
    have "horner b (nat_digits b (v div b)) 0 = Some (v div b)"
      using less False assms by simp
    then show ?thesis
      using False assms c m digit_val_digit_char [OF m(1) c]
      by (simp add: nat_digits.simps [of b v] horner_append not_le)
  qed
qed

lemma btoa_digits_nat_digits:
  fixes w base :: "'a::len word"
  assumes "2 \<le> unat base" "unat base \<le> 16"
  shows "btoa_digits w base = Some (rev (nat_digits (unat base) (unat w)))"
  using assms
proof (induction w base rule: btoa_digits.induct)
  case (1 v b)
  show ?case
  proof (cases "v = 0")
    case True
    then show ?thesis by (simp add: btoa_digits.simps nat_digits.simps)
  next
    case False
    have m: "unat (v mod b) < 16" "unat (v mod b) = unat v mod unat b"
      using 1(2,3) by (auto simp: unat_mod intro: less_le_trans [of _ "unat b"])
    then obtain c where c: "digit_char (unat (v mod b)) = Some c" using digit_char_some by blast
    have "btoa_digits (v div b) b = Some (rev (nat_digits (unat b) (unat v div unat b)))"
      using 1(1) [OF False _ c] 1(2,3) by (simp add: unat_div)
    then show ?thesis
      using False 1(2,3) c m
      by (simp add: btoa_digits.simps [of v b] nat_digits.simps [of "unat b" "unat v"] unat_eq_0)
  qed
qed

lemma nat_digits_chars:
  "2 \<le> b \<Longrightarrow> b \<le> 16 \<Longrightarrow> c \<in> set (nat_digits b v) \<Longrightarrow> \<exists>d. digit_val c = Some d"
proof (induction b v rule: nat_digits.induct)
  case (1 b v)
  have m: "v mod b < 16" using 1(2,3) by (auto intro: less_le_trans [of _ b])
  then obtain x where "digit_char (v mod b) = Some x" using digit_char_some by blast
  with 1 digit_val_digit_char [OF m this] show ?case
    by (auto simp: nat_digits.simps [of b v] split: if_splits)
qed

lemma not_digits [simp]:
  "digit_val CHR ''x'' = None" "digit_val CHR ''X'' = None" "digit_val CHR ''.'' = None"
  by (simp_all add: digit_val_def uchar_def)

lemma char_at_mem: "char_at s i \<in> insert NUL (set s)"
  by (simp add: char_at_def)

lemma skip_0x_plain:
  "CHR ''x'' \<notin> set p \<Longrightarrow> CHR ''X'' \<notin> set p \<Longrightarrow> skip_0x p b = (p, b)"
  using char_at_mem [of p 1] by (auto simp: skip_0x_def)

text \<open>On plain digit strings \<open>_atob\<close> is the digit loop.\<close>

lemma atob_num_plain:
  assumes "\<forall>c \<in> set p. digit_val c \<noteq> None" and "2 \<le> b" "b \<le> 16"
  shows "atob_num vp p (int b) =
    (case horner b p 0 of None \<Rightarrow> (False, 0) | Some v \<Rightarrow> (True, of_nat v))"
proof -
  have no: "c \<notin> set p" if "digit_val c = None" for c using assms(1) that by auto
  have "skip_0x p (int b) = (p, int b)" by (rule skip_0x_plain) (simp_all add: no)
  moreover have "(if int b = 16 then strchr p CHR ''.'' else None) = None" by (simp add: no)
  ultimately have "atob_num vp p (int b) =
    (case atob_digits (int b) p 0 of None \<Rightarrow> (False, 0) | Some value \<Rightarrow> (True, value))"
    by (subst atob_num.simps) (simp only: Let_def prod.case option.case)
  then show ?thesis using atob_digits_horner [of b p 0] by (simp split: option.splits)
qed

lemma atob_num_btoa_word:
  fixes w :: "'a::len word"
  assumes "2 \<le> b" "b \<le> 16" "LENGTH('a) \<le> 64" "LENGTH('a) > 4" "btoa_word w (int b) = Some s"
  shows "atob_num vp s (int b) = (True, of_nat (unat w))"
proof (cases "w = 0")
  case True
  with assms show ?thesis
    using atob_num_plain [of "''0''" b vp] by (auto simp: btoa_word_def digit_val_def uchar_def)
next
  case False
  have "(16::nat) < 2 ^ LENGTH('a)"
    using assms(4) power_strict_increasing [of 4 "LENGTH('a)" "2::nat"] by simp
  with assms(1,2) have ub: "unat (of_nat b :: 'a word) = b"
    by (simp add: unat_of_nat_less)
  have "int b \<noteq> -10" by simp
  with False assms(5) have s: "s = nat_digits b (unat w)"
    using btoa_digits_nat_digits [of "of_nat b" w] ub assms(1,2)
    by (auto simp: btoa_word_def Let_def split: option.splits)
  have "horner b s 0 = Some (unat w)"
    unfolding s by (rule horner_nat_digits) (use assms in auto)
  moreover have "\<forall>c \<in> set s. digit_val c \<noteq> None"
    unfolding s using nat_digits_chars [OF assms(1,2)] by auto
  ultimately show ?thesis using assms(1,2) by (simp add: atob_num_plain)
qed

section \<open>Fixed-width hexadecimal\<close>

lemma nibble_or:
  fixes v :: "'a::len word"
  assumes "0 \<le> d" "d < 16"
  shows "push_bit 4 v OR of_int d = push_bit 4 v + of_int d"
proof (rule disjunctive_add [symmetric])
  fix n
  show "\<not> bit (push_bit 4 v) n \<or> \<not> bit (of_int d :: 'a word) n"
  proof (cases "n < 4")
    case True
    then show ?thesis by (simp add: bit_push_bit_iff)
  next
    case False
    then have "(2::int) ^ 4 \<le> 2 ^ n" by (intro power_increasing) auto
    with assms have "d div 2 ^ n = 0" by (intro div_pos_pos_trivial) auto
    then have "\<not> bit d n" by (simp add: bit_iff_odd)
    then show ?thesis by (simp add: bit_word_of_int_iff)
  qed
qed

lemma unat_nibble:
  fixes v :: u32
  assumes "unat v * 16 + nat d < 2 ^ 32" "0 \<le> d" "d < 16"
  shows "unat (push_bit 4 v OR of_int d) = unat v * 16 + nat d"
proof -
  have d: "(of_int d :: u32) = of_nat (nat d)" using assms(2) by simp
  have "push_bit 4 v OR of_int d = (of_nat (unat v * 16 + nat d) :: u32)"
    using nibble_or [OF assms(2,3), of v] unfolding d by (simp add: push_bit_eq_mult mult.commute)
  moreover have "unat (of_nat (unat v * 16 + nat d) :: u32) = unat v * 16 + nat d"
    using assms(1) by (intro unat_of_nat_less) simp
  ultimately show ?thesis by (simp only:)
qed

lemma gethex_loop_value:
  assumes "unat v < 16 ^ k" "k + n \<le> 8" "gethex_loop v p n = Some w"
  shows "unat w < 16 ^ (k + n) \<and> horner 16 (take n p) (unat v) = Some (unat w) \<and> n \<le> length p"
  using assms
proof (induction v p n arbitrary: k rule: gethex_loop.induct)
  case (3 v c p n)
  then obtain d where d: "digit_val c = Some d"
    and rec: "gethex_loop (push_bit 4 v OR of_int d) p n = Some w"
    by (auto split: option.splits)
  note b = digit_val_bounds [OF d]
  then have nd: "nat d < 16" by auto
  have "(16::nat) ^ Suc k \<le> 16 ^ 8" using 3(3) by (intro power_increasing) auto
  moreover have lt: "unat v * 16 + nat d < 16 ^ Suc k" using 3(2) nd by (simp only: power_Suc)
  ultimately have eq: "unat (push_bit 4 v OR of_int d) = unat v * 16 + nat d"
    using b by (intro unat_nibble) auto
  show ?case using 3(1) [OF d _ _ rec, of "Suc k"] 3(3) lt eq d b by simp
qed auto

lemma gethex_value:
  "gethex p (int n) = Some w \<Longrightarrow> n \<le> 8 \<Longrightarrow>
     unat w < 16 ^ n \<and> horner 16 (take n p) 0 = Some (unat w) \<and> n \<le> length p"
  using gethex_loop_value [of 0 0 n p w] by (simp add: gethex_def)

section \<open>Properties\<close>

lemma ucast_of_nat_u64_u32: "(ucast (of_nat n :: u64) :: u32) = of_nat n"
  by (simp add: unsigned_of_nat word_of_nat_eq_iff)

lemma ucast_ucast_u32_u64: "(ucast (ucast (v :: u32) :: u64) :: u32) = v"
  by (rule bit_word_eqI) (simp add: bit_ucast_iff)

text \<open>Reading a digit string: \<open>atob\<close> answers the number the digits denote modulo
  \<open>2\<^sup>3\<^sup>2\<close>, and fails exactly when some digit is not below the base.\<close>

theorem atob_value:
  assumes "2 \<le> b" "b \<le> 16" "\<forall>c \<in> set p. digit_val c \<noteq> None"
  shows "atob p (int b) = map_option of_nat (horner b p 0)"
  using assms
  by (auto simp: atob_def atob_num_plain ucast_of_nat_u64_u32 split: option.splits)

theorem atob_value_witness:
  "atob ''ffffffff1'' 16 = Some 0xfffffff1 \<and> atob ''1f'' 10 = None"
  using atob_value [of 16 "''ffffffff1''"] atob_value [of 10 "''1f''"]
  by (simp add: digit_val_def uchar_def)

text \<open>Printing a 32-bit or 64-bit number in any base from 2 to 16 and reading the text
  back gives the number.\<close>

theorem btoa_roundtrip:
  assumes "2 \<le> b" "b \<le> 16"
  shows "(\<exists>s. btoa v (int b) = Some s \<and> atob s (int b) = Some v)
    \<and> (\<exists>t. llbtoa w (int b) = Some t \<and> llatob vp t (int b) = (True, w))"
proof -
  have ex: "\<exists>s. btoa_word x (int b) = Some s" if "LENGTH('a) > 4" for x :: "'a::len word"
  proof -
    have "(16::nat) < 2 ^ LENGTH('a)"
      using that power_strict_increasing [of 4 "LENGTH('a)" "2::nat"] by simp
    with assms have "unat (of_nat b :: 'a word) = b" by (simp add: unat_of_nat_less)
    then show ?thesis
      using btoa_digits_nat_digits [of "of_nat b" x] assms by (simp add: btoa_word_def Let_def)
  qed
  obtain s where s: "btoa v (int b) = Some s" using ex [of v] by (auto simp: btoa_def)
  obtain t where t: "llbtoa w (int b) = Some t" using ex [of w] by (auto simp: llbtoa_def)
  have "atob_num vp s (int b) = (True, of_nat (unat v))" for vp
    using atob_num_btoa_word [OF assms, of v s] s by (simp add: btoa_def)
  moreover have "atob_num vp t (int b) = (True, w)"
    using atob_num_btoa_word [OF assms, of w t] t by (simp add: llbtoa_def)
  ultimately show ?thesis
    using s t assms by (simp add: atob_def llatob_def ucast_ucast_u32_u64)
qed

theorem btoa_roundtrip_witness:
  "\<exists>s. btoa 0xbfc00000 16 = Some s \<and> atob s 16 = Some 0xbfc00000"
  using btoa_roundtrip [of 16 "0xbfc00000"] by simp

end
