(* ===== verification/Crc.thy ===== *)
theory Crc
  imports Prelude
begin

text \<open>
  The checksums of the serial loaders and of stored images: the table-driven CRC-16 of
  \<^verbatim>\<open>pmon/cmds/crc16.c\<close>, the bitwise CRC-16 of \<^verbatim>\<open>pmon/cmds/xmodem.c\<close> and the
  nibble-table CRC-32 of \<^verbatim>\<open>lib/libc/crc32.c\<close>. The lemmas show that the two CRC-16
  routines agree, that the CRC-32 table step is four bitwise steps, and that a block
  followed by its own checksum verifies.
\<close>

section \<open>Table-driven CRC-16\<close>

definition crc16_tab :: "u16 list" where
  "crc16_tab =
    [0x0000, 0x1021, 0x2042, 0x3063, 0x4084, 0x50a5, 0x60c6, 0x70e7,
     0x8108, 0x9129, 0xa14a, 0xb16b, 0xc18c, 0xd1ad, 0xe1ce, 0xf1ef,
     0x1231, 0x0210, 0x3273, 0x2252, 0x52b5, 0x4294, 0x72f7, 0x62d6,
     0x9339, 0x8318, 0xb37b, 0xa35a, 0xd3bd, 0xc39c, 0xf3ff, 0xe3de,
     0x2462, 0x3443, 0x0420, 0x1401, 0x64e6, 0x74c7, 0x44a4, 0x5485,
     0xa56a, 0xb54b, 0x8528, 0x9509, 0xe5ee, 0xf5cf, 0xc5ac, 0xd58d,
     0x3653, 0x2672, 0x1611, 0x0630, 0x76d7, 0x66f6, 0x5695, 0x46b4,
     0xb75b, 0xa77a, 0x9719, 0x8738, 0xf7df, 0xe7fe, 0xd79d, 0xc7bc,
     0x48c4, 0x58e5, 0x6886, 0x78a7, 0x0840, 0x1861, 0x2802, 0x3823,
     0xc9cc, 0xd9ed, 0xe98e, 0xf9af, 0x8948, 0x9969, 0xa90a, 0xb92b,
     0x5af5, 0x4ad4, 0x7ab7, 0x6a96, 0x1a71, 0x0a50, 0x3a33, 0x2a12,
     0xdbfd, 0xcbdc, 0xfbbf, 0xeb9e, 0x9b79, 0x8b58, 0xbb3b, 0xab1a,
     0x6ca6, 0x7c87, 0x4ce4, 0x5cc5, 0x2c22, 0x3c03, 0x0c60, 0x1c41,
     0xedae, 0xfd8f, 0xcdec, 0xddcd, 0xad2a, 0xbd0b, 0x8d68, 0x9d49,
     0x7e97, 0x6eb6, 0x5ed5, 0x4ef4, 0x3e13, 0x2e32, 0x1e51, 0x0e70,
     0xff9f, 0xefbe, 0xdfdd, 0xcffc, 0xbf1b, 0xaf3a, 0x9f59, 0x8f78,
     0x9188, 0x81a9, 0xb1ca, 0xa1eb, 0xd10c, 0xc12d, 0xf14e, 0xe16f,
     0x1080, 0x00a1, 0x30c2, 0x20e3, 0x5004, 0x4025, 0x7046, 0x6067,
     0x83b9, 0x9398, 0xa3fb, 0xb3da, 0xc33d, 0xd31c, 0xe37f, 0xf35e,
     0x02b1, 0x1290, 0x22f3, 0x32d2, 0x4235, 0x5214, 0x6277, 0x7256,
     0xb5ea, 0xa5cb, 0x95a8, 0x8589, 0xf56e, 0xe54f, 0xd52c, 0xc50d,
     0x34e2, 0x24c3, 0x14a0, 0x0481, 0x7466, 0x6447, 0x5424, 0x4405,
     0xa7db, 0xb7fa, 0x8799, 0x97b8, 0xe75f, 0xf77e, 0xc71d, 0xd73c,
     0x26d3, 0x36f2, 0x0691, 0x16b0, 0x6657, 0x7676, 0x4615, 0x5634,
     0xd94c, 0xc96d, 0xf90e, 0xe92f, 0x99c8, 0x89e9, 0xb98a, 0xa9ab,
     0x5844, 0x4865, 0x7806, 0x6827, 0x18c0, 0x08e1, 0x3882, 0x28a3,
     0xcb7d, 0xdb5c, 0xeb3f, 0xfb1e, 0x8bf9, 0x9bd8, 0xabbb, 0xbb9a,
     0x4a75, 0x5a54, 0x6a37, 0x7a16, 0x0af1, 0x1ad0, 0x2ab3, 0x3a92,
     0xfd2e, 0xed0f, 0xdd6c, 0xcd4d, 0xbdaa, 0xad8b, 0x9de8, 0x8dc9,
     0x7c26, 0x6c07, 0x5c64, 0x4c45, 0x3ca2, 0x2c83, 0x1ce0, 0x0cc1,
     0xef1f, 0xff3e, 0xcf5d, 0xdf7c, 0xaf9b, 0xbfba, 0x8fd9, 0x9ff8,
     0x6e17, 0x7e36, 0x4e55, 0x5e74, 0x2e93, 0x3eb2, 0x0ed1, 0x1ef0]"

definition crc16_step :: "u16 \<Rightarrow> u8 \<Rightarrow> u16" where
  "crc16_step cksum b =
     crc16_tab ! unat ((drop_bit 8 cksum XOR ucast b) AND 0xFF) XOR push_bit 8 cksum"

fun crc16_loop :: "u16 \<Rightarrow> u8 list \<Rightarrow> u16" where
  "crc16_loop cksum [] = cksum"
| "crc16_loop cksum (b # buf) = crc16_loop (crc16_step cksum b) buf"

definition cyg_crc16 :: "u8 list \<Rightarrow> u16" where
  "cyg_crc16 buf = crc16_loop 0 buf"

section \<open>Bitwise CRC-16\<close>

text \<open>One turn of the \<open>for\<close> loop of \<open>_crc_xmodem_update\<close>.\<close>

definition crc16_bit :: "u16 \<Rightarrow> u16" where
  "crc16_bit crc =
     (if crc AND 0x8000 \<noteq> 0 then push_bit 1 crc XOR 0x1021 else push_bit 1 crc)"

fun crc16_bits :: "nat \<Rightarrow> u16 \<Rightarrow> u16" where
  "crc16_bits 0 crc = crc"
| "crc16_bits (Suc n) crc = crc16_bits n (crc16_bit crc)"

definition crc_xmodem_update :: "u16 \<Rightarrow> u8 \<Rightarrow> u16" where
  "crc_xmodem_update crc data = crc16_bits 8 (crc XOR push_bit 8 (ucast data))"

text \<open>\<open>calcrc\<close> keeps the 16-bit result in an \<open>unsigned int\<close>.\<close>

fun calcrc_loop :: "u32 \<Rightarrow> u8 list \<Rightarrow> u32" where
  "calcrc_loop crc [] = crc"
| "calcrc_loop crc (b # p) = calcrc_loop (ucast (crc_xmodem_update (ucast crc) b)) p"

definition calcrc :: "u8 list \<Rightarrow> u32" where
  "calcrc p = calcrc_loop 0 p"

section \<open>CRC-32\<close>

definition crctab :: "u32 list" where
  "crctab =
    [0x00000000, 0x1db71064, 0x3b6e20c8, 0x26d930ac,
     0x76dc4190, 0x6b6b51f4, 0x4db26158, 0x5005713c,
     0xedb88320, 0xf00f9344, 0xd6d6a3e8, 0xcb61b38c,
     0x9b64c2b0, 0x86d3d2d4, 0xa00ae278, 0xbdbdf21c]"

definition crc32_nibble :: "u32 \<Rightarrow> u32" where
  "crc32_nibble crc = drop_bit 4 crc XOR crctab ! unat (crc AND 0xf)"

fun crc32_loop :: "u32 \<Rightarrow> u8 list \<Rightarrow> u32" where
  "crc32_loop crc [] = crc"
| "crc32_loop crc (b # p) = crc32_loop (crc32_nibble (crc32_nibble (crc XOR ucast b))) p"

definition crc32_generate_seg :: "u8 list \<Rightarrow> u32 \<Rightarrow> u32" where
  "crc32_generate_seg data crc = (if length data < 1 then - 1 else crc32_loop crc data)"

definition crc32_generate :: "u8 list \<Rightarrow> u32" where
  "crc32_generate data = crc32_generate_seg data 0xffffffff"

text \<open>The last four bytes are the checksum, low byte first.\<close>

definition le32 :: "u8 \<Rightarrow> u8 \<Rightarrow> u8 \<Rightarrow> u8 \<Rightarrow> u32" where
  "le32 b0 b1 b2 b3 =
     ucast b0 OR push_bit 8 (ucast b1) OR push_bit 16 (ucast b2) OR push_bit 24 (ucast b3)"

definition crc32_check :: "u8 list \<Rightarrow> u32" where
  "crc32_check data =
     (if length data < 5 then - 1
      else (let n = length data - 4; p = drop n data
            in crc32_generate (take n data) XOR le32 (p ! 0) (p ! 1) (p ! 2) (p ! 3)))"

section \<open>The table against the shift register\<close>

lemma crc16_bit_alt: "crc16_bit crc = push_bit 1 crc XOR (if bit crc 15 then 0x1021 else 0)"
proof -
  have "(crc AND 0x8000 \<noteq> 0) = bit crc 15"
    using and_exp_eq_0_iff_not_bit [of crc 15] by simp
  then show ?thesis by (simp add: crc16_bit_def)
qed

lemma crc16_bit_xor: "crc16_bit (x XOR y) = crc16_bit x XOR crc16_bit y"
proof -
  have p: "push_bit 1 (x XOR y) = push_bit 1 x XOR push_bit 1 y" by (rule push_bit_xor)
  show ?thesis
    by (simp only: crc16_bit_alt p bit_xor_iff) (simp add: ac_simps split: if_splits)
qed

lemma crc16_bits_xor: "crc16_bits n (x XOR y) = crc16_bits n x XOR crc16_bits n y"
  by (induction n arbitrary: x y) (auto simp: crc16_bit_xor)

lemma crc16_bits_low:
  "\<forall>k. 16 - n \<le> k \<longrightarrow> \<not> bit y k \<Longrightarrow> n \<le> 16 \<Longrightarrow> crc16_bits n y = push_bit n y"
proof (induction n arbitrary: y)
  case (Suc n)
  define z where "z = push_bit 1 y"
  from Suc.prems have "\<not> bit y 15" by auto
  then have y: "crc16_bit y = z" by (simp add: crc16_bit_alt z_def)
  have bz: "bit z k = (1 \<le> k \<and> k < 16 \<and> bit y (k - 1))" for k
    by (simp only: z_def bit_push_bit_iff) (auto dest: bit_imp_le_length)
  have "\<not> bit z k" if "16 - n \<le> k" for k
    using Suc.prems(1)[rule_format, of "k - 1"] that Suc.prems(2) by (auto simp: bz)
  then have "crc16_bits n z = push_bit n z"
    using Suc.IH[of z] Suc.prems(2) by auto
  also have "push_bit n z = push_bit (Suc n) y" by (simp only: z_def push_bit_push_bit) simp
  finally show ?case using y by simp
qed simp

fun crc16_rows :: "u16 \<Rightarrow> u16 list \<Rightarrow> bool" where
  "crc16_rows h [] = True"
| "crc16_rows h (t # ts) = (crc16_bits 8 h = t \<and> crc16_rows (h + 0x100) ts)"

lemma crc16_rows_nth: "crc16_rows h ts \<Longrightarrow> k < length ts \<Longrightarrow> ts ! k = crc16_bits 8 (h + of_nat k * 0x100)"
  by (induction ts arbitrary: h k) (auto simp: nth_Cons algebra_simps split: nat.splits)

lemma crc16_bits_8:
  "crc16_bits 8 h = crc16_bit (crc16_bit (crc16_bit (crc16_bit
     (crc16_bit (crc16_bit (crc16_bit (crc16_bit h)))))))"
  by (simp add: eval_nat_numeral)

lemma crc16_rows_tab: "crc16_rows 0 crc16_tab"
  unfolding crc16_tab_def crc16_rows.simps crc16_bits_8
  by (simp add: crc16_bit_def)

lemma crc16_tab_nth: "k < 256 \<Longrightarrow> crc16_tab ! k = crc16_bits 8 (push_bit 8 (of_nat k))"
  using crc16_rows_nth [OF crc16_rows_tab, of k]
  by (simp add: crc16_tab_def push_bit_eq_mult mult.commute)

lemma word16_split: "(v :: u16) = push_bit 8 (drop_bit 8 v) XOR (v AND 0xFF)"
proof (rule bit_word_eqI)
  fix n assume "n < LENGTH(16)"
  have m: "(0xFF :: u16) = mask 8" by (simp add: mask_eq_exp_minus_1)
  show "bit v n = bit (push_bit 8 (drop_bit 8 v) XOR (v AND 0xFF)) n"
    unfolding m by (auto simp: bit_xor_iff bit_push_bit_iff bit_drop_bit_eq bit_and_iff bit_mask_iff
      dest: bit_imp_le_length)
qed

lemma high_byte: "drop_bit 8 (x :: u16) XOR ucast (b :: u8) = drop_bit 8 (x XOR push_bit 8 (ucast b))"
proof (rule bit_word_eqI)
  fix n assume "n < LENGTH(16)"
  then show "bit (drop_bit 8 x XOR ucast b) n = bit (drop_bit 8 (x XOR push_bit 8 (ucast b))) n"
    by (auto simp: bit_xor_iff bit_push_bit_iff bit_drop_bit_eq bit_ucast_iff
      dest: bit_imp_le_length)
qed

lemma drop_8_and: "drop_bit 8 (x :: u16) AND 0xFF = drop_bit 8 x"
proof (rule bit_word_eqI)
  fix n assume "n < LENGTH(16)"
  have m: "(0xFF :: u16) = mask 8" by (simp add: mask_eq_exp_minus_1)
  show "bit (drop_bit 8 x AND 0xFF) n = bit (drop_bit 8 x) n"
    unfolding m by (auto simp: bit_drop_bit_eq bit_and_iff bit_mask_iff dest: bit_imp_le_length)
qed

lemma push_and_low: "push_bit 8 (x :: u16) = push_bit 8 (x AND 0xFF)"
proof (rule bit_word_eqI)
  fix n assume "n < LENGTH(16)"
  have m: "(0xFF :: u16) = mask 8" by (simp add: mask_eq_exp_minus_1)
  show "bit (push_bit 8 x) n = bit (push_bit 8 (x AND 0xFF)) n"
    unfolding m by (auto simp: bit_push_bit_iff bit_and_iff bit_mask_iff dest: bit_imp_le_length)
qed

lemma drop_8_less: "unat (drop_bit 8 (x :: u16)) < 256"
proof -
  have "unat x < 65536" using unsigned_less [of x, where ?'a = nat] by simp
  then show ?thesis by (simp add: drop_bit_eq_div unat_div)
qed

lemma crc_xmodem_update_step: "crc_xmodem_update crc data = crc16_step crc data"
proof -
  define v where "v = crc XOR push_bit 8 (ucast data :: u16)"
  have k: "unat ((drop_bit 8 crc XOR ucast data) AND 0xFF) = unat (drop_bit 8 v)"
    by (simp only: high_byte drop_8_and v_def)
  have low: "v AND 0xFF = crc AND 0xFF"
  proof (rule bit_word_eqI)
    fix n assume "n < LENGTH(16)"
    have m: "(0xFF :: u16) = mask 8" by (simp add: mask_eq_exp_minus_1)
    show "bit (v AND 0xFF) n = bit (crc AND 0xFF) n"
      unfolding v_def m by (auto simp: bit_xor_iff bit_push_bit_iff bit_and_iff bit_mask_iff)
  qed
  have "crc16_bits 8 v = crc16_bits 8 (push_bit 8 (drop_bit 8 v)) XOR crc16_bits 8 (v AND 0xFF)"
    by (subst word16_split [of v]) (rule crc16_bits_xor)
  also have "crc16_bits 8 (push_bit 8 (drop_bit 8 v)) = crc16_tab ! unat (drop_bit 8 v)"
    using drop_8_less [of v] by (simp add: crc16_tab_nth)
  also have "crc16_bits 8 (v AND 0xFF) = push_bit 8 (v AND 0xFF)"
  proof (rule crc16_bits_low)
    have m: "(0xFF :: u16) = mask 8" by (simp add: mask_eq_exp_minus_1)
    show "\<forall>k. 16 - 8 \<le> k \<longrightarrow> \<not> bit (v AND 0xFF) k"
      unfolding m by (auto simp: bit_and_iff bit_mask_iff)
  qed simp
  also have "push_bit 8 (v AND 0xFF) = push_bit 8 crc"
    by (simp only: low push_and_low [symmetric])
  finally show ?thesis
    by (simp only: crc_xmodem_update_def crc16_step_def k v_def)
qed

lemma ucast_u16_u32_u16: "(ucast (ucast (c :: u16) :: u32) :: u16) = c"
  by (rule bit_word_eqI) (auto simp: bit_ucast_iff dest: bit_imp_le_length)

lemma calcrc_loop_eq: "calcrc_loop (ucast c) p = ucast (crc16_loop c p)"
  by (induction p arbitrary: c)
    (simp_all only: calcrc_loop.simps crc16_loop.simps ucast_u16_u32_u16 crc_xmodem_update_step)

text \<open>The bitwise CRC-16 of the XMODEM receiver and the table-driven CRC-16 of the block
  commands compute the same checksum of every buffer, although one shifts a register and
  the other looks up the high byte.\<close>
theorem calcrc_cyg_crc16: "calcrc p = ucast (cyg_crc16 p)"
  using calcrc_loop_eq [of 0 p] by (simp add: calcrc_def cyg_crc16_def)

lemma crc16_loop_append: "crc16_loop c (a @ b) = crc16_loop (crc16_loop c a) b"
  by (induction a arbitrary: c) auto

definition hi8 :: "u16 \<Rightarrow> u8" where "hi8 w = ucast (drop_bit 8 w)"
definition lo8 :: "u16 \<Rightarrow> u8" where "lo8 w = ucast w"

lemma crc16_bits_0: "crc16_bits n 0 = 0"
  by (induction n) (auto simp: crc16_bit_def)

lemma crc16_step_hi: "crc16_step c (hi8 c) = push_bit 8 c"
proof -
  have "drop_bit 8 c XOR ucast (hi8 c) = 0"
  proof (rule bit_word_eqI)
    fix n assume "n < LENGTH(16)"
    then show "bit (drop_bit 8 c XOR ucast (hi8 c)) n = bit 0 n"
      by (auto simp: bit_xor_iff hi8_def bit_drop_bit_eq bit_ucast_iff dest: bit_imp_le_length)
  qed
  then show ?thesis using crc16_tab_nth [of 0] by (simp add: crc16_step_def crc16_bits_0)
qed

lemma crc16_step_lo: "crc16_step (push_bit 8 c) (lo8 c) = 0"
proof -
  have "drop_bit 8 (push_bit 8 c) XOR ucast (lo8 c) = 0"
  proof (rule bit_word_eqI)
    fix n assume "n < LENGTH(16)"
    then show "bit (drop_bit 8 (push_bit 8 c) XOR ucast (lo8 c)) n = bit 0 n"
      by (auto simp: bit_xor_iff lo8_def bit_drop_bit_eq bit_push_bit_iff bit_ucast_iff
        dest: bit_imp_le_length)
  qed
  moreover have "push_bit 8 (push_bit 8 c) = 0"
    by (rule bit_word_eqI) (auto simp: bit_push_bit_iff dest: bit_imp_le_length)
  ultimately show ?thesis using crc16_tab_nth [of 0] by (simp add: crc16_step_def crc16_bits_0)
qed

text \<open>A buffer followed by its own CRC-16, high byte first as the XMODEM sender transmits
  it, has the checksum 0, so a receiver that runs over the two checksum bytes accepts.\<close>
theorem crc16_self_check: "cyg_crc16 (p @ [hi8 (cyg_crc16 p), lo8 (cyg_crc16 p)]) = 0"
  by (simp add: cyg_crc16_def crc16_loop_append crc16_step_hi crc16_step_lo)

section \<open>A corrupted byte changes the CRC-16\<close>

lemma crc16_bit_inj: "crc16_bit x = crc16_bit y \<Longrightarrow> x = y"
proof (rule bit_word_eqI)
  fix n assume eq: "crc16_bit x = crc16_bit y" and n: "n < LENGTH(16)"
  define p where "p = (0x1021 :: u16)"
  have b: "bit (crc16_bit z) k = (((1 \<le> k \<and> k < 16 \<and> bit z (k - 1)) \<noteq> (bit z 15 \<and> bit p k)))" for z k
    by (simp only: crc16_bit_alt bit_xor_iff bit_push_bit_iff p_def)
      (auto dest: bit_imp_le_length)
  have "bit p 0" by (simp add: p_def bit_0)
  then have "bit x 15 = bit y 15" using arg_cong [OF eq, of "\<lambda>z. bit z 0"] by (simp only: b) simp
  moreover have "bit (crc16_bit x) (Suc n) = bit (crc16_bit y) (Suc n)" using eq by simp
  ultimately show "bit x n = bit y n"
    using n by (cases "n = 15") (auto simp only: b, auto)
qed

lemma crc16_bits_inj: "crc16_bits n x = crc16_bits n y \<Longrightarrow> x = y"
  by (induction n arbitrary: x y) (auto dest: crc16_bit_inj)

lemma xor_left_inj: "(a XOR b = a XOR c) = (b = (c :: 'a::len word))"
proof
  assume "a XOR b = a XOR c"
  then have "a XOR (a XOR b) = a XOR (a XOR c)" by simp
  then show "b = c" by (simp add: xor.assoc [symmetric])
qed simp

lemma xor_right_inj: "(b XOR a = c XOR a) = (b = (c :: 'a::len word))"
  using xor_left_inj [of a b c] by (simp add: xor.commute)

lemma push_ucast_inj: "(push_bit 8 (ucast (a :: u8)) :: u16) = push_bit 8 (ucast b) \<Longrightarrow> a = b"
proof (rule bit_word_eqI)
  fix n assume "(push_bit 8 (ucast a) :: u16) = push_bit 8 (ucast b)" and n: "n < LENGTH(8)"
  then have "bit (push_bit 8 (ucast a) :: u16) (n + 8) = bit (push_bit 8 (ucast b) :: u16) (n + 8)"
    by simp
  then show "bit a n = bit b n" using n by (simp add: bit_push_bit_iff bit_ucast_iff)
qed

lemma crc16_step_inj_crc: "crc16_step c b = crc16_step c' b \<Longrightarrow> c = c'"
  unfolding crc_xmodem_update_step [symmetric] crc_xmodem_update_def
  by (drule crc16_bits_inj) (simp only: xor_right_inj)

lemma crc16_step_inj_byte: "crc16_step c b = crc16_step c b' \<Longrightarrow> b = b'"
  unfolding crc_xmodem_update_step [symmetric] crc_xmodem_update_def
  by (drule crc16_bits_inj) (auto simp only: xor_left_inj dest: push_ucast_inj)

lemma crc16_loop_inj: "crc16_loop c p = crc16_loop c' p \<Longrightarrow> c = c'"
  by (induction p arbitrary: c c') (auto dest: crc16_step_inj_crc)

text \<open>Changing one byte of a block, wherever it stands, changes its CRC-16: no
  single-byte corruption of a received block passes the check.\<close>
theorem cyg_crc16_one_byte: "b \<noteq> b' \<Longrightarrow> cyg_crc16 (p @ b # q) \<noteq> cyg_crc16 (p @ b' # q)"
  by (auto simp: cyg_crc16_def crc16_loop_append dest!: crc16_loop_inj crc16_step_inj_byte)

theorem cyg_crc16_one_byte_witness: "cyg_crc16 ([1] @ 2 # [3]) \<noteq> cyg_crc16 ([1] @ 4 # [3])"
  by (rule cyg_crc16_one_byte) simp

section \<open>The CRC-32 table against the reflected shift register\<close>

definition crc32_bit :: "u32 \<Rightarrow> u32" where
  "crc32_bit c = drop_bit 1 c XOR (if bit c 0 then 0xedb88320 else 0)"

lemma crc32_bit_xor: "crc32_bit (x XOR y) = crc32_bit x XOR crc32_bit y"
proof -
  have p: "drop_bit 1 (x XOR y) = drop_bit 1 x XOR drop_bit 1 y" by (rule drop_bit_xor)
  show ?thesis
    by (simp only: crc32_bit_def p bit_xor_iff) (simp add: ac_simps split: if_splits)
qed

lemma crc32_bit_even: "\<not> bit z 0 \<Longrightarrow> crc32_bit z = drop_bit 1 z"
  by (simp add: crc32_bit_def)

fun crc32_tab_ok :: "u32 \<Rightarrow> u32 list \<Rightarrow> bool" where
  "crc32_tab_ok h [] = True"
| "crc32_tab_ok h (t # ts) =
     (crc32_bit (crc32_bit (crc32_bit (crc32_bit h))) = t \<and> crc32_tab_ok (h + 1) ts)"

lemma crc32_tab_nth:
  "crc32_tab_ok h ts \<Longrightarrow> k < length ts \<Longrightarrow>
   ts ! k = crc32_bit (crc32_bit (crc32_bit (crc32_bit (h + of_nat k))))"
  by (induction ts arbitrary: h k) (auto simp: nth_Cons algebra_simps split: nat.splits)

lemma crc32_tab: "crc32_tab_ok 0 crctab"
  unfolding crctab_def crc32_tab_ok.simps by (simp add: crc32_bit_def bit_0)

lemma crc32_nibble_bits: "crc32_nibble c = crc32_bit (crc32_bit (crc32_bit (crc32_bit c)))"
proof -
  define h where "h = push_bit 4 (drop_bit 4 c)"
  define l where "l = c AND 0xf"
  have m: "(0xf :: u32) = mask 4" by (simp add: mask_eq_exp_minus_1)
  have bh: "bit h k = (4 \<le> k \<and> bit c k)" for k
    by (auto simp: h_def bit_push_bit_iff bit_drop_bit_eq dest: bit_imp_le_length)
  have c: "c = h XOR l"
    by (rule bit_word_eqI) (auto simp: bit_xor_iff bh l_def m bit_and_iff bit_mask_iff)
  have hb: "crc32_bit (crc32_bit (crc32_bit (crc32_bit h))) = drop_bit 4 c"
    (is "?L = _")
  proof -
    have d: "\<not> bit (drop_bit k h) 0" if "k < 4" for k
      using that by (simp only: bit_drop_bit_eq comp_def bh) simp
    have s: "crc32_bit (drop_bit k h) = drop_bit (Suc k) h" if "k < 4" for k
      using crc32_bit_even [OF d [OF that]] by (simp only: drop_bit_drop_bit plus_1_eq_Suc)
    have "?L = drop_bit 4 h"
      using s [of 0] s [of 1] s [of 2] s [of 3] by (simp add: numeral_eq_Suc)
    also have "\<dots> = drop_bit 4 c"
      by (rule bit_word_eqI) (auto simp: bit_drop_bit_eq bh)
    finally show ?thesis .
  qed
  have lt: "unat l < 16"
    using take_bit_nat_less_exp [of 4 "unat c"]
    by (simp add: l_def m take_bit_eq_mask [symmetric] unsigned_take_bit_eq)
  then have "crctab ! unat l = crc32_bit (crc32_bit (crc32_bit (crc32_bit l)))"
    using crc32_tab_nth [OF crc32_tab, of "unat l"] by (simp add: crctab_def)
  then show ?thesis
    by (subst (2) c) (simp add: crc32_bit_xor hb crc32_nibble_def l_def)
qed

section \<open>A stored CRC-32 verifies, a corrupted byte does not\<close>

definition byte_at :: "nat \<Rightarrow> u32 \<Rightarrow> u8" where "byte_at k w = ucast (drop_bit (8 * k) w)"

lemma le32_bytes: "le32 (byte_at 0 w) (byte_at 1 w) (byte_at 2 w) (byte_at 3 w) = w"
proof (rule bit_word_eqI)
  fix n assume n: "n < LENGTH(32)"
  then consider "n < 8" | "8 \<le> n" "n < 16" | "16 \<le> n" "n < 24" | "24 \<le> n" "n < 32"
    by fastforce
  then show "bit (le32 (byte_at 0 w) (byte_at 1 w) (byte_at 2 w) (byte_at 3 w)) n = bit w n"
    by cases (auto simp: le32_def byte_at_def bit_or_iff bit_push_bit_iff bit_ucast_iff bit_drop_bit_eq
      not_le dest: bit_imp_le_length split: if_splits)
qed

lemma xor_eq_0_iff_eq: "(a XOR b = 0) = (b = (a :: 'a::len word))"
  using xor_left_inj [of a b a] by auto

text \<open>An image of at least one byte followed by its CRC-32, low byte first, passes
  \<open>crc32_check\<close>, which answers 0 exactly when the stored checksum is the computed one.\<close>
theorem crc32_check_stored:
  "1 \<le> length img \<Longrightarrow>
   crc32_check (img @ [b0, b1, b2, b3]) = 0 \<longleftrightarrow> le32 b0 b1 b2 b3 = crc32_generate img"
  by (auto simp: crc32_check_def Let_def nth_append xor_eq_0_iff_eq)

theorem crc32_check_stored_witness:
  "crc32_check ([7] @ map (\<lambda>k. byte_at k (crc32_generate [7])) [0, 1, 2, 3]) = 0"
  using crc32_check_stored [of "[7]" "byte_at 0 (crc32_generate [7])"
    "byte_at 1 (crc32_generate [7])" "byte_at 2 (crc32_generate [7])" "byte_at 3 (crc32_generate [7])"]
    le32_bytes [of "crc32_generate [7]"]
  by simp

lemma crc32_bit_inj: "crc32_bit x = crc32_bit y \<Longrightarrow> x = y"
proof (rule bit_word_eqI)
  fix n assume eq: "crc32_bit x = crc32_bit y" and n: "n < LENGTH(32)"
  define p where "p = (0xedb88320 :: u32)"
  have b: "bit (crc32_bit z) k = (bit z (Suc k) \<noteq> (bit z 0 \<and> bit p k))" for z k
    by (simp only: crc32_bit_def bit_xor_iff bit_drop_bit_eq p_def comp_def) auto
  have "bit p 31" by (simp add: p_def)
  moreover have "\<not> bit z 32" for z :: u32 using bit_imp_le_length [of z 32] by auto
  ultimately have 0: "bit x 0 = bit y 0"
    using arg_cong [OF eq, of "\<lambda>z. bit z 31"] by (simp only: b) simp
  show "bit x n = bit y n"
  proof (cases n)
    case (Suc k)
    with 0 show ?thesis using arg_cong [OF eq, of "\<lambda>z. bit z k"] by (auto simp only: b)
  qed (simp add: 0)
qed

lemma crc32_nibble_inj: "crc32_nibble x = crc32_nibble y \<Longrightarrow> x = y"
  by (auto simp only: crc32_nibble_bits dest!: crc32_bit_inj)

lemma crc32_loop_append: "crc32_loop c (a @ b) = crc32_loop (crc32_loop c a) b"
  by (induction a arbitrary: c) auto

lemma crc32_loop_inj: "crc32_loop c p = crc32_loop c' p \<Longrightarrow> c = c'"
  by (induction p arbitrary: c c')
    (simp, metis crc32_loop.simps(2) crc32_nibble_inj xor_right_inj)

lemma ucast_u8_u32_inj: "(ucast (a :: u8) :: u32) = ucast b \<Longrightarrow> a = b"
proof (rule bit_word_eqI)
  fix n assume eq: "(ucast a :: u32) = ucast b" and n: "n < LENGTH(8)"
  show "bit a n = bit b n"
    using arg_cong [OF eq, of "\<lambda>w. bit w n"] n by (simp add: bit_ucast_iff)
qed

text \<open>The CRC-32 of an image changes when one byte of it changes, so flashed or stored
  images with a single corrupted byte never verify against the old checksum.\<close>
theorem crc32_generate_one_byte:
  "b \<noteq> b' \<Longrightarrow> crc32_generate (p @ b # q) \<noteq> crc32_generate (p @ b' # q)"
  by (auto simp: crc32_generate_def crc32_generate_seg_def crc32_loop_append
      dest!: crc32_loop_inj crc32_nibble_inj)
    (auto simp: xor_left_inj dest: ucast_u8_u32_inj)

theorem crc32_generate_one_byte_witness:
  "crc32_generate ([1] @ 2 # [3]) \<noteq> crc32_generate ([1] @ 4 # [3])"
  by (rule crc32_generate_one_byte) simp

end
