(* ===== verification/Qsort.thy ===== *)
theory Qsort
  imports Prelude
begin

text \<open>
  The library sort \<^verbatim>\<open>lib/libc/qsort.c\<close> (Bentley and McIlroy's \<open>qsort\<close>: insertion
  sort for short arrays, median-of-three or pseudo-median-of-nine pivot, three-way
  partition with the equal elements parked at both ends, insertion sort when a partition
  pass swapped nothing). An array of \<open>n\<close> elements of size \<open>es\<close> starting at \<open>a\<close> is the
  list of its elements; a pointer into it is an index. The comparator is the function
  argument \<open>cmp\<close>, its contract is the locale \<open>comparator\<close>. It is a pure function, so a comparator does not
  change what it compares; the \<open>int\<close>s that hold byte distances in the code are unbounded here, which is
  the code for arrays of less than 2 GB.
\<close>

section \<open>The code\<close>

text \<open>\<open>swapfunc\<close> over a block of \<open>n\<close> elements at \<open>i\<close> and \<open>j\<close>.\<close>

fun vecswap :: "'a list \<Rightarrow> nat \<Rightarrow> nat \<Rightarrow> nat \<Rightarrow> 'a list" where
  "vecswap xs i j 0 = xs"
| "vecswap xs i j (Suc n) = vecswap (swap xs i j) (Suc i) (Suc j) n"

definition med3 :: "('a \<Rightarrow> 'a \<Rightarrow> int) \<Rightarrow> 'a list \<Rightarrow> nat \<Rightarrow> nat \<Rightarrow> nat \<Rightarrow> nat" where
  "med3 cmp xs a b c =
     (if cmp (xs ! a) (xs ! b) < 0
      then (if cmp (xs ! b) (xs ! c) < 0 then b
            else if cmp (xs ! a) (xs ! c) < 0 then c else a)
      else (if cmp (xs ! b) (xs ! c) > 0 then b
            else if cmp (xs ! a) (xs ! c) < 0 then a else c))"

text \<open>The insertion sort: the inner loop moves the element at \<open>pl\<close> down.\<close>

fun isort_sift :: "('a \<Rightarrow> 'a \<Rightarrow> int) \<Rightarrow> 'a list \<Rightarrow> nat \<Rightarrow> 'a list" where
  "isort_sift cmp xs 0 = xs"
| "isort_sift cmp xs (Suc pl) =
     (if cmp (xs ! pl) (xs ! Suc pl) > 0 then isort_sift cmp (swap xs (Suc pl) pl) pl else xs)"

lemma length_isort_sift [simp]: "length (isort_sift cmp xs pl) = length xs"
  by (induction cmp xs pl rule: isort_sift.induct) auto

function isort_loop :: "('a \<Rightarrow> 'a \<Rightarrow> int) \<Rightarrow> 'a list \<Rightarrow> nat \<Rightarrow> 'a list" where
  "isort_loop cmp xs pm =
     (if pm < length xs then isort_loop cmp (isort_sift cmp xs pm) (Suc pm) else xs)"
  by pat_completeness auto
termination by (relation "measure (\<lambda>(cmp, xs, pm). length xs - pm)") auto

declare isort_loop.simps [simp del]

definition isort :: "('a \<Rightarrow> 'a \<Rightarrow> int) \<Rightarrow> 'a list \<Rightarrow> 'a list" where
  "isort cmp xs = isort_loop cmp xs 1"

text \<open>The choice of the pivot.\<close>

definition pivot :: "('a \<Rightarrow> 'a \<Rightarrow> int) \<Rightarrow> 'a list \<Rightarrow> nat" where
  "pivot cmp xs =
     (let n = length xs; pm = n div 2
      in if n > 7 then
           let pl = 0; pn = n - 1;
               (pl, pm, pn) =
                 (if n > 40 then
                    let d = n div 8
                    in (med3 cmp xs pl (pl + d) (pl + 2 * d),
                        med3 cmp xs (pm - d) pm (pm + d),
                        med3 cmp xs (pn - 2 * d) (pn - d) pn)
                  else (pl, pm, pn))
           in med3 cmp xs pl pm pn
         else pm)"

text \<open>The two inner loops of the partition; \<open>pb\<close> is at least 1, so \<open>pc = 0\<close> ends the
  second.\<close>

function part_up ::
  "('a \<Rightarrow> 'a \<Rightarrow> int) \<Rightarrow> 'a list \<Rightarrow> nat \<Rightarrow> nat \<Rightarrow> nat \<Rightarrow> bool \<Rightarrow> 'a list \<times> nat \<times> nat \<times> bool"
where
  "part_up cmp xs pa pb pc cnt =
     (if pb \<le> pc \<and> cmp (xs ! pb) (xs ! 0) \<le> 0 then
        if cmp (xs ! pb) (xs ! 0) = 0
        then part_up cmp (swap xs pa pb) (pa + 1) (pb + 1) pc True
        else part_up cmp xs pa (pb + 1) pc cnt
      else (xs, pa, pb, cnt))"
  by pat_completeness auto
termination by (relation "measure (\<lambda>(cmp, xs, pa, pb, pc, cnt). Suc pc - pb)") auto

declare part_up.simps [simp del]

fun part_down ::
  "('a \<Rightarrow> 'a \<Rightarrow> int) \<Rightarrow> 'a list \<Rightarrow> nat \<Rightarrow> nat \<Rightarrow> nat \<Rightarrow> bool \<Rightarrow> 'a list \<times> nat \<times> nat \<times> bool"
where
  "part_down cmp xs pb 0 pd cnt = (xs, 0, pd, cnt)"
| "part_down cmp xs pb (Suc pc) pd cnt =
     (if pb \<le> Suc pc \<and> cmp (xs ! Suc pc) (xs ! 0) \<ge> 0 then
        if cmp (xs ! Suc pc) (xs ! 0) = 0
        then part_down cmp (swap xs (Suc pc) pd) pb pc (pd - 1) True
        else part_down cmp xs pb pc pd cnt
      else (xs, Suc pc, pd, cnt))"

lemma part_up_mono: "part_up cmp xs pa pb pc cnt = (ys, pa', pb', cnt') \<Longrightarrow> pb \<le> pb'"
proof (induction cmp xs pa pb pc cnt rule: part_up.induct)
  case (1 cmp xs pa pb pc cnt)
  show ?case
  proof (cases "pb \<le> pc \<and> cmp (xs ! pb) (xs ! 0) \<le> 0")
    case True
    then show ?thesis using 1 part_up.simps [of cmp xs pa pb pc cnt]
      by (cases "cmp (xs ! pb) (xs ! 0) = 0") auto
  next
    case False
    then show ?thesis using "1.prems" by (subst (asm) part_up.simps) (simp only: if_False prod.inject)
  qed
qed

lemma part_down_mono: "part_down cmp xs pb pc pd cnt = (ys, pc', pd', cnt') \<Longrightarrow> pc' \<le> pc"
  by (induction cmp xs pb pc pd cnt rule: part_down.induct) (auto split: if_splits)

function part_loop ::
  "('a \<Rightarrow> 'a \<Rightarrow> int) \<Rightarrow> 'a list \<Rightarrow> nat \<Rightarrow> nat \<Rightarrow> nat \<Rightarrow> nat \<Rightarrow> bool \<Rightarrow>
   'a list \<times> nat \<times> nat \<times> nat \<times> nat \<times> bool"
where
  "part_loop cmp xs pa pb pc pd cnt =
     (case part_up cmp xs pa pb pc cnt of (xs1, pa1, pb1, cnt1) \<Rightarrow>
      case part_down cmp xs1 pb1 pc pd cnt1 of (xs2, pc2, pd2, cnt2) \<Rightarrow>
      if pb1 > pc2 then (xs2, pa1, pb1, pc2, pd2, cnt2)
      else part_loop cmp (swap xs2 pb1 pc2) pa1 (pb1 + 1) (pc2 - 1) pd2 True)"
  by pat_completeness auto
termination
  by (relation "measure (\<lambda>(cmp, xs, pa, pb, pc, pd, cnt). Suc pc - pb)")
    (auto dest!: part_up_mono [OF sym] part_down_mono [OF sym])

declare part_loop.simps [simp del]

section \<open>The partition invariant\<close>

definition part_inv ::
  "('a \<Rightarrow> 'a \<Rightarrow> int) \<Rightarrow> 'a \<Rightarrow> 'a list \<Rightarrow> nat \<Rightarrow> nat \<Rightarrow> nat \<Rightarrow> nat \<Rightarrow> bool" where
  "part_inv cmp v xs pa pb pc pd \<longleftrightarrow>
     1 \<le> pa \<and> pa \<le> pb \<and> pb \<le> Suc pc \<and> pc \<le> pd \<and> pd < length xs \<and> xs ! 0 = v \<and>
     (\<forall>i. 1 \<le> i \<and> i < pa \<longrightarrow> cmp (xs ! i) v = 0) \<and>
     (\<forall>i. pa \<le> i \<and> i < pb \<longrightarrow> cmp (xs ! i) v < 0) \<and>
     (\<forall>i. pc < i \<and> i \<le> pd \<longrightarrow> cmp (xs ! i) v > 0) \<and>
     (\<forall>i. pd < i \<and> i < length xs \<longrightarrow> cmp (xs ! i) v = 0)"

lemma part_inv_up_eq:
  assumes "part_inv cmp v xs pa pb pc pd" "pb \<le> pc" "cmp (xs ! pb) v = 0"
  shows "part_inv cmp v (swap xs pa pb) (Suc pa) (Suc pb) pc pd"
  using assms by (auto simp: part_inv_def nth_swap less_Suc_eq)

lemma part_inv_up_less:
  assumes "part_inv cmp v xs pa pb pc pd" "pb \<le> pc" "cmp (xs ! pb) v < 0"
  shows "part_inv cmp v xs pa (Suc pb) pc pd"
  using assms by (auto simp: part_inv_def less_Suc_eq)

lemma part_inv_down_eq:
  assumes "part_inv cmp v xs pa pb (Suc pc) pd" "pb \<le> Suc pc" "cmp (xs ! Suc pc) v = 0"
  shows "part_inv cmp v (swap xs (Suc pc) pd) pa pb pc (pd - 1)"
  using assms unfolding part_inv_def
  by (intro conjI) (auto simp: nth_swap Suc_lessI)

lemma part_inv_down_gr:
  assumes "part_inv cmp v xs pa pb (Suc pc) pd" "pb \<le> Suc pc" "cmp (xs ! Suc pc) v > 0"
  shows "part_inv cmp v xs pa pb pc pd"
  using assms by (auto simp: part_inv_def Suc_lessI) (metis Suc_lessI)

lemma part_inv_swap:
  assumes "part_inv cmp v xs pa pb pc pd" "pb < pc" "cmp (xs ! pb) v > 0" "cmp (xs ! pc) v < 0"
  shows "part_inv cmp v (swap xs pb pc) pa (Suc pb) (pc - 1) pd"
  using assms by (auto simp: part_inv_def nth_swap less_Suc_eq)

lemma part_up_inv:
  assumes "part_inv cmp v xs pa pb pc pd" "part_up cmp xs pa pb pc cnt = (ys, pa', pb', cnt')"
  shows "part_inv cmp v ys pa' pb' pc pd \<and> mset ys = mset xs \<and>
         (pb' \<le> pc \<longrightarrow> cmp (ys ! pb') v > 0)"
  using assms
proof (induction cmp xs pa pb pc cnt rule: part_up.induct)
  case (1 cmp xs pa pb pc cnt)
  have v: "xs ! 0 = v" and len: "pb \<le> pc \<Longrightarrow> pa < length xs \<and> pb < length xs"
    using "1.prems"(1) by (auto simp: part_inv_def)
  show ?case
  proof (cases "pb \<le> pc \<and> cmp (xs ! pb) v \<le> 0")
    case True
    then show ?thesis
      using 1 v len part_up.simps [of cmp xs pa pb pc cnt]
        part_inv_up_eq [of cmp v xs pa pb pc pd] part_inv_up_less [of cmp v xs pa pb pc pd]
      by (cases "cmp (xs ! pb) v = 0") auto
  next
    case False
    then show ?thesis
      using 1 v part_up.simps [of cmp xs pa pb pc cnt] by (auto split: if_splits)
  qed
qed

lemma part_down_inv:
  assumes "part_inv cmp v xs pa pb pc pd" "part_down cmp xs pb pc pd cnt = (ys, pc', pd', cnt')"
  shows "part_inv cmp v ys pa pb pc' pd' \<and> mset ys = mset xs \<and>
         (pb \<le> pc' \<longrightarrow> cmp (ys ! pc') v < 0 \<and> ys ! pb = xs ! pb)"
  using assms
proof (induction cmp xs pb pc pd cnt rule: part_down.induct)
  case (1 cmp xs pb pd cnt)
  then show ?case by (auto simp: part_inv_def)
next
  case (2 cmp xs pb pc pd cnt)
  have v: "xs ! 0 = v" and len: "Suc pc < length xs" "pd < length xs" "Suc pc \<le> pd"
    using "2.prems"(1) by (auto simp: part_inv_def)
  show ?case
  proof (cases "pb \<le> Suc pc \<and> cmp (xs ! Suc pc) v = 0")
    case True
    note IH = "2.IH"(1) [OF _ _ part_inv_down_eq]
    have "pb \<le> pc' \<Longrightarrow> pb \<le> pc"
      using True "2.prems"(2) v
        part_down_mono [of cmp "swap xs (Suc pc) pd" pb pc "pd - 1" True ys pc' pd' cnt'] by auto
    then show ?thesis using True 2 v len IH by (auto simp: nth_swap)
  next
    case False
    then show ?thesis
      using 2 v part_inv_down_gr [of cmp v xs pa pb pc pd] by (auto split: if_splits)
  qed
qed

lemma part_loop_inv:
  assumes "part_inv cmp v xs pa pb pc pd"
    "part_loop cmp xs pa pb pc pd cnt = (ys, pa', pb', pc', pd', cnt')"
  shows "part_inv cmp v ys pa' pb' pc' pd' \<and> mset ys = mset xs \<and> pb' = Suc pc'"
  using assms
proof (induction cmp xs pa pb pc pd cnt rule: part_loop.induct)
  case (1 cmp xs pa pb pc pd cnt)
  obtain xs1 pa1 pb1 cnt1 where up: "part_up cmp xs pa pb pc cnt = (xs1, pa1, pb1, cnt1)"
    by (cases "part_up cmp xs pa pb pc cnt")
  obtain xs2 pc2 pd2 cnt2 where down: "part_down cmp xs1 pb1 pc pd cnt1 = (xs2, pc2, pd2, cnt2)"
    by (cases "part_down cmp xs1 pb1 pc pd cnt1")
  note u = part_up_inv [OF "1.prems"(1) up]
  note d = part_down_inv [OF conjunct1 [OF u] down]
  have mono: "pc2 \<le> pc" using part_down_mono [OF down] .
  show ?case
  proof (cases "pb1 > pc2")
    case True
    then have "part_loop cmp xs pa pb pc pd cnt = (xs2, pa1, pb1, pc2, pd2, cnt2)"
      by (subst part_loop.simps) (simp add: up down)
    then have "ys = xs2" "pa' = pa1" "pb' = pb1" "pc' = pc2" "pd' = pd2"
      using "1.prems"(2) by auto
    moreover have "pb1 \<le> Suc pc2" using d by (simp add: part_inv_def)
    ultimately show ?thesis using True u d by simp
  next
    case False
    then have "cmp (xs2 ! pb1) v > 0" "cmp (xs2 ! pc2) v < 0" using u d mono by auto
    then have "pb1 < pc2" using False by (metis linorder_neqE_nat not_less_iff_gr_or_eq)
    then have inv: "part_inv cmp v (swap xs2 pb1 pc2) pa1 (Suc pb1) (pc2 - 1) pd2"
      using d \<open>cmp (xs2 ! pb1) v > 0\<close> \<open>cmp (xs2 ! pc2) v < 0\<close> by (blast intro: part_inv_swap)
    have "pb1 < length xs2" "pc2 < length xs2"
      using d \<open>pb1 < pc2\<close> by (auto simp only: part_inv_def)
    then have m: "mset (swap xs2 pb1 pc2) = mset xs" using u d by simp
    have "part_loop cmp xs pa pb pc pd cnt = part_loop cmp (swap xs2 pb1 pc2) pa1 (pb1 + 1) (pc2 - 1) pd2 True"
      using False by (subst part_loop.simps) (simp add: up down)
    then show ?thesis
      using "1.IH" [OF up [symmetric] refl refl down [symmetric] refl refl False] inv m
        "1.prems"(2) by auto
  qed
qed

section \<open>Insertion sort and block swap\<close>

lemma mset_isort_sift [simp]: "pl < length xs \<Longrightarrow> mset (isort_sift cmp xs pl) = mset xs"
  by (induction cmp xs pl rule: isort_sift.induct) auto

lemma mset_isort_loop [simp]: "mset (isort_loop cmp xs pm) = mset xs"
proof (induction cmp xs pm rule: isort_loop.induct)
  case (1 cmp xs pm)
  then show ?case by (subst isort_loop.simps) (cases "pm < length xs", auto)
qed

lemma mset_isort [simp]: "mset (isort cmp xs) = mset xs"
  by (simp add: isort_def)

lemma length_isort [simp]: "length (isort cmp xs) = length xs"
  using mset_eq_length [OF mset_isort] .

lemma length_vecswap [simp]: "length (vecswap xs i j r) = length xs"
  by (induction xs i j r rule: vecswap.induct) auto

lemma mset_vecswap [simp]:
  "i + r \<le> length xs \<Longrightarrow> j + r \<le> length xs \<Longrightarrow> mset (vecswap xs i j r) = mset xs"
  by (induction xs i j r rule: vecswap.induct) auto

lemma nth_vecswap:
  "i + r \<le> j \<Longrightarrow> j + r \<le> length xs \<Longrightarrow> k < length xs \<Longrightarrow>
   vecswap xs i j r ! k =
     (if i \<le> k \<and> k < i + r then xs ! (j + (k - i))
      else if j \<le> k \<and> k < j + r then xs ! (i + (k - j)) else xs ! k)"
proof (induction xs i j r rule: vecswap.induct)
  case (2 xs i j n)
  then have "vecswap xs i j (Suc n) ! k =
     (if Suc i \<le> k \<and> k < Suc i + n then swap xs i j ! (Suc j + (k - Suc i))
      else if Suc j \<le> k \<and> k < Suc j + n then swap xs i j ! (Suc i + (k - Suc j))
      else swap xs i j ! k)" by simp
  moreover have "i < length xs" "j < length xs" using 2 by auto
  ultimately show ?case using 2 by (auto simp: nth_swap Suc_diff_Suc)
qed auto

lemma part_inv_start: "2 \<le> length xs \<Longrightarrow> part_inv cmp (xs ! 0) xs 1 1 (length xs - 1) (length xs - 1)"
  by (auto simp: part_inv_def)

lemma med3_cases: "med3 cmp xs a b c \<in> {a, b, c}"
  by (simp add: med3_def)

lemma pivot_less: "7 \<le> length xs \<Longrightarrow> pivot cmp xs < length xs"
proof -
  assume 7: "7 \<le> length xs"
  have m: "a < n \<Longrightarrow> b < n \<Longrightarrow> c < n \<Longrightarrow> med3 cmp xs a b c < n" for a b c n
    using med3_cases [of cmp xs a b c] by auto
  show ?thesis using 7 unfolding pivot_def by (auto simp: Let_def intro!: m)
qed

text \<open>The array the recursive calls work on, after the equal elements have been swapped to
  the middle, with the sizes of its two outer parts, or nothing when no element was
  swapped.\<close>

definition partition3 :: "('a \<Rightarrow> 'a \<Rightarrow> int) \<Rightarrow> 'a list \<Rightarrow> 'a list \<times> nat \<times> nat \<times> bool" where
  "partition3 cmp xs =
     (let n = length xs;
          xs0 = swap xs 0 (pivot cmp xs);
          (xs1, pa, pb, pc, pd, swap_cnt) = part_loop cmp xs0 1 1 (n - 1) (n - 1) False;
          r1 = min pa (pb - pa);
          xs2 = vecswap xs1 0 (pb - r1) r1;
          r2 = min (pd - pc) (n - pd - 1);
          xs3 = vecswap xs2 pb (n - r2) r2
      in (if swap_cnt then xs3 else xs1, pb - pa, pd - pc, swap_cnt))"

lemma partition3_spec:
  assumes "7 \<le> length xs" "partition3 cmp xs = (ys, l, r, cnt)"
  shows "mset ys = mset xs \<and> l + r < length xs \<and>
    (cnt \<longrightarrow> (\<exists>v \<in> set xs. (\<forall>i < l. cmp (ys ! i) v < 0) \<and>
       (\<forall>i. l \<le> i \<and> i < length xs - r \<longrightarrow> ys ! i = v \<or> cmp (ys ! i) v = 0) \<and>
       (\<forall>i. length xs - r \<le> i \<and> i < length xs \<longrightarrow> cmp (ys ! i) v > 0)))"
proof -
  define xs0 where "xs0 = swap xs 0 (pivot cmp xs)"
  define n where "n = length xs"
  obtain xs1 pa pb pc pd swap_cnt where
    loop: "part_loop cmp xs0 1 1 (n - 1) (n - 1) False = (xs1, pa, pb, pc, pd, swap_cnt)"
    by (cases "part_loop cmp xs0 1 1 (n - 1) (n - 1) False") auto
  define r1 where "r1 = min pa (pb - pa)"
  define r2 where "r2 = min (pd - pc) (n - pd - 1)"
  define xs2 where "xs2 = vecswap xs1 0 (pb - r1) r1"
  define xs3 where "xs3 = vecswap xs2 pb (n - r2) r2"
  define v where "v = xs0 ! 0"
  have res: "ys = (if swap_cnt then xs3 else xs1)" "l = pb - pa" "r = pd - pc" "cnt = swap_cnt"
    using assms(2) loop
    by (auto simp: partition3_def Let_def xs0_def n_def r1_def r2_def xs2_def xs3_def)
  have "xs \<noteq> []" using assms(1) by auto
  then have len0: "length xs0 = n" and m0: "mset xs0 = mset xs"
    using assms(1) pivot_less [of xs cmp] mset_swap_eq [of 0 xs "pivot cmp xs"]
    by (auto simp: xs0_def n_def)
  have "part_inv cmp v xs0 1 1 (n - 1) (n - 1)"
    using part_inv_start [of xs0 cmp] assms(1) len0 by (simp add: v_def n_def)
  from part_loop_inv [OF this loop]
  have inv: "part_inv cmp v xs1 pa pb pc pd" and m1: "mset xs1 = mset xs0" and pb: "pb = Suc pc"
    by auto
  have len1: "length xs1 = n" using m1 len0 by (metis mset_eq_length)
  have b: "1 \<le> pa" "pa \<le> pb" "pc \<le> pd" "pd < n" "xs1 ! 0 = v"
    and e1: "\<And>i. 1 \<le> i \<Longrightarrow> i < pa \<Longrightarrow> cmp (xs1 ! i) v = 0"
    and lt: "\<And>i. pa \<le> i \<Longrightarrow> i < pb \<Longrightarrow> cmp (xs1 ! i) v < 0"
    and gt: "\<And>i. pc < i \<Longrightarrow> i \<le> pd \<Longrightarrow> cmp (xs1 ! i) v > 0"
    and e2: "\<And>i. pd < i \<Longrightarrow> i < n \<Longrightarrow> cmp (xs1 ! i) v = 0"
    using inv len1 by (auto simp: part_inv_def)
  have e1': "xs1 ! i = v \<or> cmp (xs1 ! i) v = 0" if "i < pa" for i
    using e1 [of i] b that by (cases i) auto
  have r1: "0 + r1 \<le> pb - r1" "(pb - r1) + r1 \<le> n" and r2: "pb + r2 \<le> n - r2" "(n - r2) + r2 \<le> n"
    using b pb by (auto simp: r1_def r2_def)
  have m3: "mset xs3 = mset xs"
    using r1 r2 m1 m0 len1 by (simp add: xs3_def xs2_def)
  have x2: "xs2 ! k = (if k < r1 then xs1 ! (pb - r1 + k)
      else if pb - r1 \<le> k \<and> k < pb then xs1 ! (k - (pb - r1)) else xs1 ! k)" if "k < n" for k
    using that r1 nth_vecswap [of 0 r1 "pb - r1" xs1 k] len1 by (auto simp: xs2_def)
  have x3: "xs3 ! k = (if pb \<le> k \<and> k < pb + r2 then xs2 ! (n - r2 + (k - pb))
      else if n - r2 \<le> k then xs2 ! (pb + (k - (n - r2))) else xs2 ! k)" if "k < n" for k
    using that r2 nth_vecswap [of pb r2 "n - r2" xs2 k] len1 by (auto simp: xs3_def xs2_def)
  have x2': "xs2 ! k = xs1 ! k" if "pb \<le> k" "k < n" for k
  proof -
    have "\<not> k < r1" "\<not> k < pb" using that r1 by linarith+
    then show ?thesis using x2 [OF that(2)] by simp
  qed
  have x4: "xs3 ! k = (if pb \<le> k \<and> k < pb + r2 then xs1 ! (n - r2 + (k - pb))
      else if n - r2 \<le> k then xs1 ! (pb + (k - (n - r2))) else xs2 ! k)" if "k < n" for k
  proof -
    have "xs2 ! (n - r2 + (k - pb)) = xs1 ! (n - r2 + (k - pb))" if "pb \<le> k \<and> k < pb + r2"
      using that r2 by (intro x2') linarith+
    moreover have "xs2 ! (pb + (k - (n - r2))) = xs1 ! (pb + (k - (n - r2)))" if "n - r2 \<le> k"
      using that \<open>k < n\<close> r2 by (intro x2') linarith+
    ultimately show ?thesis using x3 [OF that] by simp
  qed
  have low: "cmp (xs3 ! i) v < 0" if "i < pb - pa" for i
  proof -
    have "xs3 ! i = xs2 ! i" using that x4 [of i] r2 b pb by auto
    also have "\<dots> = xs1 ! (if i < r1 then pb - r1 + i else i)"
      using that x2 [of i] b pb by (auto simp: r1_def)
    finally show ?thesis using that b lt by (auto simp: r1_def)
  qed
  have high: "cmp (xs3 ! i) v > 0" if "n - (pd - pc) \<le> i" "i < n" for i
  proof -
    have "xs3 ! i = xs1 ! (if n - r2 \<le> i then pb + (i - (n - r2)) else i)"
      using that x4 [of i] x2 [of i] b pb by (auto simp: r2_def)
    then show ?thesis using that b pb gt by (auto simp: r2_def)
  qed
  have mid: "xs3 ! i = v \<or> cmp (xs3 ! i) v = 0" if "pb - pa \<le> i" "i < n - (pd - pc)" for i
  proof (cases "i < pb")
    case True
    then have "xs3 ! i = xs2 ! i" using x4 [of i] r2 b pb by auto
    also have "\<dots> = xs1 ! (if pb - r1 \<le> i then i - (pb - r1) else i)"
      using that True x2 [of i] b pb by (auto simp: r1_def)
    finally show ?thesis using that True e1' b by (auto simp: r1_def)
  next
    case False
    have "xs3 ! i = xs1 ! (if i < pb + r2 then n - r2 + (i - pb) else i)"
      using that False x4 [of i] x2 [of i] b pb by (auto simp: r2_def)
    then show ?thesis using that False e2 b pb by (auto simp: r2_def)
  qed
  have "v \<in> set xs" using m0 len0 assms(1) by (metis v_def n_def nth_mem less_le_trans zero_less_numeral set_mset_mset)
  then show ?thesis
    using low mid high m3 m1 m0 b pb unfolding res n_def [symmetric] by auto
qed

section \<open>The sort\<close>

lemma partition3_len:
  "(ys, l, r, cnt) = partition3 cmp xs \<Longrightarrow> \<not> length xs < 7 \<Longrightarrow>
   length ys = length xs \<and> l < length xs \<and> r < length xs"
  using partition3_spec [of xs cmp ys l r cnt] by (auto dest: mset_eq_length)

text \<open>\<open>goto loop\<close> on the upper part is the second recursive call.\<close>

function qsort :: "('a \<Rightarrow> 'a \<Rightarrow> int) \<Rightarrow> 'a list \<Rightarrow> 'a list" where
  "qsort cmp xs =
     (if length xs < 7 then isort cmp xs
      else case partition3 cmp xs of (ys, l, r, swap_cnt) \<Rightarrow>
        if \<not> swap_cnt then isort cmp ys
        else let lo = take l ys;
                 mid = drop l (take (length xs - r) ys);
                 hi = drop (length xs - r) ys
             in (if l > 1 then qsort cmp lo else lo) @ mid
                @ (if r > 1 then qsort cmp hi else hi))"
  by pat_completeness auto
termination
  by (relation "measure (length \<circ> snd)") (auto dest!: partition3_len)

declare qsort.simps [simp del]

lemma split3:
  "l + r \<le> length ys \<Longrightarrow>
   take l ys @ drop l (take (length ys - r) ys) @ drop (length ys - r) ys = ys"
  by (metis (no_types, lifting) append_assoc append_take_drop_id diff_diff_cancel le_diff_conv2
      min.absorb1 take_take add_leE add.commute le_add_diff_inverse2 diff_le_self le_add_diff_inverse)

lemma mset_qsort [simp]: "mset (qsort cmp xs) = mset xs"
proof (induction cmp xs rule: qsort.induct)
  case (1 cmp xs)
  show ?case
  proof (cases "length xs < 7")
    case True
    then show ?thesis by (subst qsort.simps) simp
  next
    case False
    obtain ys l r cnt where p: "partition3 cmp xs = (ys, l, r, cnt)"
      by (cases "partition3 cmp xs") auto
    have m: "mset ys = mset xs" "l + r < length xs"
      using partition3_spec [OF _ p] False by auto
    then have len: "length ys = length xs" by (auto dest: mset_eq_length)
    define lo mid hi where "lo = take l ys" and "mid = drop l (take (length xs - r) ys)"
      and "hi = drop (length xs - r) ys"
    have IH: "cnt \<Longrightarrow> l > 1 \<Longrightarrow> mset (qsort cmp lo) = mset lo"
      "cnt \<Longrightarrow> r > 1 \<Longrightarrow> mset (qsort cmp hi) = mset hi"
      using "1.IH" [OF False p [symmetric] refl refl] by (auto simp: lo_def hi_def mid_def)
    have parts: "lo @ mid @ hi = ys"
      using split3 [of l r ys] m len by (simp add: lo_def mid_def hi_def)
    have q: "qsort cmp xs = (if \<not> cnt then isort cmp ys
        else (if l > 1 then qsort cmp lo else lo) @ mid @ (if r > 1 then qsort cmp hi else hi))"
      using False by (subst qsort.simps) (simp add: p lo_def mid_def hi_def Let_def)
    show ?thesis
      using IH m(1) arg_cong [OF parts, of mset] by (simp add: q)
  qed
qed

text \<open>C38. \<open>qsort\<close> returns on every array and with every comparator, also one that is not an
  order, and its result is a rearrangement of the array: nothing is lost, duplicated or
  written outside.\<close>
theorem qsort_permutes: "mset (qsort cmp xs) = mset xs"
  by (rule mset_qsort)

lemma set_qsort [simp]: "set (qsort cmp xs) = set xs"
  using mset_eq_setD [OF mset_qsort] .

lemma length_qsort [simp]: "length (qsort cmp xs) = length xs"
  using mset_eq_length [OF mset_qsort] .

section \<open>The contract of a comparator and the order of the result\<close>

abbreviation sorted_by :: "('a \<Rightarrow> 'a \<Rightarrow> int) \<Rightarrow> 'a list \<Rightarrow> bool" where
  "sorted_by cmp xs \<equiv> sorted_wrt (\<lambda>x y. cmp x y \<le> 0) xs"

text \<open>The insertion step: everything up to \<open>pm\<close> is in order except for the pairs that end
  at \<open>pl\<close>.\<close>

definition sift_inv :: "('a \<Rightarrow> 'a \<Rightarrow> int) \<Rightarrow> nat \<Rightarrow> nat \<Rightarrow> 'a list \<Rightarrow> bool" where
  "sift_inv cmp pm pl xs \<longleftrightarrow>
     (\<forall>i j. i < j \<and> j \<le> pm \<and> j \<noteq> pl \<longrightarrow> cmp (xs ! i) (xs ! j) \<le> 0)"

locale comparator =
  fixes cmp :: "'a \<Rightarrow> 'a \<Rightarrow> int" and ok :: "'a \<Rightarrow> bool"
  assumes sign: "ok x \<Longrightarrow> ok y \<Longrightarrow> cmp y x > 0 \<longleftrightarrow> cmp x y < 0"
    and trans: "ok x \<Longrightarrow> ok y \<Longrightarrow> ok z \<Longrightarrow> cmp x y \<le> 0 \<Longrightarrow> cmp y z \<le> 0 \<Longrightarrow> cmp x z \<le> 0"
begin

lemma greater: "ok x \<Longrightarrow> ok y \<Longrightarrow> cmp x y > 0 \<Longrightarrow> cmp y x \<le> 0"
  using sign [of y x] by simp

lemma equal_sym: "ok x \<Longrightarrow> ok y \<Longrightarrow> cmp x y = 0 \<Longrightarrow> cmp y x = 0"
  using sign [of x y] sign [of y x] by linarith

lemma refl_le: "ok x \<Longrightarrow> cmp x x \<le> 0"
  using sign [of x x] by linarith

lemma sift_inv_down:
  assumes ok: "\<forall>x \<in> set xs. ok x" and pm: "pm < length xs" "Suc pl \<le> pm"
    and inv: "sift_inv cmp pm (Suc pl) xs"
    and gr: "cmp (xs ! pl) (xs ! Suc pl) > 0"
  shows "sift_inv cmp pm pl (swap xs (Suc pl) pl)"
  unfolding sift_inv_def
proof (intro allI impI)
  fix i j assume ij: "i < j \<and> j \<le> pm \<and> j \<noteq> pl"
  have le: "cmp (xs ! Suc pl) (xs ! pl) \<le> 0" using greater [OF _ _ gr] ok pm by simp
  have old: "cmp (xs ! i) (xs ! j) \<le> 0" if "i < j" "j \<le> pm" "j \<noteq> Suc pl" for i j
    using inv that by (simp add: sift_inv_def)
  show "cmp (swap xs (Suc pl) pl ! i) (swap xs (Suc pl) pl ! j) \<le> 0"
    using ij pm le old by (auto simp: nth_swap)
qed

lemma isort_sift_sorted:
  assumes "\<forall>x \<in> set xs. ok x" "pm < length xs" "pl \<le> pm" "sift_inv cmp pm pl xs"
  shows "\<forall>i j. i < j \<and> j \<le> pm \<longrightarrow> cmp (isort_sift cmp xs pl ! i) (isort_sift cmp xs pl ! j) \<le> 0"
  using assms
proof (induction pl arbitrary: xs)
  case 0
  then show ?case by (auto simp: sift_inv_def)
next
  case (Suc pl)
  show ?case
  proof (cases "cmp (xs ! pl) (xs ! Suc pl) > 0")
    case True
    have m: "mset (swap xs (Suc pl) pl) = mset xs" using Suc by simp
    then have "set (swap xs (Suc pl) pl) = set xs" by (metis set_mset_mset)
    have inv: "sift_inv cmp pm pl (swap xs (Suc pl) pl)"
      using Suc.prems by (intro sift_inv_down True) auto
    have "\<forall>x \<in> set (swap xs (Suc pl) pl). ok x"
      using \<open>set (swap xs (Suc pl) pl) = set xs\<close> Suc.prems(1) by simp
    from Suc.IH [OF this _ _ inv] show ?thesis using True Suc.prems by simp
  next
    case False
    have "cmp (xs ! i) (xs ! j) \<le> 0" if "i < j" "j \<le> pm" for i j
    proof (cases "j = Suc pl")
      case True
      show ?thesis
      proof (cases "i = pl")
        case i: False
        then have "cmp (xs ! i) (xs ! pl) \<le> 0" using Suc that True by (simp add: sift_inv_def)
        then show ?thesis using trans [of "xs ! i" "xs ! pl" "xs ! j"] Suc that True False by simp
      qed (use True False in simp)
    qed (use Suc that in \<open>simp add: sift_inv_def\<close>)
    then show ?thesis using False by simp
  qed
qed

lemma isort_loop_sorted:
  assumes "\<forall>x \<in> set xs. ok x" "\<forall>i j. i < j \<and> j < pm \<and> j < length xs \<longrightarrow> cmp (xs ! i) (xs ! j) \<le> 0"
  shows "sorted_by cmp (isort_loop cmp xs pm)"
  using assms
proof (induction "length xs - pm" arbitrary: xs pm rule: less_induct)
  case less
  show ?case
  proof (cases "pm < length xs")
    case True
    have m: "set (isort_sift cmp xs pm) = set xs"
      using mset_isort_sift [OF True] by (metis set_mset_mset)
    have "sift_inv cmp pm pm xs" using less.prems True by (auto simp: sift_inv_def)
    from isort_sift_sorted [OF less.prems(1) True order_refl this]
    have "\<forall>i j. i < j \<and> j \<le> pm \<longrightarrow> cmp (isort_sift cmp xs pm ! i) (isort_sift cmp xs pm ! j) \<le> 0"
      by simp
    then have "sorted_by cmp (isort_loop cmp (isort_sift cmp xs pm) (Suc pm))"
      using less.hyps [of "isort_sift cmp xs pm" "Suc pm"] True less.prems(1) m
      by (simp add: less_Suc_eq_le)
    then show ?thesis using True by (subst isort_loop.simps) simp
  next
    case False
    then show ?thesis using less.prems(2)
      by (subst isort_loop.simps) (auto simp: sorted_wrt_iff_nth_less)
  qed
qed

lemma isort_sorted: "\<forall>x \<in> set xs. ok x \<Longrightarrow> sorted_by cmp (isort cmp xs)"
  unfolding isort_def by (rule isort_loop_sorted) auto

lemma sorted_by_append3:
  assumes "sorted_by cmp a" "sorted_by cmp b" "sorted_by cmp c" "ok v"
    and ok: "\<forall>x \<in> set a \<union> set b \<union> set c. ok x"
    and a: "\<forall>x \<in> set a. cmp x v < 0" and c: "\<forall>x \<in> set c. cmp x v > 0"
    and b: "\<forall>x \<in> set b. cmp x v = 0 \<or> x = v"
  shows "sorted_by cmp (a @ b @ c)"
proof -
  have lo: "cmp x v \<le> 0" if "x \<in> set a \<union> set b" for x
    using that a b refl_le [OF \<open>ok v\<close>] by fastforce
  have hi: "cmp v x \<le> 0" if "x \<in> set b \<union> set c" for x
    using that c b ok \<open>ok v\<close> refl_le [of v] equal_sym [of x v] greater [of x v] by fastforce
  have "cmp x y \<le> 0" if "x \<in> set a \<and> y \<in> set b \<union> set c \<or> x \<in> set b \<and> y \<in> set c" for x y
    using that lo hi ok \<open>ok v\<close> trans [of x v y] by blast
  then show ?thesis using assms(1-3) by (auto simp: sorted_wrt_append)
qed

lemma all_equal_sorted:
  assumes "\<forall>x \<in> set b. ok x" "ok v" "\<forall>x \<in> set b. cmp x v = 0 \<or> x = v"
  shows "sorted_by cmp b"
proof -
  have lo: "cmp x v \<le> 0" if "x \<in> set b" for x
    using that assms(3) refl_le [OF \<open>ok v\<close>] by fastforce
  have hi: "cmp v x \<le> 0" if "x \<in> set b" for x
    using that assms refl_le [OF \<open>ok v\<close>] equal_sym [of x v] by fastforce
  have "cmp x y \<le> 0" if "x \<in> set b" "y \<in> set b" for x y
    using that lo hi assms trans [of x v y] by blast
  then show ?thesis by (simp add: sorted_wrt_iff_nth_less)
qed

lemma sorted_small: "length xs \<le> 1 \<Longrightarrow> sorted_by cmp xs"
  by (cases xs) auto

lemma qsort_sorted: "\<forall>x \<in> set xs. ok x \<Longrightarrow> sorted_by cmp (qsort cmp xs)"
proof (induction "length xs" arbitrary: xs rule: less_induct)
  case less
  show ?case
  proof (cases "length xs < 7")
    case True
    then show ?thesis using isort_sorted [OF less.prems] by (subst qsort.simps) simp
  next
    case False
    obtain ys l r cnt where p: "partition3 cmp xs = (ys, l, r, cnt)"
      by (cases "partition3 cmp xs") auto
    note spec = partition3_spec [OF _ p]
    have m: "mset ys = mset xs" "l + r < length xs" using spec False by auto
    then have len: "length ys = length xs" and okys: "\<forall>x \<in> set ys. ok x"
      using less.prems by (auto dest: mset_eq_length mset_eq_setD)
    show ?thesis
    proof (cases cnt)
      case False
      then show ?thesis using \<open>\<not> length xs < 7\<close> isort_sorted [OF okys] p
        by (subst qsort.simps) simp
    next
      case cnt: True
      define lo mid hi where "lo = take l ys" and "mid = drop l (take (length xs - r) ys)"
        and "hi = drop (length xs - r) ys"
      note parts = lo_def mid_def hi_def
      obtain v where v: "v \<in> set xs" "\<forall>i < l. cmp (ys ! i) v < 0"
        "\<forall>i. l \<le> i \<and> i < length xs - r \<longrightarrow> ys ! i = v \<or> cmp (ys ! i) v = 0"
        "\<forall>i. length xs - r \<le> i \<and> i < length xs \<longrightarrow> cmp (ys ! i) v > 0"
        using spec False cnt by auto
      have okv: "ok v" using v(1) less.prems by blast
      have ok: "\<forall>x \<in> set lo \<union> set mid \<union> set hi. ok x"
        using okys by (auto simp: parts dest: in_set_takeD in_set_dropD)
      have lo: "\<forall>x \<in> set lo. cmp x v < 0"
        using v(2) m(2) len by (auto simp: parts in_set_conv_nth)
      have hi: "\<forall>x \<in> set hi. cmp x v > 0"
      proof -
        have "cmp (ys ! (length xs + i - r)) v > 0" if "i < r" for i
        proof -
          have "length xs - r \<le> length xs + i - r" "length xs + i - r < length xs"
            using m(2) that by auto
          then show ?thesis using v(4) by blast
        qed
        then show ?thesis using m(2) len by (auto simp: parts in_set_conv_nth)
      qed
      have mid: "\<forall>x \<in> set mid. cmp x v = 0 \<or> x = v"
      proof -
        have "ys ! (l + i) = v \<or> cmp (ys ! (l + i)) v = 0" if "i < length xs - r - l" for i
        proof -
          have "l \<le> l + i" "l + i < length xs - r" using m(2) that by auto
          then show ?thesis using v(3) by blast
        qed
        then show ?thesis using m(2) len by (fastforce simp: parts in_set_conv_nth)
      qed
      define lo' hi' where "lo' = (if l > 1 then qsort cmp lo else lo)"
        and "hi' = (if r > 1 then qsort cmp hi else hi)"
      have set': "set lo' = set lo" "set hi' = set hi"
        unfolding lo'_def hi'_def by simp_all
      have l: "length lo = l" "length hi = r" using m(2) len by (auto simp: parts)
      have s: "sorted_by cmp lo'" "sorted_by cmp hi'"
        unfolding lo'_def hi'_def using less.hyps [of lo] less.hyps [of hi] ok m(2) l
        by (auto intro: sorted_small)
      have "sorted_by cmp (lo' @ mid @ hi')"
        using sorted_by_append3 [OF s(1) all_equal_sorted [OF _ okv mid] s(2) okv] ok lo mid hi set'
        by simp
      moreover have "qsort cmp xs = lo' @ mid @ hi'"
        using False by (subst qsort.simps) (simp add: p cnt Let_def parts lo'_def hi'_def)
      ultimately show ?thesis by simp
    qed
  qed
qed

end

text \<open>C22. With a comparator that is a total preorder on the elements of the array (\<open>sign\<close>
  and \<open>trans\<close> of the locale), the array comes back in ascending order, through the
  insertion sort, the three-way partition and the early exit alike.\<close>
theorem qsort_sorts:
  "comparator cmp ok \<Longrightarrow> \<forall>x \<in> set xs. ok x \<Longrightarrow> sorted_by cmp (qsort cmp xs)"
  by (rule comparator.qsort_sorted)

theorem qsort_sorts_witness:
  "sorted_by (\<lambda>x y. x - y) (qsort (\<lambda>x y. x - y) [5, 3, 9, 3, 1, 8, 3, 0, 7 :: int])"
  by (rule qsort_sorts [where ok = "\<lambda>_. True"]) (unfold_locales, auto)

end
