(* ===== verification/Env.thy ===== *)
theory Env
  imports Number
begin

text \<open>
  The environment of the monitor, \<^verbatim>\<open>pmon/common/env.c\<close> with the hooks of
  \<^verbatim>\<open>more.c\<close> and \<^verbatim>\<open>sbrk.c\<close> and the commands of \<^verbatim>\<open>cmd_env.c\<close>: a table of
  \<open>NVAR\<close> slots in RAM, the table of standard variables with their initial and allowed
  values, and a non-volatile store behind the three functions of the target
  (\<open>tgt_mapenv\<close>, \<open>tgt_setenv\<close>, \<open>tgt_unsetenv\<close>), which are the record \<open>nvops\<close> of
  parameters. The contract of a name/value table is the locale \<open>kv_store\<close>.
\<close>

section \<open>State\<close>

abbreviation NVAR :: nat where "NVAR \<equiv> 64"

datatype chgfunc = Chg_moresz | Chg_heaptop

record stdenv =
  se_name :: cstr
  se_init :: cstr
  se_values :: "cstr option"
  se_chg :: "chgfunc option"

record envpair =
  ep_name :: "cstr option"
  ep_value :: "cstr option"

definition empty_pair :: envpair where
  "empty_pair = \<lparr>ep_name = None, ep_value = None\<rparr>"

text \<open>\<open>allocs\<close> holds the answers of the coming calls of \<open>malloc\<close>; when it is used up every
  call succeeds. \<open>nv\<close> is the state of the non-volatile store.\<close>

record 'n env =
  envvar :: "envpair list"
  envinited :: bool
  moresz :: u32
  heaptop :: u32
  allocs :: "bool list"
  nv :: 'n

record 'n nvops =
  tgt_mapenv :: "'n \<Rightarrow> (cstr \<times> cstr option) list \<times> 'n"
  tgt_setenv :: "cstr \<Rightarrow> cstr option \<Rightarrow> 'n \<Rightarrow> int \<times> 'n"
  tgt_unsetenv :: "cstr \<Rightarrow> 'n \<Rightarrow> int \<times> 'n"

definition malloc :: "'n env \<Rightarrow> bool \<times> 'n env" where
  "malloc s = (case allocs s of [] \<Rightarrow> (True, s) | b # bs \<Rightarrow> (b, s\<lparr>allocs := bs\<rparr>))"

section \<open>The standard variables\<close>

definition stdenvtab :: "stdenv list" where
  "stdenvtab =
    [\<lparr>se_name = ''brkcmd'', se_init = ''l -r @cpc 1'', se_values = None, se_chg = None\<rparr>,
     \<lparr>se_name = ''datasize'', se_init = ''-b'', se_values = Some ''-b -h -w -d'', se_chg = None\<rparr>,
     \<lparr>se_name = ''dlecho'', se_init = ''off'', se_values = Some ''off on lfeed'', se_chg = None\<rparr>,
     \<lparr>se_name = ''dlproto'', se_init = ''none'', se_values = Some ''none XonXoff EtxAck'', se_chg = None\<rparr>,
     \<lparr>se_name = ''bootp'', se_init = ''no'', se_values = Some ''no sec pri save'', se_chg = None\<rparr>,
     \<lparr>se_name = ''hostport'', se_init = ''tty0'', se_values = None, se_chg = None\<rparr>,
     \<lparr>se_name = ''inalpha'', se_init = ''hex'', se_values = Some ''hex symbol'', se_chg = None\<rparr>,
     \<lparr>se_name = ''inbase'', se_init = ''16'', se_values = Some ''auto 8 10 16'', se_chg = None\<rparr>,
     \<lparr>se_name = ''moresz'', se_init = ''10'', se_values = None, se_chg = Some Chg_moresz\<rparr>,
     \<lparr>se_name = ''prompt'', se_init = ''PMON> '', se_values = None, se_chg = None\<rparr>,
     \<lparr>se_name = ''regstyle'', se_init = ''sw'', se_values = Some ''hw sw'', se_chg = None\<rparr>,
     \<lparr>se_name = ''regsize'', se_init = ''32'', se_values = Some ''32 64'', se_chg = None\<rparr>,
     \<lparr>se_name = ''rptcmd'', se_init = ''trace'', se_values = Some ''off on trace'', se_chg = None\<rparr>,
     \<lparr>se_name = ''trabort'', se_init = ''^K'', se_values = None, se_chg = None\<rparr>,
     \<lparr>se_name = ''ulcr'', se_init = ''cr'', se_values = Some ''cr lf crlf'', se_chg = None\<rparr>,
     \<lparr>se_name = ''uleof'', se_init = ''%'', se_values = None, se_chg = None\<rparr>,
     \<lparr>se_name = ''heaptop'', se_init = ''80100000'', se_values = None, se_chg = Some Chg_heaptop\<rparr>,
     \<lparr>se_name = ''showsym'', se_init = ''yes'', se_values = Some ''no yes'', se_chg = None\<rparr>,
     \<lparr>se_name = ''fpfmt'', se_init = ''both'', se_values = Some ''both double single none'', se_chg = None\<rparr>,
     \<lparr>se_name = ''fpdis'', se_init = ''yes'', se_values = Some ''no yes'', se_chg = None\<rparr>]"

text \<open>\<open>striequ\<close> with a possibly null second argument.\<close>

definition striequ_opt :: "cstr \<Rightarrow> cstr option \<Rightarrow> bool" where
  "striequ_opt s t = (case t of None \<Rightarrow> False | Some t' \<Rightarrow> striequ s t')"

function matchval_loop :: "cstr \<Rightarrow> cstr option \<Rightarrow> int \<Rightarrow> int" where
  "matchval_loop t v j =
     (case getword t of
        None \<Rightarrow> - 2
      | Some (wrd, t') \<Rightarrow> if striequ_opt wrd v then j else matchval_loop t' v (j + 1))"
  by pat_completeness auto
termination by (relation "measure (\<lambda>(t, v, j). length t)") (auto dest: getword_Some)

declare matchval_loop.simps [simp del]

definition matchval :: "cstr \<Rightarrow> cstr option \<Rightarrow> int" where
  "matchval values v = matchval_loop values v 0"

fun find_stdenv :: "cstr \<Rightarrow> stdenv list \<Rightarrow> stdenv option" where
  "find_stdenv name [] = None"
| "find_stdenv name (sp # tab) =
     (if striequ name (se_name sp) then Some sp else find_stdenv name tab)"

definition getstdenv :: "cstr \<Rightarrow> stdenv option" where
  "getstdenv name = find_stdenv name stdenvtab"

section \<open>Change hooks\<close>

text \<open>A hook is called with the new value; one without a value is refused here (the C
  code would convert the string at the null pointer).\<close>

definition chg_moresz :: "cstr option \<Rightarrow> 'n env \<Rightarrow> bool \<times> 'n env" where
  "chg_moresz v s =
     (case Option.bind v (\<lambda>p. atob p 10) of
        Some n \<Rightarrow> if n > 2 \<and> n < 100 then (True, s\<lparr>moresz := n\<rparr>) else (False, s)
      | None \<Rightarrow> (False, s))"

definition chg_heaptop :: "cstr option \<Rightarrow> 'n env \<Rightarrow> bool \<times> 'n env" where
  "chg_heaptop v s =
     (case Option.bind v (\<lambda>p. atob p 16) of
        Some t \<Rightarrow> if t < heaptop s then (False, s) else (True, s\<lparr>heaptop := t\<rparr>)
      | None \<Rightarrow> (False, s))"

definition call_chg :: "chgfunc \<Rightarrow> cstr option \<Rightarrow> 'n env \<Rightarrow> bool \<times> 'n env" where
  "call_chg f v s = (case f of Chg_moresz \<Rightarrow> chg_moresz v s | Chg_heaptop \<Rightarrow> chg_heaptop v s)"

section \<open>Setting a variable\<close>

text \<open>The search of \<open>_setenv\<close>: the matching slot, and the first free one before it.\<close>

fun find_slot :: "cstr \<Rightarrow> envpair list \<Rightarrow> nat \<Rightarrow> nat option \<Rightarrow> nat option \<times> nat option" where
  "find_slot name [] i bp = (None, bp)"
| "find_slot name (ep # eps) i bp =
     (if ep_name ep = None \<and> bp = None then find_slot name eps (Suc i) (Some i)
      else case ep_name ep of
        None \<Rightarrow> find_slot name eps (Suc i) bp
      | Some n \<Rightarrow> if striequ name n then (Some i, bp) else find_slot name eps (Suc i) bp)"

text \<open>The checks a standard variable imposes on its new value.\<close>

definition check_std :: "cstr \<Rightarrow> cstr option \<Rightarrow> 'n env \<Rightarrow> bool \<times> 'n env" where
  "check_std name v s =
     (case getstdenv name of
        None \<Rightarrow> (True, s)
      | Some sp \<Rightarrow>
          (case (case se_chg sp of None \<Rightarrow> (True, s) | Some f \<Rightarrow> call_chg f v s) of
             (ok, s1) \<Rightarrow>
               if \<not> ok then (False, s1)
               else case se_values sp of
                 None \<Rightarrow> (True, s1)
               | Some vals \<Rightarrow> (\<not> (matchval vals v < 0 \<and> envinited s1), s1)))"

definition set_slot :: "nat \<Rightarrow> envpair \<Rightarrow> 'n env \<Rightarrow> 'n env" where
  "set_slot i ep s = s\<lparr>envvar := (envvar s)[i := ep]\<rparr>"

text \<open>The slot for \<open>name\<close>: its old value freed, or a free slot with a copy of the name.\<close>

definition claim_slot :: "cstr \<Rightarrow> 'n env \<Rightarrow> nat option \<times> 'n env" where
  "claim_slot name s =
     (case find_slot name (envvar s) 0 None of
        (Some i, _) \<Rightarrow> (Some i, set_slot i ((envvar s ! i)\<lparr>ep_value := None\<rparr>) s)
      | (None, Some i) \<Rightarrow>
          (case malloc s of (ok, s1) \<Rightarrow>
             if ok then (Some i, set_slot i ((envvar s1 ! i)\<lparr>ep_name := Some name\<rparr>) s1)
             else (None, s1))
      | (None, None) \<Rightarrow> (None, s))"

text \<open>\<open>_setenv\<close>.\<close>

definition env_setenv :: "cstr \<Rightarrow> cstr option \<Rightarrow> 'n env \<Rightarrow> bool \<times> 'n env" where
  "env_setenv name v s =
     (case check_std name v s of (ok, s1) \<Rightarrow>
      if \<not> ok then (False, s1)
      else case claim_slot name s1 of
        (None, s2) \<Rightarrow> (False, s2)
      | (Some i, s2) \<Rightarrow>
          (case v of
             None \<Rightarrow> (True, s2)
           | Some w \<Rightarrow>
               (case malloc s2 of (ok, s3) \<Rightarrow>
                if ok then (True, set_slot i ((envvar s3 ! i)\<lparr>ep_value := Some w\<rparr>) s3)
                else (False, set_slot i ((envvar s3 ! i)\<lparr>ep_name := None\<rparr>) s3))))"

definition do_setenv :: "'n nvops \<Rightarrow> cstr \<Rightarrow> cstr option \<Rightarrow> bool \<Rightarrow> 'n env \<Rightarrow> int \<times> 'n env" where
  "do_setenv ops name v temp s =
     (case env_setenv name v s of (ok, s1) \<Rightarrow>
      if \<not> ok then (0, s1)
      else if (case getstdenv name of None \<Rightarrow> False | Some sp \<Rightarrow>
                   (case v of None \<Rightarrow> False | Some w \<Rightarrow> striequ w (se_init sp))) then
        (case tgt_unsetenv ops name (nv s1) of (r, n) \<Rightarrow> (r, s1\<lparr>nv := n\<rparr>))
      else if \<not> temp then
        (case tgt_setenv ops name v (nv s1) of (r, n) \<Rightarrow> (r, s1\<lparr>nv := n\<rparr>))
      else (1, s1))"

definition setenv :: "'n nvops \<Rightarrow> cstr \<Rightarrow> cstr option \<Rightarrow> 'n env \<Rightarrow> int \<times> 'n env" where
  "setenv ops name v s = do_setenv ops name v False s"

section \<open>Reading, removing, initialising\<close>

fun find_env :: "cstr \<Rightarrow> envpair list \<Rightarrow> cstr option" where
  "find_env name [] = None"
| "find_env name (ep # eps) =
     (case ep_name ep of
        None \<Rightarrow> find_env name eps
      | Some n \<Rightarrow>
          if striequ name n then Some (case ep_value ep of None \<Rightarrow> [] | Some v \<Rightarrow> v)
          else find_env name eps)"

definition getenv :: "cstr \<Rightarrow> 'n env \<Rightarrow> cstr option" where
  "getenv name s =
     (if envinited s then find_env name (envvar s)
      else map_option se_init (getstdenv name))"

text \<open>\<open>unsetenv\<close>, from slot \<open>i\<close> on.\<close>

function unsetenv_loop :: "'n nvops \<Rightarrow> cstr \<Rightarrow> nat \<Rightarrow> 'n env \<Rightarrow> 'n env" where
  "unsetenv_loop ops pat i s =
     (if i < NVAR then
        (case ep_name (envvar s ! i) of
           None \<Rightarrow> unsetenv_loop ops pat (Suc i) s
         | Some n \<Rightarrow>
             if strpat n pat then
               (case getstdenv n of
                  Some sp \<Rightarrow>
                    (case setenv ops (se_name sp) (Some (se_init sp)) s of (r, s1) \<Rightarrow>
                       if r = 0 then s1 else unsetenv_loop ops pat (Suc i) s1)
                | None \<Rightarrow>
                    (case tgt_unsetenv ops n (nv s) of (_, m) \<Rightarrow>
                       unsetenv_loop ops pat (Suc i) (set_slot i empty_pair (s\<lparr>nv := m\<rparr>))))
             else unsetenv_loop ops pat (Suc i) s)
      else s)"
  by pat_completeness auto
termination by (relation "measure (\<lambda>(ops, pat, i, s). NVAR - i)") auto

declare unsetenv_loop.simps [simp del]

definition unsetenv :: "'n nvops \<Rightarrow> cstr \<Rightarrow> 'n env \<Rightarrow> 'n env" where
  "unsetenv ops pat s = unsetenv_loop ops pat 0 s"

fun envinit_map :: "(cstr \<times> cstr option) list \<Rightarrow> 'n env \<Rightarrow> 'n env" where
  "envinit_map [] s = s"
| "envinit_map ((n, v) # xs) s = envinit_map xs (snd (env_setenv n v s))"

fun envinit_std :: "'n nvops \<Rightarrow> stdenv list \<Rightarrow> 'n env \<Rightarrow> 'n env" where
  "envinit_std ops [] s = s"
| "envinit_std ops (sp # tab) s =
     envinit_std ops tab
       (if getenv (se_name sp) s = None
        then snd (setenv ops (se_name sp) (Some (se_init sp)) s) else s)"

definition envinit :: "'n nvops \<Rightarrow> 'n env \<Rightarrow> 'n env" where
  "envinit ops s =
     (let s1 = s\<lparr>envvar := replicate NVAR empty_pair\<rparr>;
          (vars, m) = tgt_mapenv ops (nv s1);
          s2 = envinit_map vars (s1\<lparr>nv := m\<rparr>);
          s3 = s2\<lparr>envinited := True\<rparr>
      in envinit_std ops stdenvtab s3)"

text \<open>\<open>None\<close>: the name is a standard variable without a list of values, and the C code
  reads the list at the null pointer.\<close>

definition matchenv :: "cstr \<Rightarrow> 'n env \<Rightarrow> int option" where
  "matchenv name s =
     (case getstdenv name of
        None \<Rightarrow> Some (- 1)
      | Some ep \<Rightarrow>
          map_option (\<lambda>vals. matchval vals
            (Some (case getenv name s of None \<Rightarrow> [] | Some v \<Rightarrow> v))) (se_values ep))"

definition mapenv :: "'n env \<Rightarrow> (cstr \<times> cstr option) list" where
  "mapenv s = [(n, ep_value ep). ep \<leftarrow> envvar s, n \<leftarrow> (case ep_name ep of None \<Rightarrow> [] | Some n \<Rightarrow> [n])]"

section \<open>The environment block of a client program\<close>

fun envsize :: "envpair list \<Rightarrow> nat \<times> nat" where
  "envsize [] = (0, 0)"
| "envsize (ep # eps) =
     (case envsize eps of (ec, slen) \<Rightarrow>
        case ep_name ep of
          None \<Rightarrow> (ec, slen)
        | Some n \<Rightarrow>
            (ec + 1, slen + (strlen n + 2)
               + (case ep_value ep of None \<Rightarrow> 0 | Some v \<Rightarrow> strlen v)))"

text \<open>\<open>envbuild\<close>: the vector, whose words are the offset of a string in the string area or a null pointer, and
  the string area. The result is \<open>None\<close> when a store would run past the end of one of them. \<open>sprintf (ssp, ''%s='', n)\<close> is a string copy.\<close>

definition put_word :: "nat option list \<Rightarrow> nat \<Rightarrow> nat option \<Rightarrow> nat option list option" where
  "put_word v vsp x = (if vsp < length v then Some (v[vsp := x]) else None)"

fun envbuild :: "envpair list \<Rightarrow> nat option list \<Rightarrow> nat \<Rightarrow> cbuf \<Rightarrow> nat \<Rightarrow> (nat option list \<times> cbuf) option" where
  "envbuild [] v vsp b ssp = map_option (\<lambda>v'. (v', b)) (put_word v vsp None)"
| "envbuild (ep # eps) v vsp b ssp =
     (case ep_name ep of
        None \<Rightarrow> envbuild eps v vsp b ssp
      | Some n \<Rightarrow>
          Option.bind (put_word v vsp (Some ssp)) (\<lambda>v1.
          Option.bind (strcpy_loop b ssp (n @ ''='')) (\<lambda>b1.
            let ssp1 = ssp + strlen (n @ ''='') + 1
            in case ep_value ep of
                 None \<Rightarrow> envbuild eps v1 (vsp + 1) b1 ssp1
               | Some w \<Rightarrow>
                   Option.bind (strcpy_loop b1 (ssp1 - 1) w) (\<lambda>b2.
                     envbuild eps v1 (vsp + 1) b2 (ssp1 + strlen w)))))"

section \<open>The contract of a name table\<close>

text \<open>\<open>look\<close> and \<open>put\<close> over a state that satisfies \<open>inv\<close>, names with the same \<open>key\<close> being
  the same name; a put may fail.\<close>

locale kv_store =
  fixes key :: "'a \<Rightarrow> 'k" and okn :: "'a \<Rightarrow> bool" and inv :: "'s \<Rightarrow> bool"
    and look :: "'a \<Rightarrow> 's \<Rightarrow> 'v option" and put :: "'a \<Rightarrow> 'v \<Rightarrow> 's \<Rightarrow> bool \<times> 's"
  assumes look_key: "inv s \<Longrightarrow> okn m \<Longrightarrow> okn n \<Longrightarrow> key m = key n \<Longrightarrow> look m s = look n s"
    and put_inv: "inv s \<Longrightarrow> okn n \<Longrightarrow> inv (snd (put n v s))"
    and put_get: "inv s \<Longrightarrow> okn n \<Longrightarrow> fst (put n v s) \<Longrightarrow> look n (snd (put n v s)) = Some v"
    and put_frame: "inv s \<Longrightarrow> okn n \<Longrightarrow> okn m \<Longrightarrow> key m \<noteq> key n \<Longrightarrow>
      look m (snd (put n v s)) = look m s"
begin

lemma look_put:
  "inv s \<Longrightarrow> okn n \<Longrightarrow> okn m \<Longrightarrow> fst (put n v s) \<Longrightarrow>
   look m (snd (put n v s)) = (if key m = key n then Some v else look m s)"
  using put_get [of s n v] put_frame [of s n m v] look_key [of "snd (put n v s)" m n]
    put_inv [of s n v] by auto

text \<open>A sequence of puts, the result of each ignored, as a start-up script does it.\<close>

fun puts :: "('a \<times> 'v) list \<Rightarrow> 's \<Rightarrow> 's" where
  "puts [] s = s"
| "puts ((n, v) # xs) s = puts xs (snd (put n v s))"

fun all_put :: "('a \<times> 'v) list \<Rightarrow> 's \<Rightarrow> bool" where
  "all_put [] s = True"
| "all_put ((n, v) # xs) s = (fst (put n v s) \<and> all_put xs (snd (put n v s)))"

lemma puts_inv: "inv s \<Longrightarrow> \<forall>p \<in> set xs. okn (fst p) \<Longrightarrow> inv (puts xs s)"
  by (induction xs s rule: puts.induct) (auto simp: put_inv)

lemma puts_frame:
  "inv s \<Longrightarrow> okn m \<Longrightarrow> \<forall>p \<in> set xs. okn (fst p) \<and> key (fst p) \<noteq> key m \<Longrightarrow> look m (puts xs s) = look m s"
proof (induction xs s rule: puts.induct)
  case (2 n v xs s)
  then show ?case using put_frame [of s n m v] put_inv [of s n v] by auto
qed simp

text \<open>The last value put under a name is the one found.\<close>

lemma puts_last:
  assumes "inv s" "okn m" "\<forall>p \<in> set (xs @ (n, v) # ys). okn (fst p)"
    and "key n = key m" "\<forall>p \<in> set ys. key (fst p) \<noteq> key m"
    and "fst (put n v (puts xs s))"
  shows "look m (puts (xs @ (n, v) # ys) s) = Some v"
proof -
  have app: "puts (us @ ws) t = puts ws (puts us t)" for us ws t
    by (induction us t rule: puts.induct) auto
  let ?t = "snd (put n v (puts xs s))"
  have i: "inv (puts xs s)" using assms by (intro puts_inv) auto
  have "look m (puts ys ?t) = look m ?t"
    using assms i put_inv by (intro puts_frame) auto
  also have "\<dots> = Some v" using look_put [OF i, of n m v] assms by auto
  finally show ?thesis by (simp add: app)
qed

end

section \<open>The table of slots\<close>

definition name_key :: "cstr \<Rightarrow> cstr" where "name_key n = map toupper n"

definition slot_val :: "envpair \<Rightarrow> cstr" where
  "slot_val ep = (case ep_value ep of None \<Rightarrow> [] | Some v \<Rightarrow> v)"

text \<open>Slot \<open>i\<close> is in use under the name \<open>n\<close>.\<close>

definition used :: "envpair list \<Rightarrow> nat \<Rightarrow> cstr \<Rightarrow> bool" where
  "used eps i n \<longleftrightarrow> i < length eps \<and> ep_name (eps ! i) = Some n"

definition slots_ok :: "envpair list \<Rightarrow> bool" where
  "slots_ok eps \<longleftrightarrow>
     (\<forall>i n. used eps i n \<longrightarrow> wf_cstr n) \<and>
     (\<forall>ep \<in> set eps. ep_name ep = None \<longrightarrow> ep_value ep = None) \<and>
     (\<forall>i j n m. used eps i n \<and> used eps j m \<and> name_key n = name_key m \<longrightarrow> i = j)"

definition env_ok :: "'n env \<Rightarrow> bool" where
  "env_ok s \<longleftrightarrow> length (envvar s) = NVAR \<and> slots_ok (envvar s)"

lemma striequ_key: "wf_cstr s \<Longrightarrow> wf_cstr t \<Longrightarrow> striequ s t \<longleftrightarrow> name_key s = name_key t"
  by (simp add: striequ_iff name_key_def)

lemma used_Cons: "used (ep # eps) i n \<longleftrightarrow>
    (i = 0 \<and> ep_name ep = Some n) \<or> (\<exists>j. i = Suc j \<and> used eps j n)"
  by (cases i) (auto simp: used_def)

lemma slots_ok_Cons: "slots_ok (ep # eps) \<Longrightarrow> slots_ok eps"
  unfolding slots_ok_def by (metis used_Cons nat.inject list.set_intros(2))

lemma find_env_Some:
  assumes "slots_ok eps" "wf_cstr m"
  shows "find_env m eps = Some v \<longleftrightarrow>
    (\<exists>i n. used eps i n \<and> name_key n = name_key m \<and> v = slot_val (eps ! i))"
  using assms
proof (induction eps)
  case Nil
  then show ?case by (simp add: used_def)
next
  case (Cons ep eps)
  note ok = slots_ok_Cons [OF Cons.prems(1)]
  show ?case
  proof (cases "\<exists>n. ep_name ep = Some n \<and> striequ m n")
    case True
    then obtain n where n: "ep_name ep = Some n" "striequ m n" by blast
    have u0: "used (ep # eps) 0 n" using n by (simp add: used_def)
    then have k: "name_key n = name_key m"
      using n Cons.prems by (simp add: slots_ok_def striequ_key)
    have "i = 0" if "used (ep # eps) i n'" "name_key n' = name_key m" for i n'
      using Cons.prems(1) that u0 k unfolding slots_ok_def by metis
    then have "(\<exists>i n. used (ep # eps) i n \<and> name_key n = name_key m \<and> v = slot_val ((ep # eps) ! i))
        \<longleftrightarrow> v = slot_val ep" using u0 k by (metis nth_Cons_0)
    moreover have "find_env m (ep # eps) = Some (slot_val ep)" using n by (simp add: slot_val_def)
    ultimately show ?thesis by auto
  next
    case False
    then have "find_env m (ep # eps) = find_env m eps" by (auto split: option.splits)
    moreover have "(\<exists>i n. used (ep # eps) i n \<and> name_key n = name_key m \<and> v = slot_val ((ep # eps) ! i))
        \<longleftrightarrow> (\<exists>i n. used eps i n \<and> name_key n = name_key m \<and> v = slot_val (eps ! i))"
    proof -
      have "name_key n \<noteq> name_key m" if "ep_name ep = Some n" for n
        using False that Cons.prems used_Cons [of ep eps 0 n]
        by (metis slots_ok_def striequ_key)
      then have "used (ep # eps) i n \<and> name_key n = name_key m \<longleftrightarrow>
          (\<exists>j. i = Suc j \<and> used eps j n \<and> name_key n = name_key m)" for i n
        by (auto simp: used_Cons)
      then show ?thesis by (metis nth_Cons_Suc)
    qed
    ultimately show ?thesis using Cons.IH [OF ok Cons.prems(2)] by simp
  qed
qed

lemma find_env_None:
  assumes "slots_ok eps" "wf_cstr m"
  shows "find_env m eps = None \<longleftrightarrow> \<not> (\<exists>i n. used eps i n \<and> name_key n = name_key m)"
  using find_env_Some [OF assms] by (cases "find_env m eps") (auto, metis option.distinct(1))

lemma find_slot_Some:
  "fst (find_slot name eps i bp) = Some k \<Longrightarrow> \<exists>d n. k = i + d \<and> used eps d n \<and> striequ name n"
proof (induction name eps i bp rule: find_slot.induct)
  case (2 name ep eps i bp)
  show ?case
  proof (cases "\<exists>n. ep_name ep = Some n \<and> striequ name n")
    case True
    then show ?thesis using "2.prems" by (auto simp: used_Cons)
  next
    case False
    then obtain bp' where "fst (find_slot name eps (Suc i) bp') = Some k"
      using "2.prems" by (auto split: if_splits option.splits)
    moreover from False this have "\<exists>d n. k = Suc i + d \<and> used eps d n \<and> striequ name n"
      using 2 by (cases "ep_name ep = None \<and> bp = None") (auto split: option.splits if_splits)
    ultimately show ?thesis by (metis add_Suc_right add_Suc used_Cons)
  qed
qed simp

lemma find_slot_None:
  "fst (find_slot name eps i bp) = None \<Longrightarrow> used eps d n \<Longrightarrow> \<not> striequ name n"
proof (induction name eps i bp arbitrary: d rule: find_slot.induct)
  case (1 name i bp)
  then show ?case by (simp add: used_def)
next
  case (2 name ep eps i bp)
  then show ?case by (auto simp: used_Cons split: if_splits option.splits)
qed

lemma find_slot_free:
  "snd (find_slot name eps i bp) = Some k \<Longrightarrow>
   bp = Some k \<or> (\<exists>d. k = i + d \<and> d < length eps \<and> ep_name (eps ! d) = None)"
proof (induction name eps i bp rule: find_slot.induct)
  case (2 name ep eps i bp)
  have shift: "\<exists>d. k = i + d \<and> d < length (ep # eps) \<and> ep_name ((ep # eps) ! d) = None"
    if "\<exists>d. k = Suc i + d \<and> d < length eps \<and> ep_name (eps ! d) = None"
    using that by (metis Suc_less_eq add_Suc add_Suc_right length_Cons nth_Cons_Suc)
  have here: "\<exists>d. k = i + d \<and> d < length (ep # eps) \<and> ep_name ((ep # eps) ! d) = None"
    if "k = i" "ep_name ep = None" using that by (intro exI [of _ 0]) simp
  show ?case
    using 2 shift here by (auto simp del: length_Cons split: if_splits option.splits)
qed simp

text \<open>Slot \<open>i\<close> belongs to the name: it is the slot of the name, or it is free and the name
  has no slot.\<close>

definition slot_for :: "cstr \<Rightarrow> envpair list \<Rightarrow> nat \<Rightarrow> bool" where
  "slot_for name eps i \<longleftrightarrow> i < length eps \<and>
     (\<forall>j n. used eps j n \<and> name_key n = name_key name \<longrightarrow> j = i) \<and>
     (\<forall>n. ep_name (eps ! i) = Some n \<longrightarrow> name_key n = name_key name)"

text \<open>An entry that may stand in the slot of the name.\<close>

definition entry_for :: "cstr \<Rightarrow> envpair \<Rightarrow> bool" where
  "entry_for name ep \<longleftrightarrow>
     (\<forall>n. ep_name ep = Some n \<longrightarrow> wf_cstr n \<and> name_key n = name_key name) \<and>
     (ep_name ep = None \<longrightarrow> ep_value ep = None)"

lemma used_update:
  "i < length eps \<Longrightarrow>
   used (eps[i := ep]) j n \<longleftrightarrow> (if j = i then ep_name ep = Some n else used eps j n)"
  by (auto simp: used_def nth_list_update)

lemma slots_wf: "slots_ok eps \<Longrightarrow> used eps i n \<Longrightarrow> wf_cstr n"
  and slots_free: "slots_ok eps \<Longrightarrow> x \<in> set eps \<Longrightarrow> ep_name x = None \<Longrightarrow> ep_value x = None"
  and slots_uniq: "slots_ok eps \<Longrightarrow> used eps i n \<Longrightarrow> used eps j m \<Longrightarrow> name_key n = name_key m \<Longrightarrow> i = j"
  unfolding slots_ok_def by blast+

lemma slot_for_less: "slot_for name eps i \<Longrightarrow> i < length eps"
  and slot_for_used: "slot_for name eps i \<Longrightarrow> used eps j n \<Longrightarrow> name_key n = name_key name \<Longrightarrow> j = i"
  and slot_for_key: "slot_for name eps i \<Longrightarrow> used eps i n \<Longrightarrow> name_key n = name_key name"
  unfolding slot_for_def used_def by blast+

lemma slots_ok_update:
  assumes ok: "slots_ok eps" and sl: "slot_for name eps i" and en: "entry_for name ep"
  shows "slots_ok (eps[i := ep])"
proof -
  note u = used_update [OF slot_for_less [OF sl]]
  have en1: "ep_name ep = Some n \<Longrightarrow> wf_cstr n \<and> name_key n = name_key name" for n
    using en by (simp add: entry_for_def)
  have en2: "ep_name ep = None \<Longrightarrow> ep_value ep = None"
    using en by (simp add: entry_for_def)
  have "wf_cstr n" if "used (eps[i := ep]) j n" for j n
    using that slots_wf [OF ok] en1 u by metis
  moreover have "ep_value x = None" if "x \<in> set (eps[i := ep])" "ep_name x = None" for x
  proof -
    have "x = ep \<or> x \<in> set eps" using that(1) set_update_subset_insert [of eps i ep] by blast
    then show ?thesis using slots_free [OF ok _ that(2)] en2 that(2) by (elim disjE) simp_all
  qed
  moreover have "j = k"
    if a: "used (eps[i := ep]) j n" "used (eps[i := ep]) k m" and key: "name_key n = name_key m" for j k n m
  proof (cases "j = i \<or> k = i")
    case True
    then show ?thesis using a key en1 slot_for_used [OF sl] unfolding u by metis
  next
    case False
    then show ?thesis using a key slots_uniq [OF ok] unfolding u by metis
  qed
  ultimately show ?thesis unfolding slots_ok_def by blast
qed

lemma find_env_update:
  assumes ok: "slots_ok eps" and sl: "slot_for name eps i" and en: "entry_for name ep"
    and m: "wf_cstr m"
  shows "find_env m (eps[i := ep]) =
    (if name_key m = name_key name
     then map_option (\<lambda>_. slot_val ep) (ep_name ep) else find_env m eps)"
proof -
  note i = slot_for_less [OF sl]
  note ok' = slots_ok_update [OF ok sl en]
  note u = used_update [OF i]
  have en1: "ep_name ep = Some n \<Longrightarrow> name_key n = name_key name" for n
    using en by (simp add: entry_for_def)
  have iff: "find_env m (eps[i := ep]) = Some v \<longleftrightarrow>
      (if name_key m = name_key name then ep_name ep \<noteq> None \<and> v = slot_val ep
       else find_env m eps = Some v)" for v
  proof (cases "name_key m = name_key name")
    case True
    then have "used (eps[i := ep]) j n \<and> name_key n = name_key m \<longleftrightarrow> j = i \<and> ep_name ep = Some n" for j n
      using slot_for_used [OF sl] en1 unfolding u by metis
    then show ?thesis using True i unfolding find_env_Some [OF ok' m]
      by (metis (no_types, lifting) nth_list_update_eq option.collapse option.distinct(1))
  next
    case False
    have "used (eps[i := ep]) j n \<and> name_key n = name_key m \<and> v = slot_val (eps[i := ep] ! j) \<longleftrightarrow>
        used eps j n \<and> name_key n = name_key m \<and> v = slot_val (eps ! j)" for j n
      using slot_for_key [OF sl] en1 False unfolding u by (metis nth_list_update_neq)
    then show ?thesis using False
      unfolding find_env_Some [OF ok' m] find_env_Some [OF ok m] by simp
  qed
  show ?thesis
  proof (cases "find_env m (eps[i := ep])")
    case None
    have "ep_name ep = None" if "name_key m = name_key name" using None iff [of "slot_val ep"] that by simp
    moreover have "find_env m eps = None" if "name_key m \<noteq> name_key name"
      using None iff that by (cases "find_env m eps") auto
    ultimately show ?thesis using None by simp
  next
    case (Some v)
    then show ?thesis using iff [of v] by (auto split: if_splits)
  qed
qed

section \<open>What setting a variable does\<close>

lemma malloc_env [simp]:
  "malloc s = (b, s') \<Longrightarrow> envvar s' = envvar s \<and> envinited s' = envinited s \<and> nv s' = nv s
     \<and> moresz s' = moresz s \<and> heaptop s' = heaptop s"
  by (auto simp: malloc_def split: list.splits)

lemma check_std_env:
  "check_std name v s = (b, s') \<Longrightarrow>
   envvar s' = envvar s \<and> envinited s' = envinited s \<and> nv s' = nv s \<and> allocs s' = allocs s"
  by (auto simp: check_std_def call_chg_def chg_moresz_def chg_heaptop_def
      split: option.splits chgfunc.splits prod.splits if_splits bind_splits)

lemma set_slot_simps [simp]:
  "envvar (set_slot i ep s) = (envvar s)[i := ep]" "envinited (set_slot i ep s) = envinited s"
  "nv (set_slot i ep s) = nv s" "allocs (set_slot i ep s) = allocs s"
  by (simp_all add: set_slot_def)

lemma claim_slot_env:
  assumes ok: "env_ok s" and name: "wf_cstr name" and c: "claim_slot name s = (r, s')"
  shows "envinited s' = envinited s \<and> nv s' = nv s \<and>
    (case r of
       None \<Rightarrow> envvar s' = envvar s
     | Some i \<Rightarrow> slot_for name (envvar s) i \<and>
         (\<exists>ep. envvar s' = (envvar s)[i := ep] \<and> entry_for name ep \<and> ep_name ep \<noteq> None
            \<and> ep_value ep = None))"
proof -
  obtain f b where fs: "find_slot name (envvar s) 0 None = (f, b)"
    by (cases "find_slot name (envvar s) 0 None")
  have so: "slots_ok (envvar s)" using ok by (simp add: env_ok_def)
  show ?thesis
  proof (cases f)
    case (Some i)
    define ep where "ep = (envvar s ! i)\<lparr>ep_value := None\<rparr>"
    obtain n where u: "used (envvar s) i n" "striequ name n"
      using find_slot_Some [of name "envvar s" 0 None i] fs Some by auto
    have k: "name_key n = name_key name" "wf_cstr n"
      using u slots_wf [OF so u(1)] name striequ_key [of name n] by auto
    have "slot_for name (envvar s) i"
      unfolding slot_for_def
    proof (intro conjI allI impI)
      show "i < length (envvar s)" using u(1) by (simp add: used_def)
      show "j = i" if "used (envvar s) j m \<and> name_key m = name_key name" for j m
        using slots_uniq [OF so _ u(1)] that k(1) by metis
      show "name_key m = name_key name" if "ep_name (envvar s ! i) = Some m" for m
        using that u(1) k(1) by (simp add: used_def)
    qed
    moreover have "r = Some i" "s' = set_slot i ep s"
      using c fs Some by (auto simp: claim_slot_def ep_def)
    moreover have "entry_for name ep" "ep_name ep \<noteq> None" "ep_value ep = None"
      using u(1) k by (auto simp: entry_for_def used_def ep_def)
    ultimately show ?thesis by auto
  next
    case None
    have nu: "name_key n \<noteq> name_key name" if "used (envvar s) j n" for j n
      using find_slot_None [of name "envvar s" 0 None j n] None fs that name
        slots_wf [OF so that] striequ_key [of name n] by auto
    show ?thesis
    proof (cases b)
      case None
      then show ?thesis using c fs \<open>f = None\<close> by (auto simp: claim_slot_def)
    next
      case (Some i)
      then have i: "i < length (envvar s)" "ep_name (envvar s ! i) = None"
        using find_slot_free [of name "envvar s" 0 None i] fs by auto
      then have v: "ep_value (envvar s ! i) = None" using slots_free [OF so] nth_mem by blast
      obtain a s1 where m: "malloc s = (a, s1)" by (cases "malloc s")
      note e = malloc_env [OF m]
      define ep where "ep = (envvar s ! i)\<lparr>ep_name := Some name\<rparr>"
      have r: "r = (if a then Some i else None)" "s' = (if a then set_slot i ep s1 else s1)"
        using c fs \<open>f = None\<close> Some m e by (auto simp: claim_slot_def ep_def)
      have "slot_for name (envvar s) i" using i nu unfolding slot_for_def by auto
      moreover have "entry_for name ep" "ep_name ep \<noteq> None" "ep_value ep = None"
        using v name by (auto simp: entry_for_def ep_def)
      ultimately show ?thesis using e by (auto simp: r)
    qed
  qed
qed

lemma env_setenv_env:
  assumes ok: "env_ok s" and name: "wf_cstr name" and c: "env_setenv name v s = (r, s')"
  shows "envinited s' = envinited s \<and> nv s' = nv s \<and>
    (\<not> r \<and> envvar s' = envvar s \<or>
     (\<exists>i ep. slot_for name (envvar s) i \<and> entry_for name ep \<and> envvar s' = (envvar s)[i := ep] \<and>
       (if r then ep_name ep \<noteq> None \<and> slot_val ep = (case v of None \<Rightarrow> [] | Some w \<Rightarrow> w)
        else ep_name ep = None)))"
proof -
  obtain ok1 s1 where ch: "check_std name v s = (ok1, s1)" by (cases "check_std name v s")
  note e1 = check_std_env [OF ch]
  have ok_s1: "env_ok s1" using ok e1 by (simp add: env_ok_def)
  obtain cl s2 where cs: "claim_slot name s1 = (cl, s2)" by (cases "claim_slot name s1")
  note e2 = claim_slot_env [OF ok_s1 name cs]
  show ?thesis
  proof (cases "ok1 \<and> cl \<noteq> None")
    case False
    then have "r = False \<and> (s' = s1 \<or> s' = s2 \<and> cl = None)"
      using c ch cs by (cases ok1) (auto simp: env_setenv_def)
    then show ?thesis using e1 e2 by auto
  next
    case True
    then obtain i where i: "cl = Some i" by auto
    with e2 e1 obtain ep where ep: "slot_for name (envvar s) i" "envvar s2 = (envvar s)[i := ep]"
      "entry_for name ep" "ep_name ep \<noteq> None" "ep_value ep = None"
      and i2: "envinited s2 = envinited s" "nv s2 = nv s"
      by auto
    note len = slot_for_less [OF ep(1)]
    show ?thesis
    proof (cases v)
      case None
      then have "r = True \<and> s' = s2" using c ch cs i True by (simp add: env_setenv_def)
      moreover have "slot_val ep = []" using ep(5) by (simp add: slot_val_def)
      ultimately show ?thesis using None i2 ep by fastforce
    next
      case (Some w)
      obtain b s3 where m: "malloc s2 = (b, s3)" by (cases "malloc s2")
      note e3 = malloc_env [OF m]
      define ep' where "ep' = (if b then ep\<lparr>ep_value := Some w\<rparr> else ep\<lparr>ep_name := None\<rparr>)"
      have sl: "envvar s3 ! i = ep" using e3 ep len by simp
      have r: "r = b" "s' = set_slot i ep' s3"
        using c ch cs i True Some m sl by (simp_all add: env_setenv_def ep'_def split: if_splits)
      have "entry_for name ep'" "envvar s' = (envvar s)[i := ep']"
        using ep(2-5) e3 r by (auto simp: entry_for_def ep'_def)
      moreover have "if r then ep_name ep' \<noteq> None \<and> slot_val ep' = w else ep_name ep' = None"
        using ep(4) r by (auto simp: ep'_def slot_val_def)
      moreover have "envinited s' = envinited s" "nv s' = nv s" using e3 i2 r by simp_all
      ultimately show ?thesis using Some ep(1) by fastforce
    qed
  qed
qed

definition default_val :: "cstr option \<Rightarrow> cstr" where
  "default_val v = (case v of None \<Rightarrow> [] | Some w \<Rightarrow> w)"

lemma env_setenv_ok: "env_ok s \<Longrightarrow> wf_cstr name \<Longrightarrow> env_ok (snd (env_setenv name v s))"
proof -
  assume a: "env_ok s" "wf_cstr name"
  obtain r s' where c: "env_setenv name v s = (r, s')" by (cases "env_setenv name v s")
  from env_setenv_env [OF a c] a(1) show ?thesis
    by (auto simp: c env_ok_def intro: slots_ok_update)
qed

lemma env_setenv_simps [simp]:
  "env_ok s \<Longrightarrow> wf_cstr name \<Longrightarrow> envinited (snd (env_setenv name v s)) = envinited s"
  "env_ok s \<Longrightarrow> wf_cstr name \<Longrightarrow> nv (snd (env_setenv name v s)) = nv s"
  using env_setenv_env [of s name v "fst (env_setenv name v s)" "snd (env_setenv name v s)"] by auto

lemma find_env_setenv:
  assumes "env_ok s" "wf_cstr name" "wf_cstr m" "env_setenv name v s = (r, s')"
  shows "find_env m (envvar s') =
    (if name_key m \<noteq> name_key name then find_env m (envvar s)
     else if r then Some (default_val v)
     else if envvar s' = envvar s then find_env m (envvar s) else None)"
proof -
  have ok: "slots_ok (envvar s)" using assms(1) by (simp add: env_ok_def)
  show ?thesis
  proof (cases "envvar s' = envvar s \<and> \<not> r")
    case True
    then show ?thesis by simp
  next
    case False
    then obtain i ep where e: "slot_for name (envvar s) i" "entry_for name ep"
      "envvar s' = (envvar s)[i := ep]"
      "if r then ep_name ep \<noteq> None \<and> slot_val ep = default_val v else ep_name ep = None"
      using env_setenv_env [OF assms(1,2,4)] unfolding default_val_def by auto
    then show ?thesis using find_env_update [OF ok e(1,2) assms(3)] False
      by (auto split: if_splits)
  qed
qed

definition env_look :: "cstr \<Rightarrow> 'n env \<Rightarrow> cstr option" where
  "env_look m s = find_env m (envvar s)"

definition env_put :: "cstr \<Rightarrow> cstr \<Rightarrow> 'n env \<Rightarrow> bool \<times> 'n env" where
  "env_put n v s = env_setenv n (Some v) s"

interpretation env: kv_store name_key wf_cstr env_ok env_look env_put
proof unfold_locales
  fix s :: "'n env" and m n v
  show "env_ok s \<Longrightarrow> wf_cstr m \<Longrightarrow> wf_cstr n \<Longrightarrow> name_key m = name_key n \<Longrightarrow> env_look m s = env_look n s"
    unfolding env_look_def env_ok_def
    by (metis find_env_Some not_None_eq)
  assume s: "env_ok s" "wf_cstr n"
  obtain r s' where c: "env_setenv n (Some v) s = (r, s')" by (cases "env_setenv n (Some v) s")
  show "env_ok (snd (env_put n v s))" using env_setenv_ok [OF s] by (simp add: env_put_def)
  show "fst (env_put n v s) \<Longrightarrow> env_look n (snd (env_put n v s)) = Some v"
    using find_env_setenv [OF s s(2) c] by (simp add: c env_put_def env_look_def default_val_def)
  show "wf_cstr m \<Longrightarrow> name_key m \<noteq> name_key n \<Longrightarrow> env_look m (snd (env_put n v s)) = env_look m s"
    using find_env_setenv [OF s _ c, of m] by (simp add: c env_put_def env_look_def)
qed

lemma do_setenv_cases:
  assumes "do_setenv ops name v temp s = (r, s')"
  shows "\<exists>b s1. env_setenv name v s = (b, s1) \<and> envvar s' = envvar s1 \<and> envinited s' = envinited s1 \<and>
    (\<not> b \<longrightarrow> r = 0 \<and> nv s' = nv s1)"
  using assms by (auto simp: do_setenv_def split: prod.splits if_splits)

text \<open>A non-volatile store that is a list of assignments, for concrete runs.\<close>

definition list_ops :: "(cstr \<times> cstr option) list nvops" where
  "list_ops = \<lparr>tgt_mapenv = (\<lambda>n. (n, n)),
     tgt_setenv = (\<lambda>name v n. (1, filter (\<lambda>(m, _). m \<noteq> name) n @ [(name, v)])),
     tgt_unsetenv = (\<lambda>name n. if \<exists>(m, _) \<in> set n. m = name
       then (1, filter (\<lambda>(m, _). m \<noteq> name) n) else (0, n))\<rparr>"

definition blank_env :: "'n \<Rightarrow> 'n env" where
  "blank_env n = \<lparr>envvar = replicate NVAR empty_pair, envinited = True, moresz = 10,
     heaptop = 0x80100000, allocs = [], nv = n\<rparr>"

lemma used_replicate: "\<not> used (replicate k empty_pair) i n"
  by (simp add: used_def empty_pair_def)

lemma blank_env_ok [simp]: "env_ok (blank_env n)"
  unfolding env_ok_def blank_env_def slots_ok_def by (auto simp: used_replicate) (simp add: empty_pair_def)

text \<open>C23. After a successful \<open>setenv\<close> a lookup finds the new value under every spelling of the
  name (names are compared without case), and every other variable keeps its value.\<close>
theorem setenv_getenv:
  assumes "env_ok s" "envinited s" "wf_cstr name" "wf_cstr m"
    and "do_setenv ops name (Some v) temp s = (r, s')" "r \<noteq> 0"
  shows "getenv m s' = (if name_key m = name_key name then Some v else getenv m s)"
proof -
  obtain b s1 where b: "env_setenv name (Some v) s = (b, s1)" "envvar s' = envvar s1"
    "envinited s' = envinited s1" "\<not> b \<longrightarrow> r = 0"
    using do_setenv_cases [OF assms(5)] by blast
  then have "b" "env_put name v s = (True, s1)" using assms(6) by (auto simp: env_put_def)
  moreover have "envinited s1" using env_setenv_simps(1) [OF assms(1,3), of "Some v"] b assms(2) by simp
  ultimately show ?thesis
    using env.look_put [OF assms(1,3,4), of v] b assms(2) by (simp add: getenv_def env_look_def)
qed

theorem setenv_getenv_witness:
  "getenv ''FOO'' (snd (do_setenv list_ops ''Foo'' (Some ''1'') False (blank_env []))) = Some ''1''"
proof -
  let ?r = "do_setenv list_ops ''Foo'' (Some ''1'') False (blank_env [])"
  have r: "fst ?r = 1" by code_simp
  then have e: "?r = (1, snd ?r)" by (metis prod.collapse)
  have "envinited (blank_env [])" by (simp add: blank_env_def)
  from setenv_getenv [OF blank_env_ok this _ _ e, of "''FOO''"] show ?thesis
    by (simp add: name_key_def wf_cstr_def)
qed

section \<open>Standard variables\<close>

text \<open>The words of the list of allowed values.\<close>

function words :: "cstr \<Rightarrow> cstr list" where
  "words t = (case getword t of None \<Rightarrow> [] | Some (w, t') \<Rightarrow> w # words t')"
  by pat_completeness auto
termination by (relation "measure length") (auto dest: getword_Some)

declare words.simps [simp del]

lemma matchval_loop_words:
  "matchval_loop t v j =
    (case find (\<lambda>i. striequ_opt (words t ! i) v) [0..<length (words t)] of
       None \<Rightarrow> - 2 | Some i \<Rightarrow> j + int i)"
proof (induction t v j rule: matchval_loop.induct)
  case (1 t v j)
  show ?case
  proof (cases "getword t")
    case None
    then show ?thesis by (simp add: matchval_loop.simps [of t] words.simps [of t])
  next
    case (Some p)
    then obtain w t' where p: "getword t = Some (w, t')" by (cases p) auto
    have upt: "[0..<length (words t)] = 0 # map Suc [0..<length (words t')]"
      by (simp add: words.simps [of t] p upt_conv_Cons map_Suc_upt del: upt_Suc)
    have f: "find (\<lambda>i. striequ_opt ((w # words t') ! i) v) (map Suc is)
        = map_option Suc (find (\<lambda>i. striequ_opt (words t' ! i) v) is)" for "is"
      by (induction "is") auto
    show ?thesis
      using 1 [OF p refl] unfolding upt
      by (auto simp: matchval_loop.simps [of t] words.simps [of t] p f split: option.splits)
  qed
qed

lemma matchval_nonneg:
  "0 \<le> matchval vals v \<longleftrightarrow> (\<exists>w \<in> set (words vals). striequ_opt w v)"
proof (cases "find (\<lambda>i. striequ_opt (words vals ! i) v) [0..<length (words vals)]")
  case None
  then have "\<forall>i < length (words vals). \<not> striequ_opt (words vals ! i) v"
    by (simp add: find_None_iff)
  then show ?thesis using None
    unfolding matchval_def matchval_loop_words by (auto simp: in_set_conv_nth)
next
  case (Some i)
  then have "i < length (words vals)" "striequ_opt (words vals ! i) v"
    by (auto simp: find_Some_iff)
  then show ?thesis using Some nth_mem
    unfolding matchval_def matchval_loop_words by auto
qed

text \<open>A successful \<open>_setenv\<close> of a standard variable that has a list of allowed values
  leaves it with a value that \<open>matchenv\<close> recognises, so no caller of \<open>matchenv\<close> meets an
  illegal value of a variable that was set after the start.\<close>
theorem setenv_std_legal:
  assumes "env_ok s" "envinited s" "wf_cstr name"
    and "getstdenv name = Some sp" "se_values sp = Some vals"
    and "env_setenv name (Some v) s = (True, s')"
  shows "getenv name s' = Some v \<and> (\<exists>j \<ge> 0. matchenv name s' = Some j)"
proof -
  obtain ok1 s1 where ch: "check_std name (Some v) s = (ok1, s1)"
    by (cases "check_std name (Some v) s")
  have "ok1" using assms(6) ch by (cases ok1) (auto simp: env_setenv_def)
  have m: "0 \<le> matchval vals (Some v)"
    using ch \<open>ok1\<close> assms(2,4,5) check_std_env [OF ch]
    by (auto simp: check_std_def split: prod.splits if_splits)
  have "getenv name s' = Some v"
    using env.put_get [OF assms(1,3), of v] assms env_setenv_simps(1) [OF assms(1,3), of "Some v"]
    by (simp add: env_put_def getenv_def env_look_def)
  then show ?thesis using m assms(4,5) by (auto simp: matchenv_def)
qed

theorem setenv_std_legal_witness:
  "getenv ''inbase'' (snd (env_setenv ''inbase'' (Some ''AUTO'') (blank_env ()))) = Some ''AUTO''"
proof -
  let ?r = "env_setenv ''inbase'' (Some ''AUTO'') (blank_env ())"
  have "fst ?r = True" by code_simp
  then have e: "?r = (True, snd ?r)" by (metis prod.collapse)
  have g: "getstdenv ''inbase'' = Some
    \<lparr>se_name = ''inbase'', se_init = ''16'', se_values = Some ''auto 8 10 16'', se_chg = None\<rparr>"
    by code_simp
  have "envinited (blank_env ())" by (simp add: blank_env_def)
  then show ?thesis
    using setenv_std_legal [OF blank_env_ok _ _ g _ e]
    by (simp add: wf_cstr_def)
qed

section \<open>Start-up\<close>

lemma envinit_map_puts:
  "envinit_map (map (\<lambda>(n, v). (n, Some v)) xs) s = env.puts xs s"
  by (induction xs arbitrary: s) (auto simp: env_put_def)

lemma setenv_envvar:
  "env_ok s \<Longrightarrow> wf_cstr name \<Longrightarrow> do_setenv ops name v temp s = (r, s') \<Longrightarrow>
   env_ok s' \<and> envinited s' = envinited s"
  using do_setenv_cases [of ops name v temp s r s'] env_setenv_ok [of s name v]
    env_setenv_simps(1) [of s name v]
  unfolding env_ok_def by (metis snd_conv)

lemma setenv_frame:
  assumes "env_ok s" "wf_cstr name" "wf_cstr m" "do_setenv ops name v temp s = (r, s')"
    "name_key m \<noteq> name_key name"
  shows "find_env m (envvar s') = find_env m (envvar s)"
  using do_setenv_cases [OF assms(4)] find_env_setenv [OF assms(1-3), of v] assms(5) by fastforce

lemma envinit_std_ok:
  "env_ok s \<Longrightarrow> \<forall>sp \<in> set tab. wf_cstr (se_name sp) \<Longrightarrow>
   env_ok (envinit_std ops tab s) \<and> envinited (envinit_std ops tab s) = envinited s"
proof (induction tab arbitrary: s)
  case (Cons sp tab)
  obtain r s' where c: "setenv ops (se_name sp) (Some (se_init sp)) s = (r, s')"
    by (cases "setenv ops (se_name sp) (Some (se_init sp)) s")
  have "env_ok s' \<and> envinited s' = envinited s"
    using setenv_envvar [of s "se_name sp"] Cons.prems c by (auto simp: setenv_def)
  then show ?case using Cons c by auto
qed simp

lemma envinit_std_keeps:
  "env_ok s \<Longrightarrow> envinited s \<Longrightarrow> wf_cstr m \<Longrightarrow> \<forall>sp \<in> set tab. wf_cstr (se_name sp) \<Longrightarrow>
   getenv m s = Some v \<Longrightarrow> getenv m (envinit_std ops tab s) = Some v"
proof (induction tab arbitrary: s)
  case (Cons sp tab)
  obtain r s' where c: "setenv ops (se_name sp) (Some (se_init sp)) s = (r, s')"
    by (cases "setenv ops (se_name sp) (Some (se_init sp)) s")
  have s': "env_ok s' \<and> envinited s' = envinited s"
    using setenv_envvar [of s "se_name sp"] Cons.prems c by (auto simp: setenv_def)
  have "getenv m s' = Some v" if none: "getenv (se_name sp) s = None"
  proof -
    have "name_key m \<noteq> name_key (se_name sp)"
      using none Cons.prems env.look_key [of s m "se_name sp"]
      by (auto simp: getenv_def env_look_def)
    then show ?thesis
      using setenv_frame [of s "se_name sp" m ops "Some (se_init sp)" False r s'] Cons.prems c s'
      by (auto simp: setenv_def getenv_def)
  qed
  then show ?case using Cons c s' by auto
qed simp

lemma wf_stdenvtab: "\<forall>sp \<in> set stdenvtab. wf_cstr (se_name sp)"
  by (simp add: stdenvtab_def wf_cstr_def)

lemma envinit_last:
  assumes "tgt_mapenv ops (nv s) = (map (\<lambda>(n, v). (n, Some v)) (xs @ (n, v) # ys), nv')"
    and "\<forall>p \<in> set (xs @ (n, v) # ys). wf_cstr (fst p)" "wf_cstr m" "name_key n = name_key m"
    and "\<forall>p \<in> set ys. name_key (fst p) \<noteq> name_key m"
    and "fst (env_setenv n (Some v) (envinit_map (map (\<lambda>(n, v). (n, Some v)) xs)
           (s\<lparr>envvar := replicate NVAR empty_pair, nv := nv'\<rparr>)))"
  shows "getenv m (envinit ops s) = Some v"
proof -
  define s0 where "s0 = s\<lparr>envvar := replicate NVAR empty_pair, nv := nv'\<rparr>"
  have ok0: "env_ok s0"
    unfolding s0_def env_ok_def slots_ok_def by (auto simp: used_replicate) (simp add: empty_pair_def)
  define s2 where "s2 = env.puts (xs @ (n, v) # ys) s0"
  have look: "env_look m s2 = Some v"
    using env.puts_last [OF ok0 assms(3,2,4,5)] assms(6)
    unfolding s2_def envinit_map_puts s0_def [symmetric] by (simp add: env_put_def)
  have ok2: "env_ok s2" unfolding s2_def by (rule env.puts_inv [OF ok0 assms(2)])
  have "envinit ops s = envinit_std ops stdenvtab (s2\<lparr>envinited := True\<rparr>)"
    using assms(1) envinit_map_puts [of "xs @ (n, v) # ys" s0]
    by (simp add: envinit_def Let_def s2_def s0_def)
  moreover have "getenv m (envinit_std ops stdenvtab (s2\<lparr>envinited := True\<rparr>)) = Some v"
    using ok2 look assms(3)
    by (intro envinit_std_keeps [OF _ _ _ wf_stdenvtab])
      (simp_all add: env_ok_def getenv_def env_look_def)
  ultimately show ?thesis by simp
qed

text \<open>A variable stored in the non-volatile memory has its stored value after the
  start-up: when several entries name it the last one counts, the reset of the RAM table
  and the filling in of the defaults do not touch it.\<close>
theorem envinit_stored:
  assumes "tgt_mapenv ops (nv s) = (map (\<lambda>(n, v). (n, Some v)) (xs @ (n, v) # ys), nv')"
    and "\<forall>p \<in> set (xs @ (n, v) # ys). wf_cstr (fst p)" "wf_cstr m" "name_key n = name_key m"
    and "\<forall>p \<in> set ys. name_key (fst p) \<noteq> name_key m"
    and "fst (env_setenv n (Some v) (envinit_map (map (\<lambda>(n, v). (n, Some v)) xs)
           (s\<lparr>envvar := replicate NVAR empty_pair, nv := nv'\<rparr>)))"
  shows "getenv m (envinit ops s) = Some v"
  by (rule envinit_last [OF assms])

theorem envinit_stored_witness:
  "getenv ''FOO'' (envinit list_ops (blank_env [(''foo'', Some ''1''), (''Foo'', Some ''2''), (''bar'', Some ''3'')]))
     = Some ''2''"
proof -
  have 1: "tgt_mapenv list_ops (nv (blank_env [(''foo'', Some ''1''), (''Foo'', Some ''2''), (''bar'', Some ''3'')]))
      = (map (\<lambda>(n, v). (n, Some v)) ([(''foo'', ''1'')] @ (''Foo'', ''2'') # [(''bar'', ''3'')]),
         [(''foo'', Some ''1''), (''Foo'', Some ''2''), (''bar'', Some ''3'')])"
    by (simp add: list_ops_def blank_env_def)
  have 2: "fst (env_setenv ''Foo'' (Some ''2'') (envinit_map (map (\<lambda>(n, v). (n, Some v)) [(''foo'', ''1'')])
           ((blank_env [(''foo'', Some ''1''), (''Foo'', Some ''2''), (''bar'', Some ''3'')])
             \<lparr>envvar := replicate NVAR empty_pair,
              nv := [(''foo'', Some ''1''), (''Foo'', Some ''2''), (''bar'', Some ''3'')]\<rparr>)))"
    by code_simp
  show ?thesis
    by (rule envinit_stored [OF 1 _ _ _ _ 2]) (simp_all add: wf_cstr_def name_key_def)
qed

section \<open>Removing variables\<close>

text \<open>The slots after \<open>unsetenv\<close>, and the names it removes from the non-volatile store.\<close>

definition unset_slot :: "cstr \<Rightarrow> envpair \<Rightarrow> envpair" where
  "unset_slot pat ep =
     (case ep_name ep of None \<Rightarrow> ep | Some n \<Rightarrow> if strpat n pat then empty_pair else ep)"

definition unset_names :: "cstr \<Rightarrow> envpair list \<Rightarrow> cstr list" where
  "unset_names pat eps = [n. ep \<leftarrow> eps, n \<leftarrow> (case ep_name ep of None \<Rightarrow> [] | Some n \<Rightarrow> [n]), strpat n pat]"

lemma unset_names_Cons:
  "unset_names pat (ep # eps) =
    (case ep_name ep of None \<Rightarrow> [] | Some n \<Rightarrow> if strpat n pat then [n] else []) @ unset_names pat eps"
  by (auto simp: unset_names_def split: option.splits)

lemma unsetenv_loop_user:
  assumes "length (envvar s) = NVAR" "i \<le> NVAR"
    "\<forall>ep \<in> set (drop i (envvar s)). \<forall>n. ep_name ep = Some n \<and> strpat n pat \<longrightarrow> getstdenv n = None"
  shows "envvar (unsetenv_loop ops pat i s) = take i (envvar s) @ map (unset_slot pat) (drop i (envvar s)) \<and>
    nv (unsetenv_loop ops pat i s) = fold (\<lambda>n m. snd (tgt_unsetenv ops n m)) (unset_names pat (drop i (envvar s))) (nv s) \<and>
    envinited (unsetenv_loop ops pat i s) = envinited s"
  using assms
proof (induction ops pat i s rule: unsetenv_loop.induct)
  case (1 ops pat i s)
  show ?case
  proof (cases "i < NVAR")
    case False
    then have "unsetenv_loop ops pat i s = s" by (simp add: unsetenv_loop.simps [of ops pat i s])
    then show ?thesis using False "1.prems" by (simp add: unset_names_def)
  next
    case True
    define ep where "ep = envvar s ! i"
    have i: "i < length (envvar s)" using True "1.prems"(1) by simp
    have d: "drop i (envvar s) = ep # drop (Suc i) (envvar s)"
      using i by (simp add: ep_def Cons_nth_drop_Suc)
    have t: "take (Suc i) (envvar s) = take i (envvar s) @ [ep]"
      using i by (simp add: ep_def take_Suc_conv_app_nth)
    have rest: "\<forall>ep \<in> set (drop (Suc i) (envvar s)). \<forall>n. ep_name ep = Some n \<and> strpat n pat \<longrightarrow> getstdenv n = None"
      using "1.prems"(3) d by simp
    show ?thesis
    proof (cases "ep_name ep")
      case None
      then show ?thesis
        using "1.IH"(1) [OF True] "1.prems" rest True unfolding d
        by (simp add: unsetenv_loop.simps [of ops pat i] ep_def [symmetric] t unset_slot_def unset_names_Cons)
    next
      case (Some n)
      show ?thesis
      proof (cases "strpat n pat")
        case False
        then show ?thesis
          using "1.IH"(4) [OF True] Some "1.prems" rest True unfolding d
          by (simp add: unsetenv_loop.simps [of ops pat i] ep_def [symmetric] t unset_slot_def unset_names_Cons)
      next
        case pat: True
        have std: "getstdenv n = None" using "1.prems"(3) Some pat unfolding d by auto
        obtain r m where u: "tgt_unsetenv ops n (nv s) = (r, m)" by (cases "tgt_unsetenv ops n (nv s)")
        let ?s1 = "set_slot i empty_pair (s\<lparr>nv := m\<rparr>)"
        have e: "unsetenv_loop ops pat i s = unsetenv_loop ops pat (Suc i) ?s1"
          using True Some pat std u by (simp add: unsetenv_loop.simps [of ops pat i] ep_def)
        have t1: "take (Suc i) (envvar ?s1) = take i (envvar s) @ [empty_pair]"
          using i by (simp add: take_Suc_conv_app_nth)
        have d1: "drop (Suc i) (envvar ?s1) = drop (Suc i) (envvar s)" by simp
        have "envvar (unsetenv_loop ops pat (Suc i) ?s1) =
            take (Suc i) (envvar ?s1) @ map (unset_slot pat) (drop (Suc i) (envvar ?s1)) \<and>
          nv (unsetenv_loop ops pat (Suc i) ?s1) =
            fold (\<lambda>n m. snd (tgt_unsetenv ops n m)) (unset_names pat (drop (Suc i) (envvar ?s1))) m \<and>
          envinited (unsetenv_loop ops pat (Suc i) ?s1) = envinited s"
          using "1.IH"(2) [OF True Some [unfolded ep_def] pat std u [symmetric]] rest True "1.prems"(1)
          by (simp add: ep_def)
        then show ?thesis
          unfolding e t1 d1 d using Some pat u by (simp add: unset_slot_def unset_names_Cons)
      qed
    qed
  qed
qed

text \<open>\<open>unsetenv\<close> with a pattern that matches no standard variable in the table empties
  exactly the slots whose name matches, leaves the others as they are, and removes each
  matching name from the non-volatile store in table order.\<close>
theorem unsetenv_user:
  assumes "length (envvar s) = NVAR"
    "\<forall>ep \<in> set (envvar s). \<forall>n. ep_name ep = Some n \<and> strpat n pat \<longrightarrow> getstdenv n = None"
  shows "envvar (unsetenv ops pat s) = map (unset_slot pat) (envvar s) \<and>
    nv (unsetenv ops pat s) = fold (\<lambda>n m. snd (tgt_unsetenv ops n m)) (unset_names pat (envvar s)) (nv s)"
  using unsetenv_loop_user [of s 0 pat ops] assms by (simp add: unsetenv_def)

theorem unsetenv_user_witness:
  "envvar (unsetenv list_ops ''f*'' (set_slot 3 \<lparr>ep_name = Some ''foo'', ep_value = Some ''1''\<rparr> (blank_env [])))
     = envvar (blank_env ([] :: (cstr \<times> cstr option) list))"
proof -
  let ?s = "set_slot 3 \<lparr>ep_name = Some ''foo'', ep_value = Some ''1''\<rparr> (blank_env []) :: (cstr \<times> cstr option) list env"
  have n: "getstdenv ''foo'' = None" by code_simp
  have e: "envvar ?s = replicate 3 empty_pair @ \<lparr>ep_name = Some ''foo'', ep_value = Some ''1''\<rparr> # replicate 60 empty_pair"
    by code_simp
  have m: "strpat ''foo'' ''f*''" by code_simp
  have "envvar (unsetenv list_ops ''f*'' ?s) = map (unset_slot ''f*'') (envvar ?s)"
  proof (rule conjunct1 [OF unsetenv_user])
    show "length (envvar ?s) = NVAR" unfolding e by simp
    show "\<forall>ep \<in> set (envvar ?s). \<forall>n. ep_name ep = Some n \<and> strpat n ''f*'' \<longrightarrow> getstdenv n = None"
      unfolding e using n by (simp add: empty_pair_def)
  qed
  also have "\<dots> = envvar (blank_env [])"
    unfolding e using m replicate_add [of 3 61 empty_pair]
    by (simp add: unset_slot_def blank_env_def empty_pair_def numeral_eq_Suc)
  finally show ?thesis .
qed

section \<open>The environment block\<close>

text \<open>The strings a client program finds.\<close>

definition env_strings :: "envpair list \<Rightarrow> cstr list" where
  "env_strings eps =
    [n @ ''='' @ (case ep_value ep of None \<Rightarrow> [] | Some v \<Rightarrow> v).
       ep \<leftarrow> eps, n \<leftarrow> (case ep_name ep of None \<Rightarrow> [] | Some n \<Rightarrow> [n])]"

fun offsets :: "nat \<Rightarrow> cstr list \<Rightarrow> nat list" where
  "offsets p [] = []"
| "offsets p (s # ss) = p # offsets (p + length s + 1) ss"

definition terminated :: "cstr list \<Rightarrow> cbuf" where
  "terminated ss = concat (map (\<lambda>s. s @ [NUL]) ss)"

lemma env_strings_Cons:
  "env_strings (ep # eps) =
    (case ep_name ep of None \<Rightarrow> [] | Some n \<Rightarrow> [n @ ''='' @ (case ep_value ep of None \<Rightarrow> [] | Some v \<Rightarrow> v)])
      @ env_strings eps"
  by (simp add: env_strings_def split: option.splits)

lemma envsize_strings:
  "envsize eps = (length (env_strings eps), length (terminated (env_strings eps)))"
  by (induction eps)
    (auto simp: env_strings_Cons terminated_def strlen_def split: option.splits, simp_all add: env_strings_def)

lemma put_word_next:
  "put_word v vsp x = (if vsp < length v then Some (take vsp v @ x # drop (Suc vsp) v) else None)"
  by (simp add: put_word_def upd_conv_take_nth_drop)

text \<open>One variable of the environment: its word of the vector and its string.\<close>

lemma envbuild_pair:
  assumes "ep_name ep = Some n" and "w = n @ ''='' @ (case ep_value ep of None \<Rightarrow> [] | Some t \<Rightarrow> t)"
  shows "envbuild (ep # eps) v vsp b ssp =
    (if vsp < length v \<and> ssp + length w < length b
     then envbuild eps (take vsp v @ Some ssp # drop (Suc vsp) v) (vsp + 1)
            (take ssp b @ w @ [NUL] @ drop (ssp + length w + 1) b) (ssp + length w + 1)
     else None)"
proof (cases "ssp + length (n @ ''='') < length b")
  case False
  then show ?thesis using assms by (auto simp: put_word_next strcpy_loop_None split: option.splits)
next
  case True
  define b1 where "b1 = take ssp b @ (n @ ''='') @ [NUL] @ drop (Suc (ssp + length (n @ ''=''))) b"
  have c1: "strcpy_loop b ssp (n @ ''='') = Some b1" unfolding b1_def using True by (rule strcpy_loop_eq)
  have lb1: "length b1 = length b" using True by (simp add: b1_def)
  show ?thesis
  proof (cases "ep_value ep")
    case None
    then show ?thesis using assms True c1 by (simp add: put_word_next strlen_def b1_def)
  next
    case (Some t)
    have w: "w = (n @ ''='') @ t" using assms Some by simp
    show ?thesis
    proof (cases "ssp + length w < length b")
      case False
      then have "strcpy_loop b1 (ssp + length n + 1) t = None" by (intro strcpy_loop_None) (simp add: w lb1)
      then show ?thesis using assms Some c1 False by (simp add: put_word_next strlen_def)
    next
      case fits: True
      have "strcpy_loop b1 (ssp + length n + 1) t =
          Some (take (ssp + length n + 1) b1 @ t @ [NUL] @ drop (Suc (ssp + length n + 1 + length t)) b1)"
        using fits by (intro strcpy_loop_eq) (simp add: w lb1)
      also have "take (ssp + length n + 1) b1 @ t @ [NUL] @ drop (Suc (ssp + length n + 1 + length t)) b1
          = take ssp b @ w @ [NUL] @ drop (ssp + length w + 1) b"
        using fits by (simp add: b1_def w ac_simps)
      finally show ?thesis using assms(1) Some c1 fits by (simp add: put_word_next strlen_def w add.assoc)
    qed
  qed
qed

lemma envbuild_strings:
  "ssp \<le> length b \<Longrightarrow>
   envbuild eps v vsp b ssp =
     (if vsp + length (env_strings eps) < length v \<and> ssp + length (terminated (env_strings eps)) \<le> length b
      then Some (take vsp v @ map Some (offsets ssp (env_strings eps)) @ None # drop (Suc (vsp + length (env_strings eps))) v,
        take ssp b @ terminated (env_strings eps) @ drop (ssp + length (terminated (env_strings eps))) b)
      else None)"
proof (induction eps arbitrary: v vsp b ssp)
  case Nil
  then show ?case by (simp add: env_strings_def terminated_def put_word_next)
next
  case (Cons ep eps)
  show ?case
  proof (cases "ep_name ep")
    case None
    then show ?thesis using Cons by (simp add: env_strings_Cons)
  next
    case (Some n)
    define w where "w = n @ ''='' @ (case ep_value ep of None \<Rightarrow> [] | Some t \<Rightarrow> t)"
    have es: "env_strings (ep # eps) = w # env_strings eps"
      using Some by (simp add: env_strings_Cons w_def)
    define v1 where "v1 = take vsp v @ Some ssp # drop (Suc vsp) v"
    define b2 where "b2 = take ssp b @ w @ [NUL] @ drop (ssp + length w + 1) b"
    note one = envbuild_pair [OF Some w_def, of eps v vsp b ssp, folded v1_def b2_def]
    show ?thesis
    proof (cases "vsp < length v \<and> ssp + length w < length b")
      case False
      then show ?thesis unfolding one es by (auto simp: terminated_def)
    next
      case True
      have len: "length v1 = length v" "length b2 = length b" using True by (simp_all add: v1_def b2_def, linarith+)
      have ih: "envbuild eps v1 (vsp + 1) b2 (ssp + length w + 1) =
          (if vsp + 1 + length (env_strings eps) < length v
              \<and> ssp + length w + 1 + length (terminated (env_strings eps)) \<le> length b
           then Some (take (vsp + 1) v1 @ map Some (offsets (ssp + length w + 1) (env_strings eps))
                  @ None # drop (Suc (vsp + 1 + length (env_strings eps))) v1,
                take (ssp + length w + 1) b2 @ terminated (env_strings eps)
                  @ drop (ssp + length w + 1 + length (terminated (env_strings eps))) b2)
           else None)"
        using Cons.IH [of "ssp + length w + 1" b2 v1 "vsp + 1"] True unfolding len by simp
      have fronts: "take (Suc vsp) v1 = take vsp v @ [Some ssp]"
        "take (Suc (ssp + length w)) b2 = take ssp b @ w @ [NUL]"
        using True by (simp_all add: v1_def b2_def)
      have rests: "drop (Suc (Suc (vsp + k))) v1 = drop (Suc (Suc (vsp + k))) v"
        "drop (Suc (ssp + (length w + k))) b2 = drop (Suc (ssp + (length w + k))) b" for k
        using True by (simp_all add: v1_def b2_def ac_simps)
      from True show ?thesis unfolding one es ih by (simp add: terminated_def fronts rests add.assoc)
    qed
  qed
qed

text \<open>C39. \<open>envsize\<close> tells exactly the room \<open>envbuild\<close> needs: in a string area of at least that size and a vector
  with at least one word more than the count, the strings of the client's environment are written, one
  \<open>name=value\<close> string with its NUL per set variable and the words and bytes behind left alone; the vector points at
  their starts and has a null pointer behind the last. In a vector without the additional word, or in a smaller
  string area, a store runs past the end.\<close>
theorem envbuild_fits:
  assumes "envsize (envvar s) = (ec, slen)"
  shows "envbuild (envvar s) v 0 b 0 =
    (if ec + 1 \<le> length v \<and> slen \<le> length b
     then Some (map Some (offsets 0 (env_strings (envvar s))) @ None # drop (ec + 1) v,
       terminated (env_strings (envvar s)) @ drop slen b)
     else None)"
  using assms by (simp add: envbuild_strings envsize_strings Suc_le_eq)

theorem envbuild_fits_witness:
  "envbuild (envvar (snd (env_put ''a'' ''xy'' (blank_env ())))) [Some 9, Some 9] 0 (replicate 5 NUL) 0 = Some ([Some 0, None], ''a=xy'' @ [NUL])
    \<and> envbuild (envvar (snd (env_put ''a'' ''xy'' (blank_env ())))) [Some 9] 0 (replicate 5 NUL) 0 = None"
proof -
  have "envsize (envvar (snd (env_put ''a'' ''xy'' (blank_env ())))) = (1, 5)" by code_simp
  moreover have "env_strings (envvar (snd (env_put ''a'' ''xy'' (blank_env ())))) = [''a=xy'']" by code_simp
  ultimately show ?thesis
    using envbuild_fits [of "snd (env_put ''a'' ''xy'' (blank_env ()))" 1 5 "[Some 9, Some 9]" "replicate 5 NUL"]
      envbuild_fits [of "snd (env_put ''a'' ''xy'' (blank_env ()))" 1 5 "[Some 9]" "replicate 5 NUL"]
    by (simp add: terminated_def)
qed

section \<open>The commands\<close>

text \<open>The status of \<open>set\<close> and \<open>unset\<close> and the environment they leave; what they print is
  not modelled. \<open>av\<close> holds the command name first.\<close>

definition cmd_set :: "'n nvops \<Rightarrow> cstr list \<Rightarrow> 'n env \<Rightarrow> int \<times> 'n env" where
  "cmd_set ops av s =
     (let tempflag = (length av \<ge> 2 \<and> strcmp (av ! 1) ''-t'' = 0);
          av' = (if tempflag then tl av else av)
      in case length av' of
           Suc 0 \<Rightarrow> (0, s)
         | Suc (Suc 0) \<Rightarrow> (case getenv (av' ! 1) s of Some _ \<Rightarrow> (0, s) | None \<Rightarrow> (1, s))
         | Suc (Suc (Suc 0)) \<Rightarrow>
             (case do_setenv ops (av' ! 1) (Some (av' ! 2)) tempflag s of (r, s1) \<Rightarrow>
                if r = 0 then (1, s1) else (0, s1))
         | _ \<Rightarrow> (- 1, s))"

fun unset_args :: "'n nvops \<Rightarrow> cstr list \<Rightarrow> 'n env \<Rightarrow> int \<times> 'n env" where
  "unset_args ops [] s = (0, s)"
| "unset_args ops (a # as) s =
     (case getenv a s of
        Some _ \<Rightarrow> unset_args ops as (unsetenv ops a s)
      | None \<Rightarrow> (1, s))"

definition cmd_unset :: "'n nvops \<Rightarrow> cstr list \<Rightarrow> 'n env \<Rightarrow> int \<times> 'n env" where
  "cmd_unset ops av s = unset_args ops (tl av) s"

end
