(* ===== verification/Symtab.thy ===== *)
theory Symtab
  imports Env Qsort
begin

text \<open>
  The symbol table, \<^verbatim>\<open>pmon/cmds/sym.c\<close>: a hash table with chaining, two arrays of
  the symbols (by name and by value) that are built on demand with \<open>qsort\<close> and thrown away
  when the table changes, and the search for the symbol nearest to an address. A
  \<open>Sym *\<close> is the index of the symbol in the heap; a symbol that changes its value is seen
  through every chain and array that points to it. The lemmas give the invariant, the
  refinement of the table to a map (an instance of \<open>kv_store\<close>) and the correctness of the
  binary search and of its fallback when no memory is left for the array.
\<close>

section \<open>State\<close>

abbreviation NHASH :: nat where "NHASH \<equiv> 127"

record sym =
  sy_name :: cstr
  sy_value :: u32

datatype sorttype = ALPHA | NUMERIC

record symtab =
  heap :: "sym list"
  symhash :: "nat list list"
  symsort_alpha :: "nat list option"
  symsort_numeric :: "nat list option"
  maxsymlen :: nat
  nsyms :: nat
  sym_allocs :: "bool list"

definition sym_malloc :: "symtab \<Rightarrow> bool \<times> symtab" where
  "sym_malloc s = (case sym_allocs s of [] \<Rightarrow> (True, s) | b # bs \<Rightarrow> (b, s\<lparr>sym_allocs := bs\<rparr>))"

definition symsort :: "sorttype \<Rightarrow> symtab \<Rightarrow> nat list option" where
  "symsort t s = (case t of ALPHA \<Rightarrow> symsort_alpha s | NUMERIC \<Rightarrow> symsort_numeric s)"

definition set_symsort :: "sorttype \<Rightarrow> nat list option \<Rightarrow> symtab \<Rightarrow> symtab" where
  "set_symsort t l s =
     (case t of ALPHA \<Rightarrow> s\<lparr>symsort_alpha := l\<rparr> | NUMERIC \<Rightarrow> s\<lparr>symsort_numeric := l\<rparr>)"

fun other_sort :: "sorttype \<Rightarrow> sorttype" where
  "other_sort ALPHA = NUMERIC"
| "other_sort NUMERIC = ALPHA"

section \<open>The hash\<close>

text \<open>\<open>*s\<close> is a signed character.\<close>

definition strhash_step :: "u32 \<Rightarrow> char \<Rightarrow> u32" where
  "strhash_step h c =
     (let h1 = push_bit 4 h + of_int (schar c)
      in if h1 > 0x0fffffff then (h1 XOR (drop_bit 24 h1 AND 0xf0)) AND 0x0fffffff else h1)"

fun strhash_loop :: "u32 \<Rightarrow> cstr \<Rightarrow> u32" where
  "strhash_loop h [] = h"
| "strhash_loop h (c # s) = strhash_loop (strhash_step h c) s"

definition strhash :: "cstr \<Rightarrow> u32" where
  "strhash s = strhash_loop 0 s"

definition bucket :: "cstr \<Rightarrow> nat" where
  "bucket name = unat (strhash name) mod NHASH"

section \<open>Sorted arrays\<close>

definition flushsort :: "sorttype \<Rightarrow> symtab \<Rightarrow> symtab" where
  "flushsort t s = set_symsort t None s"

definition namecmp :: "sym list \<Rightarrow> nat \<Rightarrow> nat \<Rightarrow> int" where
  "namecmp h s1 s2 = strcmp (sy_name (h ! s1)) (sy_name (h ! s2))"

definition valcmp :: "sym list \<Rightarrow> nat \<Rightarrow> nat \<Rightarrow> int" where
  "valcmp h s1 s2 =
     (if sy_value (h ! s1) < sy_value (h ! s2) then - 1
      else if sy_value (h ! s1) > sy_value (h ! s2) then 1 else 0)"

definition sort_cmp :: "sorttype \<Rightarrow> sym list \<Rightarrow> nat \<Rightarrow> nat \<Rightarrow> int" where
  "sort_cmp t = (case t of ALPHA \<Rightarrow> namecmp | NUMERIC \<Rightarrow> valcmp)"

definition getsort :: "sorttype \<Rightarrow> symtab \<Rightarrow> nat list option \<times> symtab" where
  "getsort t s =
     (if nsyms s = 0 then (None, s)
      else case symsort t s of
        Some syms \<Rightarrow> (Some syms, s)
      | None \<Rightarrow>
          (case sym_malloc s of (ok, s1) \<Rightarrow>
           case (if ok then (Some (concat (symhash s1)), s1)
                 else (symsort (other_sort t) s1,
                       if symsort (other_sort t) s1 = None then s1
                       else set_symsort (other_sort t) None s1)) of
             (None, s2) \<Rightarrow> (None, s2)
           | (Some syms, s2) \<Rightarrow>
               (let syms' = qsort (sort_cmp t (heap s2)) syms
                in (Some syms', set_symsort t (Some syms') s2))))"

section \<open>Lookup by name\<close>

text \<open>The first characters are compared before the rest.\<close>

definition name_equ :: "cstr \<Rightarrow> cstr \<Rightarrow> bool" where
  "name_equ n m \<longleftrightarrow> char_at n 0 = char_at m 0 \<and> strcmp (tl n) (tl m) = 0"

fun find_chain :: "sym list \<Rightarrow> cstr \<Rightarrow> nat list \<Rightarrow> nat option" where
  "find_chain h name [] = None"
| "find_chain h name (i # is) =
     (if name_equ name (sy_name (h ! i)) then Some i else find_chain h name is)"

definition getsymbyname :: "cstr \<Rightarrow> symtab \<Rightarrow> nat option" where
  "getsymbyname name s =
     (if nsyms s = 0 then None else find_chain (heap s) name (symhash s ! bucket name))"

section \<open>Lookup by value\<close>

text \<open>The search without an array: an exact match ends it.\<close>

fun best_chain :: "sym list \<Rightarrow> u32 \<Rightarrow> nat list \<Rightarrow> nat option \<Rightarrow> nat option" where
  "best_chain h addr [] best = best"
| "best_chain h addr (i # is) best =
     (if sy_value (h ! i) = addr then Some i
      else if sy_value (h ! i) < addr
              \<and> (case best of None \<Rightarrow> True | Some b \<Rightarrow> sy_value (h ! i) > sy_value (h ! b))
      then best_chain h addr is (Some i)
      else best_chain h addr is best)"

partial_function (option) sym_bsearch ::
  "sym list \<Rightarrow> nat list \<Rightarrow> u32 \<Rightarrow> nat \<Rightarrow> nat \<Rightarrow> nat option"
where
  "sym_bsearch h syms addr lo hi =
     (if sy_value (h ! (syms ! hi)) > addr then
        let mid = (lo + hi) div 2
        in if lo = mid \<or> sy_value (h ! (syms ! mid)) \<ge> addr
           then sym_bsearch h syms addr lo mid
           else sym_bsearch h syms addr mid hi
      else Some hi)"

declare sym_bsearch.simps [code]

text \<open>The result of the outer option is \<open>None\<close> when the search does not end.\<close>

definition getsymbyvalue :: "u32 \<Rightarrow> symtab \<Rightarrow> nat option option \<times> symtab" where
  "getsymbyvalue addr s =
     (if nsyms s = 0 then (Some None, s)
      else case getsort NUMERIC s of
        (None, s1) \<Rightarrow> (Some (best_chain (heap s1) addr (concat (symhash s1)) None), s1)
      | (Some syms, s1) \<Rightarrow>
          if addr < sy_value (heap s1 ! (syms ! 0)) then (Some None, s1)
          else (map_option (\<lambda>hi. Some (syms ! hi))
                  (sym_bsearch (heap s1) syms addr 0 (nsyms s1 - 1)), s1))"

section \<open>Updates\<close>

definition newsym :: "cstr \<Rightarrow> u32 \<Rightarrow> symtab \<Rightarrow> bool \<times> symtab" where
  "newsym name v s =
     (let b = bucket name
      in case find_chain (heap s) name (symhash s ! b) of
        Some i \<Rightarrow>
          if sy_value (heap s ! i) \<noteq> v
          then (True, flushsort NUMERIC (s\<lparr>heap := (heap s)[i := (heap s ! i)\<lparr>sy_value := v\<rparr>]\<rparr>))
          else (True, s)
      | None \<Rightarrow>
          (case sym_malloc (flushsort NUMERIC (flushsort ALPHA s)) of (ok, s1) \<Rightarrow>
           if \<not> ok then (False, s1)
           else (True, s1\<lparr>
             heap := heap s1 @ [\<lparr>sy_name = name, sy_value = v\<rparr>],
             symhash := (symhash s1)[b := length (heap s1) # (symhash s1 ! b)],
             maxsymlen := max (maxsymlen s1) (strlen name),
             nsyms := nsyms s1 + 1\<rparr>)))"

definition clrsyms :: "symtab \<Rightarrow> symtab" where
  "clrsyms s =
     (flushsort NUMERIC (flushsort ALPHA
        (s\<lparr>heap := [], symhash := map (\<lambda>_. []) (symhash s)\<rparr>)))\<lparr>maxsymlen := 0, nsyms := 0\<rparr>"

definition defsym :: "cstr \<Rightarrow> u32 \<Rightarrow> symtab \<Rightarrow> symtab" where
  "defsym name v s = (case getsymbyname name s of None \<Rightarrow> snd (newsym name v s) | Some _ \<Rightarrow> s)"

text \<open>\<open>start\<close> is the link address of the monitor.\<close>

definition defsyms :: "u32 \<Rightarrow> u32 \<Rightarrow> u32 \<Rightarrow> u32 \<Rightarrow> symtab \<Rightarrow> symtab" where
  "defsyms start minaddr maxaddr pc s =
     (let s1 = defsym ''Pmon'' start s;
          s2 = (if minaddr \<noteq> NOT 0 then defsym ''_ftext'' minaddr s1 else s1);
          s3 = (if maxaddr \<noteq> 0 then defsym ''etext'' maxaddr s2 else s2)
      in defsym ''start'' pc s3)"

section \<open>The interface of the expression evaluator and the disassembler\<close>

text \<open>\<open>sym2adr\<close> always writes the value, 0 when there is no symbol; the \<open>unsigned long\<close> is
  zero-extended.\<close>

definition sym2adr :: "cstr \<Rightarrow> symtab \<Rightarrow> bool \<times> u64" where
  "sym2adr name s =
     (case getsymbyname name s of
        Some i \<Rightarrow> (True, ucast (sy_value (heap s ! i)))
      | None \<Rightarrow> (False, 0))"

definition adr2sym :: "'n env \<Rightarrow> u32 \<Rightarrow> symtab \<Rightarrow> cstr option option \<times> symtab" where
  "adr2sym e v s =
     (if matchenv ''showsym'' e = Some 0 then (Some None, s)
      else case getsymbyvalue v s of
        (None, s1) \<Rightarrow> (None, s1)
      | (Some None, s1) \<Rightarrow> (Some None, s1)
      | (Some (Some i), s1) \<Rightarrow>
          if sy_value (heap s1 ! i) \<noteq> v then (Some None, s1)
          else (Some (Some (sy_name (heap s1 ! i))), s1))"

text \<open>\<open>%x\<close>, \<open>%-4x\<close> and \<open>%*.*s\<close>.\<close>

fun hex_digits :: "nat \<Rightarrow> cstr" where
  "hex_digits n =
     (if n < 16 then [char_of (if n < 10 then 48 + n else 87 + n)] else hex_digits (n div 16) @ [char_of (if n mod 16 < 10 then 48 + n mod 16 else 87 + n mod 16)])"

definition pad_right :: "nat \<Rightarrow> cstr \<Rightarrow> cstr" where
  "pad_right w s = s @ replicate (w - length s) (CHR '' '')"

definition field :: "nat \<Rightarrow> cstr \<Rightarrow> cstr" where
  "field w s = replicate (w - length s) (CHR '' '') @ take w s"

definition adr2symoff :: "'n env \<Rightarrow> u32 \<Rightarrow> nat \<Rightarrow> symtab \<Rightarrow> cstr option option \<times> symtab" where
  "adr2symoff e v width s =
     (if matchenv ''showsym'' e = Some 0 then (Some None, s)
      else case getsymbyvalue v s of
        (None, s1) \<Rightarrow> (None, s1)
      | (Some None, s1) \<Rightarrow> (Some None, s1)
      | (Some (Some p), s1) \<Rightarrow>
          (let pv = sy_value (heap s1 ! p); pn = sy_name (heap s1 ! p)
           in if pv > v \<or> v - pv > 0x5000 then (Some None, s1)
              else
                (let dst = (if width = 0 then pn else field width pn)
                 in (Some (Some (if v = pv then dst @ ''       ''
                      else dst @ ''+0x'' @ pad_right 4 (hex_digits (unat (v - pv))))), s1))))"

section \<open>The comparators\<close>

interpretation valcmp: comparator "valcmp h" "\<lambda>_. True" for h
  by unfold_locales (auto simp: valcmp_def split: if_splits)

interpretation namecmp: comparator "namecmp h" "\<lambda>i. wf_cstr (sy_name (h ! i))" for h
proof unfold_locales
  show "(0 < namecmp h y x) = (namecmp h x y < 0)" for x y
    using strcmp_sym [of "sy_name (h ! x)" "sy_name (h ! y)"] by (auto simp: namecmp_def)
  show "namecmp h x z \<le> 0"
    if "wf_cstr (sy_name (h ! x))" "wf_cstr (sy_name (h ! y))" "wf_cstr (sy_name (h ! z))"
      "namecmp h x y \<le> 0" "namecmp h y z \<le> 0" for x y z
    using that unfolding namecmp_def by (rule strcmp_le_trans)
qed

lemma sort_cmp_sorted:
  "\<forall>i \<in> set xs. wf_cstr (sy_name (h ! i)) \<Longrightarrow> sorted_by (sort_cmp t h) (qsort (sort_cmp t h) xs)"
  by (cases t) (auto simp: sort_cmp_def intro: namecmp.qsort_sorted valcmp.qsort_sorted)

section \<open>Invariant\<close>

abbreviation all_ids :: "symtab \<Rightarrow> nat list" where
  "all_ids s \<equiv> [0..<length (heap s)]"

definition good_name :: "cstr \<Rightarrow> bool" where
  "good_name n \<longleftrightarrow> wf_cstr n \<and> n \<noteq> []"

definition names_ok :: "sym list \<Rightarrow> bool" where
  "names_ok h \<longleftrightarrow> (\<forall>i < length h. good_name (sy_name (h ! i))) \<and> distinct (map sy_name h)"

definition chains_ok :: "sym list \<Rightarrow> nat list list \<Rightarrow> bool" where
  "chains_ok h tab \<longleftrightarrow> length tab = NHASH \<and> mset (concat tab) = mset [0..<length h] \<and>
     (\<forall>b < NHASH. \<forall>i \<in> set (tab ! b). bucket (sy_name (h ! i)) = b)"

definition sort_ok :: "sorttype \<Rightarrow> sym list \<Rightarrow> nat list option \<Rightarrow> bool" where
  "sort_ok t h l \<longleftrightarrow>
     (\<forall>xs. l = Some xs \<longrightarrow> mset xs = mset [0..<length h] \<and> sorted_by (sort_cmp t h) xs)"

definition sym_ok :: "symtab \<Rightarrow> bool" where
  "sym_ok s \<longleftrightarrow> nsyms s = length (heap s) \<and> names_ok (heap s) \<and> chains_ok (heap s) (symhash s) \<and>
     (\<forall>t. sort_ok t (heap s) (symsort t s))"

lemma symsort_set [simp]:
  "symsort t (set_symsort t' l s) = (if t = t' then l else symsort t s)"
  "heap (set_symsort t' l s) = heap s" "symhash (set_symsort t' l s) = symhash s"
  "nsyms (set_symsort t' l s) = nsyms s" "maxsymlen (set_symsort t' l s) = maxsymlen s"
  by (cases t; cases t'; simp add: symsort_def set_symsort_def)+

lemma symsort_heap [simp]:
  "symsort t (s\<lparr>heap := h\<rparr>) = symsort t s" "symsort t (s\<lparr>symhash := hs\<rparr>) = symsort t s"
  "symsort t (s\<lparr>nsyms := n\<rparr>) = symsort t s" "symsort t (s\<lparr>maxsymlen := n\<rparr>) = symsort t s"
  "symsort t (s\<lparr>sym_allocs := a\<rparr>) = symsort t s"
  by (cases t; simp add: symsort_def)+

lemma sym_malloc_simps:
  "sym_malloc s = (ok, s') \<Longrightarrow> heap s' = heap s \<and> symhash s' = symhash s \<and> nsyms s' = nsyms s
     \<and> maxsymlen s' = maxsymlen s \<and> symsort t s' = symsort t s"
  by (auto simp: sym_malloc_def split: list.splits)

lemma chains_mem: "chains_ok h tab \<Longrightarrow> i \<in> set (tab ! b) \<Longrightarrow> b < NHASH \<Longrightarrow> i < length h"
proof -
  assume a: "chains_ok h tab" "i \<in> set (tab ! b)" "b < NHASH"
  then have "i \<in> set (concat tab)" by (auto simp: chains_ok_def)
  moreover have "set (concat tab) = set [0..<length h]"
    using a(1) by (intro mset_eq_setD) (simp add: chains_ok_def)
  ultimately show ?thesis by (metis atLeastLessThan_upt atLeastLessThan_iff)
qed

lemma chains_find: "chains_ok h tab \<Longrightarrow> i < length h \<Longrightarrow> i \<in> set (tab ! bucket (sy_name (h ! i)))"
proof -
  assume a: "chains_ok h tab" "i < length h"
  have "set (concat tab) = set [0..<length h]"
    using a(1) by (intro mset_eq_setD) (simp add: chains_ok_def)
  then have "i \<in> set (concat tab)" using a(2) by simp
  then obtain xs where "xs \<in> set tab" "i \<in> set xs" by auto
  then obtain b where "b < length tab" "i \<in> set (tab ! b)" by (metis in_set_conv_nth)
  then show ?thesis using a(1) unfolding chains_ok_def by metis
qed

lemma bucket_less: "bucket n < NHASH"
  by (simp add: bucket_def)

lemma name_equ_iff: "good_name n \<Longrightarrow> good_name m \<Longrightarrow> name_equ n m \<longleftrightarrow> n = m"
  by (cases n; cases m) (auto simp: good_name_def name_equ_def char_at_def strcmp_eq_0 wf_cstr_def)

lemma find_chain_Some: "find_chain h n is = Some i \<Longrightarrow> i \<in> set is \<and> name_equ n (sy_name (h ! i))"
  by (induction "is") (auto split: if_splits)

lemma find_chain_None: "find_chain h n is = None \<Longrightarrow> i \<in> set is \<Longrightarrow> \<not> name_equ n (sy_name (h ! i))"
  by (induction "is") (auto split: if_splits)

lemma find_chain_bucket:
  assumes "names_ok h" "chains_ok h tab" "good_name n"
  shows "find_chain h n (tab ! bucket n) = Some i \<longleftrightarrow> i < length h \<and> sy_name (h ! i) = n"
proof
  assume "find_chain h n (tab ! bucket n) = Some i"
  from find_chain_Some [OF this] chains_mem [OF assms(2) _ bucket_less]
  show "i < length h \<and> sy_name (h ! i) = n"
    using assms(1,3) name_equ_iff [of n "sy_name (h ! i)"] by (auto simp: names_ok_def)
next
  assume i: "i < length h \<and> sy_name (h ! i) = n"
  show "find_chain h n (tab ! bucket n) = Some i"
  proof (cases "find_chain h n (tab ! bucket n)")
    case None
    then have "\<not> name_equ n (sy_name (h ! i))"
      using find_chain_None chains_find [OF assms(2)] i by blast
    then show ?thesis using name_equ_iff assms(3) i by simp
  next
    case (Some j)
    from find_chain_Some [OF this] chains_mem [OF assms(2) _ bucket_less]
    have "j < length h \<and> sy_name (h ! j) = n"
      using assms(1,3) name_equ_iff [of n "sy_name (h ! j)"] by (auto simp: names_ok_def)
    then have "j = i" using i assms(1)
      by (metis names_ok_def distinct_conv_nth length_map nth_map)
    then show ?thesis using Some by simp
  qed
qed

lemma getsymbyname_iff:
  "sym_ok s \<Longrightarrow> good_name n \<Longrightarrow>
   getsymbyname n s = Some i \<longleftrightarrow> i < length (heap s) \<and> sy_name (heap s ! i) = n"
  by (auto simp: getsymbyname_def sym_ok_def find_chain_bucket)

section \<open>Updates keep the invariant\<close>

lemma mset_concat_push:
  "b < length tab \<Longrightarrow> mset (concat (tab[b := a # tab ! b])) = add_mset a (mset (concat tab))"
proof (induction tab arbitrary: b)
  case (Cons x tab)
  then show ?case by (cases b) auto
qed simp

lemma namecmp_value [simp]:
  "i < length h \<Longrightarrow> namecmp (h[i := (h ! i)\<lparr>sy_value := v\<rparr>]) = namecmp h"
  by (intro ext) (auto simp: namecmp_def nth_list_update)

lemma flush_simps [simp]:
  "heap (flushsort t s) = heap s" "symhash (flushsort t s) = symhash s"
  "nsyms (flushsort t s) = nsyms s" "maxsymlen (flushsort t s) = maxsymlen s"
  "symsort t' (flushsort t s) = (if t' = t then None else symsort t' s)"
  by (simp_all add: flushsort_def)

lemma sort_ok_None [simp]: "sort_ok t h None"
  by (simp add: sort_ok_def)

lemma newsym_update_ok:
  assumes ok: "sym_ok s" and i: "i < length (heap s)"
  shows "sym_ok (flushsort NUMERIC (s\<lparr>heap := (heap s)[i := (heap s ! i)\<lparr>sy_value := v\<rparr>]\<rparr>))"
proof -
  let ?h = "(heap s)[i := (heap s ! i)\<lparr>sy_value := v\<rparr>]"
  have n: "sy_name (?h ! j) = sy_name (heap s ! j)" for j
    using i by (cases "j = i") auto
  have m: "map sy_name ?h = map sy_name (heap s)"
    by (intro nth_equalityI) (simp_all add: n)
  have "names_ok ?h" using ok by (simp add: sym_ok_def names_ok_def n m)
  moreover have "chains_ok ?h (symhash s)" using ok by (simp add: sym_ok_def chains_ok_def n)
  moreover have "sort_ok ALPHA ?h (symsort ALPHA s)"
  proof -
    have "sort_ok ALPHA (heap s) (symsort ALPHA s)" using ok unfolding sym_ok_def by blast
    then show ?thesis using i by (simp add: sort_ok_def sort_cmp_def)
  qed
  moreover from this have "\<forall>t. t \<noteq> NUMERIC \<longrightarrow> sort_ok t ?h (symsort t s)"
    by (metis sorttype.exhaust)
  ultimately show ?thesis using ok by (simp add: sym_ok_def)
qed

lemma newsym_add_ok:
  assumes ok: "sym_ok s" and n: "good_name n" "\<forall>i < length (heap s). sy_name (heap s ! i) \<noteq> n"
    and none: "\<And>t. symsort t s = None"
  shows "sym_ok (s\<lparr>heap := heap s @ [\<lparr>sy_name = n, sy_value = v\<rparr>],
    symhash := (symhash s)[bucket n := length (heap s) # (symhash s ! bucket n)],
    maxsymlen := l, nsyms := nsyms s + 1\<rparr>)"
proof -
  let ?h = "heap s @ [\<lparr>sy_name = n, sy_value = v\<rparr>]"
  let ?tab = "(symhash s)[bucket n := length (heap s) # (symhash s ! bucket n)]"
  have c: "chains_ok (heap s) (symhash s)" and nm: "names_ok (heap s)"
    using ok by (simp_all add: sym_ok_def)
  then have b: "bucket n < length (symhash s)" using bucket_less by (simp add: chains_ok_def)
  have "names_ok ?h" using nm n by (auto simp: names_ok_def nth_append less_Suc_eq in_set_conv_nth)
  moreover have "chains_ok ?h ?tab"
    unfolding chains_ok_def
  proof (intro conjI allI impI ballI)
    show "length ?tab = NHASH" using c by (simp add: chains_ok_def)
    show "mset (concat ?tab) = mset [0..<length ?h]"
      using c mset_concat_push [OF b] by (simp add: chains_ok_def)
    fix k i assume k: "k < NHASH" and i: "i \<in> set (?tab ! k)"
    show "bucket (sy_name (?h ! i)) = k"
    proof (cases "i \<in> set (symhash s ! k)")
      case True
      then have "i < length (heap s)" using chains_mem [OF c] k by blast
      then show ?thesis using True k c by (simp add: chains_ok_def nth_append)
    next
      case False
      then have "i = length (heap s)" "k = bucket n"
        using i b by (auto simp: nth_list_update split: if_splits)
      then show ?thesis by simp
    qed
  qed
  ultimately show ?thesis using ok none by (simp add: sym_ok_def)
qed

lemma flushed_ok: "sym_ok s \<Longrightarrow> sym_ok (flushsort t s)"
  by (simp add: sym_ok_def)

lemma malloc_ok: "sym_ok s \<Longrightarrow> sym_malloc s = (b, s') \<Longrightarrow> sym_ok s'"
  using sym_malloc_simps [of s b s'] by (simp add: sym_ok_def)

lemma sym_malloc_symsort: "sym_malloc s = (b, s') \<Longrightarrow> symsort t s' = symsort t s"
  by (cases t) (auto simp: sym_malloc_def symsort_def split: list.splits)

text \<open>What \<open>newsym\<close> does, by cases.\<close>

lemma newsym_cases:
  assumes ok: "sym_ok s" and n: "good_name n" and r: "newsym n v s = (b, s')"
  shows "sym_ok s' \<and>
    ((\<exists>i < length (heap s). b \<and> sy_name (heap s ! i) = n \<and>
        heap s' = (heap s)[i := (heap s ! i)\<lparr>sy_value := v\<rparr>]) \<or>
     (\<forall>i < length (heap s). sy_name (heap s ! i) \<noteq> n) \<and>
        (if b then heap s' = heap s @ [\<lparr>sy_name = n, sy_value = v\<rparr>] else heap s' = heap s))"
proof (cases "find_chain (heap s) n (symhash s ! bucket n)")
  case (Some i)
  then have i: "i < length (heap s)" "sy_name (heap s ! i) = n"
    using find_chain_bucket ok n unfolding sym_ok_def by blast+
  show ?thesis
  proof (cases "sy_value (heap s ! i) = v")
    case True
    then have "(heap s)[i := (heap s ! i)\<lparr>sy_value := v\<rparr>] = heap s"
      by (intro list_update_same_conv [THEN iffD2, OF i(1)]) simp
    then show ?thesis using r Some True i ok by (auto simp: newsym_def Let_def)
  next
    case False
    then have "b" "s' = flushsort NUMERIC (s\<lparr>heap := (heap s)[i := (heap s ! i)\<lparr>sy_value := v\<rparr>]\<rparr>)"
      using r Some by (auto simp: newsym_def Let_def)
    then show ?thesis using newsym_update_ok [OF ok i(1)] i by auto
  qed
next
  case None
  then have new: "\<forall>i < length (heap s). sy_name (heap s ! i) \<noteq> n"
    using find_chain_bucket [of "heap s" "symhash s" n] ok n unfolding sym_ok_def by auto
  let ?f = "flushsort NUMERIC (flushsort ALPHA s)"
  obtain a s1 where m: "sym_malloc ?f = (a, s1)" by (cases "sym_malloc ?f")
  note e = sym_malloc_simps [OF m] sym_malloc_symsort [OF m]
  have ok1: "sym_ok s1" by (rule malloc_ok [OF _ m]) (intro flushed_ok ok)
  have fl: "symsort t s1 = None" for t by (cases t) (simp_all add: e)
  show ?thesis
  proof (cases a)
    case False
    then show ?thesis using r None m ok1 new e by (simp add: newsym_def Let_def)
  next
    case True
    then have "b" "s' = s1\<lparr>heap := heap s1 @ [\<lparr>sy_name = n, sy_value = v\<rparr>],
        symhash := (symhash s1)[bucket n := length (heap s1) # (symhash s1 ! bucket n)],
        maxsymlen := max (maxsymlen s1) (strlen n), nsyms := nsyms s1 + 1\<rparr>"
      using r None m by (auto simp: newsym_def Let_def)
    then show ?thesis
      using newsym_add_ok [OF ok1 n _ fl, where v = v and l = "max (maxsymlen s1) (strlen n)"] new e by simp
  qed
qed

section \<open>The table is a map\<close>

definition sym_look :: "cstr \<Rightarrow> symtab \<Rightarrow> u32 option" where
  "sym_look n s = map_option (\<lambda>i. sy_value (heap s ! i)) (getsymbyname n s)"

lemma sym_look_Some:
  "sym_ok s \<Longrightarrow> good_name n \<Longrightarrow>
   sym_look n s = Some v \<longleftrightarrow> (\<exists>i < length (heap s). sy_name (heap s ! i) = n \<and> sy_value (heap s ! i) = v)"
  by (auto simp: sym_look_def getsymbyname_iff)

lemma sym_look_cong:
  assumes "sym_ok s" "sym_ok s'" "good_name n"
    and "\<And>v. (\<exists>i < length (heap s). sy_name (heap s ! i) = n \<and> sy_value (heap s ! i) = v) \<longleftrightarrow>
             (\<exists>i < length (heap s'). sy_name (heap s' ! i) = n \<and> sy_value (heap s' ! i) = v)"
  shows "sym_look n s = sym_look n s'"
  by (intro option.expand) (metis (no_types, lifting) assms sym_look_Some not_None_eq option.sel)+

interpretation sym: kv_store id good_name sym_ok sym_look newsym
proof unfold_locales
  fix s n m v
  show "id m = id n \<Longrightarrow> sym_look m s = sym_look n s" by simp
  assume ok: "sym_ok s" and n: "good_name n"
  obtain b s' where r: "newsym n v s = (b, s')" by (cases "newsym n v s")
  note c = newsym_cases [OF ok n r]
  then have ok': "sym_ok s'" by simp
  then show "sym_ok (snd (newsym n v s))" by (simp add: r)
  show "sym_look n (snd (newsym n v s)) = Some v" if "fst (newsym n v s)"
  proof -
    have "\<exists>i < length (heap s'). sy_name (heap s' ! i) = n \<and> sy_value (heap s' ! i) = v"
    proof -
      from c that r consider i where "i < length (heap s)" "sy_name (heap s ! i) = n"
          "heap s' = (heap s)[i := (heap s ! i)\<lparr>sy_value := v\<rparr>]"
        | "heap s' = heap s @ [\<lparr>sy_name = n, sy_value = v\<rparr>]" by auto
      then show ?thesis
      proof cases
        case 1
        then show ?thesis by (intro exI [of _ i]) simp
      next
        case 2
        then show ?thesis by (intro exI [of _ "length (heap s)"]) simp
      qed
    qed
    then show ?thesis using sym_look_Some [OF ok' n] by (simp add: r)
  qed
  assume m: "good_name m" and ne: "id m \<noteq> id n"
  show "sym_look m (snd (newsym n v s)) = sym_look m s"
    unfolding r snd_conv
  proof (rule sym_look_cong [OF ok' ok m])
    fix w
    from c consider i where "i < length (heap s)" "sy_name (heap s ! i) = n"
        "heap s' = (heap s)[i := (heap s ! i)\<lparr>sy_value := v\<rparr>]"
      | "heap s' = heap s @ [\<lparr>sy_name = n, sy_value = v\<rparr>]" | "heap s' = heap s"
      by (auto split: if_splits)
    then show "(\<exists>i < length (heap s'). sy_name (heap s' ! i) = m \<and> sy_value (heap s' ! i) = w) \<longleftrightarrow>
        (\<exists>i < length (heap s). sy_name (heap s ! i) = m \<and> sy_value (heap s ! i) = w)"
    proof cases
      case 1
      have "j \<noteq> i \<Longrightarrow> heap s' ! j = heap s ! j" for j using 1 by simp
      moreover have "sy_name (heap s' ! i) = n" "length (heap s') = length (heap s)" using 1 by simp_all
      ultimately show ?thesis using ne 1(2) by (metis id_apply)
    next
      case 2
      then show ?thesis using ne by (auto simp: nth_append less_Suc_eq)
    qed simp
  qed
qed

text \<open>C9. The hash table refines a map from names to values: after a successful \<open>newsym\<close>
  the name has the new value, whether it was there before or not, every other name keeps
  its value, and the invariant of the table (chains, count, sorted arrays) holds again, also
  when the allocation failed.\<close>
theorem newsym_map:
  assumes "sym_ok s" "good_name n" "good_name m" "newsym n v s = (b, s')"
  shows "sym_ok s' \<and> sym_look m s' = (if b \<and> m = n then Some v else sym_look m s)"
proof -
  have "sym_ok s'" using sym.put_inv [OF assms(1,2), of v] assms(4) by simp
  moreover have "sym_look m s' = (if b \<and> m = n then Some v else sym_look m s)"
  proof (cases "b \<or> m \<noteq> n")
    case True
    then show ?thesis
      using sym.look_put [OF assms(1-3), of v] sym.put_frame [OF assms(1-3), of v] assms(4) by auto
  next
    case False
    then have "heap s' = heap s" using newsym_cases [OF assms(1,2,4)] by auto
    then show ?thesis using False sym_look_cong [OF \<open>sym_ok s'\<close> assms(1,3)] by simp
  qed
  ultimately show ?thesis by blast
qed

definition empty_symtab :: symtab where
  "empty_symtab = \<lparr>heap = [], symhash = replicate NHASH [], symsort_alpha = None,
     symsort_numeric = None, maxsymlen = 0, nsyms = 0, sym_allocs = []\<rparr>"

lemma empty_symtab_ok [simp]: "sym_ok empty_symtab"
  by (auto simp: sym_ok_def empty_symtab_def names_ok_def chains_ok_def sort_ok_def symsort_def
      split: sorttype.splits)

theorem newsym_map_witness:
  "sym_look ''b'' (snd (newsym ''b'' 2 (snd (newsym ''a'' 1 empty_symtab)))) = Some 2"
proof -
  let ?s = "snd (newsym ''a'' 1 empty_symtab)"
  have g: "good_name ''a''" "good_name ''b''" by (simp_all add: good_name_def wf_cstr_def)
  have ok: "sym_ok ?s" using sym.put_inv [OF empty_symtab_ok g(1), of 1] by simp
  have "fst (newsym ''b'' 2 ?s)" by code_simp
  then have "newsym ''b'' 2 ?s = (True, snd (newsym ''b'' 2 ?s))" by (metis prod.collapse)
  from newsym_map [OF ok g(2,2) this] show ?thesis by simp
qed

section \<open>The search by value\<close>

text \<open>The contract: no symbol when all values are above the address, else one whose value is
  the greatest not above it.\<close>

definition nearest :: "sym list \<Rightarrow> u32 \<Rightarrow> nat option \<Rightarrow> bool" where
  "nearest h addr r =
     (case r of
        None \<Rightarrow> \<forall>j < length h. sy_value (h ! j) > addr
      | Some i \<Rightarrow> i < length h \<and> sy_value (h ! i) \<le> addr \<and>
          (\<forall>j < length h. sy_value (h ! j) \<le> addr \<longrightarrow> sy_value (h ! j) \<le> sy_value (h ! i)))"

lemma sym_bsearch_finds:
  assumes "\<forall>i j. i < j \<and> j < n \<longrightarrow> sy_value (h ! (syms ! i)) \<le> sy_value (h ! (syms ! j))"
    and "lo \<le> hi" "hi < n" "sy_value (h ! (syms ! lo)) \<le> addr"
    and "\<forall>j. hi < j \<and> j < n \<longrightarrow> addr < sy_value (h ! (syms ! j)) \<or> addr \<le> sy_value (h ! (syms ! hi))"
  shows "\<exists>k < n. sym_bsearch h syms addr lo hi = Some k \<and> sy_value (h ! (syms ! k)) \<le> addr \<and>
    (\<forall>j. k < j \<and> j < n \<longrightarrow> addr < sy_value (h ! (syms ! j)) \<or> sy_value (h ! (syms ! k)) = addr)"
  using assms(2-5)
proof (induction "hi - lo" arbitrary: lo hi rule: less_induct)
  case less
  let ?v = "\<lambda>i. sy_value (h ! (syms ! i))"
  show ?case
  proof (cases "?v hi > addr")
    case False
    then have "sym_bsearch h syms addr lo hi = Some hi" by (simp add: sym_bsearch.simps)
    then show ?thesis using False less.prems by (auto simp: not_less)
  next
    case True
    define mid where "mid = (lo + hi) div 2"
    have lohi: "lo < hi" using True less.prems by (metis le_neq_implies_less not_le)
    have mid: "lo \<le> mid" "mid < hi" using lohi by (auto simp: mid_def)
    show ?thesis
    proof (cases "lo = mid \<or> ?v mid \<ge> addr")
      case c: True
      have e: "sym_bsearch h syms addr lo hi = sym_bsearch h syms addr lo mid"
        using True c by (subst sym_bsearch.simps) (simp add: mid_def Let_def)
      have "addr < ?v j \<or> addr \<le> ?v mid" if "mid < j" "j < n" for j
      proof (cases "?v mid \<ge> addr")
        case False
        then have "hi = Suc lo" "lo = mid" using c lohi by (auto simp: mid_def)
        then have "hi \<le> j" using that by simp
        then have "?v hi \<le> ?v j" using assms(1) that by (metis le_neq_implies_less order_refl)
        then show ?thesis using True by (meson less_le_trans)
      qed simp
      then show ?thesis unfolding e using less.hyps [of mid lo] mid lohi less.prems by auto
    next
      case c: False
      have "sym_bsearch h syms addr lo hi = sym_bsearch h syms addr mid hi"
        using True c by (subst sym_bsearch.simps) (simp add: mid_def Let_def)
      moreover have "hi - mid < hi - lo" using c mid by auto
      ultimately show ?thesis using less.hyps [of hi mid] mid less.prems c by auto
    qed
  qed
qed

lemma best_chain_nearest:
  assumes "\<forall>i \<in> set is. i < length h"
    and "case best of None \<Rightarrow> \<forall>j \<in> J. sy_value (h ! j) > addr
      | Some b \<Rightarrow> b < length h \<and> sy_value (h ! b) < addr \<and>
          (\<forall>j \<in> J. sy_value (h ! j) \<le> addr \<longrightarrow> sy_value (h ! j) \<le> sy_value (h ! b))"
    and "J \<union> set is = {..<length h}"
  shows "nearest h addr (best_chain h addr is best)"
  using assms
proof (induction "is" arbitrary: best J)
  case Nil
  then show ?case by (auto simp: nearest_def split: option.splits)
next
  case (Cons i "is")
  let ?v = "\<lambda>i. sy_value (h ! i)"
  show ?case
  proof (cases "?v i = addr")
    case True
    then show ?thesis using Cons.prems(1) by (simp add: nearest_def)
  next
    case ne: False
    have J: "insert i J \<union> set is = {..<length h}" using Cons.prems(3) by auto
    show ?thesis
    proof (cases "?v i < addr \<and> (case best of None \<Rightarrow> True | Some b \<Rightarrow> ?v i > ?v b)")
      case True
      have "case Some i of None \<Rightarrow> \<forall>j \<in> insert i J. ?v j > addr
        | Some b \<Rightarrow> b < length h \<and> ?v b < addr \<and> (\<forall>j \<in> insert i J. ?v j \<le> addr \<longrightarrow> ?v j \<le> ?v b)"
        using True Cons.prems(1,2) by (cases best) force+
      then show ?thesis using Cons.IH [OF _ _ J] Cons.prems(1) True ne by simp
    next
      case False
      have "case best of None \<Rightarrow> \<forall>j \<in> insert i J. ?v j > addr
        | Some b \<Rightarrow> b < length h \<and> ?v b < addr \<and> (\<forall>j \<in> insert i J. ?v j \<le> addr \<longrightarrow> ?v j \<le> ?v b)"
        using False ne Cons.prems(2) by (cases best) auto
      moreover have "best_chain h addr (i # is) best = best_chain h addr is best"
        using False ne by (simp only: best_chain.simps if_False)
      ultimately show ?thesis using Cons.IH [OF _ _ J] Cons.prems(1) by simp
    qed
  qed
qed

lemma valcmp_le: "valcmp h i j \<le> 0 \<longleftrightarrow> sy_value (h ! i) \<le> sy_value (h ! j)"
  by (auto simp: valcmp_def)

lemma sym_ok_wf: "sym_ok s \<Longrightarrow> i < length (heap s) \<Longrightarrow> wf_cstr (sy_name (heap s ! i))"
  by (simp add: sym_ok_def names_ok_def good_name_def)

text \<open>\<open>getsort\<close> keeps the invariant and returns all symbols in order.\<close>

lemma getsort_ok:
  assumes ok: "sym_ok s" and r: "getsort t s = (res, s')"
  shows "sym_ok s' \<and> heap s' = heap s \<and> symhash s' = symhash s \<and> nsyms s' = nsyms s \<and>
    (\<forall>syms. res = Some syms \<longrightarrow>
      mset syms = mset (all_ids s) \<and> sorted_by (sort_cmp t (heap s)) syms)"
proof (cases "nsyms s = 0 \<or> symsort t s \<noteq> None")
  case True
  then have "s' = s \<and> (res = None \<or> res = symsort t s)"
    using r by (cases "nsyms s = 0") (auto simp: getsort_def split: option.splits)
  moreover have "sort_ok t (heap s) (symsort t s)" using ok by (simp add: sym_ok_def)
  ultimately show ?thesis using ok by (auto simp: sort_ok_def)
next
  case False
  obtain b s1 where m: "sym_malloc s = (b, s1)" by (cases "sym_malloc s")
  note e = sym_malloc_simps [OF m] sym_malloc_symsort [OF m]
  have ok1: "sym_ok s1" by (rule malloc_ok [OF ok m])
  define src where "src = (if b then Some (concat (symhash s1)) else symsort (other_sort t) s1)"
  define s2 where "s2 = (if b \<or> src = None then s1 else set_symsort (other_sort t) None s1)"
  have g: "getsort t s = (case src of None \<Rightarrow> (None, s2)
      | Some syms \<Rightarrow> (Some (qsort (sort_cmp t (heap s2)) syms),
          set_symsort t (Some (qsort (sort_cmp t (heap s2)) syms)) s2))"
    using False m by (auto simp: getsort_def src_def s2_def Let_def split: option.splits)
  have ok2: "sym_ok s2" using ok1 by (simp add: s2_def sym_ok_def)
  have h2: "heap s2 = heap s" "symhash s2 = symhash s" "nsyms s2 = nsyms s" using e by (auto simp: s2_def)
  have src: "mset syms = mset (all_ids s)" if "src = Some syms" for syms
  proof (cases b)
    case True
    then show ?thesis using that ok1 e by (simp add: src_def sym_ok_def chains_ok_def)
  next
    case False
    have "sort_ok (other_sort t) (heap s1) (symsort (other_sort t) s1)" using ok1 by (simp add: sym_ok_def)
    then show ?thesis using that False e by (simp add: src_def sort_ok_def)
  qed
  show ?thesis
  proof (cases src)
    case None
    then show ?thesis using g r ok2 h2 by simp
  next
    case (Some syms)
    let ?q = "qsort (sort_cmp t (heap s)) syms"
    have "set syms = set (all_ids s)" using src [OF Some] by (rule mset_eq_setD)
    then have "sorted_by (sort_cmp t (heap s)) ?q"
      using sym_ok_wf [OF ok] by (intro sort_cmp_sorted) simp
    moreover have "mset ?q = mset (all_ids s)" using src [OF Some] by simp
    moreover have "res = Some ?q" "s' = set_symsort t (Some ?q) s2" using g r Some h2 by auto
    ultimately show ?thesis using ok2 h2 by (simp add: sym_ok_def sort_ok_def)
  qed
qed

lemma getsymbyvalue_ok:
  assumes "sym_ok s" "getsymbyvalue addr s = (r, s')"
  shows "sym_ok s' \<and> heap s' = heap s \<and> (\<exists>i. r = Some i \<and> nearest (heap s) addr i)"
proof (cases "nsyms s = 0")
  case True
  then have "heap s = []" using assms(1) by (simp add: sym_ok_def)
  then show ?thesis using True assms by (auto simp: getsymbyvalue_def nearest_def)
next
  case False
  obtain res s1 where g: "getsort NUMERIC s = (res, s1)" by (cases "getsort NUMERIC s")
  note gs = getsort_ok [OF assms(1) g]
  have s': "s' = s1" using assms(2) False g
    by (auto simp: getsymbyvalue_def split: option.splits if_splits)
  show ?thesis
  proof (cases res)
    case None
    have "set (concat (symhash s1)) = set (all_ids s)"
      using gs assms(1) by (intro mset_eq_setD) (simp add: sym_ok_def chains_ok_def)
    then have "nearest (heap s) addr (best_chain (heap s) addr (concat (symhash s)) None)"
      using gs by (intro best_chain_nearest [where J = "{}"]) (auto simp: lessThan_atLeast0)
    moreover have "r = Some (best_chain (heap s) addr (concat (symhash s)) None)"
      using None assms(2) False g gs by (auto simp: getsymbyvalue_def)
    ultimately show ?thesis using gs s' by blast
  next
    case (Some syms)
    let ?h = "heap s" and ?n = "length (heap s)"
    let ?v = "\<lambda>i. sy_value (?h ! (syms ! i))"
    have m: "mset syms = mset (all_ids s)" and srt: "sorted_by (sort_cmp NUMERIC ?h) syms"
      using gs Some by auto
    have len: "length syms = ?n" using mset_eq_length [OF m] by simp
    have st: "set syms = {..<?n}" using mset_eq_setD [OF m] by (simp only: set_upt lessThan_atLeast0)
    have mem: "\<exists>k < ?n. syms ! k = j" if "j < ?n" for j
    proof -
      have "j \<in> set syms" using st that by simp
      then show ?thesis by (auto simp: in_set_conv_nth len)
    qed
    have n0: "0 < ?n" "nsyms s1 = ?n" using False assms(1) gs by (simp_all add: sym_ok_def)
    have mono: "\<forall>i j. i < j \<and> j < ?n \<longrightarrow> ?v i \<le> ?v j"
      using srt len by (simp add: sorted_wrt_iff_nth_less sort_cmp_def valcmp_le)
    show ?thesis
    proof (cases "addr < ?v 0")
      case True
      have "?v 0 \<le> ?v k" if "k < ?n" for k using mono that by (cases k) auto
      moreover have "addr < sy_value (?h ! j)" if j: "j < ?n" for j
      proof -
        obtain k where "k < ?n" "syms ! k = j" using mem [OF j] by blast
        then show ?thesis using calculation [of k] True by (simp add: less_le_trans)
      qed
      ultimately have "nearest ?h addr None" by (simp add: nearest_def)
      moreover have "r = Some None" using True Some assms(2) False g gs by (auto simp: getsymbyvalue_def)
      ultimately show ?thesis using gs s' by blast
    next
      case notless: False
      obtain k where k: "k < ?n" "sym_bsearch ?h syms addr 0 (?n - 1) = Some k" "?v k \<le> addr"
        "\<forall>j. k < j \<and> j < ?n \<longrightarrow> addr < ?v j \<or> ?v k = addr"
      proof -
        have "0 \<le> ?n - 1" "?n - 1 < ?n" "?v 0 \<le> addr"
          "\<forall>j. ?n - 1 < j \<and> j < ?n \<longrightarrow> addr < ?v j \<or> addr \<le> ?v (?n - 1)"
          using notless n0 by auto
        from sym_bsearch_finds [OF mono this] show ?thesis using that by blast
      qed
      have "sy_value (?h ! j) \<le> ?v k" if j: "j < ?n" "sy_value (?h ! j) \<le> addr" for j
      proof -
        obtain l where l: "l < ?n" "syms ! l = j" using mem j by blast
        show ?thesis
        proof (cases "k < l")
          case True
          then show ?thesis using k(4) l j by (metis not_le)
        next
          case False
          then show ?thesis using mono k(1) l by (metis le_neq_implies_less not_less order_refl)
        qed
      qed
      then have "nearest ?h addr (Some (syms ! k))"
        using k st len by (auto simp: nearest_def)
      moreover have "r = Some (Some (syms ! k))"
        using k notless Some assms(2) False g gs n0 by (auto simp: getsymbyvalue_def)
      ultimately show ?thesis using gs s' by blast
    qed
  qed
qed

text \<open>C8. \<open>getsymbyvalue\<close> returns for every address, whether the memory for the sorted array is
  there, is taken from the other array or is missing, and the symbol it returns is the
  nearest one below or at the address; the binary search ends although its bounds may
  stay one apart.\<close>
theorem getsymbyvalue_nearest:
  assumes "sym_ok s" "getsymbyvalue addr s = (r, s')"
  shows "sym_ok s' \<and> heap s' = heap s \<and> (\<exists>i. r = Some i \<and> nearest (heap s) addr i)"
  using assms by (rule getsymbyvalue_ok)

theorem getsymbyvalue_nearest_witness:
  "fst (getsymbyvalue 0x18 (snd (newsym ''b'' 0x20 (snd (newsym ''a'' 0x10 empty_symtab))))) = Some (Some 0)"
proof -
  let ?s = "snd (newsym ''b'' 0x20 (snd (newsym ''a'' 0x10 empty_symtab)))"
  have g: "good_name ''a''" "good_name ''b''" by (simp_all add: good_name_def wf_cstr_def)
  have ok: "sym_ok ?s"
    using sym.puts_inv [OF empty_symtab_ok, of "[(''a'', 0x10), (''b'', 0x20)]"] g by simp
  have h: "heap ?s = [\<lparr>sy_name = ''a'', sy_value = 0x10\<rparr>, \<lparr>sy_name = ''b'', sy_value = 0x20\<rparr>]"
    by code_simp
  have "getsymbyvalue 0x18 ?s = (fst (getsymbyvalue 0x18 ?s), snd (getsymbyvalue 0x18 ?s))" by simp
  from getsymbyvalue_nearest [OF ok this] obtain i
    where i: "fst (getsymbyvalue 0x18 ?s) = Some i" "nearest (heap ?s) 0x18 i" by blast
  then have "i = Some 0"
    unfolding h by (auto simp: nearest_def less_Suc_eq split: option.splits)
  then show ?thesis using i by simp
qed

section \<open>Clearing and defaults\<close>

lemma clrsyms_ok: "sym_ok s \<Longrightarrow> sym_ok (clrsyms s)"
proof -
  assume ok: "sym_ok s"
  have "symsort t (clrsyms s) = None" for t by (cases t) (auto simp: clrsyms_def)
  moreover have "heap (clrsyms s) = []" "nsyms (clrsyms s) = 0"
    "symhash (clrsyms s) = map (\<lambda>_. []) (symhash s)"
    by (auto simp: clrsyms_def)
  moreover have "concat (map (\<lambda>_. []) xs) = []" for xs :: "nat list list" by (induction xs) auto
  ultimately show ?thesis using ok
    by (simp add: sym_ok_def names_ok_def chains_ok_def)
qed

text \<open>\<open>adr2sym\<close> and \<open>sym2adr\<close> are inverse on every address that has a symbol: the
  name the disassembler prints for an address is one the expression evaluator turns back
  into that address.\<close>
theorem adr2sym_sym2adr:
  assumes "sym_ok s" "adr2sym e v s = (Some (Some n), s')"
  shows "sym2adr n s' = (True, ucast v)"
proof -
  obtain r where r: "getsymbyvalue v s = (r, s')"
    using assms(2) by (cases "getsymbyvalue v s") (auto simp: adr2sym_def split: option.splits if_splits)
  from getsymbyvalue_ok [OF assms(1) r] have ok: "sym_ok s'" by simp
  obtain i where i: "r = Some (Some i)" "sy_value (heap s' ! i) = v" "n = sy_name (heap s' ! i)"
    using assms(2) r by (auto simp: adr2sym_def split: option.splits if_splits)
  then have "i < length (heap s')"
    using getsymbyvalue_ok [OF assms(1) r] by (auto simp: nearest_def)
  then have "getsymbyname n s' = Some i"
    using getsymbyname_iff [OF ok, of n i] ok i(3) by (auto simp: sym_ok_def names_ok_def)
  then show ?thesis using i by (simp add: sym2adr_def)
qed

theorem adr2sym_sym2adr_witness:
  "sym2adr ''a'' (snd (adr2sym (blank_env ()) 0x10 (snd (newsym ''a'' 0x10 empty_symtab)))) = (True, 0x10)"
proof -
  let ?s = "snd (newsym ''a'' 0x10 empty_symtab)"
  have g: "good_name ''a''" by (simp add: good_name_def wf_cstr_def)
  have ok: "sym_ok ?s" by (rule sym.put_inv [OF empty_symtab_ok g])
  have "fst (adr2sym (blank_env ()) 0x10 ?s) = Some (Some ''a'')"
  proof -
    have h: "heap ?s = [\<lparr>sy_name = ''a'', sy_value = 0x10\<rparr>]" by code_simp
    have r: "getsymbyvalue 0x10 ?s = (fst (getsymbyvalue 0x10 ?s), snd (getsymbyvalue 0x10 ?s))" by simp
    from getsymbyvalue_ok [OF ok r] obtain i where i: "fst (getsymbyvalue 0x10 ?s) = Some i"
      "nearest (heap ?s) 0x10 i" and h': "heap (snd (getsymbyvalue 0x10 ?s)) = heap ?s" by blast
    then have "i = Some 0" unfolding h by (auto simp: nearest_def split: option.splits)
    moreover have "matchenv ''showsym'' (blank_env ()) = Some (- 2)" by code_simp
    moreover obtain s1 where s1: "getsymbyvalue 0x10 ?s = (Some i, s1)" using i(1) by (metis prod.collapse)
    moreover have "heap s1 = [\<lparr>sy_name = ''a'', sy_value = 0x10\<rparr>]" using h h' s1 by simp
    ultimately show ?thesis by (simp add: adr2sym_def)
  qed
  then have "adr2sym (blank_env ()) 0x10 ?s = (Some (Some ''a''), snd (adr2sym (blank_env ()) 0x10 ?s))"
    by (metis prod.collapse)
  from adr2sym_sym2adr [OF ok this] show ?thesis by simp
qed

end
