(* ===== verification/Rsa.thy ===== *)
theory Rsa
  imports Symtab "HOL-Library.Signed_Division"
begin

text \<open>
  The argument evaluator of the commands, \<^verbatim>\<open>pmon/common/rsa.c\<close>: an expression over
  numbers, symbols, registers and memory words with \<open>+ - * /\<close> and parentheses, read from
  the right so that the operators of one level associate to the left. The evaluator uses
  the environment (\<open>inbase\<close>, \<open>inalpha\<close>), the symbol table, memory and the register file;
  the register file is a parameter. The lemmas show that the text of an expression tree
  evaluates to the value of the tree.
\<close>

section \<open>The code\<close>

text \<open>What the evaluator reads besides its argument. \<open>r_junk\<close> is the content of the
  uninitialised local variables.\<close>

record 'n rsa_ctx =
  r_env :: "'n env"
  r_sym :: symtab
  r_mem :: mem
  r_getreg :: "cstr \<Rightarrow> u64 option"
  r_junk :: u64

text \<open>Enclosing parentheses are deleted in place.\<close>

function strip_parens :: "cstr \<Rightarrow> cstr" where
  "strip_parens p =
     (if char_at p 0 = CHR ''('' \<and> strbalp p = Some (strlen p - 1)
      then strip_parens (butlast (tl p)) else p)"
  by pat_completeness auto
termination by (relation "measure length") (auto dest: strbalp_less)

declare strip_parens.simps [simp del]

lemma length_strip_parens: "length (strip_parens p) \<le> length p"
proof (induction p rule: strip_parens.induct)
  case (1 p)
  then show ?case by (subst strip_parens.simps) (cases "char_at p 0 = CHR ''('' \<and> strbalp p = Some (strlen p - 1)", auto)
qed

definition load_word :: "mem \<Rightarrow> u32 \<Rightarrow> u32" where
  "load_word m adr = (case load_bytes m adr 4 of [b0, b1, b2, b3] \<Rightarrow>
     ucast b0 OR push_bit 8 (ucast b1) OR push_bit 16 (ucast b2) OR push_bit 24 (ucast b3) | _ \<Rightarrow> 0)"

text \<open>The number branch: the base of \<open>inbase\<close>, then a base prefix.\<close>

definition rsa_number :: "'n rsa_ctx \<Rightarrow> u64 \<Rightarrow> cstr \<Rightarrow> bool \<times> u64" where
  "rsa_number c vp p =
     (case (case matchenv ''inbase'' (r_env c) of
              Some j \<Rightarrow> if j = 2 then Some 10 else if j = 3 then Some 16
                        else if j = 1 then Some 8 else if j = 0 then Some 0 else None
            | None \<Rightarrow> None) of
        None \<Rightarrow> (False, vp)
      | Some base \<Rightarrow>
          (case llatob vp p base of (r, v) \<Rightarrow> if r then (True, v) else llatob v p 0))"

text \<open>A name that may be a number: \<open>inalpha\<close> says which comes first. When the symbol comes
  first the code stores the value only if there is no symbol, and then stores the 0 of the
  failed lookup.\<close>

definition rsa_alpha :: "'n rsa_ctx \<Rightarrow> u64 \<Rightarrow> cstr \<Rightarrow> bool \<times> u64" where
  "rsa_alpha c vp p =
     (case matchenv ''inalpha'' (r_env c) of
        Some j \<Rightarrow>
          if j = 0 then
            (case llatob vp p 16 of (r, v) \<Rightarrow>
               if r then (True, v)
               else case sym2adr p (r_sym c) of (r, adr) \<Rightarrow> if r then (True, adr) else (False, v))
          else if j = 1 then
            (case sym2adr p (r_sym c) of (r, adr) \<Rightarrow>
               if r then (True, vp)
               else case llatob vp p 16 of (r, v) \<Rightarrow> if r then (True, adr) else (False, v))
          else (False, vp)
      | None \<Rightarrow> (False, vp))"

definition rsa_symbol :: "'n rsa_ctx \<Rightarrow> u64 \<Rightarrow> cstr \<Rightarrow> bool \<times> u64" where
  "rsa_symbol c vp p =
     (case sym2adr p (r_sym c) of (r, adr) \<Rightarrow> if r then (True, adr) else (False, vp))"

definition rsa_reg :: "'n rsa_ctx \<Rightarrow> u64 \<Rightarrow> cstr \<Rightarrow> bool \<times> u64" where
  "rsa_reg c vp name = (case r_getreg c name of Some v \<Rightarrow> (True, v) | None \<Rightarrow> (False, vp))"

text \<open>All operands but the indirect one.\<close>

definition rsa_atom :: "'n rsa_ctx \<Rightarrow> u64 \<Rightarrow> cstr \<Rightarrow> bool \<times> u64" where
  "rsa_atom c vp p =
     (if char_at p 0 = CHR ''@'' then rsa_reg c vp (tl p)
      else if strcmp p ''.'' = 0 then rsa_reg c vp ''cpc''
      else if char_at p 0 = CHR ''&'' then rsa_symbol c vp (tl p)
      else if isdigit (char_at p 0) then rsa_number c vp p
      else if isxdigit (char_at p 0) then rsa_alpha c vp p
      else rsa_symbol c vp p)"

definition rsa_op :: "char \<Rightarrow> u64 \<Rightarrow> u64 \<Rightarrow> u64 option" where
  "rsa_op f v1 v2 =
     (if f = CHR ''+'' then Some (v1 + v2)
      else if f = CHR ''-'' then Some (v1 - v2)
      else if f = CHR ''*'' then Some (v1 * v2)
      else if v2 = 0 then None else Some (word_of_int (sint v1 sdiv sint v2)))"

text \<open>The left operand is copied to \<open>subexpr\<close>, a local buffer of \<open>LINESZ\<close> characters, without a check. No result:
  the copy overruns the buffer. Else the result says whether there is a value.\<close>

function get_rsa_reg :: "'n rsa_ctx \<Rightarrow> u64 \<Rightarrow> cstr \<Rightarrow> (bool \<times> u64) option" where
  "get_rsa_reg c vp p0 =
     (let p = strip_parens p0
      in case (case strrpset p ''+-'' of Some q \<Rightarrow> Some q | None \<Rightarrow> strrpset p ''*/'') of
           Some q \<Rightarrow>
             if q \<ge> LINESZ then None
             else (case get_rsa_reg c (r_junk c) (take q p) of
               None \<Rightarrow> None
             | Some (r1, v1) \<Rightarrow>
                 if \<not> r1 then Some (False, vp)
                 else (case get_rsa_reg c (r_junk c) (drop (Suc q) p) of
                   None \<Rightarrow> None
                 | Some (r2, v2) \<Rightarrow>
                     if \<not> r2 then Some (False, vp)
                     else (case rsa_op (p ! q) v1 v2 of None \<Rightarrow> Some (False, vp) | Some v \<Rightarrow> Some (True, v))))
         | None \<Rightarrow>
             if char_at p 0 = CHR ''^'' then
               (case get_rsa_reg c (r_junk c) (tl p) of
                  None \<Rightarrow> None
                | Some (r, v2) \<Rightarrow> Some (if r then (True, ucast (load_word (r_mem c) (ucast v2))) else (False, vp)))
             else Some (rsa_atom c vp p))"
  by pat_completeness auto

lemma rsa_split_less:
  assumes "(case strrpset (strip_parens p) ''+-'' of Some q \<Rightarrow> Some q
      | None \<Rightarrow> strrpset (strip_parens p) ''*/'') = Some q"
  shows "0 < q \<and> q < length (strip_parens p)"
  using assms by (auto split: option.splits dest: strrpset_Some)

lemma rsa_parts_less:
  assumes "(case strrpset (strip_parens p) ''+-'' of Some q \<Rightarrow> Some q
      | None \<Rightarrow> strrpset (strip_parens p) ''*/'') = Some q"
  shows "length (take q (strip_parens p)) < length p" "length (drop (Suc q) (strip_parens p)) < length p"
  using rsa_split_less [OF assms] length_strip_parens [of p] by auto

lemma rsa_tl_less:
  "char_at (strip_parens p) 0 = CHR ''^'' \<Longrightarrow> length (tl (strip_parens p)) < length p"
  using length_strip_parens [of p] by (cases "strip_parens p") (auto simp: char_at_def)

termination get_rsa_reg
  by (relation "measure (\<lambda>(c, vp, p). length p)")
    (simp_all only: in_measure wf_measure prod.case rsa_parts_less rsa_tl_less)

declare get_rsa_reg.simps [simp del]

text \<open>\<open>get_rsa\<close> keeps the low word: \<open>Some None\<close> is an expression without a value, \<open>None\<close> an overrun.\<close>

definition get_rsa :: "'n rsa_ctx \<Rightarrow> cstr \<Rightarrow> u32 option option" where
  "get_rsa c p = map_option (\<lambda>(r, v). if r then Some (ucast v) else None) (get_rsa_reg c (r_junk c) p)"

section \<open>Expression trees: the abstract evaluator\<close>

datatype rexp = Atom cstr | Paren rexp | Bin char rexp rexp

fun show_rexp :: "rexp \<Rightarrow> cstr" where
  "show_rexp (Atom w) = w"
| "show_rexp (Paren e) = ''('' @ show_rexp e @ '')''"
| "show_rexp (Bin f a b) = show_rexp a @ [f] @ show_rexp b"

definition atom_text :: "cstr \<Rightarrow> bool" where
  "atom_text w \<longleftrightarrow> w \<noteq> [] \<and> hd w \<noteq> CHR ''^'' \<and> set w \<inter> set ''+-*/()'' = {}"

text \<open>A tree that can be printed without further parentheses at a place of level 0
  (anything), 1 (operand of \<open>* /\<close>) or 2 (right operand of \<open>* /\<close>).\<close>

fun fits :: "nat \<Rightarrow> rexp \<Rightarrow> bool" where
  "fits l (Atom w) = atom_text w"
| "fits l (Paren e) = fits 0 e"
| "fits l (Bin f a b) =
     (if f \<in> set ''+-'' then l = 0 \<and> fits 0 a \<and> fits 1 b
      else f \<in> set ''*/'' \<and> l \<le> 1 \<and> fits 1 a \<and> fits 2 b)"

fun eval_rexp :: "'n rsa_ctx \<Rightarrow> rexp \<Rightarrow> u64 option" where
  "eval_rexp c (Atom w) = (case rsa_atom c (r_junk c) w of (r, v) \<Rightarrow> if r then Some v else None)"
| "eval_rexp c (Paren e) = eval_rexp c e"
| "eval_rexp c (Bin f a b) =
     Option.bind (eval_rexp c a) (\<lambda>v1. Option.bind (eval_rexp c b) (rsa_op f v1))"

text \<open>An operand whose value does not depend on what its destination held before.\<close>

definition stable :: "'n rsa_ctx \<Rightarrow> cstr \<Rightarrow> bool" where
  "stable c w \<longleftrightarrow>
     (\<forall>vp vp'. fst (rsa_atom c vp w) = fst (rsa_atom c vp' w) \<and>
        (fst (rsa_atom c vp w) \<longrightarrow> snd (rsa_atom c vp w) = snd (rsa_atom c vp' w)))"

fun atoms :: "rexp \<Rightarrow> cstr set" where
  "atoms (Atom w) = {w}"
| "atoms (Paren e) = atoms e"
| "atoms (Bin f a b) = atoms a \<union> atoms b"

text \<open>The texts of all left operands fit in the buffer.\<close>

fun lefts_fit :: "rexp \<Rightarrow> bool" where
  "lefts_fit (Atom w) = True"
| "lefts_fit (Paren e) = lefts_fit e"
| "lefts_fit (Bin f a b) = (length (show_rexp a) < LINESZ \<and> lefts_fit a \<and> lefts_fit b)"

section \<open>Scanning for an operator from the right\<close>

fun rclean :: "cstr \<Rightarrow> int \<Rightarrow> cstr \<Rightarrow> int option" where
  "rclean st n [] = Some n"
| "rclean st n (x # xs) =
     (if x = CHR ''('' then rclean st (n + 1) xs
      else if x = CHR '')'' then rclean st (n - 1) xs
      else if x \<in> set st \<and> n = 0 then None else rclean st n xs)"

lemma rclean_append: "rclean st n (xs @ ys) = Option.bind (rclean st n xs) (\<lambda>m. rclean st m ys)"
  by (induction st n xs rule: rclean.induct) auto

lemma strrpset_loop_clean:
  "rclean st n (rev s) = Some m \<Longrightarrow> a \<noteq> [] \<Longrightarrow>
   strrpset_loop (a @ s @ r) st (length a + length s - 1) n = strrpset_loop (a @ s @ r) st (length a - 1) m"
proof (induction s arbitrary: r n rule: rev_induct)
  case (snoc x s)
  have len: "length a + length (s @ [x]) - 1 = Suc (length a + length s - 1)" using snoc.prems(2)
    by (cases a) auto
  have at: "(a @ (s @ [x]) @ r) ! Suc (length a + length s - 1) = x"
    using snoc.prems(2) by (cases a) (auto simp: nth_append)
  show ?case
    using snoc.prems snoc.IH [of _ "x # r"]
    unfolding len strrpset_loop.simps at Let_def
    by (auto split: if_splits)
qed simp

lemma strrpset_op:
  assumes "rclean st 0 (rev b) = Some 0" "a \<noteq> []" "f \<in> set st" "f \<notin> {CHR ''('', CHR '')''}"
  shows "strrpset (a @ [f] @ b) st = Some (length a)"
proof -
  have "strrpset (a @ [f] @ b) st = strrpset_loop ((a @ [f]) @ b @ []) st (length (a @ [f]) + length b - 1) 0"
    by (simp add: strrpset_def)
  also have "\<dots> = strrpset_loop ((a @ [f]) @ b @ []) st (length (a @ [f]) - 1) 0"
    using assms by (intro strrpset_loop_clean) auto
  also have "length (a @ [f]) - 1 = Suc (length a - 1)" using assms(2) by (cases a) auto
  also have "strrpset_loop ((a @ [f]) @ b @ []) st (Suc (length a - 1)) 0 = Some (length a)"
    using assms(2-4) by (cases a) (auto simp: nth_append Let_def)
  finally show ?thesis .
qed

lemma strrpset_clean_None:
  assumes "rclean st 0 (rev p) \<noteq> None"
  shows "strrpset p st = None"
proof (cases p)
  case Nil
  then show ?thesis by (simp add: strrpset_def)
next
  case (Cons x t)
  then obtain m where "rclean st 0 (rev t) = Some m"
    using assms by (auto simp: rclean_append split: bind_splits)
  from strrpset_loop_clean [OF this, of "[x]" "[]"] Cons show ?thesis
    by (simp add: strrpset_def)
qed

lemma rclean_atom: "set w \<inter> set ''+-*/()'' = {} \<Longrightarrow> set st \<subseteq> set ''+-*/'' \<Longrightarrow> rclean st n w = Some n"
  by (induction w) auto

lemma rclean_inner: "fits l e \<Longrightarrow> set st \<subseteq> set ''+-*/'' \<Longrightarrow> n < 0 \<Longrightarrow> rclean st n (rev (show_rexp e)) = Some n"
proof (induction e arbitrary: l n)
  case (Atom w)
  then show ?case by (intro rclean_atom) (auto simp: atom_text_def)
next
  case (Bin f a b)
  then have f: "f \<noteq> CHR ''(''" "f \<noteq> CHR '')''" by (auto split: if_splits)
  from Bin.prems obtain la lb where "fits la a" "fits lb b" by (auto split: if_splits)
  then show ?case using Bin f by (auto simp: rclean_append)
qed (auto simp: rclean_append)

lemma rclean_level:
  "fits l e \<Longrightarrow> (l \<ge> 1 \<and> st = ''+-'') \<or> (l \<ge> 2 \<and> st = ''*/'') \<Longrightarrow>
   rclean st 0 (rev (show_rexp e)) = Some 0"
proof (induction e arbitrary: l)
  case (Atom w)
  then show ?case by (intro rclean_atom) (auto simp: atom_text_def)
next
  case (Paren e)
  then show ?case using rclean_inner [of 0 e st "-1"] by (auto simp: rclean_append)
next
  case (Bin f a b)
  have f: "f \<in> set ''*/''" and l: "l = 1" "st = ''+-''" and ab: "fits 1 a" "fits 2 b"
    using Bin.prems by (auto split: if_splits)
  then show ?case using Bin.IH(1) [OF ab(1)] Bin.IH(2) [OF ab(2)] by (auto simp: rclean_append)
qed

section \<open>Parentheses from the left\<close>

lemma strbalp_loop_plain:
  "CHR ''('' \<notin> set w \<Longrightarrow> CHR '')'' \<notin> set w \<Longrightarrow> strbalp_loop CHR ''('' CHR '')'' n (w @ r) =
    map_option (\<lambda>k. length w + k) (strbalp_loop CHR ''('' CHR '')'' n r)"
proof (induction w)
  case Nil
  then show ?case by (cases "strbalp_loop CHR ''('' CHR '')'' n r") auto
next
  case (Cons a w)
  then show ?case by (cases "strbalp_loop CHR ''('' CHR '')'' n r") auto
qed

lemma strbalp_loop_skip:
  assumes "0 < n" "fits l e"
  shows "strbalp_loop CHR ''('' CHR '')'' n (show_rexp e @ r) =
    map_option ((+) (length (show_rexp e))) (strbalp_loop CHR ''('' CHR '')'' n r)"
  using assms
proof (induction e arbitrary: l n r)
  case (Atom w)
  then have "CHR ''('' \<notin> set w" "CHR '')'' \<notin> set w" by (auto simp: atom_text_def)
  then show ?case by (simp add: strbalp_loop_plain)
next
  case (Paren e)
  have "strbalp_loop CHR ''('' CHR '')'' (n + 1) (show_rexp e @ '')'' @ r) =
      map_option ((+) (length (show_rexp e))) (strbalp_loop CHR ''('' CHR '')'' (n + 1) ('')'' @ r))"
    using Paren.prems by (intro Paren.IH [where l = 0]) auto
  then show ?case using Paren.prems(1) by (simp add: option.map_comp comp_def)
next
  case (Bin f a b)
  then have f: "f \<noteq> CHR ''(''" "f \<noteq> CHR '')''" by (auto split: if_splits)
  from Bin.prems obtain la lb where "fits la a" "fits lb b" by (auto split: if_splits)
  then show ?case using Bin.IH Bin.prems(1) f by (simp add: option.map_comp comp_def add.assoc)
qed

lemma strbalp_paren:
  assumes "fits 0 e"
  shows "strbalp (''('' @ show_rexp e @ '')'' @ r) = Some (Suc (length (show_rexp e)))"
  using strbalp_loop_skip [of 1 0 e "'')'' @ r"] assms by (simp add: strbalp_def)

lemma show_rexp_ne: "fits l e \<Longrightarrow> show_rexp e \<noteq> []"
  by (induction e arbitrary: l) (auto simp: atom_text_def split: if_splits)

lemma first_paren:
  "fits l e \<Longrightarrow> hd (show_rexp e) = CHR ''('' \<Longrightarrow>
   \<exists>d r. fits 0 d \<and> show_rexp e = ''('' @ show_rexp d @ '')'' @ r \<and> ((\<exists>d. e = Paren d) \<or> r \<noteq> [])"
proof (induction e arbitrary: l)
  case (Atom w)
  then show ?case by (cases w) (auto simp: atom_text_def)
next
  case (Paren e)
  then show ?case by (intro exI [of _ e] exI [of _ "[]"]) auto
next
  case (Bin f a b)
  from Bin.prems obtain la where a: "fits la a" by (auto split: if_splits)
  then have "hd (show_rexp a) = CHR ''(''" using Bin.prems(2) show_rexp_ne [OF a] by simp
  from Bin.IH(1) [OF a this] obtain d r where "fits 0 d" "show_rexp a = ''('' @ show_rexp d @ '')'' @ r"
    by blast
  then show ?case by (intro exI [of _ d] exI [of _ "r @ [f] @ show_rexp b"]) simp
qed

lemma strip_parens_id: "fits l e \<Longrightarrow> \<not> (\<exists>d. e = Paren d) \<Longrightarrow> strip_parens (show_rexp e) = show_rexp e"
proof -
  assume e: "fits l e" "\<not> (\<exists>d. e = Paren d)"
  show ?thesis
  proof (cases "char_at (show_rexp e) 0 = CHR ''(''")
    case True
    then have "hd (show_rexp e) = CHR ''(''"
      using show_rexp_ne [OF e(1)] by (cases "show_rexp e") (auto simp: char_at_def)
    from first_paren [OF e(1) this] e(2) obtain d r
      where d: "fits 0 d" "show_rexp e = ''('' @ show_rexp d @ '')'' @ r" "r \<noteq> []" by blast
    have "strbalp (show_rexp e) = Some (Suc (length (show_rexp d)))"
      unfolding d(2) by (rule strbalp_paren [OF d(1)])
    moreover have "length (show_rexp e) = length (show_rexp d) + 2 + length r" unfolding d(2) by simp
    ultimately show ?thesis using d(3) by (subst strip_parens.simps) (simp add: strlen_def)
  qed (subst strip_parens.simps, simp)
qed

lemma strip_parens_Paren: "fits 0 e \<Longrightarrow> strip_parens (show_rexp (Paren e)) = strip_parens (show_rexp e)"
  using strbalp_paren [of e "[]"]
  by (subst strip_parens.simps) (simp add: char_at_def strlen_def butlast_append)

lemma get_rsa_reg_strip:
  "strip_parens p = strip_parens q \<Longrightarrow> get_rsa_reg c vp p = get_rsa_reg c vp q"
  by (subst (1 2) get_rsa_reg.simps) simp

section \<open>The value of a tree\<close>

definition agrees :: "bool \<times> u64 \<Rightarrow> u64 option \<Rightarrow> bool" where
  "agrees r v \<longleftrightarrow> (case v of Some w \<Rightarrow> r = (True, w) | None \<Rightarrow> \<not> fst r)"

text \<open>The place of the operator at the top of a tree.\<close>

lemma show_rexp_split:
  assumes "fits l (Bin f a b)"
  shows "(case strrpset (show_rexp (Bin f a b)) ''+-'' of Some q \<Rightarrow> Some q | None \<Rightarrow> strrpset (show_rexp (Bin f a b)) ''*/'') =
    Some (length (show_rexp a))"
proof -
  let ?p = "show_rexp a @ [f] @ show_rexp b"
  obtain la lb where ab: "fits la a" "fits lb b" using assms by (auto split: if_splits)
  note ne = show_rexp_ne [OF ab(1)]
  show ?thesis
  proof (cases "f \<in> set ''+-''")
    case True
    then have "rclean ''+-'' 0 (rev (show_rexp b)) = Some 0"
      using assms by (intro rclean_level [of 1]) auto
    then show ?thesis using strrpset_op [of "''+-''" "show_rexp b" "show_rexp a" f] ne True by auto
  next
    case False
    then have f: "f \<in> set ''*/''" "fits 1 a" "fits 2 b" using assms by (auto split: if_splits)
    then have "rclean ''+-'' 0 (rev ?p) = Some 0"
      using rclean_level [OF f(2), of "''+-''"] rclean_level [OF f(3), of "''+-''"]
      by (auto simp: rclean_append)
    then have "strrpset ?p ''+-'' = None" by (intro strrpset_clean_None) simp
    moreover have "rclean ''*/'' 0 (rev (show_rexp b)) = Some 0" using f by (intro rclean_level [of 2]) auto
    ultimately show ?thesis using strrpset_op [of "''*/''" "show_rexp b" "show_rexp a" f] ne f by auto
  qed
qed

lemma agrees_atom: "stable c w \<Longrightarrow> agrees (rsa_atom c vp w) (eval_rexp c (Atom w))"
proof (cases "rsa_atom c vp w"; cases "rsa_atom c (r_junk c) w")
  fix r v r' v'
  assume "stable c w" and e: "rsa_atom c vp w = (r, v)" "rsa_atom c (r_junk c) w = (r', v')"
  then have "r = r'" "r \<longrightarrow> v = v'" unfolding stable_def by (metis fst_conv, metis fst_conv snd_conv)
  then show ?thesis using e by (simp add: agrees_def)
qed

lemma get_rsa_reg_tree:
  "fits l e \<Longrightarrow> \<forall>w \<in> atoms e. stable c w \<Longrightarrow> lefts_fit e \<Longrightarrow>
   \<exists>r. get_rsa_reg c vp (show_rexp e) = Some r \<and> agrees r (eval_rexp c e)"
proof (induction e arbitrary: l vp)
  case (Atom w)
  have s: "strip_parens w = w" using strip_parens_id [of l "Atom w"] Atom.prems by simp
  have cl: "rclean st 0 (rev w) = Some 0" if "set st \<subseteq> set ''+-*/''" for st
    using Atom.prems that by (intro rclean_atom) (auto simp: atom_text_def)
  have "strrpset w ''+-'' = None" "strrpset w ''*/'' = None"
    using cl [of "''+-''"] cl [of "''*/''"] by (auto intro: strrpset_clean_None)
  moreover have "char_at w 0 \<noteq> CHR ''^''"
    using Atom.prems(1) by (cases w) (auto simp: atom_text_def char_at_def)
  ultimately have "get_rsa_reg c vp w = Some (rsa_atom c vp w)"
    by (subst get_rsa_reg.simps) (simp add: s Let_def)
  then show ?case using agrees_atom [of c w vp] Atom.prems(2) by simp
next
  case (Paren e)
  have "get_rsa_reg c vp (show_rexp (Paren e)) = get_rsa_reg c vp (show_rexp e)"
    using Paren.prems strip_parens_Paren by (intro get_rsa_reg_strip) simp
  then show ?case using Paren.IH [of 0 vp] Paren.prems by simp
next
  case (Bin f a b)
  let ?p = "show_rexp a @ [f] @ show_rexp b"
  have s: "strip_parens ?p = ?p" using strip_parens_id [of l "Bin f a b"] Bin.prems by simp
  obtain la lb where ab: "fits la a" "fits lb b" using Bin.prems(1) by (auto split: if_splits)
  note q = show_rexp_split [OF Bin.prems(1), unfolded show_rexp.simps]
  have fit: "\<not> length (show_rexp a) \<ge> LINESZ" "lefts_fit a" "lefts_fit b" using Bin.prems(3) by simp_all
  obtain r1 v1 where A: "get_rsa_reg c (r_junk c) (show_rexp a) = Some (r1, v1)" "agrees (r1, v1) (eval_rexp c a)"
    using Bin.IH(1) [OF ab(1), of "r_junk c"] Bin.prems(2) fit(2) by auto
  obtain r2 v2 where B: "get_rsa_reg c (r_junk c) (show_rexp b) = Some (r2, v2)" "agrees (r2, v2) (eval_rexp c b)"
    using Bin.IH(2) [OF ab(2), of "r_junk c"] Bin.prems(2) fit(3) by auto
  have parts: "take (length (show_rexp a)) ?p = show_rexp a"
    "drop (Suc (length (show_rexp a))) ?p = show_rexp b" "?p ! length (show_rexp a) = f"
    by (simp_all add: nth_append)
  have g: "get_rsa_reg c vp ?p =
      (if \<not> r1 then Some (False, vp) else if \<not> r2 then Some (False, vp)
       else (case rsa_op f v1 v2 of None \<Rightarrow> Some (False, vp) | Some v \<Rightarrow> Some (True, v)))"
    by (subst get_rsa_reg.simps) (simp only: s Let_def q option.case parts A(1) B(1) prod.case fit(1) if_False)
  show ?case using A(2) B(2) unfolding show_rexp.simps g
    by (auto simp: agrees_def split: option.splits if_splits)
qed

text \<open>A longer left operand overruns the buffer.\<close>

lemma get_rsa_overrun:
  assumes "fits 0 (Bin f a b)" "length (show_rexp a) \<ge> LINESZ"
  shows "get_rsa c (show_rexp (Bin f a b)) = None"
proof -
  let ?p = "show_rexp (Bin f a b)"
  have s: "strip_parens ?p = ?p" using strip_parens_id [of 0 "Bin f a b"] assms(1) by simp
  have "get_rsa_reg c (r_junk c) ?p = None"
    by (subst get_rsa_reg.simps) (simp only: s Let_def show_rexp_split [OF assms(1)] option.case assms(2) if_True)
  then show ?thesis by (simp add: get_rsa_def)
qed

text \<open>C10. The evaluator gives an expression the value of its tree: \<open>* /\<close> bind tighter than
  \<open>+ -\<close>, operators of one level associate to the left, parentheses group, arithmetic wraps
  at 64 bits, a division by zero or an operand without a value makes the whole expression
  fail, as long as the text of every left operand is shorter than the buffer it is copied to.\<close>
theorem get_rsa_tree:
  assumes "fits 0 e" "\<forall>w \<in> atoms e. stable c w" "lefts_fit e"
  shows "get_rsa c (show_rexp e) = Some (map_option ucast (eval_rexp c e))"
  using get_rsa_reg_tree [OF assms, of "r_junk c"]
  by (auto simp: get_rsa_def agrees_def split: option.splits)

text \<open>A context with the standard environment, no symbols and no registers.\<close>

definition plain_ctx :: "(cstr \<times> cstr option) list rsa_ctx" where
  "plain_ctx = \<lparr> r_env = set_slot 0 \<lparr>ep_name = Some ''inbase'', ep_value = Some ''auto''\<rparr>
     (set_slot 1 \<lparr>ep_name = Some ''inalpha'', ep_value = Some ''hex''\<rparr> (blank_env [])), r_sym = empty_symtab, r_mem = (\<lambda>_. 0),
     r_getreg = (\<lambda>_. None), r_junk = 0 \<rparr>"

lemma plain_12: "rsa_atom plain_ctx vp ''12'' = (True, 12)" by code_simp
lemma plain_3: "rsa_atom plain_ctx vp ''3'' = (True, 3)" by code_simp
lemma plain_2: "rsa_atom plain_ctx vp ''2'' = (True, 2)" by code_simp

theorem get_rsa_tree_witness: "get_rsa plain_ctx ''12-3-2*(3-2)'' = Some (Some 7)"
proof -
  let ?e = "Bin CHR ''-'' (Bin CHR ''-'' (Atom ''12'') (Atom ''3''))
    (Bin CHR ''*'' (Atom ''2'') (Paren (Bin CHR ''-'' (Atom ''3'') (Atom ''2''))))"
  have "fits 0 ?e" by (simp add: atom_text_def)
  moreover have "\<forall>w \<in> atoms ?e. stable plain_ctx w"
    by (simp add: stable_def plain_12 plain_3 plain_2)
  moreover have "lefts_fit ?e" by (simp add: LINESZ_def)
  ultimately have "get_rsa plain_ctx (show_rexp ?e) = Some (map_option ucast (eval_rexp plain_ctx ?e))"
    by (rule get_rsa_tree)
  then show ?thesis by (simp add: plain_12 plain_3 plain_2 rsa_op_def)
qed

end
