(* ===== verification/Argv.thy ===== *)
theory Argv
  imports CString
begin

text \<open>
  The argument vector of a command: \<^verbatim>\<open>lib/libc/argvize.c\<close> cuts a command line into words
  and \<^verbatim>\<open>lib/libc/getopt.c\<close> reads the options of the vector. The lemmas show that a line
  made of plain and quoted words is cut into exactly these words, and that the usual loop
  over \<open>getopt\<close> returns the options that were written, in order, and stops at the first
  operand.
\<close>

section \<open>argvize\<close>

text \<open>The code cuts the line in place and returns pointers into it; the model returns the
  strings that these pointers denote. \<open>char\<close> is signed, so a byte from 128 on compares as
  less than a blank.\<close>

definition MAX_AC :: nat where "MAX_AC = 100"

definition is_quote :: "char \<Rightarrow> bool" where
  "is_quote c \<longleftrightarrow> c = CHR 0x27 \<or> c = CHR 0x22"

text \<open>One word and the rest of the line: the quote that closes a word is overwritten, and so
  is the character after the word, whatever it is.\<close>

definition argv_word :: "cstr \<Rightarrow> cstr \<times> cstr" where
  "argv_word s =
     (if is_quote (hd s)
      then (takeWhile (\<lambda>c. c \<noteq> hd s) (tl s), drop 1 (drop 1 (dropWhile (\<lambda>c. c \<noteq> hd s) (tl s))))
      else (takeWhile (\<lambda>c. schar CHR '' '' < schar c) s,
            drop 1 (dropWhile (\<lambda>c. schar CHR '' '' < schar c) s)))"

primrec argvize_loop :: "nat \<Rightarrow> cstr \<Rightarrow> cstr list" where
  "argvize_loop 0 s = []"
| "argvize_loop (Suc n) s =
     (let s = dropWhile (\<lambda>c. schar c \<le> schar CHR '' '') s
      in if s = [] then []
         else case argv_word s of (w, r) \<Rightarrow> w # argvize_loop n r)"

definition argvize :: "cstr \<Rightarrow> cstr list" where
  "argvize s = argvize_loop MAX_AC s"

section \<open>getopt\<close>

text \<open>The variables of the option parser. \<open>place\<close> is the rest of the argument that is being
  read, empty between arguments. The results: \<open>None\<close> is \<open>EOF\<close>; an illegal option returns the
  question mark. The messages are not modelled.\<close>

record getopt_state =
  optind :: nat
  optopt :: char
  optarg :: "cstr option"
  place :: cstr

definition BADCH :: char where "BADCH = CHR ''?''"

text \<open>The option letter \<open>c\<close> has been read, \<open>st\<close> holds the place after it.\<close>

definition getopt_letter :: "cstr list \<Rightarrow> cstr \<Rightarrow> char \<Rightarrow> getopt_state \<Rightarrow> char option \<times> getopt_state" where
  "getopt_letter nargv ostr c st =
     (case (if c = CHR '':'' then None else index ostr c) of
        None \<Rightarrow>
          if c = CHR ''-'' then (None, st)
          else (Some BADCH, if place st = [] then st\<lparr>optind := Suc (optind st)\<rparr> else st)
      | Some oli \<Rightarrow>
          if char_at ostr (Suc oli) \<noteq> CHR '':'' then
            (Some c, (if place st = [] then st\<lparr>optind := Suc (optind st)\<rparr> else st)\<lparr>optarg := None\<rparr>)
          else if place st \<noteq> [] then
            (Some c, st\<lparr>optarg := Some (place st), place := [], optind := Suc (optind st)\<rparr>)
          else if length nargv \<le> Suc (optind st) then
            (Some BADCH, st\<lparr>place := [], optind := Suc (optind st)\<rparr>)
          else
            (Some c, st\<lparr>optarg := Some (nargv ! Suc (optind st)), place := [],
                       optind := Suc (Suc (optind st))\<rparr>))"

definition getopt :: "cstr list \<Rightarrow> cstr \<Rightarrow> getopt_state \<Rightarrow> char option \<times> getopt_state" where
  "getopt nargv ostr st0 =
     (let st = (if optind st0 = 0 then st0\<lparr>place := [], optind := 1\<rparr> else st0);
          next_letter = (\<lambda>pl st. getopt_letter nargv ostr (hd pl) (st\<lparr>optopt := hd pl, place := tl pl\<rparr>))
      in if place st \<noteq> [] then next_letter (place st) st
         else if optind st \<ge> length nargv then (None, st\<lparr>place := []\<rparr>)
         else
           (let a = nargv ! optind st
            in if char_at a 0 \<noteq> CHR ''-'' then (None, st\<lparr>place := []\<rparr>)
               else if length a \<ge> 2 \<and> a ! 1 = CHR ''-''
                 then (None, st\<lparr>optind := Suc (optind st), place := []\<rparr>)
               else next_letter (if length a \<ge> 2 then tl a else a) st))"

text \<open>The loop of the commands, \<open>while ((c = getopt (ac, av, optstr)) != EOF)\<close>: the options
  in order, and the index of the first operand. The fuel bounds the number of calls.\<close>

fun getopt_all :: "nat \<Rightarrow> cstr list \<Rightarrow> cstr \<Rightarrow> getopt_state \<Rightarrow> ((char \<times> cstr option) list \<times> nat) option" where
  "getopt_all 0 nargv ostr st = None"
| "getopt_all (Suc n) nargv ostr st =
     (case getopt nargv ostr st of
        (None, st') \<Rightarrow> Some ([], optind st')
      | (Some c, st') \<Rightarrow>
          map_option (\<lambda>(os, i). ((c, optarg st') # os, i)) (getopt_all n nargv ostr st'))"

section \<open>Lines made of words\<close>

datatype qword = Plain cstr | Quoted char cstr

fun show_word :: "qword \<Rightarrow> cstr" where
  "show_word (Plain w) = w"
| "show_word (Quoted q w) = q # w @ [q]"

fun word_text :: "qword \<Rightarrow> cstr" where
  "word_text (Plain w) = w"
| "word_text (Quoted q w) = w"

fun good_word :: "qword \<Rightarrow> bool" where
  "good_word (Plain w) \<longleftrightarrow> w \<noteq> [] \<and> (\<forall>c \<in> set w. schar CHR '' '' < schar c) \<and> \<not> is_quote (hd w)"
| "good_word (Quoted q w) \<longleftrightarrow> is_quote q \<and> q \<notin> set w"

text \<open>Each word with the blanks that follow it; only the last word may have none.\<close>

fun show_line :: "(qword \<times> cstr) list \<Rightarrow> cstr" where
  "show_line [] = []"
| "show_line ((w, sep) # ws) = show_word w @ sep @ show_line ws"

definition blanks :: "cstr \<Rightarrow> bool" where
  "blanks s \<longleftrightarrow> (\<forall>c \<in> set s. schar c \<le> schar CHR '' '')"

fun good_line :: "(qword \<times> cstr) list \<Rightarrow> bool" where
  "good_line [] \<longleftrightarrow> True"
| "good_line ((w, sep) # ws) \<longleftrightarrow> good_word w \<and> blanks sep \<and> (sep \<noteq> [] \<or> ws = []) \<and> good_line ws"

lemma schar_quote: "is_quote q \<Longrightarrow> schar CHR '' '' < schar q"
  by (auto simp: is_quote_def schar_def uchar_def)

lemma show_word_first: "good_word w \<Longrightarrow> \<exists>c t. show_word w = c # t \<and> schar CHR '' '' < schar c"
  by (cases w; cases "show_word w") (auto dest: schar_quote)

lemma skip_blanks: "blanks lead \<Longrightarrow> dropWhile (\<lambda>c. schar c \<le> schar CHR '' '') (lead @ s) = dropWhile (\<lambda>c. schar c \<le> schar CHR '' '') s"
  by (simp add: blanks_def dropWhile_append)

lemma argv_word_plain:
  assumes "good_word w" "blanks sep" "sep \<noteq> [] \<or> r = []"
  shows "argv_word (show_word w @ sep @ r) = (word_text w, drop 1 sep @ r)"
proof (cases w)
  case (Plain v)
  have sep: "takeWhile (\<lambda>c. schar CHR '' '' < schar c) (sep @ r) = []"
    "dropWhile (\<lambda>c. schar CHR '' '' < schar c) (sep @ r) = sep @ r"
    using assms(2,3) by (cases sep; auto simp: blanks_def)+
  have v: "\<forall>c \<in> set v. schar CHR '' '' < schar c" "v \<noteq> []" "\<not> is_quote (hd v)" using assms(1) Plain by auto
  then have "takeWhile (\<lambda>c. schar CHR '' '' < schar c) (v @ sep @ r) = v"
    "dropWhile (\<lambda>c. schar CHR '' '' < schar c) (v @ sep @ r) = sep @ r"
    using sep by (simp_all add: takeWhile_append dropWhile_append)
  then have "argv_word (v @ sep @ r) = (v, drop 1 (sep @ r))" using v by (simp add: argv_word_def)
  then show ?thesis using Plain assms(3) by (cases sep) auto
next
  case (Quoted q v)
  then have q: "is_quote q" "\<forall>c \<in> set v. c \<noteq> q" using assms(1) by auto
  have "takeWhile (\<lambda>c. c \<noteq> q) (v @ q # sep @ r) = v" "dropWhile (\<lambda>c. c \<noteq> q) (v @ q # sep @ r) = q # sep @ r"
    using q(2) by (simp_all add: takeWhile_append dropWhile_append)
  then show ?thesis using Quoted q(1) assms(3) by (cases sep) (auto simp: argv_word_def)
qed

lemma blanks_drop: "blanks s \<Longrightarrow> blanks (drop n s)"
  by (auto simp: blanks_def dest: in_set_dropD)

lemma argvize_loop_line:
  "good_line ws \<Longrightarrow> blanks lead \<Longrightarrow> argvize_loop n (lead @ show_line ws) = take n (map (\<lambda>p. word_text (fst p)) ws)"
proof (induction n arbitrary: ws lead)
  case (Suc n)
  show ?case
  proof (cases ws)
    case Nil
    then show ?thesis using skip_blanks [OF Suc.prems(2), of "[]"] by simp
  next
    case (Cons p ws')
    then obtain w sep where ws: "ws = (w, sep) # ws'" by (cases p) auto
    then have g: "good_word w" "blanks sep" "sep \<noteq> [] \<or> show_line ws' = []" "good_line ws'"
      using Suc.prems(1) by auto
    have "dropWhile (\<lambda>c. schar c \<le> schar CHR '' '') (lead @ show_line ws) = show_line ws" "show_line ws \<noteq> []"
      using skip_blanks [OF Suc.prems(2)] show_word_first [OF g(1)] ws by auto
    moreover have "argv_word (show_line ws) = (word_text w, drop 1 sep @ show_line ws')"
      using argv_word_plain [OF g(1-3)] ws by simp
    ultimately have "argvize_loop (Suc n) (lead @ show_line ws)
        = word_text w # argvize_loop n (drop 1 sep @ show_line ws')"
      by (simp add: Let_def)
    also have "argvize_loop n (drop 1 sep @ show_line ws') = take n (map (\<lambda>p. word_text (fst p)) ws')"
      using Suc.IH [OF g(4) blanks_drop [OF g(2), of 1]] .
    finally show ?thesis using ws by simp
  qed
qed simp

text \<open>C29. A command line made of plain words and quoted words, separated by blanks, is cut
  into the texts of these words, in order and without the quotes, up to \<open>MAX_AC\<close> words.\<close>
theorem argvize_line:
  assumes "good_line ws" "blanks lead"
  shows "argvize (lead @ show_line ws) = take MAX_AC (map (\<lambda>p. word_text (fst p)) ws)"
  unfolding argvize_def by (rule argvize_loop_line [OF assms])

theorem argvize_line_witness:
  "argvize ''  set  x 'a b' \<newline>'' = [''set'', ''x'', ''a b'']"
  using argvize_line [of "[(Plain ''set'', ''  ''), (Plain ''x'', '' ''), (Quoted CHR 0x27 ''a b'', '' \<newline>'')]" "''  ''"]
  by (simp add: blanks_def schar_def uchar_def is_quote_def MAX_AC_def)

text \<open>A character that follows a closing quote directly is overwritten: it is neither in
  the quoted word nor at the start of the next one.\<close>
theorem argvize_lost_char:
  assumes "is_quote q" "q \<notin> set w" "good_line ws" "blanks lead"
  shows "argvize (lead @ q # w @ q # c # show_line ws) = w # take (MAX_AC - 1) (map (\<lambda>p. word_text (fst p)) ws)"
proof -
  let ?s = "q # w @ q # c # show_line ws"
  have d: "dropWhile (\<lambda>c. schar c \<le> schar CHR '' '') (lead @ ?s) = ?s"
    using skip_blanks [OF assms(4), of ?s] schar_quote [OF assms(1)] by simp
  have "\<forall>c \<in> set w. c \<noteq> q" using assms(2) by auto
  then have "takeWhile (\<lambda>c. c \<noteq> q) (w @ q # c # show_line ws) = w"
    "dropWhile (\<lambda>c. c \<noteq> q) (w @ q # c # show_line ws) = q # c # show_line ws"
    by (simp_all add: takeWhile_append dropWhile_append)
  then have w: "argv_word ?s = (w, show_line ws)" using assms(1) by (simp add: argv_word_def)
  have "argvize (lead @ ?s) = argvize_loop (Suc 99) (lead @ ?s)"
    by (simp add: argvize_def MAX_AC_def del: argvize_loop.simps)
  also have "\<dots> = w # argvize_loop 99 ([] @ show_line ws)"
    unfolding argvize_loop.simps Let_def d w by simp
  also have "argvize_loop 99 ([] @ show_line ws) = take 99 (map (\<lambda>p. word_text (fst p)) ws)"
    by (rule argvize_loop_line [OF assms(3)]) (simp add: blanks_def)
  finally show ?thesis by (simp add: MAX_AC_def)
qed

theorem argvize_lost_char_witness: "argvize ''\"a\"xb'' = [''a'', ''b'']"
  using argvize_lost_char [of "CHR 0x22" "''a''" "[(Plain ''b'', [])]" "[]" "CHR ''x''"]
  by (simp add: blanks_def schar_def uchar_def is_quote_def MAX_AC_def)

section \<open>Options as they are written\<close>

text \<open>One element of the vector: a run of flags, then possibly an option with an argument,
  which is either the rest of the element or the next element.\<close>

datatype optend = No_arg | Joined char cstr | Separate char cstr

type_synonym optgroup = "cstr \<times> optend"

fun show_group :: "optgroup \<Rightarrow> cstr list" where
  "show_group (fs, No_arg) = [CHR ''-'' # fs]"
| "show_group (fs, Joined c a) = [CHR ''-'' # fs @ c # a]"
| "show_group (fs, Separate c a) = [CHR ''-'' # fs @ [c], a]"

fun group_opts :: "optgroup \<Rightarrow> (char \<times> cstr option) list" where
  "group_opts (fs, No_arg) = map (\<lambda>c. (c, None)) fs"
| "group_opts (fs, Joined c a) = map (\<lambda>c. (c, None)) fs @ [(c, Some a)]"
| "group_opts (fs, Separate c a) = map (\<lambda>c. (c, None)) fs @ [(c, Some a)]"

definition takes_arg :: "cstr \<Rightarrow> bool \<Rightarrow> char \<Rightarrow> bool" where
  "takes_arg ostr b c \<longleftrightarrow> c \<noteq> CHR '':'' \<and> c \<noteq> CHR ''-'' \<and>
     (case index ostr c of None \<Rightarrow> False | Some i \<Rightarrow> (char_at ostr (Suc i) = CHR '':'') = b)"

fun good_group :: "cstr \<Rightarrow> optgroup \<Rightarrow> bool" where
  "good_group ostr (fs, No_arg) \<longleftrightarrow> fs \<noteq> [] \<and> (\<forall>c \<in> set fs. takes_arg ostr False c)"
| "good_group ostr (fs, Joined c a) \<longleftrightarrow> (\<forall>c \<in> set fs. takes_arg ostr False c) \<and> takes_arg ostr True c \<and> a \<noteq> []"
| "good_group ostr (fs, Separate c a) \<longleftrightarrow> (\<forall>c \<in> set fs. takes_arg ostr False c) \<and> takes_arg ostr True c"

definition operand_start :: "cstr list \<Rightarrow> bool" where
  "operand_start rest \<longleftrightarrow> (case rest of [] \<Rightarrow> True | a # _ \<Rightarrow> char_at a 0 \<noteq> CHR ''-'')"

section \<open>The steps of getopt\<close>

lemma getopt_start:
  assumes "optind st = i" "0 < i" "i < length av" "place st = []" "av ! i = CHR ''-'' # pl" "pl \<noteq> []" "hd pl \<noteq> CHR ''-''"
  shows "getopt av ostr st = getopt av ostr (st\<lparr>place := pl\<rparr>)"
  using assms by (cases pl) (simp_all add: getopt_def Let_def char_at_def)

lemma getopt_flag:
  assumes "0 < optind st" "place st = c # pl" "takes_arg ostr False c"
  shows "\<exists>st'. getopt av ostr st = (Some c, st') \<and> place st' = pl \<and> optarg st' = None \<and>
    optind st' = (if pl = [] then Suc (optind st) else optind st)"
  using assms by (auto simp: getopt_def getopt_letter_def takes_arg_def split: option.splits)

lemma getopt_joined:
  assumes "0 < optind st" "place st = c # a" "takes_arg ostr True c" "a \<noteq> []"
  shows "\<exists>st'. getopt av ostr st = (Some c, st') \<and> place st' = [] \<and> optarg st' = Some a \<and> optind st' = Suc (optind st)"
  using assms by (auto simp: getopt_def getopt_letter_def takes_arg_def split: option.splits)

lemma getopt_separate:
  assumes "0 < optind st" "place st = [c]" "takes_arg ostr True c" "Suc (optind st) < length av"
  shows "\<exists>st'. getopt av ostr st = (Some c, st') \<and> place st' = [] \<and> optarg st' = Some (av ! Suc (optind st)) \<and>
    optind st' = Suc (Suc (optind st))"
  using assms by (auto simp: getopt_def getopt_letter_def takes_arg_def split: option.splits)

lemma getopt_eof:
  assumes "0 < optind st" "place st = []" "operand_start (drop (optind st) av)"
  shows "\<exists>st'. getopt av ostr st = (None, st') \<and> optind st' = optind st"
proof (cases "optind st < length av")
  case True
  then have "drop (optind st) av = av ! optind st # drop (Suc (optind st)) av" by (rule Cons_nth_drop_Suc [symmetric])
  then show ?thesis using assms True by (simp add: getopt_def Let_def operand_start_def)
qed (use assms in \<open>simp add: getopt_def Let_def\<close>)

text \<open>What the loop returns from a state with the given place and index.\<close>

definition loop_gives :: "cstr list \<Rightarrow> cstr \<Rightarrow> nat \<Rightarrow> cstr \<Rightarrow> nat \<Rightarrow> (char \<times> cstr option) list \<Rightarrow> nat \<Rightarrow> bool" where
  "loop_gives av ostr n pl i os j \<longleftrightarrow>
     (\<forall>st. place st = pl \<longrightarrow> optind st = i \<longrightarrow> getopt_all n av ostr st = Some (os, j))"

lemma loop_gives_flag:
  assumes "loop_gives av ostr n pl (if pl = [] then Suc i else i) os j" "0 < i" "takes_arg ostr False c"
  shows "loop_gives av ostr (Suc n) (c # pl) i ((c, None) # os) j"
  unfolding loop_gives_def
proof (intro allI impI)
  fix st :: getopt_state assume st: "place st = c # pl" "optind st = i"
  obtain st' where "getopt av ostr st = (Some c, st')" "place st' = pl" "optarg st' = None"
    "optind st' = (if pl = [] then Suc i else i)"
    using getopt_flag [of st c pl ostr av] assms st by metis
  then show "getopt_all (Suc n) av ostr st = Some ((c, None) # os, j)"
    using assms(1) by (simp add: loop_gives_def)
qed

lemma loop_gives_arg:
  assumes "loop_gives av ostr n [] k os j" "0 < i" "takes_arg ostr True c"
    and "(pl = [] \<and> k = Suc (Suc i) \<and> Suc i < length av \<and> a = av ! Suc i) \<or> (pl \<noteq> [] \<and> k = Suc i \<and> a = pl)"
  shows "loop_gives av ostr (Suc n) (c # pl) i ((c, Some a) # os) j"
  unfolding loop_gives_def
proof (intro allI impI)
  fix st :: getopt_state assume st: "place st = c # pl" "optind st = i"
  obtain st' where "getopt av ostr st = (Some c, st')" "place st' = []" "optarg st' = Some a" "optind st' = k"
    using getopt_joined [of st c pl ostr av] getopt_separate [of st c ostr av] assms st by metis
  then show "getopt_all (Suc n) av ostr st = Some ((c, Some a) # os, j)"
    using assms(1) by (simp add: loop_gives_def)
qed

lemma loop_gives_flags:
  assumes "\<forall>c \<in> set fs. takes_arg ostr False c" "0 < i"
    and "loop_gives av ostr n pl (if pl = [] then Suc i else i) os j" "fs \<noteq> []"
  shows "loop_gives av ostr (length fs + n) (fs @ pl) i (map (\<lambda>c. (c, None)) fs @ os) j"
  using assms
proof (induction fs)
  case (Cons c fs)
  show ?case
  proof (cases "fs = []")
    case True
    then show ?thesis using loop_gives_flag [OF Cons.prems(3,2), of c] Cons.prems(1) by simp
  next
    case False
    then have "loop_gives av ostr (length fs + n) (fs @ pl) i (map (\<lambda>c. (c, None)) fs @ os) j"
      using Cons by simp
    then show ?thesis using loop_gives_flag [of av ostr _ "fs @ pl" i _ j c] False Cons.prems by simp
  qed
qed simp

lemma loop_gives_start:
  assumes "loop_gives av ostr n pl i os j" "0 < i" "i < length av" "av ! i = CHR ''-'' # pl"
    "pl \<noteq> []" "hd pl \<noteq> CHR ''-''"
  shows "loop_gives av ostr n [] i os j"
proof (cases n)
  case 0
  then show ?thesis using assms(1) by (auto simp: loop_gives_def dest: spec [of _ "getopt_state.make i NUL None pl"] simp: getopt_state.defs)
next
  case (Suc m)
  show ?thesis unfolding loop_gives_def Suc
  proof (intro allI impI)
    fix st :: getopt_state assume st: "place st = []" "optind st = i"
    have "getopt_all (Suc m) av ostr st = getopt_all (Suc m) av ostr (st\<lparr>place := pl\<rparr>)"
      using getopt_start [OF st(2) assms(2,3) st(1) assms(4-6), of ostr] by simp
    also have "\<dots> = Some (os, j)" using assms(1) st unfolding loop_gives_def Suc by simp
    finally show "getopt_all (Suc m) av ostr st = Some (os, j)" .
  qed
qed

lemma loop_gives_group:
  assumes "good_group ostr g" "av = pre @ show_group g @ rest" "pre \<noteq> []"
    and "loop_gives av ostr n [] (length pre + length (show_group g)) os j"
  shows "loop_gives av ostr (length (group_opts g) + n) [] (length pre) (group_opts g @ os) j"
proof -
  let ?i = "length pre"
  have i: "0 < ?i" using assms(3) by simp
  obtain fs e where g: "g = (fs, e)" by (cases g)
  have flags: "loop_gives av ostr (length fs + m) (fs @ pl) ?i (map (\<lambda>c. (c, None)) fs @ os') j"
    if "loop_gives av ostr m pl (if pl = [] then Suc ?i else ?i) os' j" "fs @ pl \<noteq> []"
      "fs = [] \<Longrightarrow> pl \<noteq> []" for m pl os'
    using that loop_gives_flags [OF _ i that(1), of fs] assms(1) g by (cases "fs = []"; cases e) auto
  show ?thesis
  proof (cases e)
    case No_arg
    then have fs: "fs \<noteq> []" "hd fs \<noteq> CHR ''-''" using assms(1) g by (cases fs; auto simp: takes_arg_def)+
    have "loop_gives av ostr (length fs + n) (fs @ []) ?i (map (\<lambda>c. (c, None)) fs @ os) j"
      using assms(4) fs g No_arg by (intro flags) auto
    then show ?thesis using loop_gives_start [of av ostr _ fs ?i] i assms(2) fs g No_arg by simp
  next
    case (Joined c a)
    then have c: "takes_arg ostr True c" "a \<noteq> []" using assms(1) g by auto
    have ne: "hd (fs @ c # a) \<noteq> CHR ''-''"
      using assms(1) g Joined by (cases fs) (auto simp: takes_arg_def)
    have "loop_gives av ostr (Suc n) (c # a) ?i ((c, Some a) # os) j"
      using assms(4) c i g Joined by (intro loop_gives_arg [of _ _ _ "Suc ?i"]) auto
    then have "loop_gives av ostr (length fs + Suc n) (fs @ c # a) ?i (map (\<lambda>c. (c, None)) fs @ (c, Some a) # os) j"
      by (intro flags) auto
    then show ?thesis using loop_gives_start [of av ostr _ "fs @ c # a" ?i] i assms(2) ne g Joined by simp
  next
    case (Separate c a)
    then have c: "takes_arg ostr True c" using assms(1) g by auto
    have ne: "hd (fs @ [c]) \<noteq> CHR ''-''"
      using assms(1) g Separate by (cases fs) (auto simp: takes_arg_def)
    have "loop_gives av ostr (Suc n) [c] ?i ((c, Some a) # os) j"
      using assms(2,4) c i g Separate by (intro loop_gives_arg [of _ _ _ "Suc (Suc ?i)"]) (auto simp: nth_append)
    then have "loop_gives av ostr (length fs + Suc n) (fs @ [c]) ?i (map (\<lambda>c. (c, None)) fs @ (c, Some a) # os) j"
      by (intro flags) auto
    then show ?thesis using loop_gives_start [of av ostr _ "fs @ [c]" ?i] i assms(2) ne g Separate by simp
  qed
qed

lemma getopt_all_more: "getopt_all n av ostr st = Some r \<Longrightarrow> n \<le> m \<Longrightarrow> getopt_all m av ostr st = Some r"
proof (induction n arbitrary: m st r)
  case (Suc n)
  obtain m' where m: "m = Suc m'" "n \<le> m'" using Suc.prems(2) by (cases m) auto
  obtain oc st' where g: "getopt av ostr st = (oc, st')" by (cases "getopt av ostr st")
  show ?case
  proof (cases oc)
    case None
    then show ?thesis using Suc.prems(1) g m(1) by simp
  next
    case (Some c)
    then obtain r' where "getopt_all n av ostr st' = Some r'"
      using Suc.prems(1) g by (cases "getopt_all n av ostr st'") auto
    then show ?thesis using Suc.IH [OF _ m(2)] Suc.prems(1) g m(1) Some by simp
  qed
qed simp

lemma loop_gives_more: "loop_gives av ostr n pl i os j \<Longrightarrow> n \<le> m \<Longrightarrow> loop_gives av ostr m pl i os j"
  unfolding loop_gives_def using getopt_all_more by blast

lemma loop_gives_groups:
  assumes "\<forall>g \<in> set gs. good_group ostr g" "av = pre @ concat (map show_group gs) @ rest" "pre \<noteq> []"
    and "operand_start rest"
  shows "loop_gives av ostr (Suc (length (concat (map group_opts gs)))) [] (length pre)
    (concat (map group_opts gs)) (length pre + length (concat (map show_group gs)))"
  using assms(1-3)
proof (induction gs arbitrary: pre)
  case Nil
  show ?case unfolding loop_gives_def
  proof (intro allI impI)
    fix st :: getopt_state assume st: "place st = []" "optind st = length pre"
    have "operand_start (drop (optind st) av)" using Nil.prems(2) st(2) assms(4) by simp
    then obtain st' where "getopt av ostr st = (None, st')" "optind st' = optind st"
      using getopt_eof [of st av ostr] Nil.prems(3) st by auto
    then show "getopt_all (Suc (length (concat (map group_opts [])))) av ostr st =
      Some (concat (map group_opts []), length pre + length (concat (map show_group [])))"
      using st by simp
  qed
next
  case (Cons g gs)
  have "loop_gives av ostr (Suc (length (concat (map group_opts gs)))) [] (length (pre @ show_group g))
    (concat (map group_opts gs)) (length (pre @ show_group g) + length (concat (map show_group gs)))"
    using Cons.prems by (intro Cons.IH) auto
  then have "loop_gives av ostr (length (group_opts g) + Suc (length (concat (map group_opts gs)))) [] (length pre)
    (group_opts g @ concat (map group_opts gs)) (length pre + length (show_group g) + length (concat (map show_group gs)))"
    using Cons.prems by (intro loop_gives_group [of ostr g av pre "concat (map show_group gs) @ rest"]) auto
  then show ?case by (simp add: add.assoc)
qed

text \<open>C30. A command that calls \<open>getopt\<close> until \<open>EOF\<close> sees exactly the options that were
  written, in order and with their arguments, for flags alone or run together and for
  arguments joined or separate, and is left with the index of the first operand; one call
  more than there are options is enough.\<close>
theorem getopt_written:
  assumes "\<forall>g \<in> set gs. good_group ostr g" "operand_start rest" "optind st = 0"
    and "length (concat (map group_opts gs)) < fuel"
  shows "getopt_all fuel (prog # concat (map show_group gs) @ rest) ostr st =
    Some (concat (map group_opts gs), Suc (length (concat (map show_group gs))))"
proof -
  let ?av = "prog # concat (map show_group gs) @ rest"
  have "loop_gives ?av ostr fuel [] 1 (concat (map group_opts gs)) (Suc (length (concat (map show_group gs))))"
    using loop_gives_more [OF loop_gives_groups [of gs ostr ?av "[prog]" rest]] assms by simp
  then have "getopt_all fuel ?av ostr (st\<lparr>place := [], optind := 1\<rparr>) =
      Some (concat (map group_opts gs), Suc (length (concat (map show_group gs))))"
    by (simp add: loop_gives_def)
  moreover have "getopt ?av ostr st = getopt ?av ostr (st\<lparr>place := [], optind := 1\<rparr>)"
    using assms(3) by (simp add: getopt_def Let_def)
  ultimately show ?thesis using assms(4) by (cases fuel) simp_all
qed

theorem getopt_written_witness:
  "getopt_all 4 [''x'', ''-ab'', ''-o'', ''out'', ''file''] ''abo:'' (getopt_state.make 0 NUL None [])
    = Some ([(CHR ''a'', None), (CHR ''b'', None), (CHR ''o'', Some ''out'')], 4)"
  using getopt_written [of "[(''ab'', No_arg), ([], Separate CHR ''o'' ''out'')]" "''abo:''" "[''file'']"
      "getopt_state.make 0 NUL None []" 4 "''x''"]
  by (simp add: takes_arg_def index_def char_at_def operand_start_def getopt_state.defs)

section \<open>Termination of the option loop\<close>

text \<open>The characters that are still to be read.\<close>

definition unread :: "cstr list \<Rightarrow> getopt_state \<Rightarrow> nat" where
  "unread av st = length (place st) +
     sum_list (map length (drop (if place st = [] then max 1 (optind st) else Suc (optind st)) av))"

lemma drop_sum_le: "m \<le> n \<Longrightarrow> sum_list (map length (drop n av)) \<le> sum_list (map length (drop m av))"
proof (induction av arbitrary: m n)
  case (Cons a av)
  then show ?case by (cases m; cases n) (auto intro: le_trans [OF Cons.IH])
qed simp

lemma drop_sum_nth: "i < length av \<Longrightarrow> sum_list (map length (drop i av)) = length (av ! i) + sum_list (map length (drop (Suc i) av))"
  by (simp flip: Cons_nth_drop_Suc)

lemma getopt_letter_unread:
  assumes "getopt_letter av ostr c st = (Some r, st')" "0 < optind st"
  shows "unread av st' \<le> length (place st) + sum_list (map length (drop (Suc (optind st)) av))"
  using assms drop_sum_le [of "Suc (optind st)" "Suc (Suc (optind st))" av]
  by (auto simp: getopt_letter_def unread_def split: option.splits if_splits)

lemma getopt_unread:
  assumes "getopt av ostr st = (Some r, st')" "0 < optind st"
  shows "unread av st' < unread av st" "0 < optind st'"
proof -
  show "0 < optind st'" using assms
    by (auto simp: getopt_def getopt_letter_def Let_def split: option.splits if_splits)
  show "unread av st' < unread av st"
  proof (cases "place st = []")
    case False
    with assms show ?thesis
      by (auto simp: getopt_def Let_def unread_def [of av st] dest!: getopt_letter_unread)
        (cases "place st"; simp)
  next
    case True
    then have i: "optind st < length av" and a: "char_at (av ! optind st) 0 = CHR ''-''"
      using assms by (auto simp: getopt_def Let_def split: if_splits)
    define pl where "pl = (if length (av ! optind st) \<ge> 2 then tl (av ! optind st) else av ! optind st)"
    have pl: "0 < length pl" "length pl \<le> length (av ! optind st)"
      using a unfolding pl_def by (cases "av ! optind st"; auto simp: char_at_def split: if_splits)+
    have "getopt_letter av ostr (hd pl) (st\<lparr>optopt := hd pl, place := tl pl\<rparr>) = (Some r, st')"
      using assms True i a unfolding pl_def by (auto simp: getopt_def Let_def split: if_splits)
    from getopt_letter_unread [OF this] assms(2)
    have "unread av st' \<le> length (tl pl) + sum_list (map length (drop (Suc (optind st)) av))" by simp
    moreover have "unread av st = length (av ! optind st) + sum_list (map length (drop (Suc (optind st)) av))"
      using True i assms(2) by (simp add: unread_def drop_sum_nth max_def)
    ultimately show ?thesis using pl by (cases pl) auto
  qed
qed

lemma getopt_total_pos: "unread av st < n \<Longrightarrow> 0 < optind st \<Longrightarrow> \<exists>r. getopt_all n av ostr st = Some r"
proof (induction n arbitrary: st)
  case (Suc n)
  obtain oc st' where g: "getopt av ostr st = (oc, st')" by (cases "getopt av ostr st")
  show ?case
  proof (cases oc)
    case None
    then show ?thesis using g by simp
  next
    case (Some c)
    then have "unread av st' < unread av st" "0 < optind st'" using getopt_unread [of av ostr st c st'] g Suc.prems by auto
    then obtain r where "getopt_all n av ostr st' = Some r" using Suc.IH [of st'] Suc.prems by auto
    then show ?thesis using g Some by (cases r) simp
  qed
qed simp

lemma getopt_total_start: "optind st = 0 \<Longrightarrow> \<exists>r. getopt_all (Suc (sum_list (map length av))) av ostr st = Some r"
proof -
  assume o: "optind st = 0"
  let ?st = "st\<lparr>place := [], optind := 1\<rparr>"
  have "unread av ?st < Suc (sum_list (map length av))"
    using drop_sum_le [of 0 1 av] by (simp add: unread_def)
  from getopt_total_pos [OF this, of ostr] have "\<exists>r. getopt_all (Suc (sum_list (map length av))) av ostr ?st = Some r" by simp
  moreover have "getopt av ostr st = getopt av ostr ?st" using o by (simp add: getopt_def Let_def)
  ultimately show ?thesis by simp
qed

text \<open>The option loop of a command ends on every argument vector and every option string,
  legal or not, after at most one call more than there are characters in the vector.\<close>
theorem getopt_terminates:
  assumes "optind st = 0"
  shows "\<exists>os i. getopt_all (Suc (sum_list (map length av))) av ostr st = Some (os, i)"
  using getopt_total_start [OF assms, of av ostr] by auto

theorem getopt_terminates_witness:
  "\<exists>os i. getopt_all 6 [''x'', ''-?:'', ''-''] ''a'' (getopt_state.make 0 NUL None []) = Some (os, i)"
proof -
  have "Suc (sum_list (map length [''x'', ''-?:'', ''-''])) = 6" "optind (getopt_state.make 0 NUL None []) = 0"
    by (simp_all add: getopt_state.defs)
  then show ?thesis using getopt_terminates [of "getopt_state.make 0 NUL None []" "[''x'', ''-?:'', ''-'']" "''a''"]
    by (simp only:)
qed

end
