(* ===== verification/Hist.thy ===== *)
theory Hist
  imports CString Number
begin

text \<open>
  The command line editor and the command history, \<^verbatim>\<open>pmon/cmds/hist.c\<close>. The editor keeps
  the line, a cursor column and a mark, and draws on the terminal by printing characters and
  backspaces; the history is a ring of \<open>HISTMAX + 1\<close> slots. The lemmas show that the ring is
  a bounded list of lines, that history numbers and prefixes find the right line, that after
  every key the terminal shows the line with the cursor at the column, and that the line
  stays in its buffer. The terminal is one row of unlimited length; the wrapping of a line at the edge of a
  screen is not modelled.
\<close>

section \<open>The history ring\<close>

definition HISTMAX :: nat where "HISTMAX = 200"

definition incmod :: "nat \<Rightarrow> nat \<Rightarrow> nat" where
  "incmod x m = (if x + 1 > m then 0 else x + 1)"

definition decmod :: "nat \<Rightarrow> nat \<Rightarrow> nat" where
  "decmod x m = (if x = 0 then m else x - 1)"

record history =
  hist :: "cstr option list"
  histi :: nat
  histo :: nat
  histno :: int

text \<open>The zeroed variables of the start, then \<open>histinit\<close>.\<close>

definition hist_zero :: history where
  "hist_zero = \<lparr>hist = replicate (HISTMAX + 1) None, histi = 0, histo = 0, histno = 0\<rparr>"

definition histinit :: "history \<Rightarrow> history" where
  "histinit h = h\<lparr>histno := 1\<rparr>"

fun dec_times :: "nat \<Rightarrow> nat \<Rightarrow> nat" where
  "dec_times 0 m = m"
| "dec_times (Suc d) m = dec_times d (decmod m HISTMAX)"

definition gethistn :: "int \<Rightarrow> history \<Rightarrow> cstr option" where
  "gethistn n h =
     (if n < histno h - int HISTMAX \<or> n > histno h then None
      else hist h ! dec_times (nat (histno h - n)) (histi h))"

text \<open>The walk back of \<open>gethists\<close>; the fuel is the number of slots.\<close>

fun gethists_loop :: "nat \<Rightarrow> cstr \<Rightarrow> history \<Rightarrow> nat \<Rightarrow> cstr option" where
  "gethists_loop 0 p h i = None"
| "gethists_loop (Suc f) p h i =
     (if i = decmod (histo h) HISTMAX then None
      else case hist h ! i of
        None \<Rightarrow> None
      | Some s \<Rightarrow> if strbequ s p then Some s else gethists_loop f p h (decmod i HISTMAX))"

definition gethists :: "cstr \<Rightarrow> history \<Rightarrow> cstr option" where
  "gethists p h = gethists_loop (HISTMAX + 1) p h (decmod (histi h) HISTMAX)"

text \<open>\<open>mem_ok\<close> says whether \<open>malloc\<close> finds memory; the oldest line is dropped before it is
  called.\<close>

definition addhist :: "bool \<Rightarrow> cstr \<Rightarrow> history \<Rightarrow> history" where
  "addhist mem_ok p h =
     (if strempty p then h
      else if (case hist h ! decmod (histi h) HISTMAX of Some s \<Rightarrow> strcmp p s = 0 | None \<Rightarrow> False) then h
      else
        (let h1 = (if incmod (histi h) HISTMAX = histo h
                   then h\<lparr>hist := (hist h)[histo h := None], histo := incmod (histo h) HISTMAX\<rparr> else h)
         in if \<not> mem_ok then h1\<lparr>hist := (hist h1)[histi h1 := None]\<rparr>
            else h1\<lparr>hist := (hist h1)[histi h1 := Some p], histi := incmod (histi h1) HISTMAX,
                    histno := histno h1 + 1\<rparr>))"

section \<open>Drawing\<close>

text \<open>The line in its buffer, the column of the cursor, the mark and what was sent to the
  terminal. \<open>histr\<close> is the slot shown while walking through the history. The mark is a C
  \<open>int\<close> and can become -1.\<close>

record editor =
  line :: cstr
  column :: nat
  mark :: int
  histr :: nat
  out :: cstr

definition ch_bs :: char where "ch_bs = CHR 0x08"
definition ch_bell :: char where "ch_bell = CHR 0x07"

definition putchar :: "char \<Rightarrow> editor \<Rightarrow> editor" where
  "putchar c s = s\<lparr>out := out s @ [c]\<rparr>"

fun putstr :: "cstr \<Rightarrow> editor \<Rightarrow> editor" where
  "putstr [] s = s"
| "putstr (c # p) s =
     putstr p ((putchar c s)\<lparr>column := if c = CHR 0x0A then 0 else Suc (column s)\<rparr>)"

fun left :: "nat \<Rightarrow> editor \<Rightarrow> editor" where
  "left 0 s = s"
| "left (Suc n) s =
     (if column s > 0 then left n ((putchar ch_bs s)\<lparr>column := column s - 1\<rparr>) else s)"

fun right :: "nat \<Rightarrow> editor \<Rightarrow> editor" where
  "right 0 s = s"
| "right (Suc n) s =
     (if column s < length (line s)
      then right n ((putchar (line s ! column s) s)\<lparr>column := Suc (column s)\<rparr>) else s)"

fun backspace :: "nat \<Rightarrow> editor \<Rightarrow> editor" where
  "backspace 0 s = s"
| "backspace (Suc n) s =
     (if column s > 0
      then backspace n ((putchar ch_bs (putchar CHR '' '' (putchar ch_bs s)))\<lparr>column := column s - 1\<rparr>)
      else s)"

text \<open>\<open>strdchr (&p[i])\<close> and \<open>strichr (&p[i], c)\<close> on the text of the line.\<close>

definition del_at :: "nat \<Rightarrow> cstr \<Rightarrow> cstr" where
  "del_at i p = take i p @ drop (Suc i) p"

definition ins_at :: "nat \<Rightarrow> char \<Rightarrow> cstr \<Rightarrow> cstr" where
  "ins_at i c p = take i p @ c # drop i p"

definition addchar :: "char \<Rightarrow> editor \<Rightarrow> editor" where
  "addchar c s =
     (if length (line s) > LINESZ - 40 then s
      else
        (let oc = column s;
             s1 = s\<lparr>line := ins_at oc c (line s)\<rparr>;
             s2 = putstr (drop oc (line s1)) s1
         in left (length (drop oc (line s2)) - 1) s2))"

section \<open>The keys\<close>

text \<open>The control characters of the editor.\<close>

definition CNTRL :: "char \<Rightarrow> char" where "CNTRL c = char_of (uchar c mod 32)"

definition K_PREV :: char where "K_PREV = CNTRL CHR ''P''"
definition K_NEXT :: char where "K_NEXT = CNTRL CHR ''N''"
definition K_FORW :: char where "K_FORW = CNTRL CHR ''F''"
definition K_BACK :: char where "K_BACK = CNTRL CHR ''B''"
definition K_BEGIN :: char where "K_BEGIN = CNTRL CHR ''A''"
definition K_END :: char where "K_END = CNTRL CHR ''E''"
definition K_DELETE :: char where "K_DELETE = CNTRL CHR ''D''"
definition K_DELLINE :: char where "K_DELLINE = CNTRL CHR ''K''"
definition K_MARK :: char where "K_MARK = CNTRL CHR '' ''"
definition K_KILL :: char where "K_KILL = CNTRL CHR ''W''"

definition cvtab :: "char list" where
  "cvtab = [K_PREV, K_NEXT, K_FORW, K_BACK, CHR ''E'', K_END, CHR ''G'', K_BEGIN]"

text \<open>The escape sequences of the cursor keys.\<close>

datatype esc_state = ESC_NONE | HAVE_ESC | HAVE_LB

fun esc_step :: "esc_state \<Rightarrow> char \<Rightarrow> esc_state \<times> char option" where
  "esc_step ESC_NONE c = (if c = CHR 0x1B then (HAVE_ESC, None) else (ESC_NONE, Some c))"
| "esc_step HAVE_ESC c = (if c = CHR ''['' then (HAVE_LB, None) else (ESC_NONE, Some c))"
| "esc_step HAVE_LB c =
     (ESC_NONE, Some (if uchar CHR ''A'' \<le> uchar c \<and> uchar c \<le> uchar CHR ''H''
                      then cvtab ! (uchar c - uchar CHR ''A'') else c))"

text \<open>Showing a line of the history: the old line is erased, and the text of the slot, or
  nothing, takes its place.\<close>

definition show_hist :: "history \<Rightarrow> nat \<Rightarrow> editor \<Rightarrow> editor" where
  "show_hist h r s =
     (let s1 = right (length (line s) - column s) s;
          s2 = backspace (column s1) s1;
          s3 = s2\<lparr>histr := r, line := (case hist h ! r of None \<Rightarrow> [] | Some t \<Rightarrow> t)\<rparr>
      in (putstr (line s3) s3)\<lparr>mark := 0\<rparr>)"

definition key_delete :: "editor \<Rightarrow> editor" where
  "key_delete s =
     (let oc = column s;
          s1 = s\<lparr>line := del_at oc (line s)\<rparr>;
          s2 = putstr '' '' (putstr (drop oc (line s1)) s1);
          s3 = left (length (drop oc (line s2)) + 1) s2
      in if mark s3 > int oc then s3\<lparr>mark := mark s3 - 1\<rparr> else s3)"

definition key_delline :: "editor \<Rightarrow> editor" where
  "key_delline s =
     (let oc = column s;
          n = length (drop oc (line s));
          s1 = s\<lparr>line := take oc (line s)\<rparr>;
          s2 = left n (putstr (replicate n CHR '' '') s1)
      in if mark s2 > int oc then s2\<lparr>mark := int oc\<rparr> else s2)"

definition key_kill :: "editor \<Rightarrow> editor" where
  "key_kill s =
     (if mark s = int (column s) then s
      else
        (let n = nat \<bar>int (column s) - mark s\<bar>;
             s1 = (if int (column s) > mark s then left n s else s);
             s2 = s1\<lparr>line := (del_at (column s1) ^^ n) (line s1)\<rparr>;
             oc = column s2;
             s3 = putstr (replicate n CHR '' '') (putstr (drop oc (line s2)) s2);
             s4 = left (length (drop oc (line s3)) + n) s3
         in s4\<lparr>mark := int (column s4)\<rparr>))"

definition key_backspace :: "editor \<Rightarrow> editor" where
  "key_backspace s0 =
     (let s = left 1 s0;
          oc = column s;
          s1 = s\<lparr>line := del_at oc (line s)\<rparr>;
          s2 = putstr '' '' (putstr (drop oc (line s1)) s1);
          s3 = left (length (drop oc (line s2)) + 1) s2
      in if mark s3 \<ge> int oc then s3\<lparr>mark := mark s3 - 1\<rparr> else s3)"

text \<open>One key that does not end the line.\<close>

definition edit_key :: "bool \<Rightarrow> history \<Rightarrow> char \<Rightarrow> editor \<Rightarrow> editor" where
  "edit_key usehist h c s =
     (if c = K_PREV \<and> usehist then
        show_hist h (if histr s \<noteq> histo h then decmod (histr s) HISTMAX else histr s) s
      else if c = K_NEXT \<and> usehist then
        show_hist h (if histr s \<noteq> histi h then incmod (histr s) HISTMAX else histr s) s
      else if c = K_FORW then right 1 s
      else if c = K_BACK then left 1 s
      else if c = K_BEGIN then left (column s) s
      else if c = K_END then right (length (drop (column s) (line s))) s
      else if c = K_MARK then s\<lparr>mark := int (column s)\<rparr>
      else if c = K_DELETE then key_delete s
      else if c = K_DELLINE then key_delline s
      else if c = K_KILL then key_kill s
      else if c = ch_bs \<or> c = CHR 0x7F then key_backspace s
      else if isprint c then addchar c s
      else putchar (CNTRL CHR ''G'') s)"

text \<open>The start of both line readers.\<close>

definition edit_start :: "history \<Rightarrow> cstr \<Rightarrow> editor" where
  "edit_start h p =
     (let s = \<lparr>line = p, column = 0, mark = 0, histr = histi h, out = []\<rparr>
      in if p \<noteq> [] then (let s1 = putstr p s in left (column s1) s1) else s)"

text \<open>The readers take the characters that are typed and return the final state and the
  characters not yet read; \<open>None\<close> while no end of line has been typed. A tab is ignored by
  \<open>get_line\<close> and is a key without a meaning for \<open>get_line1\<close>.\<close>

fun get_line_loop :: "bool \<Rightarrow> history \<Rightarrow> esc_state \<Rightarrow> cstr \<Rightarrow> editor \<Rightarrow> (editor \<times> cstr) option" where
  "get_line_loop usehist h e [] s = None"
| "get_line_loop usehist h e (c0 # cs) s =
     (case esc_step e c0 of
        (e', None) \<Rightarrow> get_line_loop usehist h e' cs s
      | (e', Some c) \<Rightarrow>
          if c = CHR 0x0A \<or> c = CHR 0x0D then Some (putstr [CHR 0x0A] s, cs)
          else if c = CHR 0x09 then get_line_loop usehist h e' cs s
          else get_line_loop usehist h e' cs (edit_key usehist h c s))"

definition get_line :: "bool \<Rightarrow> history \<Rightarrow> cstr \<Rightarrow> cstr \<Rightarrow> (editor \<times> cstr) option" where
  "get_line usehist h p input = get_line_loop usehist h ESC_NONE input (edit_start h p)"

fun get_line1_loop :: "bool \<Rightarrow> history \<Rightarrow> esc_state \<Rightarrow> cstr \<Rightarrow> editor \<Rightarrow> (editor \<times> cstr) option" where
  "get_line1_loop usehist h e [] s = None"
| "get_line1_loop usehist h e (c0 # cs) s =
     (case esc_step e c0 of
        (e', None) \<Rightarrow> get_line1_loop usehist h e' cs s
      | (e', Some c) \<Rightarrow>
          if c = CHR 0x0A \<or> c = CHR 0x0D then Some (s, cs)
          else get_line1_loop usehist h e' cs (edit_key usehist h c s))"

definition get_line1 :: "bool \<Rightarrow> history \<Rightarrow> cstr \<Rightarrow> cstr \<Rightarrow> (editor \<times> cstr) option" where
  "get_line1 usehist h p input = get_line1_loop usehist h ESC_NONE input (edit_start h p)"

section \<open>History substitution\<close>

text \<open>The place of the bang, if any. After a quote that is not closed the scan steps over
  the terminating \<open>NUL\<close> and goes on behind the line: \<open>None\<close>.\<close>

fun findbang :: "cstr \<Rightarrow> nat option option"
  and skipquote :: "char \<Rightarrow> cstr \<Rightarrow> nat option option" where
  "findbang [] = Some None"
| "findbang (c # p) =
     (if c = CHR 0x27 \<or> c = CHR 0x22 then map_option (map_option Suc) (skipquote c p)
      else if c = CHR ''!'' then Some (Some 0)
      else map_option (map_option Suc) (findbang p))"
| "skipquote q [] = None"
| "skipquote q (c # p) =
     map_option (map_option Suc) (if c \<noteq> q then skipquote q p else findbang p)"

text \<open>What the event names: the line to be inserted (\<open>None\<close>: event not found; the null
  pointer of an empty slot inserts nothing).\<close>

definition bang_event :: "history \<Rightarrow> cstr \<Rightarrow> cstr option" where
  "bang_event h buf =
     (if strcmp buf ''!'' = 0 then
        Some (case hist h ! decmod (histi h) HISTMAX of None \<Rightarrow> [] | Some t \<Rightarrow> t)
      else case atob buf 10 of
        Some v \<Rightarrow> gethistn (sint v) h
      | None \<Rightarrow> gethists buf h)"

text \<open>The substitution; \<open>Overrun\<close> where the code leaves the line, the word buffer of 20
  characters or the line buffer.\<close>

datatype read_error = No_eol | Overrun

definition bang_subst :: "history \<Rightarrow> cstr \<Rightarrow> read_error + cstr" where
  "bang_subst h p =
     (case findbang p of
        None \<Rightarrow> Inl Overrun
      | Some None \<Rightarrow> Inr p
      | Some (Some q) \<Rightarrow>
          let word = (case getword (drop q p) of None \<Rightarrow> [] | Some (w, r) \<Rightarrow> w);
              buf = drop 1 word
          in if length word \<ge> 20 then Inl Overrun
             else if strempty buf then Inr p
             else
               let p1 = take q p @ drop (Suc (length buf)) (drop q p)
               in case bang_event h buf of
                    None \<Rightarrow> Inr p1
                  | Some t \<Rightarrow>
                      if length p1 + length t < LINESZ then Inr (take q p1 @ t @ drop q p1)
                      else Inl Overrun)"

definition get_cmd :: "bool \<Rightarrow> history \<Rightarrow> cstr \<Rightarrow> read_error + cstr \<times> history \<times> cstr" where
  "get_cmd mem_ok h input =
     (case get_line True h [] input of
        None \<Rightarrow> Inl No_eol
      | Some (s, rest) \<Rightarrow>
          (case bang_subst h (line s) of
             Inl e \<Rightarrow> Inl e
           | Inr p \<Rightarrow> Inr (p, addhist mem_ok p h, rest)))"

section \<open>The ring is a bounded list\<close>

definition ring_len :: "history \<Rightarrow> nat" where
  "ring_len h = (histi h + 201 - histo h) mod 201"

definition slot :: "history \<Rightarrow> nat \<Rightarrow> nat" where
  "slot h k = (histo h + k) mod 201"

definition hist_list :: "history \<Rightarrow> cstr list" where
  "hist_list h = map (\<lambda>k. the (hist h ! slot h k)) [0..<ring_len h]"

definition hist_ok :: "history \<Rightarrow> bool" where
  "hist_ok h \<longleftrightarrow> length (hist h) = 201 \<and> histi h < 201 \<and> histo h < 201 \<and>
     (\<forall>k < 201. hist h ! slot h k \<noteq> None \<longleftrightarrow> k < ring_len h)"

lemma hist_okD:
  assumes "hist_ok h"
  shows "length (hist h) = 201" "histi h < 201" "histo h < 201"
    "k < 201 \<Longrightarrow> hist h ! slot h k \<noteq> None \<longleftrightarrow> k < ring_len h" "ring_len h \<le> 200"
  using assms by (auto simp: hist_ok_def ring_len_def)

lemma length_hist_list [simp]: "length (hist_list h) = ring_len h"
  by (simp add: hist_list_def)

lemma hist_list_nth: "hist_ok h \<Longrightarrow> k < ring_len h \<Longrightarrow> hist h ! slot h k = Some (hist_list h ! k)"
  using hist_okD(4) [of h k] hist_okD(5) [of h] by (auto simp: hist_list_def)

lemma slot_inject: "hist_ok h \<Longrightarrow> j < 201 \<Longrightarrow> k < 201 \<Longrightarrow> slot h j = slot h k \<longleftrightarrow> j = k"
  using hist_okD(3) [of h] by (auto simp: slot_def mod_if)

lemma slot_histi: "hist_ok h \<Longrightarrow> slot h (ring_len h) = histi h"
  using hist_okD(2,3) [of h] by (auto simp: slot_def ring_len_def mod_if)

lemma decmod_slot: "hist_ok h \<Longrightarrow> k < 201 \<Longrightarrow> decmod (slot h k) HISTMAX = slot h (if k = 0 then 200 else k - 1)"
  using hist_okD(3) [of h] by (auto simp: slot_def decmod_def HISTMAX_def mod_if)

lemma incmod_slot: "hist_ok h \<Longrightarrow> k < 201 \<Longrightarrow> incmod (slot h k) HISTMAX = slot h (if k = 200 then 0 else Suc k)"
  using hist_okD(3) [of h] by (auto simp: slot_def incmod_def HISTMAX_def mod_if)

lemma slot_0: "hist_ok h \<Longrightarrow> slot h 0 = histo h"
  using hist_okD(3) [of h] by (simp add: slot_def)

lemma hist_last:
  assumes "hist_ok h"
  shows "hist h ! decmod (histi h) HISTMAX = (if hist_list h = [] then None else Some (last (hist_list h)))"
proof (cases "ring_len h = 0")
  case True
  then have "decmod (histi h) HISTMAX = slot h 200"
    using decmod_slot [OF assms, of 0] slot_histi [OF assms] by simp
  then show ?thesis using True hist_okD(4) [OF assms, of 200] by (auto simp flip: length_0_conv)
next
  case False
  then have "decmod (histi h) HISTMAX = slot h (ring_len h - 1)"
    using decmod_slot [OF assms, of "ring_len h"] slot_histi [OF assms] hist_okD(5) [OF assms] by simp
  moreover have "hist_list h \<noteq> []" using False by (simp flip: length_0_conv)
  ultimately show ?thesis using False hist_list_nth [OF assms, of "ring_len h - 1"]
    by (simp add: last_conv_nth)
qed

text \<open>Moving the oldest slot and filling the next one.\<close>

lemma hist_drop_oldest:
  assumes "hist_ok h" "hist_list h \<noteq> []"
  defines "h' \<equiv> h\<lparr>hist := (hist h)[histo h := None], histo := incmod (histo h) HISTMAX\<rparr>"
  shows "hist_ok h'" "hist_list h' = tl (hist_list h)"
proof -
  have n: "0 < ring_len h" using assms(2) by (simp flip: length_0_conv)
  note ok = hist_okD [OF assms(1)]
  have o': "histo h' < 201" using ok(3) by (simp add: h'_def incmod_def HISTMAX_def)
  have s: "slot h' k = slot h (if k = 200 then 0 else Suc k)" if "k < 201" for k
    using that ok(3) by (auto simp: slot_def h'_def incmod_def HISTMAX_def mod_if)
  have l: "ring_len h' = ring_len h - 1"
    using ok(2,3) n by (auto simp: ring_len_def h'_def incmod_def HISTMAX_def mod_if)
  have v: "hist h' ! slot h' k = (if k = 200 then None else hist h ! slot h (Suc k))" if "k < 201" for k
    using that s [OF that] slot_inject [OF assms(1), of 0 "Suc k"] slot_0 [OF assms(1)] ok(1,3)
    by (auto simp: h'_def nth_list_update)
  show "hist_ok h'" unfolding hist_ok_def l
  proof (intro conjI allI impI)
    fix k :: nat assume "k < 201"
    then show "hist h' ! slot h' k \<noteq> None \<longleftrightarrow> k < ring_len h - 1"
      using v [of k] ok(4) [of "Suc k"] ok(5) by auto
  qed (use ok o' in \<open>simp_all add: h'_def\<close>)
  show "hist_list h' = tl (hist_list h)"
    using v ok(5) by (intro nth_equalityI) (auto simp: l nth_tl hist_list_def)
qed

lemma hist_push:
  fixes p :: cstr and n :: int
  assumes "hist_ok h" "ring_len h < 200"
  defines "h' \<equiv> h\<lparr>hist := (hist h)[histi h := Some p], histi := incmod (histi h) HISTMAX, histno := n\<rparr>"
  shows "hist_ok h'" "hist_list h' = hist_list h @ [p]"
proof -
  note ok = hist_okD [OF assms(1)]
  have s: "slot h' k = slot h k" for k by (simp add: slot_def h'_def)
  have hh: "hist h' = (hist h)[histi h := Some p]" by (simp add: h'_def)
  have l: "ring_len h' = Suc (ring_len h)"
    using ok(2,3) assms(2) by (auto simp: ring_len_def h'_def incmod_def HISTMAX_def mod_if)
  have v: "hist h' ! slot h' k = (if k = ring_len h then Some p else hist h ! slot h k)" if "k < 201" for k
    using that slot_inject [OF assms(1), of k "ring_len h"] slot_histi [OF assms(1)] ok(1,2) assms(2)
    unfolding hh s by (auto simp: nth_list_update)
  show "hist_ok h'" unfolding hist_ok_def l
  proof (intro conjI allI impI)
    fix k :: nat assume "k < 201"
    then show "hist h' ! slot h' k \<noteq> None \<longleftrightarrow> k < Suc (ring_len h)"
      using v [of k] ok(4) [of k] by auto
  qed (use ok in \<open>simp_all add: h'_def incmod_def HISTMAX_def\<close>)
  show "hist_list h' = hist_list h @ [p]"
    using v assms(2) by (intro nth_equalityI) (simp_all add: l nth_append hist_list_def)
qed

text \<open>The abstract operation: a bounded list of lines without empty lines and immediate
  repetitions.\<close>

definition push_line :: "cstr \<Rightarrow> cstr list \<Rightarrow> cstr list" where
  "push_line p l =
     (if strempty p \<or> (l \<noteq> [] \<and> last l = p) then l
      else (if length l = HISTMAX then tl l else l) @ [p])"

lemma hist_free_slot:
  "hist_ok h \<Longrightarrow> h\<lparr>hist := (hist h)[histi h := None]\<rparr> = h"
proof -
  assume h: "hist_ok h"
  have "hist h ! histi h = None" using hist_okD(4) [OF h, of "ring_len h"] hist_okD(5) [OF h] slot_histi [OF h] by simp
  then have "(hist h)[histi h := None] = hist h" using hist_okD(1,2) [OF h] by (simp add: list_update_same_conv)
  then show ?thesis by simp
qed

lemma full_iff: "hist_ok h \<Longrightarrow> incmod (histi h) HISTMAX = histo h \<longleftrightarrow> ring_len h = 200"
  using hist_okD(2,3) [of h] by (auto simp: ring_len_def incmod_def HISTMAX_def mod_if)

lemma addhist_ring:
  assumes "hist_ok h" "\<forall>s \<in> set (hist_list h). wf_cstr s" "wf_cstr p"
  shows "hist_ok (addhist m p h)" "m \<Longrightarrow> hist_list (addhist m p h) = push_line p (hist_list h)"
    "\<not> m \<Longrightarrow> hist_list (addhist m p h) \<in> {hist_list h, tl (hist_list h)}"
proof -
  have same: "(case hist h ! decmod (histi h) HISTMAX of Some s \<Rightarrow> strcmp p s = 0 | None \<Rightarrow> False)
      \<longleftrightarrow> hist_list h \<noteq> [] \<and> last (hist_list h) = p"
    using assms(2,3) by (auto simp: hist_last [OF assms(1)] strcmp_eq_0)
  define h1 where "h1 = (if incmod (histi h) HISTMAX = histo h
      then h\<lparr>hist := (hist h)[histo h := None], histo := incmod (histo h) HISTMAX\<rparr> else h)"
  have h1: "hist_ok h1" "hist_list h1 = (if length (hist_list h) = HISTMAX then tl (hist_list h) else hist_list h)"
    using full_iff [OF assms(1)] hist_drop_oldest [OF assms(1)] assms(1)
    by (auto simp: h1_def HISTMAX_def simp flip: length_0_conv)
  have "ring_len h1 = length (hist_list h1)" by simp
  then have l1: "ring_len h1 < 200" using hist_okD(5) [OF assms(1)] by (auto simp: h1(2) HISTMAX_def)
  have add: "addhist m p h = (if strempty p \<or> (hist_list h \<noteq> [] \<and> last (hist_list h) = p) then h
      else if \<not> m then h1
      else h1\<lparr>hist := (hist h1)[histi h1 := Some p], histi := incmod (histi h1) HISTMAX, histno := histno h1 + 1\<rparr>)"
    unfolding addhist_def same Let_def h1_def [symmetric] hist_free_slot [OF h1(1)] by simp
  show "hist_ok (addhist m p h)" using assms(1) h1(1) hist_push(1) [OF h1(1) l1] by (simp add: add)
  show "m \<Longrightarrow> hist_list (addhist m p h) = push_line p (hist_list h)"
    unfolding add push_line_def using hist_push(2) [OF h1(1) l1] h1(2) by simp
  show "\<not> m \<Longrightarrow> hist_list (addhist m p h) \<in> {hist_list h, tl (hist_list h)}"
    unfolding add using h1(2) by simp
qed

lemma dec_times_slot: "hist_ok h \<Longrightarrow> d \<le> k \<Longrightarrow> k < 201 \<Longrightarrow> dec_times d (slot h k) = slot h (k - d)"
proof (induction d arbitrary: k)
  case (Suc d)
  then have "dec_times (Suc d) (slot h k) = dec_times d (slot h (k - 1))"
    using decmod_slot [of h k] by simp
  then show ?case using Suc by simp
qed simp

lemma dec_times_add: "dec_times (a + b) m = dec_times b (dec_times a m)"
  by (induction a arbitrary: m) auto

lemma gethistn_list:
  assumes "hist_ok h"
  shows "gethistn n h =
    (let k = int (ring_len h) - (histno h - n)
     in if 0 \<le> k \<and> n < histno h then Some (hist_list h ! nat k) else None)"
proof -
  note ok = hist_okD [OF assms]
  let ?d = "nat (histno h - n)"
  show ?thesis
  proof (cases "n < histno h - 200 \<or> n > histno h")
    case True
    then show ?thesis using ok(5) by (auto simp: gethistn_def HISTMAX_def Let_def)
  next
    case False
    then have d: "?d \<le> 200" "int ?d = histno h - n" by auto
    have g: "gethistn n h = hist h ! dec_times ?d (slot h (ring_len h))"
      using False by (simp add: gethistn_def HISTMAX_def slot_histi [OF assms])
    show ?thesis
    proof (cases "?d \<le> ring_len h")
      case True
      then have "gethistn n h = hist h ! slot h (ring_len h - ?d)"
        using g dec_times_slot [OF assms True] ok(5) by simp
      moreover have "nat (int (ring_len h) - (histno h - n)) = ring_len h - ?d" using True d by linarith
      ultimately show ?thesis using True d False hist_list_nth [OF assms, of "ring_len h - ?d"]
          ok(4) [of "ring_len h - ?d"] ok(5)
        by (cases "n = histno h") (auto simp: Let_def)
    next
      case f: False
      then obtain e where e: "?d = ring_len h + Suc e" using less_iff_Suc_add [of "ring_len h" ?d] by auto
      have "hist h ! dec_times ?d (slot h (ring_len h)) = hist h ! dec_times (Suc e) (slot h 0)"
        using dec_times_slot [OF assms, of "ring_len h" "ring_len h"] ok(5) e by (simp only: dec_times_add) simp
      also have "dec_times (Suc e) (slot h 0) = dec_times e (slot h 200)" using decmod_slot [OF assms, of 0] by simp
      also have "dec_times e (slot h 200) = slot h (200 - e)" using dec_times_slot [OF assms, of e 200] e d by simp
      also have "hist h ! slot h (200 - e) = None"
      proof -
        have "200 - e < 201" "\<not> 200 - e < ring_len h" using e d(1) by linarith+
        then show ?thesis using ok(4) [of "200 - e"] by blast
      qed
      finally have "gethistn n h = None" using g by simp
      then show ?thesis using f d by (auto simp: Let_def)
    qed
  qed
qed

lemma gethists_loop_list:
  assumes "hist_ok h"
  shows "k \<le> ring_len h \<Longrightarrow> k < f \<Longrightarrow>
    gethists_loop f p h (slot h (if k = 0 then 200 else k - 1))
      = find (\<lambda>s. strbequ s p) (rev (take k (hist_list h)))"
proof (induction f arbitrary: k)
  case (Suc f)
  have e: "decmod (histo h) HISTMAX = slot h 200"
    using decmod_slot [OF assms, of 0] slot_0 [OF assms] by simp
  show ?case
  proof (cases k)
    case 0
    then show ?thesis by (simp add: e)
  next
    case (Suc j)
    then have j: "j < ring_len h" "j < 200" using Suc.prems hist_okD(5) [OF assms] by auto
    then have "slot h j \<noteq> slot h 200" using slot_inject [OF assms, of j 200] by simp
    moreover have "rev (take k (hist_list h)) = hist_list h ! j # rev (take j (hist_list h))"
      using Suc j by (simp add: take_Suc_conv_app_nth)
    ultimately show ?thesis
      using Suc hist_list_nth [OF assms j(1)] decmod_slot [OF assms, of j] Suc.IH [of j] Suc.prems j
      by (simp add: e)
  qed
qed simp

lemma gethists_list:
  assumes "hist_ok h"
  shows "gethists p h = find (\<lambda>s. strbequ s p) (rev (hist_list h))"
proof -
  have "decmod (histi h) HISTMAX = slot h (if ring_len h = 0 then 200 else ring_len h - 1)"
    using decmod_slot [OF assms, of "ring_len h"] slot_histi [OF assms] hist_okD(5) [OF assms] by simp
  then show ?thesis
    using gethists_loop_list [OF assms, of "ring_len h" "HISTMAX + 1" p] hist_okD(5) [OF assms]
    by (simp add: gethists_def HISTMAX_def)
qed

lemma hist_zero_ok: "hist_ok (histinit hist_zero)" "hist_list (histinit hist_zero) = []"
  by (simp_all add: hist_ok_def hist_list_def ring_len_def histinit_def hist_zero_def HISTMAX_def slot_def)

text \<open>C24. The ring of slots refines a list of at most \<open>HISTMAX\<close> lines: \<open>addhist\<close> keeps its
  invariant and appends the line, dropping the oldest when the list is full, except for an
  empty line or a repetition of the last one; without memory nothing is appended, but the
  oldest line may be lost.\<close>
theorem addhist_refines:
  assumes "hist_ok h" "\<forall>s \<in> set (hist_list h). wf_cstr s" "wf_cstr p"
  shows "hist_ok (addhist m p h) \<and>
    (if m then hist_list (addhist m p h) = push_line p (hist_list h)
     else hist_list (addhist m p h) \<in> {hist_list h, tl (hist_list h)})"
  using addhist_ring [OF assms, of m] by simp

theorem addhist_refines_witness:
  "hist_list (addhist True ''ls'' (histinit hist_zero)) = [''ls'']"
proof -
  have "\<forall>s \<in> set (hist_list (histinit hist_zero)). wf_cstr s" by (simp add: hist_zero_ok)
  from addhist_refines [OF hist_zero_ok(1) this, of "''ls''" True]
  show ?thesis by (simp add: hist_zero_ok(2) push_line_def wf_cstr_def HISTMAX_def isspace_Char)
qed

text \<open>Looking a line up by its number gives the line with that number as long as it is in
  the list, and looking it up by a prefix gives the newest line with the prefix; no other
  number and no other prefix gives a line.\<close>
theorem gethist_lookup:
  assumes "hist_ok h"
  shows "gethistn n h =
      (let k = int (length (hist_list h)) - (histno h - n)
       in if 0 \<le> k \<and> n < histno h then Some (hist_list h ! nat k) else None) \<and>
    gethists p h = find (\<lambda>s. take (length p) s = p) (rev (hist_list h))"
  using gethistn_list [OF assms, of n] gethists_list [OF assms, of p] by (simp add: strbequ_iff)

theorem gethist_lookup_witness:
  "gethistn 1 (addhist True ''ls -l'' (histinit hist_zero)) = Some ''ls -l'' \<and>
   gethists ''ls'' (addhist True ''ls -l'' (histinit hist_zero)) = Some ''ls -l''"
proof -
  let ?h = "addhist True ''ls -l'' (histinit hist_zero)"
  have w: "\<forall>s \<in> set (hist_list (histinit hist_zero)). wf_cstr s" "wf_cstr ''ls -l''"
    by (simp_all add: hist_zero_ok wf_cstr_def)
  note h = addhist_ring [OF hist_zero_ok(1) w, of True]
  have l: "hist_list ?h = [''ls -l'']"
    using h(2) by (simp add: hist_zero_ok(2) push_line_def HISTMAX_def)
  have n: "histno ?h = 2" by code_simp
  show ?thesis using gethist_lookup [OF h(1), of 1 "''ls''"] by (simp add: l n Let_def)
qed

section \<open>What the terminal shows\<close>

text \<open>A terminal with one long row: a backspace moves the cursor, the bell does nothing, any
  other character is written over the cell under the cursor.\<close>

fun term_putc :: "cstr \<times> nat \<Rightarrow> char \<Rightarrow> cstr \<times> nat" where
  "term_putc (r, x) c =
     (if c = ch_bs then (r, x - 1)
      else if c = ch_bell then (r, x)
      else (take x r @ [c] @ drop (Suc x) r, Suc x))"

definition shown :: "editor \<Rightarrow> cstr \<times> nat" where
  "shown s = foldl term_putc ([], 0) (out s)"

definition printable :: "cstr \<Rightarrow> bool" where
  "printable p \<longleftrightarrow> (\<forall>c \<in> set p. isprint c)"

text \<open>The row shows the line, followed by blanks, and the cursor stands at the column.\<close>

definition display_ok :: "editor \<Rightarrow> bool" where
  "display_ok s \<longleftrightarrow> column s \<le> length (line s) \<and> printable (line s) \<and>
     (\<exists>k. shown s = (line s @ replicate k CHR '' '', column s))"

lemma isprint_not_ctrl: "isprint c \<Longrightarrow> c \<noteq> ch_bs \<and> c \<noteq> ch_bell \<and> c \<noteq> CHR 0x0A"
  by (auto simp: isprint_range ch_bs_def ch_bell_def uchar_def)

lemma shown_putchar: "shown (putchar c s) = term_putc (shown s) c"
  by (simp add: shown_def putchar_def)

lemma shown_cong [simp]: "shown (s\<lparr>line := l\<rparr>) = shown s" "shown (s\<lparr>column := n\<rparr>) = shown s"
  "shown (s\<lparr>mark := i\<rparr>) = shown s" "shown (s\<lparr>histr := n\<rparr>) = shown s"
  by (simp_all add: shown_def)

lemma putchar_simps [simp]: "line (putchar c s) = line s" "column (putchar c s) = column s"
  "mark (putchar c s) = mark s" "histr (putchar c s) = histr s"
  by (simp_all add: putchar_def)

text \<open>\<open>at r x s\<close>: the terminal shows row \<open>r\<close> with the cursor at \<open>x\<close>, which is the column.\<close>

definition showing :: "cstr \<Rightarrow> nat \<Rightarrow> editor \<Rightarrow> bool" where
  "showing r x s \<longleftrightarrow> shown s = (r, x) \<and> column s = x"

lemma putstr_simps [simp]: "line (putstr p s) = line s" "mark (putstr p s) = mark s" "histr (putstr p s) = histr s"
  by (induction p arbitrary: s) auto

lemma left_simps [simp]: "line (left n s) = line s" "mark (left n s) = mark s" "histr (left n s) = histr s"
  by (induction n arbitrary: s) auto

lemma right_simps [simp]: "line (right n s) = line s" "mark (right n s) = mark s" "histr (right n s) = histr s"
  by (induction n arbitrary: s) auto

lemma backspace_simps [simp]: "line (backspace n s) = line s" "mark (backspace n s) = mark s" "histr (backspace n s) = histr s"
  by (induction n arbitrary: s) auto

lemma putstr_showing:
  "showing r x s \<Longrightarrow> printable p \<Longrightarrow> x \<le> length r \<Longrightarrow>
   showing (take x r @ p @ drop (x + length p) r) (x + length p) (putstr p s)"
proof (induction p arbitrary: r x s)
  case (Cons c p)
  then have c: "c \<noteq> ch_bs" "c \<noteq> ch_bell" "c \<noteq> CHR 0x0A" and p: "printable p"
    using isprint_not_ctrl by (auto simp: printable_def)
  have "showing (take x r @ [c] @ drop (Suc x) r) (Suc x)
      ((putchar c s)\<lparr>column := if c = CHR 0x0A then 0 else Suc (column s)\<rparr>)"
    using Cons.prems(1) c by (simp add: showing_def shown_putchar)
  from Cons.IH [OF this p] Cons.prems(3) c(3) show ?case by (simp add: add.commute)
qed simp

lemma left_showing: "showing r x s \<Longrightarrow> showing r (x - n) (left n s)"
proof (induction n arbitrary: x s)
  case (Suc n)
  show ?case
  proof (cases "x = 0")
    case False
    then have "showing r (x - 1) ((putchar ch_bs s)\<lparr>column := column s - 1\<rparr>)"
      using Suc.prems by (simp add: showing_def shown_putchar)
    from Suc.IH [OF this] show ?thesis using Suc.prems False by (simp add: showing_def)
  qed (use Suc.prems in \<open>simp add: showing_def\<close>)
qed simp

lemma right_showing:
  "showing (line s @ b) x s \<Longrightarrow> x \<le> length (line s) \<Longrightarrow> printable (line s) \<Longrightarrow>
   showing (line s @ b) (min (x + n) (length (line s))) (right n s)"
proof (induction n arbitrary: x s)
  case (Suc n)
  show ?case
  proof (cases "x < length (line s)")
    case True
    let ?s = "(putchar (line s ! x) s)\<lparr>column := Suc x\<rparr>"
    have "isprint (line s ! x)" using Suc.prems(3) True by (simp add: printable_def)
    then have "showing (line ?s @ b) (Suc x) ?s"
      using Suc.prems(1) True isprint_not_ctrl [of "line s ! x"]
      by (simp add: showing_def shown_putchar id_take_nth_drop [symmetric])
    from Suc.IH [OF this] show ?thesis using Suc.prems True by (simp add: showing_def)
  qed (use Suc.prems in \<open>simp add: showing_def\<close>)
qed (simp add: min_def)

lemma backspace_showing:
  "showing (take x r @ b) x s \<Longrightarrow> x \<le> length r \<Longrightarrow> n \<le> x \<Longrightarrow>
   showing (take (x - n) r @ replicate n CHR '' '' @ b) (x - n) (backspace n s)"
proof (induction n arbitrary: x s b)
  case (Suc n)
  let ?s = "(putchar ch_bs (putchar CHR '' '' (putchar ch_bs s)))\<lparr>column := column s - 1\<rparr>"
  have l: "length (take x r) = x" using Suc.prems by simp
  have "showing (take (x - 1) r @ CHR '' '' # b) (x - 1) ?s"
    using Suc.prems l by (simp add: showing_def shown_putchar ch_bs_def ch_bell_def take_drop min_def)
  from Suc.IH [OF this] Suc.prems
  have "showing (take (x - 1 - n) r @ replicate n CHR '' '' @ CHR '' '' # b) (x - 1 - n) (backspace n ?s)" by simp
  then show ?case using Suc.prems
    by (simp add: showing_def replicate_app_Cons_same)
qed simp

lemma display_okI:
  "showing (line s @ replicate k CHR '' '') x s \<Longrightarrow> x \<le> length (line s) \<Longrightarrow> printable (line s) \<Longrightarrow> display_ok s"
  unfolding display_ok_def showing_def by auto

lemma display_okE:
  assumes "display_ok s"
  obtains k where "showing (line s @ replicate k CHR '' '') (column s) s" "column s \<le> length (line s)"
    "printable (line s)"
  using assms unfolding display_ok_def showing_def by auto

lemma display_mark [simp]: "display_ok (s\<lparr>mark := i\<rparr>) = display_ok s"
  by (simp add: display_ok_def)

lemma printable_simps [simp]: "printable []" "printable (p @ q) \<longleftrightarrow> printable p \<and> printable q"
  "printable (c # p) \<longleftrightarrow> isprint c \<and> printable p" "printable (replicate n CHR '' '')"
  by (auto simp: printable_def isprint_range uchar_def)

lemma printable_take: "printable p \<Longrightarrow> printable (take n p)" "printable p \<Longrightarrow> printable (drop n p)"
  by (auto simp: printable_def dest: in_set_takeD in_set_dropD)

lemma putstr_over:
  "showing (u @ w) (length u) s \<Longrightarrow> printable p \<Longrightarrow>
   showing (u @ p @ drop (length p) w) (length u + length p) (putstr p s)"
  using putstr_showing [of "u @ w" "length u" s p] by simp

text \<open>The text right of the cursor is drawn again: it was \<open>v\<close> and is \<open>t\<close>, and \<open>m\<close> blanks
  cover what is left of \<open>v\<close>.\<close>

lemma redraw:
  assumes "showing (u @ v @ replicate k CHR '' '') (length u) s" "line s = u @ t" "printable (u @ t)"
    and "length v \<le> length t + m" "m \<le> j" "j \<le> length t + m"
  shows "display_ok (left j (putstr (replicate m CHR '' '') (putstr t s)))"
    "column (left j (putstr (replicate m CHR '' '') (putstr t s))) = length u + length t + m - j"
proof -
  let ?n = "length u"
  define k' where "k' = (length v + k) - (length t + m)"
  have "showing (u @ t @ drop (length t) (v @ replicate k CHR '' '')) (?n + length t) (putstr t s)"
    using assms(3) by (intro putstr_over [OF assms(1)]) simp
  from putstr_over [of "u @ t" _ "putstr t s" "replicate m CHR '' ''", simplified, OF this]
  have "showing (u @ t @ replicate m CHR '' '' @ drop (length t + m) (v @ replicate k CHR '' '')) (?n + length t + m)
      (putstr (replicate m CHR '' '') (putstr t s))"
    by (simp only: drop_drop add.commute [of m])
  also have "drop (length t + m) (v @ replicate k CHR '' '') = replicate k' CHR '' ''"
    using assms(4) by (simp add: k'_def)
  finally have "showing ((u @ t) @ replicate (m + k') CHR '' '') (?n + length t + m)
      (putstr (replicate m CHR '' '') (putstr t s))" by (simp add: replicate_add)
  from left_showing [OF this, of j]
  have l: "showing ((u @ t) @ replicate (m + k') CHR '' '') (?n + length t + m - j)
      (left j (putstr (replicate m CHR '' '') (putstr t s)))" .
  then show "column (left j (putstr (replicate m CHR '' '') (putstr t s))) = length u + length t + m - j"
    by (simp add: showing_def)
  show "display_ok (left j (putstr (replicate m CHR '' '') (putstr t s)))"
    using l assms(2,3,5) by (intro display_okI [where k = "m + k'"]) auto
qed

lemma left_display: "display_ok s \<Longrightarrow> display_ok (left n s) \<and> column (left n s) = column s - n"
  by (elim display_okE, drule left_showing [where n = n])
    (auto intro!: display_okI simp: showing_def)

lemma right_display: "display_ok s \<Longrightarrow> display_ok (right n s) \<and> column (right n s) = min (column s + n) (length (line s))"
  by (elim display_okE, frule right_showing [where n = n])
    (auto intro!: display_okI simp: showing_def)

text \<open>The state in which a new text \<open>t\<close> has replaced the text from the cursor on.\<close>

lemma replaced_showing:
  assumes "display_ok s"
  shows "\<exists>k. showing (take (column s) (line s) @ drop (column s) (line s) @ replicate k CHR '' '')
      (length (take (column s) (line s))) (s\<lparr>line := l\<rparr>)" "printable (line s)" "column s \<le> length (line s)"
proof -
  from assms show "printable (line s)" "column s \<le> length (line s)" by (auto simp: display_ok_def)
  obtain k where k: "showing (line s @ replicate k CHR '' '') (column s) s" "column s \<le> length (line s)"
    using assms by (rule display_okE)
  have e: "take (column s) (line s) @ drop (column s) (line s) @ replicate k CHR '' '' = line s @ replicate k CHR '' ''"
    by (simp only: append_assoc [symmetric] append_take_drop_id)
  show "\<exists>k. showing (take (column s) (line s) @ drop (column s) (line s) @ replicate k CHR '' '')
      (length (take (column s) (line s))) (s\<lparr>line := l\<rparr>)"
    using k by (intro exI [of _ k]) (simp add: showing_def e)
qed

lemma redraw_line:
  assumes "display_ok s" "l = take (column s) (line s) @ t" "printable t"
    and "length (drop (column s) (line s)) \<le> length t + m" "m \<le> j" "j \<le> length t + m"
  defines "s' \<equiv> left j (putstr (replicate m CHR '' '') (putstr (drop (column s) l) (s\<lparr>line := l\<rparr>)))"
  shows "display_ok s' \<and> column s' = column s + length t + m - j"
proof -
  note r = replaced_showing [OF assms(1)]
  obtain k where k: "showing (take (column s) (line s) @ drop (column s) (line s) @ replicate k CHR '' '')
      (length (take (column s) (line s))) (s\<lparr>line := l\<rparr>)" using r(1) by blast
  have "drop (column s) l = t" "length (take (column s) (line s)) = column s" using assms(2) r(3) by auto
  with redraw [OF k _ _ assms(4-6)] assms(2,3) r(2) show ?thesis
    unfolding s'_def by (simp add: printable_take)
qed

declare putstr.simps [simp del] left.simps [simp del] right.simps [simp del] backspace.simps [simp del]

lemma key_delete_display: "display_ok s \<Longrightarrow> display_ok (key_delete s) \<and> column (key_delete s) = column s"
proof -
  assume s: "display_ok s"
  let ?t = "drop (Suc (column s)) (line s)"
  define l where "l = del_at (column s) (line s)"
  have l: "l = take (column s) (line s) @ ?t" by (simp add: l_def del_at_def)
  have d: "drop (column s) l = ?t" using replaced_showing(3) [OF s] by (simp add: l)
  show ?thesis
    using redraw_line [OF s l printable_take(2) [OF replaced_showing(2) [OF s]], of 1 "length ?t + 1"]
    unfolding key_delete_def Let_def l_def [symmetric] by (simp add: d)
qed

lemma key_backspace_eq: "display_ok s \<Longrightarrow> key_backspace s = (let s1 = key_delete (left 1 s)
    in if mark s = int (column s1) then s1\<lparr>mark := mark s - 1\<rparr> else s1)"
  using key_delete_display [OF conjunct1 [OF left_display [of s 1]]]
  by (auto simp: key_backspace_def key_delete_def Let_def)

lemma key_backspace_display: "display_ok s \<Longrightarrow> display_ok (key_backspace s)"
  using key_delete_display [OF conjunct1 [OF left_display [of s 1]]]
  by (simp add: key_backspace_eq Let_def)

lemma key_delline_display: "display_ok s \<Longrightarrow> display_ok (key_delline s)"
proof -
  assume s: "display_ok s"
  let ?n = "length (drop (column s) (line s))"
  show ?thesis
    using redraw_line [OF s, of "take (column s) (line s)" "[]" ?n ?n] replaced_showing(3) [OF s]
    by (simp add: key_delline_def Let_def min_def putstr.simps)
qed

lemma del_at_times: "i \<le> length p \<Longrightarrow> (del_at i ^^ n) p = take i p @ drop (i + n) p"
proof (induction n)
  case (Suc n)
  then show ?case by (simp add: del_at_def min_def)
qed simp

lemma key_kill_display: "display_ok s \<Longrightarrow> display_ok (key_kill s)"
proof -
  assume s: "display_ok s"
  define n where "n = nat \<bar>int (column s) - mark s\<bar>"
  define s1 where "s1 = (if int (column s) > mark s then left n s else s)"
  have s1: "display_ok s1" using left_display [OF s] s by (simp add: s1_def)
  let ?t = "drop (column s1 + n) (line s1)"
  define l where "l = take (column s1) (line s1) @ ?t"
  have l: "(del_at (column s1) ^^ n) (line s1) = l"
    using del_at_times [OF replaced_showing(3) [OF s1]] by (simp add: l_def)
  have d: "drop (column s1) l = ?t" using replaced_showing(3) [OF s1] by (simp add: l_def min_def)
  have "key_kill s = (if mark s = int (column s) then s else
      (let s4 = left (length ?t + n) (putstr (replicate n CHR '' '') (putstr (drop (column s1) l) (s1\<lparr>line := l\<rparr>)))
       in s4\<lparr>mark := int (column s4)\<rparr>))"
    unfolding key_kill_def Let_def n_def [symmetric] s1_def [symmetric] l by (simp add: d)
  moreover have "display_ok (left (length ?t + n) (putstr (replicate n CHR '' '') (putstr (drop (column s1) l) (s1\<lparr>line := l\<rparr>))))"
    using redraw_line [OF s1 l_def printable_take(2) [OF replaced_showing(2) [OF s1]], of n "length ?t + n"] by simp
  ultimately show ?thesis using s by (simp add: Let_def)
qed

lemma addchar_display: "display_ok s \<Longrightarrow> isprint c \<Longrightarrow> display_ok (addchar c s)"
proof -
  assume s: "display_ok s" and c: "isprint c"
  let ?t = "c # drop (column s) (line s)"
  define l where "l = ins_at (column s) c (line s)"
  have l: "l = take (column s) (line s) @ ?t" by (simp add: l_def ins_at_def)
  have d: "drop (column s) l = ?t" using replaced_showing(3) [OF s] by (simp add: l)
  have t: "printable ?t" using c printable_take(2) [OF replaced_showing(2) [OF s]] by simp
  show ?thesis
    using redraw_line [OF s l t, of 0 "length ?t - 1"] s
    unfolding addchar_def Let_def putstr_simps l_def [symmetric] by (simp add: d putstr.simps)
qed

text \<open>A line of the history is written over blanks.\<close>

lemma show_hist_display:
  assumes "display_ok s" "case hist h ! r of None \<Rightarrow> True | Some t \<Rightarrow> printable t"
  shows "display_ok (show_hist h r s)"
proof -
  define s1 where "s1 = right (length (line s) - column s) s"
  have s1: "display_ok s1" "column s1 = length (line s1)"
    using right_display [OF assms(1), of "length (line s) - column s"] replaced_showing(3) [OF assms(1)]
    by (simp_all add: s1_def)
  obtain k where "showing (line s1 @ replicate k CHR '' '') (length (line s1)) s1"
    using s1 by (auto elim: display_okE)
  then have "showing (replicate (length (line s1) + k) CHR '' '') 0 (backspace (length (line s1)) s1)"
    using backspace_showing [of "length (line s1)" "line s1" "replicate k CHR '' ''" s1 "length (line s1)"]
    by (simp add: replicate_add)
  moreover define t where "t = (case hist h ! r of None \<Rightarrow> [] | Some t \<Rightarrow> t)"
  moreover define s3 where "s3 = (backspace (length (line s1)) s1)\<lparr>histr := r, line := t\<rparr>"
  ultimately have s3: "showing ([] @ replicate (length (line s1) + k) CHR '' '') (length []) s3"
    by (simp add: showing_def)
  have t: "printable t" using assms(2) by (simp add: t_def split: option.splits)
  have "showing (t @ replicate (length (line s1) + k - length t) CHR '' '') (length t) (putstr t s3)"
    using putstr_over [OF s3 t] by simp
  then have "display_ok (putstr t s3)" using t
    by (intro display_okI [of _ "length (line s1) + k - length t" "length t"]) (simp_all add: s3_def)
  moreover have "show_hist h r s = (putstr t s3)\<lparr>mark := 0\<rparr>"
    unfolding show_hist_def Let_def s1_def [symmetric] s1(2) t_def [symmetric] s3_def by simp
  ultimately show ?thesis by simp
qed

section \<open>The readers keep display and buffer\<close>

text \<open>Lines that can be shown and fit in a line buffer.\<close>

definition line_ok :: "cstr \<Rightarrow> bool" where
  "line_ok p \<longleftrightarrow> printable p \<and> length p < LINESZ"

definition hist_lines_ok :: "history \<Rightarrow> bool" where
  "hist_lines_ok h \<longleftrightarrow> (\<forall>r < length (hist h). case hist h ! r of None \<Rightarrow> True | Some t \<Rightarrow> line_ok t)"

lemma hist_lines_iff: "hist_lines_ok h \<longleftrightarrow> (\<forall>t. Some t \<in> set (hist h) \<longrightarrow> line_ok t)"
  by (fastforce simp: hist_lines_ok_def in_set_conv_nth split: option.splits)

definition ed_ok :: "history \<Rightarrow> editor \<Rightarrow> bool" where
  "ed_ok h s \<longleftrightarrow> display_ok s \<and> length (line s) < LINESZ \<and> histr s < length (hist h)"

lemma line_show_hist [simp]: "line (show_hist h r s) = (case hist h ! r of None \<Rightarrow> [] | Some t \<Rightarrow> t)"
  "histr (show_hist h r s) = r"
  by (simp_all add: show_hist_def Let_def)

lemma length_del_at: "length (del_at i p) \<le> length p"
  by (simp add: del_at_def)

lemma length_del_at_times: "length ((del_at i ^^ n) p) \<le> length p"
  by (induction n) (auto intro: le_trans [OF length_del_at])

lemma key_lines:
  "length (line (key_delete s)) \<le> length (line s)" "length (line (key_delline s)) \<le> length (line s)"
  "length (line (key_kill s)) \<le> length (line s)" "length (line (key_backspace s)) \<le> length (line s)"
  using length_del_at length_del_at_times
  by (auto simp: key_delete_def key_delline_def key_kill_def key_backspace_def Let_def)

lemma key_histr [simp]: "histr (key_delete s) = histr s" "histr (key_delline s) = histr s"
  "histr (key_kill s) = histr s" "histr (key_backspace s) = histr s" "histr (addchar c s) = histr s"
  by (simp_all add: key_delete_def key_delline_def key_kill_def key_backspace_def addchar_def Let_def)

lemma length_addchar: "length (line s) < LINESZ \<Longrightarrow> length (line (addchar c s)) < LINESZ"
  by (auto simp: addchar_def Let_def ins_at_def LINESZ_def)

lemma bell_display: "display_ok s \<Longrightarrow> display_ok (putchar (CNTRL CHR ''G'') s)"
proof -
  have "CNTRL CHR ''G'' = ch_bell" "ch_bell \<noteq> ch_bs" by code_simp+
  then show "display_ok s \<Longrightarrow> ?thesis" by (auto simp: display_ok_def shown_putchar)
qed

lemma ed_ok_mark: "ed_ok h s \<Longrightarrow> ed_ok h (s\<lparr>mark := i\<rparr>)"
  by (simp add: ed_ok_def)

lemma ed_ok_show_hist:
  assumes "ed_ok h s" "hist_lines_ok h" "r < length (hist h)"
  shows "ed_ok h (show_hist h r s)"
proof -
  have "case hist h ! r of None \<Rightarrow> True | Some t \<Rightarrow> line_ok t" using assms(2,3) by (simp add: hist_lines_ok_def)
  then show ?thesis using assms(1,3) show_hist_display [of s h r]
    by (auto simp: ed_ok_def line_ok_def LINESZ_def split: option.splits)
qed

lemma ed_ok_edit_key:
  assumes "ed_ok h s" "hist_lines_ok h" "hist_ok h"
  shows "ed_ok h (edit_key u h c s)"
proof -
  have d: "display_ok s" "length (line s) < LINESZ" "histr s < 201" and l: "length (hist h) = 201"
    using assms hist_okD(1) [OF assms(3)] by (auto simp: ed_ok_def)
  have moves: "ed_ok h (left n s)" "ed_ok h (right n s)" for n
    using d l left_display [OF d(1), of n] right_display [OF d(1), of n] by (simp_all add: ed_ok_def)
  have keys: "ed_ok h (key_delete s)" "ed_ok h (key_delline s)" "ed_ok h (key_kill s)" "ed_ok h (key_backspace s)"
    using d l key_lines [of s] key_delete_display [OF d(1)] key_delline_display [OF d(1)] key_kill_display [OF d(1)]
      key_backspace_display [OF d(1)] by (simp_all add: ed_ok_def)
  have add: "isprint c \<Longrightarrow> ed_ok h (addchar c s)"
    using d l addchar_display [OF d(1)] length_addchar [OF d(2)] by (simp add: ed_ok_def)
  have bell: "ed_ok h (putchar (CNTRL CHR ''G'') s)"
    using d l bell_display [OF d(1)] by (simp add: ed_ok_def)
  have rs: "decmod (histr s) HISTMAX < 201" "incmod (histr s) HISTMAX < 201"
    using d(3) by (auto simp: decmod_def incmod_def HISTMAX_def)
  have up: "ed_ok h (show_hist h (if histr s \<noteq> histo h then decmod (histr s) HISTMAX else histr s) s)"
    "ed_ok h (show_hist h (if histr s \<noteq> histi h then incmod (histr s) HISTMAX else histr s) s)"
    using rs d(3) l by (auto intro!: ed_ok_show_hist assms)
  show ?thesis unfolding edit_key_def
    using up moves keys add bell ed_ok_mark [OF assms(1)] by simp
qed

lemma ed_ok_start: "hist_ok h \<Longrightarrow> line_ok p \<Longrightarrow> ed_ok h (edit_start h p)"
proof -
  assume h: "hist_ok h" and p: "line_ok p"
  define s where "s = \<lparr>line = p, column = 0, mark = 0, histr = histi h, out = []\<rparr>"
  have "showing ([] @ []) (length ([] :: cstr)) s" by (simp add: showing_def shown_def s_def)
  then have "showing ([] @ p @ drop (length p) []) (length ([] :: cstr) + length p) (putstr p s)"
    using p by (intro putstr_over) (simp_all add: line_ok_def)
  then have "showing (p @ replicate 0 CHR '' '') (length p) (putstr p s)" by simp
  then have "display_ok (putstr p s)" using p
    by (intro display_okI [of _ 0 "length p"]) (simp_all add: line_ok_def s_def)
  then have "display_ok (left (column (putstr p s)) (putstr p s))" using left_display by blast
  moreover have "display_ok s" if "p = []"
    using that by (intro display_okI [of _ 0 0]) (simp_all add: showing_def shown_def s_def)
  ultimately show ?thesis using p hist_okD(1,2) [OF h]
    unfolding edit_start_def Let_def s_def [symmetric] by (auto simp: ed_ok_def line_ok_def s_def)
qed

lemma get_line_loop_ok:
  "get_line_loop u h e cs s = Some (s', r) \<Longrightarrow> ed_ok h s \<Longrightarrow> hist_lines_ok h \<Longrightarrow> hist_ok h \<Longrightarrow>
   \<exists>s1. s' = putstr [CHR 0x0A] s1 \<and> ed_ok h s1"
proof (induction u h e cs s rule: get_line_loop.induct)
  case (2 u h e c0 cs s)
  obtain e' oc where e: "esc_step e c0 = (e', oc)" by (cases "esc_step e c0")
  show ?case
  proof (cases oc)
    case None
    then show ?thesis using 2 e by auto
  next
    case (Some c)
    show ?thesis
    proof (cases "c = CHR 0x0A \<or> c = CHR 0x0D")
      case True
      then show ?thesis using "2.prems" e Some by auto
    next
      case nl: False
      show ?thesis
      proof (cases "c = CHR 0x09")
        case True
        then show ?thesis using "2.IH"(2) [OF e [symmetric] Some] "2.prems" e Some nl by simp
      next
        case False
        then show ?thesis using "2.IH"(3) [OF e [symmetric] Some] "2.prems" e Some nl ed_ok_edit_key by simp
      qed
    qed
  qed
qed simp

lemma get_line1_loop_ok:
  "get_line1_loop u h e cs s = Some (s', r) \<Longrightarrow> ed_ok h s \<Longrightarrow> hist_lines_ok h \<Longrightarrow> hist_ok h \<Longrightarrow> ed_ok h s'"
proof (induction u h e cs s rule: get_line1_loop.induct)
  case (2 u h e c0 cs s)
  obtain e' oc where e: "esc_step e c0 = (e', oc)" by (cases "esc_step e c0")
  show ?case
  proof (cases oc)
    case None
    then show ?thesis using 2 e by auto
  next
    case (Some c)
    show ?thesis
    proof (cases "c = CHR 0x0A \<or> c = CHR 0x0D")
      case True
      then show ?thesis using "2.prems" e Some by auto
    next
      case False
      then show ?thesis using "2.IH"(2) [OF e [symmetric] Some] "2.prems" e Some ed_ok_edit_key by simp
    qed
  qed
qed simp

text \<open>C21. When \<open>get_line\<close> returns, the terminal showed the edited line followed by blanks, with
  the cursor at the column, before the final newline, whatever keys were typed; and the line
  has fewer than \<open>LINESZ\<close> characters, so no key wrote past the line buffer.\<close>
theorem get_line_display:
  assumes "hist_ok h" "hist_lines_ok h" "line_ok p" "get_line u h p input = Some (s, rest)"
  shows "\<exists>s1. s = putstr [CHR 0x0A] s1 \<and> display_ok s1 \<and> length (line s) < LINESZ"
proof -
  from get_line_loop_ok [OF assms(4) [unfolded get_line_def] ed_ok_start [OF assms(1,3)] assms(2,1)]
  show ?thesis by (auto simp: ed_ok_def)
qed

text \<open>The end of the line is seen in every state of the escape sequences.\<close>

lemma esc_step_nl: "esc_step e (CHR 0x0A) = (ESC_NONE, Some (CHR 0x0A))"
  by (cases e) (simp_all add: uchar_def)

lemma get_line_loop_ends: "CHR 0x0A \<in> set cs \<Longrightarrow> \<exists>r. get_line_loop u h e cs s = Some r"
proof (induction u h e cs s rule: get_line_loop.induct)
  case (2 u h e c0 cs s)
  obtain e' oc where e: "esc_step e c0 = (e', oc)" by (cases "esc_step e c0")
  show ?case
  proof (cases "c0 = CHR 0x0A")
    case True
    then show ?thesis by (simp add: esc_step_nl)
  next
    case False
    then have "CHR 0x0A \<in> set cs" using 2 by auto
    then show ?thesis using "2.IH" e by (cases oc) auto
  qed
qed simp

text \<open>C40. Typing a newline ends the reading of a line, in every state of the editor and in the
  middle of an escape sequence too.\<close>
theorem get_line_returns:
  assumes "CHR 0x0A \<in> set input"
  shows "\<exists>s rest. get_line u h p input = Some (s, rest)"
  using get_line_loop_ends [OF assms, of u h ESC_NONE "edit_start h p"] by (auto simp: get_line_def)

theorem get_line_returns_witness: "\<exists>s rest. get_line True (histinit hist_zero) [] [CHR ''l'', CHR 0x1B, CHR 0x0A] = Some (s, rest)"
  using get_line_returns [of "[CHR ''l'', CHR 0x1B, CHR 0x0A]" True "histinit hist_zero" "[]"] by simp

theorem get_line_display_witness:
  "\<exists>s1. the (get_line True (histinit hist_zero) [] (''ab'' @ [CHR 0x02, CHR ''c'', CHR 0x0A])) =
     (putstr [CHR 0x0A] s1, []) \<and> display_ok s1 \<and> line s1 = ''acb''"
proof -
  let ?r = "get_line True (histinit hist_zero) [] (''ab'' @ [CHR 0x02, CHR ''c'', CHR 0x0A])"
  have "(case ?r of Some (s, rest) \<Rightarrow> rest = [] \<and> line s = ''acb'' | None \<Rightarrow> False)" by code_simp
  then obtain s where r: "?r = Some (s, [])" "line s = ''acb''" by (auto split: option.splits)
  have "hist_lines_ok (histinit hist_zero)"
    by (simp add: hist_lines_iff histinit_def hist_zero_def)
  from get_line_display [OF hist_zero_ok(1) this _ r(1)]
  show ?thesis using r by (auto simp: line_ok_def LINESZ_def)
qed

section \<open>The history after a command\<close>

lemma line_ok_wf: "line_ok p \<Longrightarrow> wf_cstr p"
  by (auto simp: line_ok_def printable_def wf_cstr_def isprint_range uchar_def)

lemma addhist_lines_ok: "hist_lines_ok h \<Longrightarrow> line_ok p \<Longrightarrow> hist_lines_ok (addhist m p h)"
  by (auto simp: hist_lines_iff addhist_def Let_def dest!: set_update_subset_insert [THEN subsetD] split: option.splits)

lemma hist_lines_list:
  assumes "hist_ok h" "hist_lines_ok h" "t \<in> set (hist_list h)"
  shows "line_ok t"
proof -
  obtain k where k: "k < ring_len h" "t = hist_list h ! k" using assms(3) by (auto simp: in_set_conv_nth)
  have "slot h k < length (hist h)" using hist_okD(1) [OF assms(1)] by (simp add: slot_def)
  then show ?thesis using assms(2) hist_list_nth [OF assms(1) k(1)] k(2) by (fastforce simp: hist_lines_ok_def)
qed

lemma gethistn_in: "hist_ok h \<Longrightarrow> gethistn n h = Some t \<Longrightarrow> t \<in> set (hist_list h)"
  by (auto simp: gethistn_list Let_def split: if_splits intro!: nth_mem)

lemma gethists_in: "hist_ok h \<Longrightarrow> gethists p h = Some t \<Longrightarrow> t \<in> set (hist_list h)"
  by (auto simp: gethists_list find_Some_iff) (metis length_hist_list length_rev nth_mem set_rev)

lemma bang_event_ok:
  assumes "hist_ok h" "hist_lines_ok h" "bang_event h buf = Some t"
  shows "printable t"
proof -
  have "t = [] \<or> t \<in> set (hist_list h)"
    using assms(3) hist_last [OF assms(1)] gethistn_in [OF assms(1)] gethists_in [OF assms(1)]
    by (auto simp: bang_event_def split: if_splits option.splits)
  then show ?thesis using hist_lines_list [OF assms(1,2)] by (auto simp: line_ok_def)
qed

lemma cut_ok: "line_ok p \<Longrightarrow> line_ok (take q p @ drop n (drop q p))"
  using printable_take by (auto simp: line_ok_def)

lemma insert_ok: "line_ok p \<Longrightarrow> printable t \<Longrightarrow> length p + length t < LINESZ \<Longrightarrow> line_ok (take q p @ t @ drop q p)"
  using printable_take by (auto simp: line_ok_def)

lemma bang_subst_ok:
  assumes "hist_ok h" "hist_lines_ok h" "line_ok p" "bang_subst h p = Inr p'"
  shows "line_ok p'"
proof (cases "findbang p")
  case None
  then show ?thesis using assms(4) by (simp add: bang_subst_def)
next
  case (Some oq)
  show ?thesis
  proof (cases oq)
    case None
    then show ?thesis using Some assms(3,4) by (simp add: bang_subst_def)
  next
    case q: (Some q)
    define word where "word = (case getword (drop q p) of None \<Rightarrow> [] | Some (w, r) \<Rightarrow> w)"
    define p1 where "p1 = take q p @ drop (Suc (length (drop 1 word))) (drop q p)"
    have p1: "line_ok p1" unfolding p1_def by (rule cut_ok [OF assms(3)])
    have "p' = p \<or> p' = p1 \<or> (\<exists>t. bang_event h (drop 1 word) = Some t \<and> length p1 + length t < LINESZ \<and>
        p' = take q p1 @ t @ drop q p1)"
      using assms(4) unfolding bang_subst_def Some q option.case Let_def word_def [symmetric] p1_def [symmetric]
      by (auto split: if_splits option.splits)
    then show ?thesis using assms(3) p1 bang_event_ok [OF assms(1,2)] by (auto intro: insert_ok)
  qed
qed

lemma get_cmd_keeps:
  assumes "hist_ok h" "hist_lines_ok h" "get_cmd m h input = Inr (p, h', rest)"
  shows "line_ok p \<and> hist_ok h' \<and> hist_lines_ok h'"
proof -
  obtain s where s: "get_line True h [] input = Some (s, rest)" "bang_subst h (line s) = Inr p" "h' = addhist m p h"
    using assms(3) by (auto simp: get_cmd_def split: option.splits sum.splits)
  have "line_ok []" by (simp add: line_ok_def LINESZ_def)
  with get_line_loop_ok [OF s(1) [unfolded get_line_def] ed_ok_start [OF assms(1)] assms(2,1)]
  obtain s1 where "s = putstr [CHR 0x0A] s1" "ed_ok h s1" by blast
  then have "line_ok (line s)" by (auto simp: ed_ok_def line_ok_def dest: replaced_showing(2))
  then have p: "line_ok p" using bang_subst_ok [OF assms(1,2) _ s(2)] by simp
  have "\<forall>t \<in> set (hist_list h). wf_cstr t" using hist_lines_list [OF assms(1,2)] line_ok_wf by blast
  then show ?thesis using p addhist_lines_ok [OF assms(2) p] addhist_ring(1) [OF assms(1) _ line_ok_wf [OF p]]
    by (simp add: s(3))
qed

text \<open>C25. Reading a command with its history substitution keeps the ring well formed and all
  its lines printable and shorter than a line buffer, so the assumptions of the editor hold
  for every later line; the command handed to the interpreter is such a line too.\<close>
theorem get_cmd_invariant:
  assumes "hist_ok h" "hist_lines_ok h" "get_cmd m h input = Inr (p, h', rest)"
  shows "line_ok p \<and> hist_ok h' \<and> hist_lines_ok h'"
  by (rule get_cmd_keeps [OF assms])

theorem get_cmd_invariant_witness:
  "case get_cmd True (addhist True ''ls -l'' (histinit hist_zero)) (''x !l'' @ [CHR 0x0A]) of
     Inr (p, h', rest) \<Rightarrow> p = ''x ls -l'' \<and> hist_ok h' \<and> hist_lines_ok h' | Inl e \<Rightarrow> False"
proof -
  let ?h = "addhist True ''ls -l'' (histinit hist_zero)"
  let ?r = "get_cmd True ?h (''x !l'' @ [CHR 0x0A])"
  have l: "line_ok ''ls -l''" "hist_lines_ok (histinit hist_zero)"
    by (simp_all add: line_ok_def LINESZ_def isprint_range uchar_def hist_lines_iff histinit_def hist_zero_def)
  have h: "hist_ok ?h" "hist_lines_ok ?h"
    using addhist_ring(1) [OF hist_zero_ok(1) _ line_ok_wf [OF l(1)]] addhist_lines_ok [OF l(2,1)]
    by (simp_all add: hist_zero_ok(2))
  have "case ?r of Inr (p, h', rest) \<Rightarrow> p = ''x ls -l'' | Inl e \<Rightarrow> False" by code_simp
  then obtain h' rest where "?r = Inr (''x ls -l'', h', rest)" by (auto split: sum.splits)
  with get_cmd_invariant [OF h this] show ?thesis by simp
qed

end
