(* ===== verification/Cmdparser.thy ===== *)
theory Cmdparser
  imports Argv Hist Env
begin

text \<open>
  The command interpreter, \<^verbatim>\<open>pmon/common/cmdparser.c\<close> and the registration of command
  tables in \<^verbatim>\<open>pmon/cmds/cmdtable.c\<close>: variables are substituted, the line is cut at the
  semicolons, and each part is cut into an argument vector and handed to the function of the
  command. The lemmas show what the substitution computes and that it stays in its buffer,
  that a list of commands is cut into these commands, and that a command function is only
  called with its name and a number of arguments that its table entry allows, and a hidden
  one only for an expert.
\<close>

section \<open>Command tables\<close>

text \<open>The state the commands work on: the environment, the history, the flag
  \<open>repeating_cmd\<close> and everything else. A command function is a parameter.\<close>

record ('n, 'x) shell =
  sh_env :: "'n env"
  sh_hist :: history
  repeating_cmd :: bool
  sh_world :: 'x

record ('n, 'x) cmd =
  c_name :: cstr
  c_func :: "cstr list \<Rightarrow> ('n, 'x) shell \<Rightarrow> int \<times> ('n, 'x) shell"
  c_minac :: int
  c_maxac :: int
  c_flag :: nat

definition CMD_REPEAT :: nat where "CMD_REPEAT = 1"
definition CMD_HIDE :: nat where "CMD_HIDE = 2"

text \<open>A table is its first entry, which only holds the name of the group, and the commands.\<close>

type_synonym ('n, 'x) cmdtable = "cstr \<times> ('n, 'x) cmd list"

definition NCMDTABLES :: nat where "NCMDTABLES = 100"

text \<open>The insertion into the array of 100 tables, whose used part is \<open>ts\<close>: at the end, before
  the first table of the same group or, with \<open>atend\<close>, after its tables; the last table falls
  off when the array is full. With a full array and a new group the code writes past the
  array: \<open>None\<close>.\<close>

definition cmdlist_expand ::
  "('n, 'x) cmdtable \<Rightarrow> bool \<Rightarrow> ('n, 'x) cmdtable list \<Rightarrow> ('n, 'x) cmdtable list option" where
  "cmdlist_expand new atend ts =
     (let before = takeWhile (\<lambda>t. fst t \<noteq> fst new) ts;
          rest = dropWhile (\<lambda>t. fst t \<noteq> fst new) ts;
          same = takeWhile (\<lambda>t. fst t = fst new) rest;
          after = dropWhile (\<lambda>t. fst t = fst new) rest
      in if rest = [] then (if length ts < NCMDTABLES then Some (ts @ [new]) else None)
         else if atend then (if length before + length same < NCMDTABLES
                             then Some (take NCMDTABLES (before @ same @ new # after)) else None)
         else Some (take NCMDTABLES (before @ new # rest)))"

fun find_in_table :: "('n, 'x) cmd list \<Rightarrow> cstr \<Rightarrow> ('n, 'x) cmd option" where
  "find_in_table [] name = None"
| "find_in_table (c # cs) name =
     (if strcmp (c_name c) name = 0 then Some c else find_in_table cs name)"

fun find_cmd :: "('n, 'x) cmdtable list \<Rightarrow> cstr \<Rightarrow> ('n, 'x) cmd option" where
  "find_cmd [] name = None"
| "find_cmd (t # ts) name =
     (case find_in_table (snd t) name of Some c \<Rightarrow> Some c | None \<Rightarrow> find_cmd ts name)"

section \<open>Variable substitution\<close>

text \<open>\<open>Undefined\<close> and \<open>Too_long\<close> are messages of the code; at \<open>Past_end\<close> it goes on reading
  behind the terminating \<open>NUL\<close> (a \<open>${\<close> without its brace), at \<open>Var_overflow\<close> it overruns the
  buffer for the name.\<close>

datatype expand_error = Undefined | Too_long | Past_end | Var_overflow

definition EXPLINE :: nat where "EXPLINE = LINESZ + 8"
definition VARSZ :: nat where "VARSZ = 256"

definition name_char :: "char \<Rightarrow> bool" where
  "name_char c \<longleftrightarrow> isalpha c \<or> isdigit c"

text \<open>The name after a dollar, what follows it, and whether the text ended before the brace.\<close>

definition var_name :: "cstr \<Rightarrow> cstr \<times> cstr \<times> bool" where
  "var_name ip =
     (if ip \<noteq> [] \<and> hd ip = CHR ''{'' then
        (takeWhile (\<lambda>c. c \<noteq> CHR ''}'') (tl ip), drop 1 (dropWhile (\<lambda>c. c \<noteq> CHR ''}'') (tl ip)),
         CHR ''}'' \<notin> set (tl ip))
      else (takeWhile name_char ip, dropWhile name_char ip, False))"

lemma var_name_length: "var_name ip = (v, r, e) \<Longrightarrow> length r \<le> length ip"
proof -
  assume "var_name ip = (v, r, e)"
  then have "r = drop 1 (dropWhile (\<lambda>c. c \<noteq> CHR ''}'') (tl ip)) \<or> r = dropWhile name_char ip"
    by (auto simp: var_name_def split: if_splits)
  moreover have "length (dropWhile (\<lambda>c. c \<noteq> CHR ''}'') (tl ip)) \<le> length (tl ip)"
    "length (dropWhile name_char ip) \<le> length ip" by (rule length_dropWhile_le)+
  ultimately show ?thesis by auto
qed

function expand_loop :: "'n env \<Rightarrow> cstr \<Rightarrow> cstr \<Rightarrow> expand_error + cstr" where
  "expand_loop env [] op = Inr op"
| "expand_loop env (c # ip) op =
     (if length op \<ge> EXPLINE - 1 then Inl Too_long
      else if c \<noteq> CHR ''$'' then expand_loop env ip (op @ [c])
      else if ip \<noteq> [] \<and> hd ip = CHR ''$'' then expand_loop env (tl ip) (op @ [CHR ''$''])
      else case var_name ip of (var, r, e) \<Rightarrow>
        if length var \<ge> VARSZ then Inl Var_overflow
        else case getenv var env of
          None \<Rightarrow> Inl Undefined
        | Some v \<Rightarrow>
            if length op + length v \<ge> EXPLINE - 1 then Inl Too_long
            else if e then Inl Past_end
            else expand_loop env r (op @ v))"
  by pat_completeness auto
termination
  by (relation "measure (\<lambda>(env, ip, op). length ip)") (auto dest: var_name_length [OF sym])

definition expand :: "'n env \<Rightarrow> cstr \<Rightarrow> expand_error + cstr" where
  "expand env cmdline =
     (if strchr cmdline CHR ''$'' = None then Inr cmdline else expand_loop env cmdline [])"

section \<open>Cutting a line at the semicolons\<close>

text \<open>The commands found, and whether all quotes were closed.\<close>

function split_cmds :: "cstr \<Rightarrow> cstr list \<times> bool" where
  "split_cmds [] = ([[]], True)"
| "split_cmds (c # p) =
     (if c = CHR 0x27 \<or> c = CHR 0x22 then
        (let w = takeWhile (\<lambda>d. d \<noteq> c) p; r = dropWhile (\<lambda>d. d \<noteq> c) p
         in if r = [] then ([c # p], False)
            else case split_cmds (tl r) of (l, ok) \<Rightarrow> ((c # w @ c # hd l) # tl l, ok))
      else case split_cmds p of (l, ok) \<Rightarrow>
        (if c = CHR '';'' then [] # l else (c # hd l) # tl l, ok))"
  by pat_completeness auto
termination
proof (relation "measure length")
  show "(tl r, c # p) \<in> measure length" if "r = dropWhile (\<lambda>d. d \<noteq> c) p" for c p r
    using that length_dropWhile_le [of "\<lambda>d. d \<noteq> c" p] by simp
qed simp_all

section \<open>Execution\<close>

text \<open>Where the code leaves the defined behaviour: too many commands for \<open>cmdlist\<close>, the word
  of an empty history slot, and the two cases of \<open>expand\<close>.\<close>

datatype do_cmd_fault = Cmdlist_overflow | Uninit_word | Expand_fault expand_error

definition EXPERT :: cstr where "EXPERT = ''galileoexpert''"
definition NCMDS :: nat where "NCMDS = 20"

text \<open>The loop over the commands of the line. The commands are values here. In the code they are parts of the
  line, which for a line with variables is the static buffer of \<open>expand\<close>: a command function that executes a line with
  variables itself overwrites the commands behind it. A line without a dollar is left in the caller's buffer.\<close>

fun run_cmds :: "('n, 'x) cmdtable list \<Rightarrow> bool \<Rightarrow> cstr list \<Rightarrow> ('n, 'x) shell \<Rightarrow> int \<times> ('n, 'x) shell" where
  "run_cmds ts expert [] s = (0, s)"
| "run_cmds ts expert (p # ps) s =
     (let av = argvize p; ac = int (length av)
      in if av = [] then (- 1, s)
         else case find_cmd ts (hd av) of
           None \<Rightarrow> (- 1, s)
         | Some c \<Rightarrow>
             if c_flag c AND CMD_HIDE \<noteq> 0 \<and> \<not> expert then (- 1, s)
             else if repeating_cmd s \<and> c_flag c AND CMD_REPEAT = 0 then (- 1, s\<lparr>repeating_cmd := False\<rparr>)
             else case (if ac < c_minac c \<or> ac > c_maxac c then (- 1, s) else c_func c av s) of
               (stat, s') \<Rightarrow> if stat \<noteq> 0 then (stat, s') else run_cmds ts expert ps s')"

text \<open>The line that an empty command repeats: \<open>None\<close> if nothing is to be repeated. The flag
  \<open>repeating_cmd\<close> is set in any case when \<open>rptcmd\<close> is not \<open>off\<close>.\<close>

definition rpt_mode :: "('n, 'x) shell \<Rightarrow> int" where
  "rpt_mode s = (case matchenv ''rptcmd'' (sh_env s) of Some j \<Rightarrow> j | None \<Rightarrow> - 1)"

definition rpt_line :: "('n, 'x) shell \<Rightarrow> do_cmd_fault + cstr option" where
  "rpt_line s =
     (let t = gethistn (histno (sh_hist s) - 1) (sh_hist s)
      in if rpt_mode s = 1 then Inr (Some (case t of None \<Rightarrow> [] | Some l \<Rightarrow> l))
         else if rpt_mode s = 2 then
           (case t of
              None \<Rightarrow> Inl Uninit_word
            | Some l \<Rightarrow>
                if wordsz l > 10 then Inr None
                else let tmp = (case getword l of None \<Rightarrow> [] | Some (w, r) \<Rightarrow> w)
                     in if strcmp tmp ''t'' = 0 \<or> strcmp tmp ''to'' = 0 then Inr (Some tmp) else Inr None)
         else Inr None)"

text \<open>From the substitution on.\<close>

definition do_line :: "('n, 'x) cmdtable list \<Rightarrow> bool \<Rightarrow> cstr \<Rightarrow> ('n, 'x) shell \<Rightarrow>
    do_cmd_fault + int \<times> ('n, 'x) shell" where
  "do_line ts expert p s =
     (case expand (sh_env s) p of
        Inl e \<Rightarrow> if e = Past_end \<or> e = Var_overflow then Inl (Expand_fault e) else Inr (- 1, s)
      | Inr p' \<Rightarrow>
          (case split_cmds p' of (ps, ok) \<Rightarrow>
             if length ps > NCMDS then Inl Cmdlist_overflow
             else if \<not> ok then Inr (- 1, s)
             else Inr (run_cmds ts expert ps s)))"

definition do_cmd :: "('n, 'x) cmdtable list \<Rightarrow> cstr \<Rightarrow> ('n, 'x) shell \<Rightarrow>
    do_cmd_fault + int \<times> ('n, 'x) shell" where
  "do_cmd ts p s0 =
     (let s = s0\<lparr>repeating_cmd := False\<rparr>;
          expert = (getenv EXPERT (sh_env s) \<noteq> None)
      in if p = [] \<or> strempty p then
           (if rpt_mode s = 0 then Inr (- 1, s)
            else let s = s\<lparr>repeating_cmd := True\<rparr>
                 in case rpt_line s of
                      Inl e \<Rightarrow> Inl e
                    | Inr None \<Rightarrow> Inr (- 1, s)
                    | Inr (Some l) \<Rightarrow> do_line ts expert l s)
         else do_line ts expert p s)"

section \<open>Registration keeps the groups together\<close>

fun grouped :: "('n, 'x) cmdtable list \<Rightarrow> bool" where
  "grouped [] \<longleftrightarrow> True"
| "grouped (t # ts) \<longleftrightarrow> fst t \<notin> fst ` set (dropWhile (\<lambda>u. fst u = fst t) ts) \<and> grouped ts"

lemma grouped_tl_same: "grouped (t # ts) \<Longrightarrow> fst u = fst t \<Longrightarrow> grouped (u # ts)"
  by simp

lemma dropWhile_same_insert:
  "fst t = n \<Longrightarrow> dropWhile (\<lambda>u. fst u = n) (t # ts) = dropWhile (\<lambda>u. fst u = n) ts"
  by simp

lemma grouped_append_new: "grouped ts \<Longrightarrow> fst new \<notin> fst ` set ts \<Longrightarrow> grouped (ts @ [new])"
  by (induction ts) (auto simp: dropWhile_append dest: set_dropWhileD)

lemma grouped_before:
  assumes "grouped (before @ rest)" "\<forall>t \<in> set before. fst t \<noteq> fst new" "rest \<noteq> []" "fst (hd rest) = fst new"
  shows "grouped (before @ new # rest)"
  using assms
proof (induction before)
  case Nil
  then show ?case by (cases rest) auto
next
  case (Cons t before)
  have g: "grouped (before @ new # rest)" using Cons by auto
  have n: "fst t \<noteq> fst new" using Cons.prems(2) by auto
  have "set (dropWhile (\<lambda>u. fst u = fst t) (before @ new # rest)) = insert new (set (dropWhile (\<lambda>u. fst u = fst t) (before @ rest)))"
    using n Cons.prems(3,4) by (cases rest) (auto simp: dropWhile_append)
  then show ?case using Cons.prems(1) g n by auto
qed

lemma grouped_same:
  assumes "grouped (same @ after)" "\<forall>t \<in> set same. fst t = fst new" "same \<noteq> []"
  shows "grouped (same @ new # after)"
  using assms
proof (induction same)
  case (Cons t same)
  have t: "fst t = fst new" using Cons.prems(2) by simp
  have d: "dropWhile (\<lambda>u. fst u = fst t) (same @ after) = dropWhile (\<lambda>u. fst u = fst t) after"
    "dropWhile (\<lambda>u. fst u = fst t) (same @ new # after) = dropWhile (\<lambda>u. fst u = fst t) after"
    using Cons.prems(2) t by (auto simp: dropWhile_append)
  show ?case
  proof (cases "same = []")
    case True
    then show ?thesis using Cons.prems t by simp
  next
    case False
    then have "grouped (same @ new # after)" using Cons by auto
    then show ?thesis using Cons.prems(1) d by simp
  qed
qed simp

lemma grouped_after:
  assumes "grouped (before @ same @ after)" "\<forall>t \<in> set before. fst t \<noteq> fst new" "\<forall>t \<in> set same. fst t = fst new" "same \<noteq> []"
  shows "grouped (before @ same @ new # after)"
  using assms
proof (induction before)
  case Nil
  then show ?case using grouped_same [of same after new] by simp
next
  case (Cons t before)
  have g: "grouped (before @ same @ new # after)" using Cons by auto
  have n: "fst t \<noteq> fst new" "fst t \<noteq> fst (hd same)" using Cons.prems(2-4) by (auto simp: hd_in_set)
  have "set (dropWhile (\<lambda>u. fst u = fst t) (before @ same @ new # after)) =
      insert new (set (dropWhile (\<lambda>u. fst u = fst t) (before @ same @ after)))"
    using n Cons.prems(4) by (cases same) (auto simp: dropWhile_append)
  then show ?case using Cons.prems(1) g n by auto
qed

lemma cmdlist_expand_grouped:
  assumes "grouped ts" "length ts < NCMDTABLES" "cmdlist_expand new atend ts = Some ts'"
  shows "grouped ts'" "\<exists>us vs. ts = us @ vs \<and> ts' = us @ new # vs"
proof -
  define before where "before = takeWhile (\<lambda>t. fst t \<noteq> fst new) ts"
  define rest where "rest = dropWhile (\<lambda>t. fst t \<noteq> fst new) ts"
  define same where "same = takeWhile (\<lambda>t. fst t = fst new) rest"
  define after where "after = dropWhile (\<lambda>t. fst t = fst new) rest"
  have ts: "ts = before @ rest" "rest = same @ after" by (simp_all add: before_def rest_def same_def after_def)
  have b: "\<forall>t \<in> set before. fst t \<noteq> fst new" "\<forall>t \<in> set same. fst t = fst new"
    by (auto simp: before_def same_def dest: set_takeWhileD)
  have r: "rest \<noteq> [] \<Longrightarrow> fst (hd rest) = fst new" 
    using hd_dropWhile [of "\<lambda>t. fst t \<noteq> fst new" ts] unfolding rest_def by simp
  then have s: "rest \<noteq> [] \<Longrightarrow> same \<noteq> []" by (cases rest) (auto simp: same_def)
  have ts': "ts' = (if rest = [] then ts @ [new] else if atend then before @ same @ new # after else before @ new # rest)"
    using assms(2,3) ts unfolding cmdlist_expand_def Let_def before_def [symmetric] rest_def [symmetric]
      same_def [symmetric] after_def [symmetric] by (auto split: if_splits)
  consider (a) "rest = []" | (b) "rest \<noteq> []" atend | (c) "rest \<noteq> []" "\<not> atend" by blast
  then have "grouped ts' \<and> (\<exists>us vs. ts = us @ vs \<and> ts' = us @ new # vs)"
  proof cases
    case a
    then have "fst new \<notin> fst ` set ts" using b ts by auto
    then show ?thesis using ts' a grouped_append_new [OF assms(1)] by auto
  next
    case b': b
    have "grouped (before @ same @ new # after)"
      using grouped_after [OF _ b s [OF b'(1)]] assms(1) ts by simp
    then have "grouped ((before @ same) @ new # after)" by simp
    moreover have "ts' = (before @ same) @ new # after" "ts = (before @ same) @ after" using ts' ts b' by simp_all
    ultimately show ?thesis by blast
  next
    case c
    have "grouped (before @ new # rest)"
      using grouped_before [OF _ b(1) c(1) r [OF c(1)]] assms(1) ts(1) by simp
    moreover have "ts' = before @ new # rest" using ts' c by simp
    ultimately show ?thesis using ts(1) by blast
  qed
  then show "grouped ts'" "\<exists>us vs. ts = us @ vs \<and> ts' = us @ new # vs" by simp_all
qed

text \<open>Registering a command table adds it and changes nothing else in the list, and tables
  of one group stay next to each other, so the help listing shows each group once.\<close>
theorem cmdlist_expand_keeps_groups:
  assumes "grouped ts" "length ts < NCMDTABLES" "cmdlist_expand new atend ts = Some ts'"
  shows "grouped ts' \<and> (\<exists>us vs. ts = us @ vs \<and> ts' = us @ new # vs)"
  using cmdlist_expand_grouped [OF assms] by simp

theorem cmdlist_expand_keeps_groups_witness:
  "grouped [(''Shell'', []), (''Env'', []), (''Env'', [] :: (unit, unit) cmd list), (''Misc'', [])]"
proof -
  have "grouped [(''Shell'', []), (''Env'', []), (''Misc'', [] :: (unit, unit) cmd list)]" by simp
  moreover have "cmdlist_expand (''Env'', []) True [(''Shell'', []), (''Env'', []), (''Misc'', [] :: (unit, unit) cmd list)]
      = Some [(''Shell'', []), (''Env'', []), (''Env'', []), (''Misc'', [])]"
    by (simp add: cmdlist_expand_def NCMDTABLES_def Let_def)
  ultimately show ?thesis using cmdlist_expand_keeps_groups by (fastforce simp: NCMDTABLES_def)
qed

section \<open>Substitution\<close>

lemma expand_loop_bound: "expand_loop env ip op = Inr q \<Longrightarrow> length op \<le> EXPLINE - 1 \<Longrightarrow> length q \<le> EXPLINE - 1"
proof (induction env ip op rule: expand_loop.induct)
  case (2 env c ip op)
  show ?case
  proof (cases "length op \<ge> EXPLINE - 1 \<or> c \<noteq> CHR ''$'' \<or> (ip \<noteq> [] \<and> hd ip = CHR ''$'')")
    case True
    then show ?thesis using 2 by (auto split: if_splits)
  next
    case False
    obtain var r e where v: "var_name ip = (var, r, e)" by (cases "var_name ip")
    then show ?thesis using False "2.prems" "2.IH"(3) [OF _ _ _ v [symmetric]]
      by (auto split: if_splits option.splits)
  qed
qed simp

text \<open>The tokens of a line: a character, a doubled dollar, a variable with and without
  braces.\<close>

datatype xtok = Lit char | Dollar | Var cstr | Braced cstr

fun show_tok :: "xtok \<Rightarrow> cstr" where
  "show_tok (Lit c) = [c]"
| "show_tok Dollar = ''$$''"
| "show_tok (Var v) = CHR ''$'' # v"
| "show_tok (Braced v) = ''${'' @ v @ ''}''"

definition show_toks :: "xtok list \<Rightarrow> cstr" where
  "show_toks ts = concat (map show_tok ts)"

fun tok_value :: "'n env \<Rightarrow> xtok \<Rightarrow> cstr" where
  "tok_value env (Lit c) = [c]"
| "tok_value env Dollar = ''$''"
| "tok_value env (Var v) = the (getenv v env)"
| "tok_value env (Braced v) = the (getenv v env)"

definition tok_values :: "'n env \<Rightarrow> xtok list \<Rightarrow> cstr" where
  "tok_values env ts = concat (map (tok_value env) ts)"

fun good_toks :: "'n env \<Rightarrow> xtok list \<Rightarrow> bool" where
  "good_toks env [] \<longleftrightarrow> True"
| "good_toks env (Lit c # ts) \<longleftrightarrow> c \<noteq> CHR ''$'' \<and> good_toks env ts"
| "good_toks env (Dollar # ts) \<longleftrightarrow> good_toks env ts"
| "good_toks env (Var v # ts) \<longleftrightarrow> v \<noteq> [] \<and> (\<forall>c \<in> set v. name_char c) \<and> length v < VARSZ \<and>
     getenv v env \<noteq> None \<and> (show_toks ts = [] \<or> \<not> name_char (hd (show_toks ts))) \<and> good_toks env ts"
| "good_toks env (Braced v # ts) \<longleftrightarrow> CHR ''}'' \<notin> set v \<and> length v < VARSZ \<and>
     getenv v env \<noteq> None \<and> good_toks env ts"

lemma name_char_special: "\<not> name_char CHR ''$''" "\<not> name_char CHR ''{''"
  by code_simp+

lemma var_name_plain:
  "v \<noteq> [] \<Longrightarrow> \<forall>c \<in> set v. name_char c \<Longrightarrow> r = [] \<or> \<not> name_char (hd r) \<Longrightarrow> var_name (v @ r) = (v, r, False)"
  using name_char_special by (cases v; cases r) (auto simp: var_name_def takeWhile_append dropWhile_append)

lemma var_name_braced: "CHR ''}'' \<notin> set v \<Longrightarrow> var_name (CHR ''{'' # v @ CHR ''}'' # r) = (v, r, False)"
  by (auto simp: var_name_def takeWhile_append dropWhile_append)

lemma expand_loop_var:
  assumes "var_name ip = (v, r, False)" "getenv v env = Some x" "length v < VARSZ"
    and "length op + length x < EXPLINE - 1" "ip \<noteq> []" "hd ip \<noteq> CHR ''$''"
  shows "expand_loop env (CHR ''$'' # ip) op = expand_loop env r (op @ x)"
  using assms by simp

lemma expand_loop_toks:
  "good_toks env ts \<Longrightarrow> length op + length (tok_values env ts) < EXPLINE - 1 \<Longrightarrow>
   expand_loop env (show_toks ts) op = Inr (op @ tok_values env ts)"
proof (induction env ts arbitrary: op rule: good_toks.induct)
  case (1 env)
  then show ?case by (simp add: show_toks_def tok_values_def)
next
  case (2 env c ts)
  then show ?case by (simp add: show_toks_def tok_values_def)
next
  case (3 env ts)
  then show ?case by (simp add: show_toks_def tok_values_def)
next
  case (4 env v ts)
  then obtain x where x: "getenv v env = Some x" by auto
  have v: "v \<noteq> []" "\<forall>c \<in> set v. name_char c" using 4 by auto
  then have n: "hd (v @ show_toks ts) \<noteq> CHR ''$''" using name_char_special by (cases v) auto
  have "var_name (v @ show_toks ts) = (v, show_toks ts, False)"
    using v 4 by (intro var_name_plain) auto
  from expand_loop_var [OF this x _ _ _ n, of op]
  have "expand_loop env (show_toks (Var v # ts)) op = expand_loop env (show_toks ts) (op @ x)"
    using 4 v x by (simp add: show_toks_def tok_values_def)
  then show ?case using 4 x by (simp add: tok_values_def)
next
  case (5 env v ts)
  then obtain x where x: "getenv v env = Some x" by auto
  have "var_name (CHR ''{'' # v @ CHR ''}'' # show_toks ts) = (v, show_toks ts, False)"
    using 5 by (intro var_name_braced) simp
  from expand_loop_var [OF this x, of op]
  have "expand_loop env (show_toks (Braced v # ts)) op = expand_loop env (show_toks ts) (op @ x)"
    using 5 x by (simp add: show_toks_def tok_values_def)
  then show ?case using 5 x by (simp add: tok_values_def)
qed

lemma no_dollar_toks: "good_toks env ts \<Longrightarrow> CHR ''$'' \<notin> set (show_toks ts) \<Longrightarrow> show_toks ts = tok_values env ts"
  by (induction env ts rule: good_toks.induct) (auto simp: show_toks_def tok_values_def)

lemma expand_good: "good_toks env ts \<Longrightarrow> length (tok_values env ts) < EXPLINE - 1 \<Longrightarrow>
   expand env (show_toks ts) = Inr (tok_values env ts)"
  using expand_loop_toks [of env ts "[]"] no_dollar_toks [of env ts] by (simp add: expand_def)

text \<open>C27. A command line whose variables all have values is replaced by its text with every
  \<open>$name\<close> and \<open>${name}\<close> replaced by the value and every \<open>$$\<close> by a dollar, if the result has
  fewer than \<open>LINESZ + 7\<close> characters.\<close>
theorem expand_tokens:
  assumes "good_toks env ts" "length (tok_values env ts) < EXPLINE - 1"
  shows "expand env (show_toks ts) = Inr (tok_values env ts)"
  by (rule expand_good [OF assms])

text \<open>Whatever the line and the environment hold, the text written to the buffer of
  \<open>expand\<close> leaves room for its terminating \<open>NUL\<close>; a line without a dollar is returned as it
  is.\<close>
theorem expand_in_buffer:
  assumes "expand env p = Inr q"
  shows "q = p \<and> CHR ''$'' \<notin> set p \<or> length q < EXPLINE"
  using assms expand_loop_bound [of env p "[]" q] by (auto simp: expand_def EXPLINE_def split: if_splits)

text \<open>An environment with one variable.\<close>

definition one_env :: "(cstr \<times> cstr option) list env" where
  "one_env = set_slot 0 \<lparr>ep_name = Some ''foo'', ep_value = Some ''bar''\<rparr> (blank_env [])"

theorem expand_tokens_witness: "expand one_env ''x$foo-${Foo}$$'' = Inr ''xbar-bar$''"
proof -
  let ?ts = "[Lit CHR ''x'', Var ''foo'', Lit CHR ''-'', Braced ''Foo'', Dollar]"
  have "good_toks one_env ?ts" by code_simp
  moreover have "length (tok_values one_env ?ts) < EXPLINE - 1" by code_simp
  ultimately have "expand one_env (show_toks ?ts) = Inr (tok_values one_env ?ts)" by (rule expand_tokens)
  moreover have "show_toks ?ts = ''x$foo-${Foo}$$''" "tok_values one_env ?ts = ''xbar-bar$''" by code_simp+
  ultimately show ?thesis by simp
qed

theorem expand_in_buffer_witness: "length ''xbar'' < EXPLINE"
proof -
  have "expand one_env ''x$foo'' = Inr ''xbar''" by code_simp
  from expand_in_buffer [OF this] show ?thesis by simp
qed

section \<open>Lists of commands\<close>

text \<open>The text of one command: its quotes are closed and it has no semicolon outside of
  them.\<close>

inductive one_cmd :: "cstr \<Rightarrow> bool" where
  one_nil: "one_cmd []"
| one_char: "c \<notin> set [CHR 0x27, CHR 0x22, CHR '';''] \<Longrightarrow> one_cmd p \<Longrightarrow> one_cmd (c # p)"
| one_quote: "c = CHR 0x27 \<or> c = CHR 0x22 \<Longrightarrow> c \<notin> set w \<Longrightarrow> one_cmd p \<Longrightarrow> one_cmd (c # w @ c # p)"

code_pred one_cmd .

fun join_cmds :: "cstr list \<Rightarrow> cstr" where
  "join_cmds [] = []"
| "join_cmds [p] = p"
| "join_cmds (p # ps) = p @ CHR '';'' # join_cmds ps"

lemma split_one: "one_cmd a \<Longrightarrow> split_cmds a = ([a], True)"
  by (induction rule: one_cmd.induct) (auto simp: takeWhile_append dropWhile_append Let_def)

lemma split_append: "one_cmd a \<Longrightarrow> split_cmds (a @ CHR '';'' # b) = (a # fst (split_cmds b), snd (split_cmds b))"
proof (induction rule: one_cmd.induct)
  case one_nil
  then show ?case by (simp add: case_prod_unfold)
next
  case (one_quote c w p)
  have "takeWhile (\<lambda>d. d \<noteq> c) (w @ c # p @ CHR '';'' # b) = w"
    "dropWhile (\<lambda>d. d \<noteq> c) (w @ c # p @ CHR '';'' # b) = c # p @ CHR '';'' # b"
    using one_quote(2) by (auto simp: takeWhile_append dropWhile_append)
  then show ?case using one_quote by (simp add: Let_def)
qed auto

lemma split_join: "\<forall>p \<in> set ps. one_cmd p \<Longrightarrow> ps \<noteq> [] \<Longrightarrow> split_cmds (join_cmds ps) = (ps, True)"
  by (induction ps rule: join_cmds.induct) (auto simp: split_one split_append)

lemma do_cmd_line:
  assumes "p \<noteq> []" "\<not> strempty p"
  shows "do_cmd ts p s = do_line ts (getenv EXPERT (sh_env s) \<noteq> None) p (s\<lparr>repeating_cmd := False\<rparr>)"
  using assms by (simp add: do_cmd_def Let_def)

section \<open>What a command function can rely on\<close>

definition all_cmds :: "('n, 'x) cmdtable list \<Rightarrow> ('n, 'x) cmd set" where
  "all_cmds ts = (\<Union>t \<in> set ts. set (snd t))"

definition may_call :: "bool \<Rightarrow> ('n, 'x) shell \<Rightarrow> ('n, 'x) cmd \<Rightarrow> cstr list \<Rightarrow> bool" where
  "may_call expert s c av \<longleftrightarrow> av \<noteq> [] \<and> strcmp (c_name c) (hd av) = 0 \<and> length av \<le> MAX_AC \<and>
     c_minac c \<le> int (length av) \<and> int (length av) \<le> c_maxac c \<and>
     (c_flag c AND CMD_HIDE \<noteq> 0 \<longrightarrow> expert) \<and> (repeating_cmd s \<longrightarrow> c_flag c AND CMD_REPEAT \<noteq> 0)"

text \<open>What one command of a line does: it is cut into words, the first word selects the entry, and the function is
  called if the entry allows it; otherwise the status is -1, and a repeated command that must not be repeated ends the
  repetition.\<close>

definition one_cmd_run :: "('n, 'x) cmdtable list \<Rightarrow> bool \<Rightarrow> cstr \<Rightarrow> ('n, 'x) shell \<Rightarrow> int \<times> ('n, 'x) shell" where
  "one_cmd_run ts expert p s =
     (case argvize p of
        [] \<Rightarrow> (- 1, s)
      | w # ws \<Rightarrow>
          (case find_cmd ts w of
             None \<Rightarrow> (- 1, s)
           | Some c \<Rightarrow>
               if may_call expert s c (w # ws) then c_func c (w # ws) s
               else (- 1, s\<lparr>repeating_cmd := repeating_cmd s \<and> (c_flag c AND CMD_REPEAT \<noteq> 0 \<or> (c_flag c AND CMD_HIDE \<noteq> 0 \<and> \<not> expert))\<rparr>)))"

lemma find_in_table_Some: "find_in_table cs name = Some c \<Longrightarrow> c \<in> set cs \<and> strcmp (c_name c) name = 0"
  by (induction cs) (auto split: if_splits)

lemma find_cmd_Some: "find_cmd ts name = Some c \<Longrightarrow> c \<in> all_cmds ts \<and> strcmp (c_name c) name = 0"
  by (induction ts) (auto simp: all_cmds_def dest: find_in_table_Some split: option.splits)

lemma length_argvize: "length (argvize s) \<le> MAX_AC"
proof -
  have "length (argvize_loop n s) \<le> n" for n s
    by (induction n arbitrary: s) (auto simp: Let_def split: prod.splits)
  then show ?thesis by (simp add: argvize_def)
qed

lemma run_cmds_one:
  "run_cmds ts expert (p # ps) s =
    (case one_cmd_run ts expert p s of (st, s') \<Rightarrow> if st \<noteq> 0 then (st, s') else run_cmds ts expert ps s')"
proof (cases "argvize p = [] \<or> find_cmd ts (hd (argvize p)) = None")
  case True
  then show ?thesis by (auto simp: one_cmd_run_def Let_def split: list.split)
next
  case False
  then obtain w ws c where c: "argvize p = w # ws" "find_cmd ts w = Some c" by (cases "argvize p") auto
  have "length (w # ws) \<le> MAX_AC" using length_argvize [of p] unfolding c(1) .
  with c find_cmd_Some [OF c(2)] show ?thesis
    by (auto simp: one_cmd_run_def may_call_def Let_def)
qed

lemma run_cmds_states:
  "\<exists>k f. k \<le> length ps \<and> f 0 = s \<and> (\<forall>i < k. one_cmd_run ts expert (ps ! i) (f i) = (0, f (Suc i))) \<and>
     (k = length ps \<and> run_cmds ts expert ps s = (0, f k) \<or>
      k < length ps \<and> fst (run_cmds ts expert ps s) \<noteq> 0 \<and>
        one_cmd_run ts expert (ps ! k) (f k) = run_cmds ts expert ps s)"
proof (induction ps arbitrary: s)
  case Nil
  show ?case by (intro exI [of _ 0] exI [of _ "\<lambda>_. s"]) simp
next
  case (Cons p ps)
  obtain st s1 where r: "one_cmd_run ts expert p s = (st, s1)" by fastforce
  show ?case
  proof (cases "st = 0")
    case False
    then show ?thesis unfolding run_cmds_one r by (intro exI [of _ 0] exI [of _ "\<lambda>_. s"]) (simp add: r)
  next
    case True
    obtain k f where f: "k \<le> length ps" "f 0 = s1" "\<forall>i < k. one_cmd_run ts expert (ps ! i) (f i) = (0, f (Suc i))"
      "k = length ps \<and> run_cmds ts expert ps s1 = (0, f k) \<or>
       k < length ps \<and> fst (run_cmds ts expert ps s1) \<noteq> 0 \<and>
         one_cmd_run ts expert (ps ! k) (f k) = run_cmds ts expert ps s1"
      using Cons.IH [of s1] by blast
    define g where "g = (\<lambda>i. case i of 0 \<Rightarrow> s | Suc i \<Rightarrow> f i)"
    have "\<forall>i < Suc k. one_cmd_run ts expert ((p # ps) ! i) (g i) = (0, g (Suc i))"
      using r True f(2,3) by (auto simp: g_def split: nat.split)
    moreover have "run_cmds ts expert (p # ps) s = run_cmds ts expert ps s1"
      unfolding run_cmds_one r using True by simp
    ultimately show ?thesis
      using f(1,4) by (intro exI [of _ "Suc k"] exI [of _ g]) (simp add: g_def)
  qed
qed

text \<open>C16. A line without variables that joins at most twenty commands with semicolons runs its commands in order:
  the first \<open>k\<close> each return 0 and hand their state to the next one, and either these are all commands and the line
  returns 0, or the next command returns a status other than 0 or is refused with -1; then the line returns its status
  and state, and the commands behind it are not run.\<close>
theorem do_cmd_sequence:
  assumes "\<forall>p \<in> set ps. one_cmd p" "ps \<noteq> []" "length ps \<le> NCMDS"
    and "CHR ''$'' \<notin> set (join_cmds ps)" "join_cmds ps \<noteq> []" "\<not> strempty (join_cmds ps)"
    and "expert = (getenv EXPERT (sh_env s) \<noteq> None)"
  shows "\<exists>k f. f 0 = s\<lparr>repeating_cmd := False\<rparr> \<and>
    (\<forall>i < k. one_cmd_run ts expert (ps ! i) (f i) = (0, f (Suc i))) \<and>
    (k = length ps \<and> do_cmd ts (join_cmds ps) s = Inr (0, f k) \<or>
     k < length ps \<and> (\<exists>st s'. st \<noteq> 0 \<and> one_cmd_run ts expert (ps ! k) (f k) = (st, s') \<and>
       do_cmd ts (join_cmds ps) s = Inr (st, s')))"
proof -
  have "do_cmd ts (join_cmds ps) s = Inr (run_cmds ts expert ps (s\<lparr>repeating_cmd := False\<rparr>))"
    using split_join [OF assms(1,2)] assms(3,4,7) unfolding do_cmd_line [OF assms(5,6)]
    by (simp add: do_line_def expand_def)
  then show ?thesis
    using run_cmds_states [of ps "s\<lparr>repeating_cmd := False\<rparr>" ts expert] by (metis prod.collapse)
qed

text \<open>One round of the loop: the command may be called, or nothing but the flag changes.\<close>

inductive cmd_step :: "('n, 'x) cmdtable list \<Rightarrow> bool \<Rightarrow> ('n, 'x) shell \<Rightarrow> ('n, 'x) shell \<Rightarrow> bool"
  for ts expert where
  call: "c \<in> all_cmds ts \<Longrightarrow> may_call expert s c av \<Longrightarrow> cmd_step ts expert s (snd (c_func c av s))"
| flag: "cmd_step ts expert s (s\<lparr>repeating_cmd := b\<rparr>)"

inductive_cases cmd_stepE: "cmd_step ts expert s s'"

lemma run_cmds_steps: "(cmd_step ts expert)\<^sup>*\<^sup>* s (snd (run_cmds ts expert ps s))"
proof (induction ts expert ps s rule: run_cmds.induct)
  case (2 ts expert p ps s)
  let ?av = "argvize p"
  show ?case
  proof (cases "?av = [] \<or> find_cmd ts (hd ?av) = None")
    case True
    then show ?thesis by (auto simp: Let_def)
  next
    case False
    then obtain c where c: "?av \<noteq> []" "find_cmd ts (hd ?av) = Some c" by auto
    consider (hide) "c_flag c AND CMD_HIDE \<noteq> 0 \<and> \<not> expert"
      | (rpt) "\<not> (c_flag c AND CMD_HIDE \<noteq> 0 \<and> \<not> expert)" "repeating_cmd s \<and> c_flag c AND CMD_REPEAT = 0"
      | (count) "\<not> (c_flag c AND CMD_HIDE \<noteq> 0 \<and> \<not> expert)" "\<not> (repeating_cmd s \<and> c_flag c AND CMD_REPEAT = 0)"
          "int (length ?av) < c_minac c \<or> int (length ?av) > c_maxac c"
      | (run) "\<not> (c_flag c AND CMD_HIDE \<noteq> 0 \<and> \<not> expert)" "\<not> (repeating_cmd s \<and> c_flag c AND CMD_REPEAT = 0)"
          "\<not> (int (length ?av) < c_minac c \<or> int (length ?av) > c_maxac c)" by blast
    then show ?thesis
    proof cases
      case run
      obtain st s' where f: "c_func c ?av s = (st, s')" by (cases "c_func c ?av s")
      have "may_call expert s c ?av"
        using run c find_cmd_Some [OF c(2)] length_argvize [of p] by (auto simp: may_call_def)
      with find_cmd_Some [OF c(2)] have step: "cmd_step ts expert s s'"
        using cmd_step.call [of c ts expert s ?av] f by simp
      have ih: "st = 0 \<Longrightarrow> (cmd_step ts expert)\<^sup>*\<^sup>* s' (snd (run_cmds ts expert ps s'))"
        using "2.IH" [OF refl refl c run(1,2) _ ] run(3) f by simp
      show ?thesis
      proof (cases "st = 0")
        case True
        then show ?thesis using c run f converse_rtranclp_into_rtranclp [OF step ih] by (auto simp: Let_def)
      next
        case False
        then show ?thesis using c run f step by (auto simp: Let_def)
      qed
    qed (use c in \<open>auto simp: Let_def intro!: r_into_rtranclp cmd_step.flag\<close>)
  qed
qed simp

lemma do_line_steps: "do_line ts expert p s = Inr (st, s') \<Longrightarrow> (cmd_step ts expert)\<^sup>*\<^sup>* s s'"
  using run_cmds_steps [of ts expert s "fst (split_cmds p)" for p]
  by (auto simp: do_line_def split: sum.splits prod.splits if_splits) (metis fst_conv snd_conv run_cmds_steps)+

lemma do_cmd_steps:
  assumes "do_cmd ts p s = Inr (st, s')"
  shows "(cmd_step ts (getenv EXPERT (sh_env s) \<noteq> None))\<^sup>*\<^sup>* s s'"
proof -
  let ?e = "getenv EXPERT (sh_env s) \<noteq> None"
  have f: "(cmd_step ts ?e)\<^sup>*\<^sup>* s (s\<lparr>repeating_cmd := b\<rparr>)" for b
    using cmd_step.flag [of ts ?e s b] by (rule r_into_rtranclp)
  have "s' = s\<lparr>repeating_cmd := False\<rparr> \<or> s' = s\<lparr>repeating_cmd := True\<rparr> \<or>
      (\<exists>b q. do_line ts ?e q (s\<lparr>repeating_cmd := b\<rparr>) = Inr (st, s'))"
    using assms by (auto simp: do_cmd_def Let_def split: if_splits sum.splits option.splits)
  then show ?thesis using f do_line_steps rtranclp_trans [of "cmd_step ts ?e"] by blast
qed

text \<open>C17. Executing a line changes the state only by calling command functions, each with its
  own name as first argument, with a number of arguments within the bounds of its entry and
  at most \<open>MAX_AC\<close>, a hidden one only if the expert variable was set when the line was
  entered, and on a repeated line only a repeatable one.\<close>
theorem do_cmd_calls:
  assumes "do_cmd ts p s = Inr (st, s')"
  shows "(cmd_step ts (getenv EXPERT (sh_env s) \<noteq> None))\<^sup>*\<^sup>* s s'"
  by (rule do_cmd_steps [OF assms])

text \<open>A shell with one command, which counts the arguments it is given.\<close>

definition count_cmd :: "((cstr \<times> cstr option) list, nat list) cmd" where
  "count_cmd = \<lparr>c_name = ''cnt'', c_func = (\<lambda>av s. (0, s\<lparr>sh_world := sh_world s @ [length av]\<rparr>)),
     c_minac = 2, c_maxac = 4, c_flag = 0\<rparr>"

definition count_shell :: "((cstr \<times> cstr option) list, nat list) shell" where
  "count_shell = \<lparr>sh_env = one_env, sh_hist = histinit hist_zero, repeating_cmd = False, sh_world = []\<rparr>"

theorem do_cmd_sequence_witness:
  "\<exists>k f. f 0 = count_shell \<and>
    (\<forall>i < k. one_cmd_run [(''Test'', [count_cmd])] False ([''cnt a'', ''cnt 'b;c' d'', ''cnt''] ! i) (f i) = (0, f (Suc i))) \<and>
    (k = 3 \<and> do_cmd [(''Test'', [count_cmd])] ''cnt a;cnt 'b;c' d;cnt'' count_shell = Inr (0, f k) \<or>
     k < 3 \<and> (\<exists>st s'. st \<noteq> 0 \<and>
       one_cmd_run [(''Test'', [count_cmd])] False ([''cnt a'', ''cnt 'b;c' d'', ''cnt''] ! k) (f k) = (st, s') \<and>
       do_cmd [(''Test'', [count_cmd])] ''cnt a;cnt 'b;c' d;cnt'' count_shell = Inr (st, s')))"
proof -
  let ?ps = "[''cnt a'', ''cnt 'b;c' d'', ''cnt'']"
  have "one_cmd '' d''" by (simp add: one_nil one_char)
  then have "one_cmd (CHR 0x27 # ''b;c'' @ CHR 0x27 # '' d'')"
    using one_quote [of "CHR 0x27" "''b;c''" "'' d''"] by simp
  then have one: "\<forall>p \<in> set ?ps. one_cmd p" by (simp add: one_nil one_char)
  have j: "join_cmds ?ps = ''cnt a;cnt 'b;c' d;cnt''" "length ?ps = 3" by simp_all
  have n: "?ps \<noteq> []" "length ?ps \<le> NCMDS" "CHR ''$'' \<notin> set (join_cmds ?ps)" "join_cmds ?ps \<noteq> []"
    "\<not> strempty (join_cmds ?ps)" by (simp_all add: NCMDS_def)
  have e: "False = (getenv EXPERT (sh_env count_shell) \<noteq> None)" by code_simp
  have s: "count_shell\<lparr>repeating_cmd := False\<rparr> = count_shell" by (simp add: count_shell_def)
  show ?thesis using do_cmd_sequence [OF one n e, of "[(''Test'', [count_cmd])]"] unfolding j s .
qed

theorem do_cmd_calls_witness:
  "\<exists>s'. (cmd_step [(''Test'', [count_cmd])] False)\<^sup>*\<^sup>* count_shell s' \<and> sh_world s' = [2]"
proof -
  let ?r = "do_cmd [(''Test'', [count_cmd])] ''cnt $foo'' count_shell"
  have "(case ?r of Inr (st, s') \<Rightarrow> sh_world s' = [2] | Inl f \<Rightarrow> False)" by code_simp
  then obtain st s' where r: "?r = Inr (st, s')" "sh_world s' = [2]" by (auto split: sum.splits)
  have "getenv EXPERT (sh_env count_shell) = None" by code_simp
  with do_cmd_calls [OF r(1)] r(2) show ?thesis by auto
qed

end
