(* ===== verification/Nvram.thy ===== *)
theory Nvram
  imports Env
begin

text \<open>
  The variables in the non-volatile memory, \<^verbatim>\<open>pmon/dev/fl_nvram.c\<close>: a flash area with a
  checksum and the texts \<open>name=value\<close>, one after the other. The driver of the flash device
  and the variables that the target derives from its hardware are parameters. The functions
  provide the \<open>nvops\<close> of the environment. The lemmas show that the bytes represent an
  ordered list of variables, that setting and removing a variable are the list operations,
  and that a variable that was set has its value after the next start.
\<close>

section \<open>The code\<close>

text \<open>\<open>nv_data\<close> is the area; \<open>nv_overrun\<close> records that a function wrote past the copy of the
  area on its stack, after which nothing is known.\<close>

record nvram =
  nv_data :: cbuf
  nvram_invalid :: nat
  nv_overrun :: bool

text \<open>The target: the variables it defines at every start, the flash driver, whose functions
  return whether they failed and the new content, and the byte that lies behind the copy on
  the stack.\<close>

record target =
  t_vars :: "(cstr \<times> cstr) list"
  fl_erase :: "cbuf \<Rightarrow> bool \<times> cbuf"
  fl_program :: "cbuf \<Rightarrow> cbuf \<Rightarrow> bool \<times> cbuf"
  t_junk :: char

fun cksum_sum :: "cbuf \<Rightarrow> u16" where
  "cksum_sum (a # b # r) = push_bit 8 (of_nat (uchar a)) + of_nat (uchar b) + cksum_sum r"
| "cksum_sum _ = 0"

text \<open>\<open>cksum (p, s, 1)\<close>.\<close>

definition cksum_set :: "cbuf \<Rightarrow> cbuf" where
  "cksum_set b =
     (let sum = - cksum_sum (b[0 := NUL, 1 := NUL])
      in b[0 := char_of (unat (drop_bit 8 sum)), 1 := char_of (unat (sum AND 0xFF))])"

definition write_flash :: "target \<Rightarrow> cbuf \<Rightarrow> nvram \<Rightarrow> bool \<times> nvram" where
  "write_flash t buf s =
     (case fl_erase t (nv_data s) of (fail, d) \<Rightarrow>
      if fail then (False, s\<lparr>nv_data := d\<rparr>)
      else case fl_program t buf d of (fail, d) \<Rightarrow> (\<not> fail, s\<lparr>nv_data := d\<rparr>))"

text \<open>The text up to the first equals sign, and the text after it.\<close>

definition split_entry :: "cstr \<Rightarrow> cstr \<times> cstr option" where
  "split_entry w =
     (takeWhile (\<lambda>c. c \<noteq> CHR ''='') w,
      if CHR ''='' \<in> set w then Some (tl (dropWhile (\<lambda>c. c \<noteq> CHR ''='') w)) else None)"

text \<open>The scan of \<open>tgt_mapenv\<close> over the texts; \<open>False\<close> if a text does not end in the area or
  has more than 254 characters.\<close>

function nv_parse :: "cbuf \<Rightarrow> (cstr \<times> cstr option) list \<times> bool" where
  "nv_parse b =
     (if b = [] \<or> hd b = NUL then ([], True)
      else let w = takeWhile (\<lambda>c. c \<noteq> NUL) b; r = dropWhile (\<lambda>c. c \<noteq> NUL) b
           in if length r \<ge> 2 \<and> length w < 255
              then (case nv_parse (tl r) of (es, ok) \<Rightarrow> (split_entry w # es, ok))
              else ([], False))"
  by pat_completeness auto
termination
proof (relation "measure length")
  fix b w r :: cbuf
  assume "\<not> (b = [] \<or> hd b = NUL)" "r = dropWhile (\<lambda>c. c \<noteq> NUL) b" "length r \<ge> 2 \<and> length w < 255"
  then show "(tl r, b) \<in> measure length" using length_dropWhile_le [of "\<lambda>c. c \<noteq> NUL" b] by auto
qed simp

declare nv_parse.simps [simp del]

text \<open>The calls that \<open>tgt_mapenv\<close> makes to the function it is given.\<close>

definition with_value :: "cstr \<times> cstr \<Rightarrow> cstr \<times> cstr option" where
  "with_value p = (fst p, Some (snd p))"

definition nvram_mapenv :: "target \<Rightarrow> nvram \<Rightarrow> (cstr \<times> cstr option) list \<times> nvram" where
  "nvram_mapenv t s =
     (if cksum_sum (nv_data s) \<noteq> 0 then (map with_value (t_vars t), s\<lparr>nvram_invalid := 1\<rparr>)
      else case nv_parse (drop 2 (nv_data s)) of (es, ok) \<Rightarrow>
        (es @ map with_value (t_vars t), if ok then s else s\<lparr>nvram_invalid := 2\<rparr>))"

text \<open>The comparison of a name with a text: the number of characters that agree, up to an
  equals sign.\<close>

fun match_len :: "cstr \<Rightarrow> cbuf \<Rightarrow> nat" where
  "match_len (n # np) (e # ep) = (if e = n \<and> e \<noteq> CHR ''='' \<and> n \<noteq> NUL then Suc (match_len np ep) else 0)"
| "match_len _ _ = 0"

text \<open>The offset of the text for \<open>name\<close>. The search gives up at a text that ends in the middle
  of the comparison.\<close>

function nv_find :: "cstr \<Rightarrow> cbuf \<Rightarrow> nat option" where
  "nv_find name b =
     (if b = [] \<or> hd b = NUL then None
      else let k = match_len name b; np = drop k name; ep = drop k b
           in if np = [] \<and> (ep = [] \<or> hd ep = NUL \<or> hd ep = CHR ''='') then Some 0
              else if ep \<noteq> [] \<and> hd ep \<noteq> NUL
              then (let n = length (takeWhile (\<lambda>c. c \<noteq> NUL) b)
                    in map_option ((+) (Suc n)) (nv_find name (drop (Suc n) b)))
              else None)"
  by pat_completeness auto
termination by (relation "measure (\<lambda>(name, b). length b)") auto

declare nv_find.simps [simp del]

text \<open>The texts behind the removed one move down; the byte behind the copy moves into it, and
  the last bytes stay.\<close>

definition nv_remove :: "char \<Rightarrow> nat \<Rightarrow> cbuf \<Rightarrow> cbuf" where
  "nv_remove junk sp b =
     (let l = Suc (length (takeWhile (\<lambda>c. c \<noteq> NUL) (drop sp b)));
          b1 = take sp b @ drop (sp + l) b @ [junk] @ drop (length b - l + 1) b
      in if b1 ! 2 = NUL then b1[3 := NUL] else b1)"

definition nvram_unsetenv :: "target \<Rightarrow> cstr \<Rightarrow> nvram \<Rightarrow> int \<times> nvram" where
  "nvram_unsetenv t name s =
     (if nvram_invalid s \<noteq> 0 then (0, s)
      else case nv_find name (drop 2 (nv_data s)) of
        None \<Rightarrow> (0, s)
      | Some off \<Rightarrow>
          (case write_flash t (cksum_set (nv_remove (t_junk t) (2 + off) (nv_data s))) s of (ok, s1) \<Rightarrow>
             (if ok then 1 else - 1, s1)))"

text \<open>The offset of the \<open>NUL\<close> that ends the texts.\<close>

function nv_end :: "cbuf \<Rightarrow> nat option" where
  "nv_end b =
     (let w = takeWhile (\<lambda>c. c \<noteq> NUL) b; r = dropWhile (\<lambda>c. c \<noteq> NUL) b
      in if length r < 2 then None
         else if r ! 1 = NUL then Some (Suc (length w))
         else map_option ((+) (length w + 2)) (nv_end (drop 2 r)))"
  by pat_completeness auto
termination
proof (relation "measure length")
  fix b w r :: cbuf
  assume "r = dropWhile (\<lambda>c. c \<noteq> NUL) b" "\<not> length r < 2"
  then show "(drop 2 r, b) \<in> measure length" using length_dropWhile_le [of "\<lambda>c. c \<noteq> NUL" b] by auto
qed simp

declare nv_end.simps [simp del]

text \<open>Writing into the copy; \<open>None\<close> past its end.\<close>

definition put_at :: "cbuf \<Rightarrow> nat \<Rightarrow> cbuf \<Rightarrow> cbuf option" where
  "put_at b i x = (if i + length x \<le> length b then Some (take i b @ x @ drop (i + length x) b) else None)"

definition entry_text :: "cstr \<Rightarrow> cstr option \<Rightarrow> cstr" where
  "entry_text name v = (case v of None \<Rightarrow> name | Some x \<Rightarrow> name @ CHR ''='' # x)"

text \<open>\<open>heaptop\<close> goes to the front, every other variable to the end.\<close>

definition nv_insert :: "cstr \<Rightarrow> cstr option \<Rightarrow> nat \<Rightarrow> cbuf \<Rightarrow> cbuf option" where
  "nv_insert name v ep b =
     (if strcmp ''heaptop'' name = 0 then
        (let envlen = length name + (case v of None \<Rightarrow> 0 | Some x \<Rightarrow> length x) + 2
         in case put_at b (2 + envlen) (take (ep - 1) (drop 2 b)) of
              None \<Rightarrow> None
            | Some b1 \<Rightarrow> put_at b1 2 (entry_text name v @ [NUL]))
      else put_at b ep (entry_text name v @ [NUL, NUL]))"

definition nvram_reinit :: "target \<Rightarrow> nvram \<Rightarrow> bool \<times> nvram" where
  "nvram_reinit t s =
     (if nvram_invalid s = 0 then (True, s)
      else case write_flash t (cksum_set ((replicate (length (nv_data s)) (CHR 0xFF))[2 := NUL, 3 := NUL])) s of
        (ok, s1) \<Rightarrow> (ok, if ok then s1\<lparr>nvram_invalid := 0\<rparr> else s1))"

definition nvram_setenv :: "target \<Rightarrow> cstr \<Rightarrow> cstr option \<Rightarrow> nvram \<Rightarrow> int \<times> nvram" where
  "nvram_setenv t name v s =
     (if strcmp ''galileoexpert'' name = 0 then (1, s)
      else if length name = 0 then (0, s)
      else
        (let envlen = length name + (case v of None \<Rightarrow> 0 | Some x \<Rightarrow> length x) + 2
         in if envlen > 255 then (0, s)
            else case nvram_reinit t s of (ok, s1) \<Rightarrow>
              if \<not> ok then (- 1, s1)
              else
                (let s2 = snd (nvram_unsetenv t name s1);
                     b = nv_data s2
                 in case (if b ! 2 = NUL then Some 2 else map_option ((+) 2) (nv_end (drop 2 b))) of
                      None \<Rightarrow> (0, s2\<lparr>nv_overrun := True\<rparr>)
                    | Some ep \<Rightarrow>
                        if length b < envlen + 1 then (0, s2)
                        else case nv_insert name v ep b of
                          None \<Rightarrow> (0, s2\<lparr>nv_overrun := True\<rparr>)
                        | Some b1 \<Rightarrow>
                            (case write_flash t (cksum_set b1) s2 of (ok, s3) \<Rightarrow>
                               (if ok then 1 else 0, s3)))))"

definition nvram_ops :: "target \<Rightarrow> nvram nvops" where
  "nvram_ops t = \<lparr>tgt_mapenv = nvram_mapenv t, tgt_setenv = nvram_setenv t, tgt_unsetenv = nvram_unsetenv t\<rparr>"

section \<open>The checksum\<close>

lemma cksum_set_Cons: "cksum_set (c1 # c2 # z) =
  (let sum = - cksum_sum z in char_of (unat (drop_bit 8 sum)) # char_of (unat (sum AND 0xFF)) # z)"
  by (simp add: cksum_set_def Let_def uchar_def)

lemma u16_split: "push_bit 8 (drop_bit 8 (w :: u16)) + (w AND 0xFF) = w"
proof -
  have "push_bit 8 (drop_bit 8 w) + take_bit 8 w = w" by (rule bits_ident)
  moreover have "w AND 0xFF = take_bit 8 w" by (simp add: take_bit_eq_mask mask_eq_exp_minus_1)
  ultimately show ?thesis by simp
qed

lemma cksum_set_sum:
  assumes "2 \<le> length b"
  shows "cksum_sum (cksum_set b) = 0"
proof -
  obtain c1 c2 z where b: "b = c1 # c2 # z" using assms by (cases b; cases "tl b") auto
  define w where "w = - cksum_sum z"
  have "unat w < 2 ^ LENGTH(16)" by (rule unsigned_less)
  then have h: "unat (drop_bit 8 w) < 256"
    by (simp only: unat_drop_bit_eq) (simp add: drop_bit_eq_div less_mult_imp_div_less)
  have "unat (w AND 0xFF) \<le> unat (0xFF :: u16)" by (rule word_le_nat_alt [THEN iffD1, OF word_and_le1])
  then have l: "unat (w AND 0xFF) < 256" by simp
  have "cksum_sum (cksum_set b) = push_bit 8 (of_nat (unat (drop_bit 8 w))) + of_nat (unat (w AND 0xFF)) + cksum_sum z"
    unfolding b cksum_set_Cons Let_def w_def [symmetric] using h l by simp
  also have "\<dots> = w + cksum_sum z" by (simp add: u16_split)
  finally show ?thesis by (simp add: w_def)
qed

text \<open>After the checksum of an area has been set, it checks to zero, whatever the contents
  and whatever the old checksum was.\<close>
theorem cksum_set_checks:
  assumes "2 \<le> length b"
  shows "cksum_sum (cksum_set b) = 0 \<and> drop 2 (cksum_set b) = drop 2 b"
proof -
  obtain c1 c2 z where b: "b = c1 # c2 # z" using assms by (cases b; cases "tl b") auto
  show ?thesis using cksum_set_sum [OF assms] by (simp add: b cksum_set_Cons Let_def)
qed

theorem cksum_set_checks_witness: "cksum_sum (cksum_set ''xxa=1'') = 0"
  using cksum_set_checks [of "''xxa=1''"] by simp

section \<open>The area as a list of variables\<close>

fun entry :: "cstr \<times> cstr \<Rightarrow> cstr" where
  "entry (n, v) = n @ CHR ''='' # v"

fun good_pair :: "cstr \<times> cstr \<Rightarrow> bool" where
  "good_pair (n, v) \<longleftrightarrow> n \<noteq> [] \<and> wf_cstr n \<and> CHR ''='' \<notin> set n \<and> wf_cstr v \<and> length n + length v \<le> 253"

definition encs :: "(cstr \<times> cstr) list \<Rightarrow> cbuf" where
  "encs xs = concat (map (\<lambda>p. entry p @ [NUL]) xs)"

definition nv_repr :: "(cstr \<times> cstr) list \<Rightarrow> cbuf \<Rightarrow> bool" where
  "nv_repr xs b \<longleftrightarrow> (\<forall>p \<in> set xs. good_pair p) \<and> cksum_sum b = 0 \<and>
     (\<exists>c1 c2 r. b = c1 # c2 # encs xs @ NUL # r)"

lemma encs_simps [simp]: "encs [] = []" "encs (p # xs) = entry p @ NUL # encs xs"
  "encs (xs @ ys) = encs xs @ encs ys"
  by (simp_all add: encs_def)

lemma entry_wf:
  assumes "good_pair p"
  shows "NUL \<notin> set (entry p)" "entry p \<noteq> []" "hd (entry p) \<noteq> NUL" "length (entry p) < 255"
proof -
  obtain n v where p: "p = (n, v)" by (cases p)
  show 1: "NUL \<notin> set (entry p)" and 2: "entry p \<noteq> []" and "length (entry p) < 255"
    using assms p by (simp_all add: wf_cstr_def)
  show "hd (entry p) \<noteq> NUL" using hd_in_set [OF 2] 1 by metis
qed

lemma while_NUL:
  assumes "NUL \<notin> set w"
  shows "takeWhile (\<lambda>c. c \<noteq> NUL) (w @ NUL # z) = w" "dropWhile (\<lambda>c. c \<noteq> NUL) (w @ NUL # z) = NUL # z"
  using assms by (auto simp: takeWhile_append dropWhile_append)

lemma split_entry_entry: "CHR ''='' \<notin> set n \<Longrightarrow> split_entry (n @ CHR ''='' # v) = (n, Some v)"
  by (auto simp: split_entry_def takeWhile_append dropWhile_append)

lemma nv_parse_encs: "\<forall>p \<in> set xs. good_pair p \<Longrightarrow>
  nv_parse (encs xs @ NUL # r) = (map with_value xs, True)"
proof (induction xs)
  case Nil
  show ?case by (subst nv_parse.simps) simp
next
  case (Cons p xs)
  obtain n v where p: "p = (n, v)" by (cases p)
  have g: "good_pair p" using Cons.prems by simp
  let ?b = "entry p @ NUL # encs xs @ NUL # r"
  have "nv_parse ?b = (case nv_parse (encs xs @ NUL # r) of (es, ok) \<Rightarrow> (split_entry (entry p) # es, ok))"
    using entry_wf [OF g] by (subst nv_parse.simps) (simp add: while_NUL Let_def)
  also have "split_entry (entry p) = (n, Some v)" using g p split_entry_entry by simp
  finally show ?case using Cons p by (simp add: with_value_def)
qed

lemma match_len_entry:
  assumes "CHR ''='' \<notin> set n" "CHR ''='' \<notin> set name" "wf_cstr n" "wf_cstr name"
  shows "\<exists>k \<le> length n. match_len name (n @ CHR ''='' # z) = k \<and>
    (drop k name = [] \<and> hd (drop k (n @ CHR ''='' # z)) = CHR ''='' \<longleftrightarrow> n = name) \<and>
    hd (drop k (n @ CHR ''='' # z)) \<noteq> NUL"
  using assms
proof (induction n arbitrary: name)
  case Nil
  then show ?case by (cases name) auto
next
  case (Cons c n)
  show ?case
  proof (cases name)
    case Nil
    then show ?thesis using Cons.prems by (intro exI [of _ 0]) (auto simp: wf_cstr_def)
  next
    case n: (Cons d name')
    show ?thesis
    proof (cases "c = d")
      case True
      have "CHR ''='' \<notin> set n" "CHR ''='' \<notin> set name'" "wf_cstr n" "wf_cstr name'"
        using Cons.prems n by (simp_all add: wf_cstr_def)
      from Cons.IH [OF this] obtain k where "k \<le> length n" "match_len name' (n @ CHR ''='' # z) = k"
        "drop k name' = [] \<and> hd (drop k (n @ CHR ''='' # z)) = CHR ''='' \<longleftrightarrow> n = name'"
        "hd (drop k (n @ CHR ''='' # z)) \<noteq> NUL" by blast
      then show ?thesis using True n Cons.prems by (intro exI [of _ "Suc k"]) (auto simp: wf_cstr_def)
    next
      case False
      then show ?thesis using n Cons.prems by (intro exI [of _ 0]) (auto simp: wf_cstr_def)
    qed
  qed
qed

lemma nv_find_entry:
  assumes "good_pair (n, v)" "CHR ''='' \<notin> set name" "wf_cstr name"
  shows "nv_find name (entry (n, v) @ NUL # z) =
    (if n = name then Some 0 else map_option ((+) (Suc (length (entry (n, v))))) (nv_find name z))"
proof -
  let ?b = "n @ CHR ''='' # v @ NUL # z"
  obtain k where k: "k \<le> length n" "match_len name ?b = k"
    "drop k name = [] \<and> hd (drop k ?b) = CHR ''='' \<longleftrightarrow> n = name" "hd (drop k ?b) \<noteq> NUL"
    using match_len_entry [of n name "v @ NUL # z"] assms unfolding good_pair.simps by blast
  have ne: "drop k ?b \<noteq> []" using k(1) by simp
  have b: "?b = entry (n, v) @ NUL # z" by simp
  have hd: "\<not> (?b = [] \<or> hd ?b = NUL)"
    using entry_wf(2,3) [OF assms(1)] unfolding b by (auto simp only: hd_append append_is_Nil_conv if_False split: if_splits)
  have tw: "takeWhile (\<lambda>c. c \<noteq> NUL) ?b = entry (n, v)" unfolding b by (rule while_NUL [OF entry_wf(1) [OF assms(1)]])
  have dr: "drop (Suc (length (entry (n, v)))) ?b = z" unfolding b by simp
  define D where "D = drop k ?b"
  have D: "drop k name = [] \<and> hd D = CHR ''='' \<longleftrightarrow> n = name" "hd D \<noteq> NUL" "D \<noteq> []"
    using k(3,4) ne unfolding D_def by simp_all
  have "nv_find name ?b =
     (if drop k name = [] \<and> (D = [] \<or> hd D = NUL \<or> hd D = CHR ''='') then Some 0
      else if D \<noteq> [] \<and> hd D \<noteq> NUL
      then map_option ((+) (Suc (length (entry (n, v))))) (nv_find name z) else None)"
    using hd by (subst nv_find.simps) (simp only: k(2) Let_def tw dr if_False D_def)
  also have "\<dots> = (if n = name then Some 0 else map_option ((+) (Suc (length (entry (n, v))))) (nv_find name z))"
    using D by (cases "n = name") auto
  finally show ?thesis unfolding b .
qed

lemma nv_find_encs:
  assumes "\<forall>p \<in> set xs. good_pair p" "CHR ''='' \<notin> set name" "wf_cstr name"
  shows "name \<notin> fst ` set xs \<Longrightarrow> nv_find name (encs xs @ NUL # r) = None"
    "xs = us @ (name, v) # vs \<Longrightarrow> name \<notin> fst ` set us \<Longrightarrow> nv_find name (encs xs @ NUL # r) = Some (length (encs us))"
proof -
  show "name \<notin> fst ` set xs \<Longrightarrow> nv_find name (encs xs @ NUL # r) = None" using assms(1)
  proof (induction xs)
    case Nil
    show ?case by (subst nv_find.simps) simp
  next
    case (Cons p xs)
    then show ?case using nv_find_entry [OF _ assms(2,3), of "fst p" "snd p" "encs xs @ NUL # r"]
      by (cases p) auto
  qed
  show "xs = us @ (name, v) # vs \<Longrightarrow> name \<notin> fst ` set us \<Longrightarrow> nv_find name (encs xs @ NUL # r) = Some (length (encs us))"
    using assms(1)
  proof (induction us arbitrary: xs)
    case Nil
    then show ?case using nv_find_entry [OF _ assms(2,3), of name v "encs vs @ NUL # r"] by simp
  next
    case (Cons p us)
    then have "nv_find name (encs (us @ (name, v) # vs) @ NUL # r) = Some (length (encs us))" by auto
    then show ?case using Cons.prems nv_find_entry [OF _ assms(2,3), of "fst p" "snd p" "encs (us @ (name, v) # vs) @ NUL # r"]
      by (cases p) auto
  qed
qed

section \<open>Changing the list\<close>

lemma encs_first: "\<forall>p \<in> set xs. good_pair p \<Longrightarrow> xs \<noteq> [] \<Longrightarrow> encs xs \<noteq> [] \<and> hd (encs xs) \<noteq> NUL"
  using entry_wf by (cases xs) (auto simp: hd_append)

lemma nv_remove_encs:
  assumes "\<forall>q \<in> set (us @ p # vs). good_pair q" and b: "b = c1 # c2 # encs (us @ p # vs) @ NUL # r"
  shows "\<exists>r'. nv_remove junk (2 + length (encs us)) b = c1 # c2 # encs (us @ vs) @ NUL # r' \<and>
    length (nv_remove junk (2 + length (encs us)) b) = length b"
proof -
  define sp l where "sp = 2 + length (encs us)" and "l = Suc (length (entry p))"
  have d: "drop sp b = entry p @ NUL # encs vs @ NUL # r" by (simp add: b sp_def)
  have "good_pair p" using assms(1) by simp
  then have tw: "Suc (length (takeWhile (\<lambda>c. c \<noteq> NUL) (drop sp b))) = l"
    unfolding d l_def by (simp only: while_NUL [OF entry_wf(1)])
  define b1 where "b1 = take sp b @ drop (sp + l) b @ [junk] @ drop (length b - l + 1) b"
  define r1 where "r1 = r @ junk # drop (length b - l + 1) b"
  have "drop (sp + l) b = drop l (drop sp b)" by (simp add: add.commute)
  also have "\<dots> = encs vs @ NUL # r" unfolding d l_def by simp
  finally have b1: "b1 = c1 # c2 # encs (us @ vs) @ NUL # r1"
    by (simp add: b1_def b sp_def r1_def)
  have "l \<le> length b" by (simp add: b l_def)
  then have len: "length b1 = length b" by (simp add: b1 b l_def r1_def)
  have R: "nv_remove junk sp b = (if b1 ! 2 = NUL then b1[3 := NUL] else b1)"
    unfolding nv_remove_def Let_def tw b1_def by simp
  show ?thesis
  proof (cases "us @ vs = []")
    case True
    have "b1[3 := NUL] = c1 # c2 # encs (us @ vs) @ NUL # r1[0 := NUL]" using True by (simp add: b1)
    then show ?thesis using R len True b1 unfolding sp_def [symmetric] by auto
  next
    case False
    then have "b1 ! 2 \<noteq> NUL"
      using encs_first [OF _ False] assms(1) unfolding b1
      by (cases "encs (us @ vs)") auto
    then show ?thesis using R len b1 unfolding sp_def [symmetric] by auto
  qed
qed

lemma nv_end_skip: "c \<noteq> NUL \<Longrightarrow> nv_end (c # z) = map_option Suc (nv_end z)"
  by (subst (1 2) nv_end.simps) (simp add: Let_def option.map_comp comp_def, simp add: map_option_case split: option.split)

lemma nv_end_encs: "\<forall>p \<in> set xs. good_pair p \<Longrightarrow> xs \<noteq> [] \<Longrightarrow> nv_end (encs xs @ NUL # r) = Some (length (encs xs))"
proof (induction xs)
  case (Cons p xs)
  have g: "good_pair p" using Cons.prems by simp
  let ?b = "entry p @ NUL # encs xs @ NUL # r"
  note w = while_NUL [OF entry_wf(1) [OF g], of "encs xs @ NUL # r"]
  show ?case
  proof (cases "xs = []")
    case True
    then have "nv_end ?b = Some (Suc (length (entry p)))" using w by (subst nv_end.simps) (simp add: Let_def)
    then show ?thesis using True by simp
  next
    case False
    then have f: "encs xs \<noteq> []" "hd (encs xs) \<noteq> NUL" using encs_first Cons.prems by auto
    then obtain c z where cz: "encs xs = c # z" "c \<noteq> NUL" by (cases "encs xs") auto
    have "nv_end ?b = map_option ((+) (length (entry p) + 2)) (nv_end (z @ NUL # r))"
      using w cz by (subst nv_end.simps) (simp add: Let_def)
    moreover have "nv_end (encs xs @ NUL # r) = map_option Suc (nv_end (z @ NUL # r))"
      using nv_end_skip [OF cz(2), of "z @ NUL # r"] cz(1) by simp
    moreover have "nv_end (encs xs @ NUL # r) = Some (Suc (length z))" using Cons.IH False Cons.prems cz(1) by auto
    ultimately show ?thesis using cz(1) by auto
  qed
qed simp

definition nv_del :: "cstr \<Rightarrow> (cstr \<times> cstr) list \<Rightarrow> (cstr \<times> cstr) list" where
  "nv_del name xs = takeWhile (\<lambda>p. fst p \<noteq> name) xs @ drop 1 (dropWhile (\<lambda>p. fst p \<noteq> name) xs)"

definition nv_put :: "cstr \<Rightarrow> cstr \<Rightarrow> (cstr \<times> cstr) list \<Rightarrow> (cstr \<times> cstr) list" where
  "nv_put name v xs =
     (if name = ''heaptop'' then (name, v) # nv_del name xs else nv_del name xs @ [(name, v)])"

text \<open>A flash device that can be erased and then takes any content.\<close>

definition flash_good :: "target \<Rightarrow> bool" where
  "flash_good t \<longleftrightarrow> (\<forall>old buf. \<exists>d. fl_erase t old = (False, d) \<and> fl_program t buf d = (False, buf))"

definition nv_ok :: "target \<Rightarrow> nvram \<Rightarrow> (cstr \<times> cstr) list \<Rightarrow> bool" where
  "nv_ok t s xs \<longleftrightarrow> flash_good t \<and> nvram_invalid s = 0 \<and> \<not> nv_overrun s \<and> nv_repr xs (nv_data s)"

definition nv_fits :: "nvram \<Rightarrow> (cstr \<times> cstr) list \<Rightarrow> cstr \<Rightarrow> cstr \<Rightarrow> bool" where
  "nv_fits s xs name v \<longleftrightarrow> length (encs (nv_del name xs)) + length name + length v + 5 \<le> length (nv_data s)"

lemma write_flash_good: "flash_good t \<Longrightarrow> write_flash t buf s = (True, s\<lparr>nv_data := buf\<rparr>)"
proof -
  assume "flash_good t"
  then obtain d where "fl_erase t (nv_data s) = (False, d)" "fl_program t buf d = (False, buf)"
    unfolding flash_good_def by blast
  then show ?thesis by (simp add: write_flash_def)
qed

lemma nv_del_split:
  "name \<notin> fst ` set xs \<Longrightarrow> nv_del name xs = xs"
  "name \<notin> fst ` set us \<Longrightarrow> nv_del name (us @ (name, v) # vs) = us @ vs"
proof -
  show "name \<notin> fst ` set xs \<Longrightarrow> nv_del name xs = xs"
  proof -
    assume "name \<notin> fst ` set xs"
    then have e: "takeWhile (\<lambda>p. fst p \<noteq> name) xs = xs" "dropWhile (\<lambda>p. fst p \<noteq> name) xs = []"
      by (auto simp: takeWhile_eq_all_conv dropWhile_eq_Nil_conv)
    show ?thesis unfolding nv_del_def e by simp
  qed
  assume "name \<notin> fst ` set us"
  then have "\<forall>p \<in> set us. fst p \<noteq> name" by auto
  then show "nv_del name (us @ (name, v) # vs) = us @ vs"
    by (simp add: nv_del_def takeWhile_append dropWhile_append)
qed

lemma set_nv_del: "p \<in> set (nv_del name xs) \<Longrightarrow> p \<in> set xs"
  by (auto simp: nv_del_def dest: set_takeWhileD set_dropWhileD in_set_dropD)

lemma name_split:
  assumes "name \<in> fst ` set xs"
  obtains us v vs where "xs = us @ (name, v) # vs" "name \<notin> fst ` set us"
proof -
  from assms have "\<exists>p \<in> set xs. fst p = name" by auto
  from split_list_first_prop [OF this] show ?thesis using that by (metis (no_types, lifting) image_iff prod.collapse)
qed

lemma nv_repr_set: "(\<forall>p \<in> set xs. good_pair p) \<Longrightarrow> nv_repr xs (cksum_set (c1 # c2 # encs xs @ NUL # r))"
  using cksum_set_sum [of "c1 # c2 # encs xs @ NUL # r"]
  by (auto simp: nv_repr_def cksum_set_Cons Let_def)

lemma length_cksum_set [simp]: "length (cksum_set b) = length b"
  by (simp add: cksum_set_def Let_def)

lemma unsetenv_repr:
  assumes "nv_ok t s xs" "CHR ''='' \<notin> set name" "wf_cstr name"
  shows "\<exists>s'. nvram_unsetenv t name s = (if name \<in> fst ` set xs then 1 else 0, s') \<and>
    nv_ok t s' (nv_del name xs) \<and> length (nv_data s') = length (nv_data s)"
proof -
  have g: "\<forall>p \<in> set xs. good_pair p" and fl: "flash_good t" and inv: "nvram_invalid s = 0" "\<not> nv_overrun s"
    using assms(1) by (simp_all add: nv_ok_def nv_repr_def)
  obtain c1 c2 r where b: "nv_data s = c1 # c2 # encs xs @ NUL # r" using assms(1) by (auto simp: nv_ok_def nv_repr_def)
  have f: "nv_find name (drop 2 (nv_data s)) = nv_find name (encs xs @ NUL # r)" by (simp add: b)
  note find = nv_find_encs [OF g assms(2,3)]
  show ?thesis
  proof (cases "name \<in> fst ` set xs")
    case False
    then show ?thesis using assms(1) find(1) [of r] f nv_del_split(1) [OF False] inv
      by (simp add: nvram_unsetenv_def)
  next
    case True
    then obtain us v vs where xs: "xs = us @ (name, v) # vs" "name \<notin> fst ` set us" by (rule name_split)
    obtain r' where r': "nv_remove (t_junk t) (2 + length (encs us)) (nv_data s) = c1 # c2 # encs (us @ vs) @ NUL # r'"
      "length (nv_remove (t_junk t) (2 + length (encs us)) (nv_data s)) = length (nv_data s)"
      using nv_remove_encs [OF g [unfolded xs(1)] b [unfolded xs(1)]] by blast
    define s' where "s' = s\<lparr>nv_data := cksum_set (c1 # c2 # encs (us @ vs) @ NUL # r')\<rparr>"
    have "nvram_unsetenv t name s = (1, s')"
      using inv unfolding nvram_unsetenv_def f find(2) [OF xs] option.case write_flash_good [OF fl] r'(1) s'_def by simp
    moreover have "nv_repr (us @ vs) (nv_data s')"
      using g xs nv_repr_set [of "us @ vs"] by (simp add: s'_def)
    moreover have "length (nv_data s') = length (nv_data s)" using r' by (simp add: s'_def)
    ultimately show ?thesis using True fl inv nv_del_split(2) [OF xs(2)] xs(1) by (simp add: nv_ok_def s'_def)
  qed
qed

lemma nv_insert_encs:
  assumes "b = c1 # c2 # encs xs @ NUL # r" "good_pair (name, v)"
    and "length (encs xs) + length name + length v + 5 \<le> length b"
  shows "\<exists>r'. nv_insert name (Some v) (2 + length (encs xs)) b =
      Some (c1 # c2 # encs (if name = ''heaptop'' then (name, v) # xs else xs @ [(name, v)]) @ NUL # r') \<and>
    length (encs (if name = ''heaptop'' then (name, v) # xs else xs @ [(name, v)])) + 3 + length r' = length b"
proof (cases "name = ''heaptop''")
  case True
  define l where "l = length name + length v + 2"
  let ?e = "entry (name, v) @ [NUL]"
  have l: "length ?e = l" by (simp add: l_def)
  define z where "z = encs xs @ [NUL]"
  have z: "take (2 + length (encs xs) - 1) (drop 2 b) = z" by (simp add: assms(1) z_def)
  have lb: "length b = 2 + length z + length r" "l + 2 + length z \<le> length b"
    using assms(3) by (simp_all add: assms(1) z_def l_def)
  define b1 where "b1 = take (2 + l) b @ z @ drop (2 + l + length z) b"
  have p1: "put_at b (2 + l) z = Some b1" using lb by (simp add: put_at_def b1_def)
  have t: "take (2 + l) b = c1 # c2 # take l (encs xs @ NUL # r)" by (simp add: assms(1))
  have lt: "length (take l (encs xs @ NUL # r)) = l" using lb by (simp add: z_def)
  have b1: "b1 = c1 # c2 # take l (encs xs @ NUL # r) @ z @ drop (2 + l + length z) b"
    by (simp only: b1_def t append_Cons)
  have "put_at b1 2 ?e = Some (take 2 b1 @ ?e @ drop (2 + l) b1)"
    using lb unfolding put_at_def l by (simp add: b1_def)
  also have "take 2 b1 = [c1, c2]" by (simp add: b1)
  also have "drop (2 + l) b1 = z @ drop (2 + l + length z) b" using lt by (simp add: b1)
  finally have p2: "put_at b1 2 ?e = Some (c1 # c2 # encs ((name, v) # xs) @ NUL # drop (2 + l + length z) b)"
    by (simp add: z_def)
  have "strcmp ''heaptop'' name = 0" using True by (simp add: strcmp_eq_0 wf_cstr_def)
  then have "nv_insert name (Some v) (2 + length (encs xs)) b = Some (c1 # c2 # encs ((name, v) # xs) @ NUL # drop (2 + l + length z) b)"
    using p1 p2 unfolding nv_insert_def z by (simp add: l_def entry_text_def Let_def)
  then show ?thesis using True lb by (intro exI [of _ "drop (2 + l + length z) b"]) (simp add: z_def l_def)
next
  case False
  let ?e = "entry (name, v) @ [NUL, NUL]" and ?n = "2 + length (encs xs)"
  have t: "take ?n b = c1 # c2 # encs xs" by (simp add: assms(1))
  have "strcmp ''heaptop'' name \<noteq> 0" using False assms(2) by (simp add: strcmp_eq_0 wf_cstr_def)
  then have "nv_insert name (Some v) ?n b = put_at b ?n ?e"
    by (simp add: nv_insert_def entry_text_def)
  also have "\<dots> = Some (take ?n b @ ?e @ drop (?n + length ?e) b)" using assms(3) by (simp add: put_at_def)
  finally have "nv_insert name (Some v) ?n b = Some ((c1 # c2 # encs xs) @ ?e @ drop (?n + length ?e) b)"
    unfolding t .
  then show ?thesis using False assms(3)
    by (intro exI [of _ "drop (?n + length ?e) b"]) simp
qed

lemma find_end:
  assumes "b = c1 # c2 # encs xs @ NUL # r" "\<forall>p \<in> set xs. good_pair p"
  shows "(if b ! 2 = NUL then Some 2 else map_option ((+) 2) (nv_end (drop 2 b))) = Some (2 + length (encs xs))"
proof (cases "xs = []")
  case True
  then show ?thesis using assms(1) by simp
next
  case False
  then obtain c z where cz: "encs xs = c # z" "c \<noteq> NUL" using encs_first [OF assms(2)] by (cases "encs xs") auto
  have d: "drop 2 b = encs xs @ NUL # r" by (simp add: assms(1))
  have "b ! 2 \<noteq> NUL" using cz by (simp add: assms(1))
  then show ?thesis unfolding d nv_end_encs [OF assms(2) False] by simp
qed

lemma setenv_repr:
  assumes "nv_ok t s xs" "good_pair (name, v)" "name \<noteq> ''galileoexpert''" "nv_fits s xs name v"
  shows "\<exists>s'. nvram_setenv t name (Some v) s = (1, s') \<and> nv_ok t s' (nv_put name v xs) \<and>
    length (nv_data s') = length (nv_data s)"
proof -
  have n: "name \<noteq> []" "wf_cstr name" "CHR ''='' \<notin> set name" "length name + length v + 2 \<le> 255" using assms(2) by simp_all
  have fl: "flash_good t" and inv: "nvram_invalid s = 0" using assms(1) by (simp_all add: nv_ok_def)
  let ?xs = "nv_del name xs"
  obtain s2 where s2: "snd (nvram_unsetenv t name s) = s2" "nv_ok t s2 ?xs" "length (nv_data s2) = length (nv_data s)"
    using unsetenv_repr [OF assms(1) n(3,2)] by fastforce
  have g: "\<forall>p \<in> set ?xs. good_pair p" and inv2: "nvram_invalid s2 = 0" "\<not> nv_overrun s2"
    using s2(2) by (simp_all add: nv_ok_def nv_repr_def)
  obtain c1 c2 r where b: "nv_data s2 = c1 # c2 # encs ?xs @ NUL # r"
    using s2(2) by (auto simp: nv_ok_def nv_repr_def)
  have len: "length (encs ?xs) + length name + length v + 5 \<le> length (nv_data s2)"
    using assms(4) s2(3) by (simp add: nv_fits_def)
  have room: "\<not> length (nv_data s2) < length name + length v + 2 + 1" using len by linarith
  obtain r' where r': "nv_insert name (Some v) (2 + length (encs ?xs)) (nv_data s2) = Some (c1 # c2 # encs (nv_put name v xs) @ NUL # r')"
    "length (encs (nv_put name v xs)) + 3 + length r' = length (nv_data s2)"
    using nv_insert_encs [OF b assms(2) len] by (auto simp: nv_put_def)
  define b1 where "b1 = c1 # c2 # encs (nv_put name v xs) @ NUL # r'"
  define s' where "s' = s2\<lparr>nv_data := cksum_set b1\<rparr>"
  have ne: "strcmp ''galileoexpert'' name \<noteq> 0" using assms(3) n(2) by (simp add: strcmp_eq_0 wf_cstr_def)
  have ri: "nvram_reinit t s = (True, s)" using inv by (simp add: nvram_reinit_def)
  have "\<not> length name + length v + 2 > 255" using n(4) by simp
  then have "nvram_setenv t name (Some v) s = (1, s')"
    using ne n(1) room
    unfolding nvram_setenv_def Let_def option.case ri prod.case s2(1) find_end [OF b g] r'(1) [folded b1_def]
      write_flash_good [OF fl] s'_def by simp
  moreover have "\<forall>p \<in> set (nv_put name v xs). good_pair p"
    using g assms(2) by (auto simp: nv_put_def)
  then have "nv_repr (nv_put name v xs) (nv_data s')"
    using nv_repr_set [of "nv_put name v xs" c1 c2 r'] by (simp add: s'_def b1_def)
  moreover have "length (nv_data s') = length (nv_data s)" using r'(2) s2(3) by (simp add: s'_def b1_def)
  ultimately show ?thesis using fl inv2 by (auto simp: nv_ok_def s'_def)
qed

lemma mapenv_repr:
  "nv_ok t s xs \<Longrightarrow> nvram_mapenv t s = (map with_value (xs @ t_vars t), s)"
  using nv_parse_encs [of xs] by (auto simp: nv_ok_def nv_repr_def nvram_mapenv_def)

text \<open>C11. The bytes of the flash area refine an ordered list of variables: while they represent
  the list \<open>xs\<close>, removing and setting a variable are the list operations \<open>nv_del\<close> and \<open>nv_put\<close>
  (the old entry goes, the new one is the last, \<open>heaptop\<close> the first), the checksum stays right,
  nothing is written past the area as long as the new list fits, and the start-up reads
  exactly \<open>xs\<close> and the variables of the target.\<close>
theorem nvram_refines:
  assumes "nv_ok t s xs" "good_pair (name, v)" "name \<noteq> ''galileoexpert''"
  shows "(\<exists>s'. nvram_unsetenv t name s = (if name \<in> fst ` set xs then 1 else 0, s') \<and> nv_ok t s' (nv_del name xs)) \<and>
    (nv_fits s xs name v \<longrightarrow>
      (\<exists>s'. nvram_setenv t name (Some v) s = (1, s') \<and> nv_ok t s' (nv_put name v xs))) \<and>
    fst (nvram_mapenv t s) = map with_value (xs @ t_vars t)"
  using unsetenv_repr [OF assms(1)] setenv_repr [OF assms] mapenv_repr [OF assms(1)] assms(2) by fastforce

text \<open>A device that works, and an area of 64 bytes with one variable.\<close>

definition demo_target :: target where
  "demo_target = \<lparr>t_vars = [(''systype'', ''Bonito'')], fl_erase = (\<lambda>d. (False, replicate (length d) (CHR 0xFF))),
     fl_program = (\<lambda>b d. (False, b)), t_junk = CHR ''?''\<rparr>"

definition demo_nvram :: nvram where
  "demo_nvram = \<lparr>nv_data = cksum_set ([NUL, NUL] @ ''foo=1'' @ NUL # NUL # replicate 55 (CHR 0xFF)),
     nvram_invalid = 0, nv_overrun = False\<rparr>"

lemma demo_ok: "nv_ok demo_target demo_nvram [(''foo'', ''1'')]"
proof -
  have "nv_repr [(''foo'', ''1'')] (nv_data demo_nvram)"
    using nv_repr_set [of "[(''foo'', ''1'')]" NUL NUL "replicate 55 (CHR 0xFF)"]
    by (simp add: demo_nvram_def wf_cstr_def)
  then show ?thesis by (simp add: nv_ok_def flash_good_def demo_target_def demo_nvram_def)
qed

theorem nvram_refines_witness:
  "\<exists>s'. nvram_setenv demo_target ''foo'' (Some ''22'') demo_nvram = (1, s') \<and> nv_ok demo_target s' [(''foo'', ''22'')]"
proof -
  have "nv_fits demo_nvram [(''foo'', ''1'')] ''foo'' ''22''"
    by (simp add: nv_fits_def nv_del_def demo_nvram_def)
  moreover have "good_pair (''foo'', ''22'')" by (simp add: wf_cstr_def)
  ultimately show ?thesis using nvram_refines [OF demo_ok, of "''foo''" "''22''"]
    by (simp add: nv_put_def nv_del_def)
qed

section \<open>The interface of the environment\<close>

text \<open>What the environment relies on: the store holds an ordered list of variables, the start-up
  reads it, and the two operations change it.\<close>

locale nv_store =
  fixes ops :: "'n nvops"
    and ok :: "'n \<Rightarrow> (cstr \<times> cstr) list \<Rightarrow> bool"
    and fits :: "'n \<Rightarrow> (cstr \<times> cstr) list \<Rightarrow> cstr \<Rightarrow> cstr \<Rightarrow> bool"
    and vars :: "(cstr \<times> cstr) list"
  assumes map_law: "ok n xs \<Longrightarrow> tgt_mapenv ops n = (map with_value (xs @ vars), n)"
    and set_law: "ok n xs \<Longrightarrow> good_pair (name, v) \<Longrightarrow> name \<noteq> ''galileoexpert'' \<Longrightarrow> fits n xs name v \<Longrightarrow>
      \<exists>n'. tgt_setenv ops name (Some v) n = (1, n') \<and> ok n' (nv_put name v xs)"
    and unset_law: "ok n xs \<Longrightarrow> CHR ''='' \<notin> set name \<Longrightarrow> wf_cstr name \<Longrightarrow>
      \<exists>r n'. tgt_unsetenv ops name n = (r, n') \<and> ok n' (nv_del name xs)"
    and wf_law: "ok n xs \<Longrightarrow> \<forall>p \<in> set xs. good_pair p"
begin

text \<open>Setting a variable stores it, unless its value is the default.\<close>

lemma set_stores:
  assumes "ok (nv s) xs" "env_ok s" "good_pair (name, v)" "name \<noteq> ''galileoexpert''" "fits (nv s) xs name v"
    and "fst (env_setenv name (Some v) s)"
    and "case getstdenv name of None \<Rightarrow> True | Some sp \<Rightarrow> \<not> striequ v (se_init sp)"
  shows "fst (do_setenv ops name (Some v) False s) = 1 \<and>
    ok (nv (snd (do_setenv ops name (Some v) False s))) (nv_put name v xs)"
proof -
  have wf: "wf_cstr name" using assms(3) by simp
  obtain s1 where s1: "env_setenv name (Some v) s = (True, s1)" using assms(6) by (cases "env_setenv name (Some v) s") auto
  have nv1: "nv s1 = nv s" using env_setenv_simps(2) [OF assms(2) wf, of "Some v"] s1 by simp
  obtain n' where n': "tgt_setenv ops name (Some v) (nv s1) = (1, n')" "ok n' (nv_put name v xs)"
    using set_law [OF assms(1,3,4,5)] nv1 by auto
  have "do_setenv ops name (Some v) False s = (1, s1\<lparr>nv := n'\<rparr>)"
    using s1 n' assms(7) by (simp add: do_setenv_def split: option.splits)
  then show ?thesis using n' by simp
qed

text \<open>A stored variable is read at the next start.\<close>

lemma put_restart:
  assumes "ok (nv s) (nv_put name v xs)" "name \<noteq> ''heaptop''" "wf_cstr m" "name_key name = name_key m"
    and "\<forall>p \<in> set vars. wf_cstr (fst p) \<and> name_key (fst p) \<noteq> name_key m"
    and "fst (env_setenv name (Some v) (envinit_map (map with_value (nv_del name xs))
           (s\<lparr>envvar := replicate NVAR empty_pair\<rparr>)))"
  shows "getenv m (envinit ops s) = Some v"
proof -
  have put: "nv_put name v xs = nv_del name xs @ [(name, v)]" using assms(2) by (simp add: nv_put_def)
  have wv: "with_value = (\<lambda>(n, v). (n, Some v))" by (auto simp: with_value_def)
  have g: "\<forall>p \<in> set (nv_put name v xs). wf_cstr (fst p)" using wf_law [OF assms(1)] by (metis good_pair.simps prod.collapse)
  have map: "tgt_mapenv ops (nv s) = (map (\<lambda>(n, v). (n, Some v)) (nv_del name xs @ (name, v) # vars), nv s)"
    using map_law [OF assms(1)] by (simp add: put wv)
  have eq: "s\<lparr>envvar := replicate NVAR empty_pair, nv := nv s\<rparr> = s\<lparr>envvar := replicate NVAR empty_pair\<rparr>" by simp
  show ?thesis
    using envinit_last [OF map _ assms(3,4)] g assms(5,6) unfolding eq wv put by auto
qed

end

interpretation flash: nv_store "nvram_ops t" "nv_ok t" nv_fits "t_vars t" for t
proof
  fix n xs name v
  show "nv_ok t n xs \<Longrightarrow> tgt_mapenv (nvram_ops t) n = (map with_value (xs @ t_vars t), n)"
    using mapenv_repr by (simp add: nvram_ops_def)
  show "nv_ok t n xs \<Longrightarrow> good_pair (name, v) \<Longrightarrow> name \<noteq> ''galileoexpert'' \<Longrightarrow> nv_fits n xs name v \<Longrightarrow>
      \<exists>n'. tgt_setenv (nvram_ops t) name (Some v) n = (1, n') \<and> nv_ok t n' (nv_put name v xs)"
    using setenv_repr by (fastforce simp: nvram_ops_def)
  show "nv_ok t n xs \<Longrightarrow> CHR ''='' \<notin> set name \<Longrightarrow> wf_cstr name \<Longrightarrow>
      \<exists>r n'. tgt_unsetenv (nvram_ops t) name n = (r, n') \<and> nv_ok t n' (nv_del name xs)"
    using unsetenv_repr by (fastforce simp: nvram_ops_def)
  show "nv_ok t n xs \<Longrightarrow> \<forall>p \<in> set xs. good_pair p" by (simp add: nv_ok_def nv_repr_def)
qed

text \<open>C7. A variable that is set in the running monitor with a value other than its default is
  in the flash area afterwards, and after a restart, which forgets the table in memory, every
  lookup of the name in any case finds the value; the table needs a slot for it at the
  restart, and the target must not define the name itself.\<close>
theorem set_restart_get:
  assumes "nv_ok t (nv s) xs" "env_ok s" "good_pair (name, v)" "name \<notin> {''galileoexpert'', ''heaptop''}"
    and "nv_fits (nv s) xs name v" "fst (env_setenv name (Some v) s)"
    and "case getstdenv name of None \<Rightarrow> True | Some sp \<Rightarrow> \<not> striequ v (se_init sp)"
    and "nv s2 = nv (snd (do_setenv (nvram_ops t) name (Some v) False s))"
    and "wf_cstr m" "name_key name = name_key m"
    and "\<forall>p \<in> set (t_vars t). wf_cstr (fst p) \<and> name_key (fst p) \<noteq> name_key m"
    and "fst (env_setenv name (Some v) (envinit_map (map with_value (nv_del name xs))
           (s2\<lparr>envvar := replicate NVAR empty_pair\<rparr>)))"
  shows "getenv m (envinit (nvram_ops t) s2) = Some v"
  using flash.set_stores [OF assms(1,2,3) _ assms(5,6,7)] flash.put_restart [of t s2 name v xs m] assms(4,8-12) by simp

theorem set_restart_get_witness:
  "getenv ''BOOT'' (envinit (nvram_ops demo_target)
     (blank_env (nv (snd (do_setenv (nvram_ops demo_target) ''boot'' (Some ''on'') False (blank_env demo_nvram)))))) = Some ''on''"
proof -
  let ?s = "blank_env demo_nvram" and ?xs = "[(''foo'', ''1'')]"
  have 1: "nv_ok demo_target (nv ?s) ?xs" using demo_ok by (simp add: blank_env_def)
  have 2: "good_pair (''boot'', ''on'')" "''boot'' \<notin> {''galileoexpert'', ''heaptop''}" by (simp_all add: wf_cstr_def)
  have 3: "nv_fits (nv ?s) ?xs ''boot'' ''on''" by (simp add: nv_fits_def nv_del_def demo_nvram_def blank_env_def)
  have 4: "fst (env_setenv ''boot'' (Some ''on'') (blank_env n))" for n :: nvram by code_simp
  have "getstdenv ''boot'' = None" by code_simp
  then have 5: "case getstdenv ''boot'' of None \<Rightarrow> True | Some sp \<Rightarrow> \<not> striequ ''on'' (se_init sp)" by simp
  have 6: "wf_cstr ''BOOT''" "name_key ''boot'' = name_key ''BOOT''"
    "\<forall>p \<in> set (t_vars demo_target). wf_cstr (fst p) \<and> name_key (fst p) \<noteq> name_key ''BOOT''"
    by (simp_all add: wf_cstr_def name_key_def demo_target_def)
  have "fst (env_setenv ''boot'' (Some ''on'') (envinit_map [(''foo'', Some ''1'')]
           ((blank_env n)\<lparr>envvar := replicate NVAR empty_pair\<rparr>)))" for n :: nvram by code_simp
  then have 7: "fst (env_setenv ''boot'' (Some ''on'') (envinit_map (map with_value (nv_del ''boot'' ?xs))
           ((blank_env n)\<lparr>envvar := replicate NVAR empty_pair\<rparr>)))" for n :: nvram
    by (simp add: nv_del_def with_value_def)
  show ?thesis
    by (rule set_restart_get [OF 1 blank_env_ok 2 3 4 5 _ 6 7]) (simp add: blank_env_def)
qed

section \<open>A limit of the search\<close>

lemma match_len_prefix: "wf_cstr p \<Longrightarrow> CHR ''='' \<notin> set p \<Longrightarrow> q \<noteq> [] \<Longrightarrow> hd q \<noteq> NUL \<Longrightarrow>
  match_len (p @ q) (p @ NUL # z) = length p"
  by (induction p) (auto simp: wf_cstr_def neq_Nil_conv)

text \<open>A text without a value hides what follows it from a search for a longer name: the
  comparison runs into its end, and the search gives up, although the name may be stored
  later in the area.\<close>
theorem nv_find_gives_up:
  assumes "wf_cstr (p @ q)" "CHR ''='' \<notin> set (p @ q)" "p \<noteq> []" "q \<noteq> []"
  shows "nv_find (p @ q) (p @ NUL # z) = None"
proof -
  have "hd q \<noteq> NUL" "hd (p @ NUL # z) \<noteq> NUL" using assms by (cases q; cases p; auto simp: wf_cstr_def)+
  then show ?thesis using match_len_prefix [of p q z] assms
    by (subst nv_find.simps) (simp add: wf_cstr_def Let_def)
qed

theorem nv_find_gives_up_witness: "nv_find ''foobar'' (''foo'' @ NUL # ''foobar=1'' @ [NUL, NUL]) = None"
  using nv_find_gives_up [of "''foo''" "''bar''" "''foobar=1'' @ [NUL, NUL]"] by (simp add: wf_cstr_def)

end
