(* ===== verification/Loader.thy ===== *)
theory Loader
  imports Symtab Argv Hist
begin

text \<open>
  The download loaders: the common part, \<^verbatim>\<open>pmon/loaders/loadfn.c\<close>, with its check of the load
  address, and the Motorola S-records of \<^verbatim>\<open>pmon/loaders/exec_srec.c\<close>. The lemmas show that a
  file of data records written for given bytes puts exactly these bytes at their addresses,
  that a record whose data does not fit its checksum is refused, that nothing outside the
  reported address range is written, and that the check keeps the loader out of the code of
  the monitor.
\<close>

section \<open>Load addresses\<close>

text \<open>The addresses that the monitor must not overwrite: its image and the used heap.\<close>

record layout =
  ml_start :: u32
  ml_end :: u32
  ml_allocp1 :: u32
  ml_heaptop :: u32

definition CACHED_TO_PHYS :: "u32 \<Rightarrow> u32" where
  "CACHED_TO_PHYS x = x AND 0x1FFFFFFF"

definition address_in_heap :: "layout \<Rightarrow> u32 \<Rightarrow> bool" where
  "address_in_heap l a \<longleftrightarrow> a < CACHED_TO_PHYS (ml_heaptop l) \<and> a \<ge> CACHED_TO_PHYS (ml_allocp1 l)"

text \<open>True when the range is not valid, as in the code.\<close>

definition md_valid_load_addr :: "layout \<Rightarrow> u32 \<Rightarrow> u32 \<Rightarrow> bool" where
  "md_valid_load_addr l first_addr last_addr \<longleftrightarrow>
     (let f = CACHED_TO_PHYS first_addr; t = CACHED_TO_PHYS last_addr
      in (f < CACHED_TO_PHYS (ml_end l) \<and> t > CACHED_TO_PHYS (ml_start l)) \<or>
         address_in_heap l f \<or> address_in_heap l t)"

section \<open>The state of a download\<close>

text \<open>Clearing breakpoints and exception handlers is not modelled. \<open>NFLAG\<close> and the others are
  bits of the flags.\<close>

record loader =
  dl_entry :: u32
  dl_offset :: u32
  dl_minaddr :: u32
  dl_maxaddr :: u32
  dl_chksum :: u32
  nextaddr :: u32
  l_mem :: mem
  l_syms :: symtab
  l_layout :: layout

definition SFLAG :: u32 where "SFLAG = 0x0001"
definition AFLAG :: u32 where "AFLAG = 0x0008"
definition IFLAG :: u32 where "IFLAG = 0x0020"
definition NFLAG :: u32 where "NFLAG = 0x0100"
definition YFLAG :: u32 where "YFLAG = 0x0200"

definition DL_CONT :: int where "DL_CONT = 0"
definition DL_DONE :: int where "DL_DONE = 1"
definition DL_BADCHAR :: int where "DL_BADCHAR = 2"
definition DL_BADLEN :: int where "DL_BADLEN = 3"
definition DL_BADTYPE :: int where "DL_BADTYPE = 4"
definition DL_BADSUM :: int where "DL_BADSUM = 5"
definition DL_NOSYMSPACE :: int where "DL_NOSYMSPACE = 6"
definition DL_BADADDR :: int where "DL_BADADDR = 7"

lemmas dl_codes = DL_CONT_def DL_DONE_def DL_BADCHAR_def DL_BADLEN_def DL_BADTYPE_def DL_BADSUM_def
  DL_NOSYMSPACE_def DL_BADADDR_def

definition dl_initialise :: "u32 \<Rightarrow> u32 \<Rightarrow> loader \<Rightarrow> loader" where
  "dl_initialise offset flags s =
     s\<lparr>l_syms := if flags AND SFLAG = 0 then clrsyms (l_syms s) else l_syms s,
       dl_minaddr := NOT 0, dl_maxaddr := 0, dl_chksum := 0, dl_offset := offset\<rparr>"

definition dl_checkloadaddr :: "u32 \<Rightarrow> u32 \<Rightarrow> loader \<Rightarrow> bool" where
  "dl_checkloadaddr addr sz s = (\<not> md_valid_load_addr (l_layout s) addr (addr + sz))"

definition dl_checksetloadaddr :: "u32 \<Rightarrow> u32 \<Rightarrow> loader \<Rightarrow> bool \<times> loader" where
  "dl_checksetloadaddr addr sz s =
     (if \<not> dl_checkloadaddr addr sz s then (False, s)
      else (True, s\<lparr>dl_minaddr := if addr < dl_minaddr s then addr else dl_minaddr s,
                    dl_maxaddr := if addr + sz > dl_maxaddr s then addr + sz else dl_maxaddr s\<rparr>))"

text \<open>\<open>dl_setloadsyms\<close>; the link address and the program counter are arguments.\<close>

definition dl_setloadsyms :: "u32 \<Rightarrow> u32 \<Rightarrow> loader \<Rightarrow> loader" where
  "dl_setloadsyms start pc s = s\<lparr>l_syms := defsyms start (dl_minaddr s) (dl_maxaddr s) pc (l_syms s)\<rparr>"

definition store_byte :: "u32 \<Rightarrow> u8 \<Rightarrow> loader \<Rightarrow> loader" where
  "store_byte a b s = s\<lparr>l_mem := (l_mem s)(a := b)\<rparr>"

section \<open>S-records\<close>

text \<open>The address bytes; the last of them answers -1 instead of \<open>DL_BADCHAR\<close>.\<close>

fun s3_addr :: "nat \<Rightarrow> cstr \<Rightarrow> u32 \<Rightarrow> loader \<Rightarrow> (int + u32) \<times> loader" where
  "s3_addr 0 p a s = (Inr a, s)"
| "s3_addr (Suc n) p a s =
     (case gethex p 2 of
        None \<Rightarrow> (Inl (if n = 0 then - 1 else DL_BADCHAR), s)
      | Some v \<Rightarrow> s3_addr n (drop 2 p) (push_bit 8 a + v) (s\<lparr>dl_chksum := dl_chksum s + v\<rparr>))"

fun s3_bytes :: "nat \<Rightarrow> cstr \<Rightarrow> u32 \<Rightarrow> loader \<Rightarrow> cstr option \<times> loader" where
  "s3_bytes 0 p a s = (Some p, s)"
| "s3_bytes (Suc n) p a s =
     (case gethex p 2 of
        None \<Rightarrow> (None, s)
      | Some v \<Rightarrow>
          s3_bytes n (drop 2 p) (a + 1) ((store_byte a (ucast v) s)\<lparr>dl_chksum := dl_chksum s + v\<rparr>))"

text \<open>The result is the code, the number of bytes and the state.\<close>

definition s3_datarec :: "u32 \<Rightarrow> cstr \<Rightarrow> loader \<Rightarrow> int \<times> nat \<times> loader" where
  "s3_datarec flags p s0 =
     (let s = s0\<lparr>dl_chksum := 0\<rparr>
      in if flags AND YFLAG \<noteq> 0 then (DL_CONT, 0, s)
         else case gethex (drop 2 p) 2 of
           None \<Rightarrow> (DL_BADCHAR, 0, s)
         | Some len \<Rightarrow>
             (let s1 = s\<lparr>dl_chksum := dl_chksum s + len\<rparr>
              in if int (unat len) * 2 \<noteq> int (strlen p) - 4 then (DL_BADLEN, 0, s1)
                 else
                   (let t = char_at p 1;
                        k = (if t = CHR ''3'' then 4 else if t = CHR ''2'' then 3 else if t = CHR ''1'' then 2 else 0)
                    in if k = 0 then (DL_BADTYPE, 0, s1)
                       else case s3_addr k (drop 4 p) 0 s1 of
                         (Inl e, s2) \<Rightarrow> (e, 0, s2)
                       | (Inr a, s2) \<Rightarrow>
                           (let addr = a + dl_offset s2; n = int (unat len) - int (Suc k)
                            in case dl_checksetloadaddr addr (of_int n) s2 of (ok, s3) \<Rightarrow>
                              if \<not> ok then (DL_BADADDR, 0, s3)
                              else case s3_bytes (nat n) (drop (4 + 2 * k) p) addr s3 of
                                (None, s4) \<Rightarrow> (DL_BADCHAR, 0, s4)
                              | (Some q, s4) \<Rightarrow>
                                  (case gethex q 2 of
                                     None \<Rightarrow> (DL_BADCHAR, 0, s4)
                                   | Some cs \<Rightarrow>
                                       if flags AND IFLAG = 0 \<and> cs \<noteq> NOT (dl_chksum s4) AND 0xFF
                                       then (DL_BADSUM, 0, s4) else (DL_CONT, nat n, s4))))))"

text \<open>The loop over the symbols of an S4 record. \<open>None\<close>: a name that overruns its buffer.\<close>

function s3_syms :: "u32 \<Rightarrow> int \<Rightarrow> cstr \<Rightarrow> loader \<Rightarrow> (int + cstr) option \<times> loader" where
  "s3_syms flags len p s =
     (if len > 2 then
        (case gethex p 8 of
           None \<Rightarrow> (Some (Inl DL_BADCHAR), s)
         | Some adr \<Rightarrow>
             (case strchr (drop 8 p) CHR '','' of
                None \<Rightarrow> (Some (Inl DL_BADCHAR), s)
              | Some t \<Rightarrow>
                  if t \<ge> LINESZ then (None, s)
                  else case newsym (take t (drop 8 p)) (if flags AND AFLAG \<noteq> 0 then adr else adr + dl_offset s) (l_syms s) of
                    (ok, sy) \<Rightarrow>
                      if \<not> ok then (Some (Inl DL_NOSYMSPACE), s\<lparr>l_syms := sy\<rparr>)
                      else s3_syms flags (len - 8 - int t) (drop (Suc t) (drop 8 p)) (s\<lparr>l_syms := sy\<rparr>)))
      else (Some (Inr p), s))"
  by pat_completeness auto
termination by (relation "measure (\<lambda>(flags, len, p, s). nat len)") auto

declare s3_syms.simps [simp del]

definition s3_dlsym :: "u32 \<Rightarrow> cstr \<Rightarrow> loader \<Rightarrow> int option \<times> loader" where
  "s3_dlsym flags p s =
     (if flags AND NFLAG \<noteq> 0 then (Some DL_CONT, s)
      else case gethex (drop 2 p) 2 of
        None \<Rightarrow> (Some DL_BADCHAR, s)
      | Some len \<Rightarrow>
          (case s3_syms flags (int (unat len)) (drop 4 p) s of
             (None, s1) \<Rightarrow> (None, s1)
           | (Some (Inl e), s1) \<Rightarrow> (Some e, s1)
           | (Some (Inr q), s1) \<Rightarrow> (Some (if gethex q 2 = None then DL_BADCHAR else DL_CONT), s1)))"

definition s3_endrec :: "cstr \<Rightarrow> loader \<Rightarrow> int \<times> loader" where
  "s3_endrec p s =
     (DL_DONE, s\<lparr>dl_entry :=
        (case gethex (drop 4 p) ((schar CHR ''9'' - schar (char_at p 1) + 2) * 2) of
           Some adr \<Rightarrow> adr + dl_offset s | None \<Rightarrow> 0xDEADBEEF)\<rparr>)"

definition dl_s3load :: "u32 \<Rightarrow> cstr \<Rightarrow> loader \<Rightarrow> (int \<times> nat) option \<times> loader" where
  "dl_s3load flags p s =
     (if char_at p 0 \<noteq> CHR ''S'' then (Some (DL_BADCHAR, 0), s)
      else if char_at p 1 = CHR ''0'' then (Some (DL_CONT, 0), s)
      else if schar CHR ''1'' \<le> schar (char_at p 1) \<and> schar (char_at p 1) \<le> schar CHR ''3''
        then (case s3_datarec flags p s of (st, n, s1) \<Rightarrow> (Some (st, n), s1))
      else if char_at p 1 = CHR ''4''
        then (case s3_dlsym flags p s of (r, s1) \<Rightarrow> (map_option (\<lambda>st. (st, 0)) r, s1))
      else if schar CHR ''7'' \<le> schar (char_at p 1) \<and> schar (char_at p 1) \<le> schar CHR ''9''
        then (case s3_endrec p s of (st, s1) \<Rightarrow> (Some (st, 0), s1))
      else (Some (DL_BADTYPE, 0), s))"

section \<open>Reading a file\<close>

text \<open>One line: carriage returns are skipped, a newline or the byte 0xFF ends it. The text goes
  into the buffer of the caller, which has \<open>bufsz\<close> bytes, without a check.\<close>

datatype srec_input = Line cstr cstr | File_end | Line_overflow

fun srec_line :: "nat \<Rightarrow> cstr \<Rightarrow> cstr \<Rightarrow> srec_input" where
  "srec_line bufsz acc [] = File_end"
| "srec_line bufsz acc (c # f) =
     (if c = CHR 0x0D then srec_line bufsz acc f
      else if length acc \<ge> bufsz then Line_overflow
      else if c = CHR 0xFF \<or> c = CHR 0x0A then Line acc f
      else srec_line bufsz (acc @ [c]) f)"

lemma srec_line_length: "srec_line bufsz acc f = Line l f' \<Longrightarrow> length f' < length f"
  by (induction bufsz acc f rule: srec_line.induct) (auto split: if_splits)

text \<open>The text in the buffer ends at the first \<open>NUL\<close>. The result is -1 or -2 or the entry
  address; \<open>None\<close> for an overrun.\<close>

function srec_loop :: "nat \<Rightarrow> u32 \<Rightarrow> cstr \<Rightarrow> cstr \<Rightarrow> loader \<Rightarrow> (int + u32) option \<times> loader" where
  "srec_loop bufsz flags acc f s =
     (case srec_line bufsz acc f of
        File_end \<Rightarrow> (Some (Inl (- 1)), s)
      | Line_overflow \<Rightarrow> (None, s)
      | Line l f' \<Rightarrow>
          (case dl_s3load flags (cstr_of l) s of
             (None, s1) \<Rightarrow> (None, s1)
           | (Some (st, n), s1) \<Rightarrow>
               if st = DL_CONT then srec_loop bufsz flags [] f' s1
               else if st \<noteq> DL_DONE then (Some (Inl (- 2)), s1)
               else (Some (Inr (dl_entry s1)), s1)))"
  by pat_completeness auto
termination by (relation "measure (\<lambda>(bufsz, flags, acc, f, s). length f)") (auto dest: srec_line_length)

declare srec_loop.simps [simp del]

definition load_srec :: "nat \<Rightarrow> u32 \<Rightarrow> cstr \<Rightarrow> loader \<Rightarrow> (int + u32) option \<times> loader" where
  "load_srec bufsz flags file s =
     (case file of
        [] \<Rightarrow> (Some (Inl (- 1)), s)
      | c # f \<Rightarrow> if c \<noteq> CHR ''S'' then (Some (Inl (- 1)), s) else srec_loop bufsz flags [c] f s)"

section \<open>Records as they are written\<close>

definition hexd :: "nat \<Rightarrow> char" where
  "hexd v = (if v < 10 then char_of (48 + v) else char_of (55 + v))"

definition hex2 :: "nat \<Rightarrow> cstr" where
  "hex2 v = [hexd (v div 16), hexd (v mod 16)]"

definition hexs :: "nat list \<Rightarrow> cstr" where
  "hexs vs = concat (map hex2 vs)"

lemma digit_val_hexd: "v < 16 \<Longrightarrow> digit_val (hexd v) = Some (int v)"
  by (auto simp: hexd_def digit_val_def uchar_def of_char_of)

lemma hexs_simps [simp]: "hexs [] = []" "hexs (v # vs) = hex2 v @ hexs vs" "hexs (vs @ ws) = hexs vs @ hexs ws"
  "length (hexs vs) = 2 * length vs" "length (hex2 v) = 2"
proof -
  show l: "length (hex2 v) = 2" for v by (simp add: hex2_def)
  show "length (hexs vs) = 2 * length vs" by (induction vs) (simp_all add: hexs_def l)
qed (simp_all add: hexs_def)

lemma gethex_hex2: "v < 256 \<Longrightarrow> gethex (hex2 v @ r) 2 = Some (of_nat v)"
proof -
  assume v: "v < 256"
  have d: "digit_val (hexd (v div 16)) = Some (int (v div 16))" "digit_val (hexd (v mod 16)) = Some (int (v mod 16))"
    using v by (intro digit_val_hexd; simp)+
  have "gethex (hex2 v @ r) 2 = Some (push_bit 4 (push_bit 4 0 OR of_int (int (v div 16))) OR of_int (int (v mod 16)))"
    unfolding gethex_def by (simp only: hex2_def append.simps numeral_2_eq_2 nat_numeral gethex_loop.simps d option.case)
  also have "push_bit 4 (push_bit 4 0 OR of_int (int (v div 16))) OR of_int (int (v mod 16)) = (of_nat v :: u32)"
  proof -
    have h: "unat (of_nat (v div 16) :: u32) = v div 16" "unat (of_nat v :: u32) = v"
      using v by (intro unat_of_nat_less; simp)+
    have "unat (push_bit 4 (of_nat (v div 16) :: u32) OR of_int (int (v mod 16))) = v div 16 * 16 + v mod 16"
      using unat_nibble [of "of_nat (v div 16)" "int (v mod 16)"] h v by simp
    then have "push_bit 4 (of_nat (v div 16) :: u32) OR of_int (int (v mod 16)) = of_nat v"
      by (intro word_unat_eq_iff [THEN iffD2]) (simp only: h div_mult_mod_eq)
    then show ?thesis by simp
  qed
  finally show ?thesis .
qed

definition addr_val :: "nat list \<Rightarrow> nat" where
  "addr_val ns = foldl (\<lambda>a v. a * 256 + v) 0 ns"

lemma foldl_push: "foldl (\<lambda>a v. push_bit 8 a + of_nat v) (of_nat a) ns = (of_nat (foldl (\<lambda>a v. a * 256 + v) a ns) :: u32)"
proof (induction ns arbitrary: a)
  case (Cons n ns)
  have "push_bit 8 (of_nat a) + of_nat n = (of_nat (a * 256 + n) :: u32)" by (simp add: push_bit_eq_mult mult.commute)
  then show ?case using Cons.IH [of "a * 256 + n"] by simp
qed simp

lemma s3_addr_hexs:
  "\<forall>n \<in> set ns. n < 256 \<Longrightarrow>
   s3_addr (length ns) (hexs ns @ r) a s =
     (Inr (foldl (\<lambda>a v. push_bit 8 a + of_nat v) a ns), s\<lparr>dl_chksum := dl_chksum s + of_nat (sum_list ns)\<rparr>)"
proof (induction ns arbitrary: a s)
  case (Cons n ns)
  have "gethex (hex2 n @ hexs ns @ r) 2 = Some (of_nat n)" using Cons.prems by (intro gethex_hex2) simp
  moreover have "drop 2 (hex2 n @ hexs ns @ r) = hexs ns @ r" by (simp add: hex2_def)
  ultimately show ?case using Cons by (simp add: algebra_simps)
qed simp

lemma s3_bytes_hexs:
  "s3_bytes (length bs) (hexs (map unat bs) @ r) a s =
     (Some r, s\<lparr>l_mem := store_bytes (l_mem s) a bs, dl_chksum := dl_chksum s + of_nat (sum_list (map unat bs))\<rparr>)"
proof (induction bs arbitrary: a s)
  case (Cons b bs)
  have "unat b < 2 ^ LENGTH(8)" by (rule unsigned_less)
  then have "gethex (hex2 (unat b) @ hexs (map unat bs) @ r) 2 = Some (of_nat (unat b))" by (intro gethex_hex2) simp
  moreover have "drop 2 (hex2 (unat b) @ hexs (map unat bs) @ r) = hexs (map unat bs) @ r" by (simp add: hex2_def)
  moreover have "(ucast (of_nat (unat b) :: u32) :: u8) = of_nat (unat b)"
    by (simp only: unsigned_of_nat word_of_nat_eq_iff) simp
  ultimately show ?case using Cons.IH by (simp add: store_byte_def add.assoc add.commute [of 1] fun_upd_def)
qed simp

text \<open>The data record for the address bytes \<open>ns\<close> and the data \<open>bs\<close>. \<open>bs\<close> and the bytes that
  were sent, \<open>xs\<close>, differ when the line is disturbed.\<close>

definition rec_sum :: "nat list \<Rightarrow> u8 list \<Rightarrow> nat" where
  "rec_sum ns bs = Suc (length ns + length bs) + sum_list ns + sum_list (map unat bs)"

definition srec_with :: "nat list \<Rightarrow> u8 list \<Rightarrow> nat \<Rightarrow> cstr" where
  "srec_with ns bs cs = CHR ''S'' # hexd (length ns - 1) # hex2 (Suc (length ns + length bs)) @
     hexs ns @ hexs (map unat bs) @ hex2 cs"

definition srec_text :: "nat list \<Rightarrow> u8 list \<Rightarrow> cstr" where
  "srec_text ns bs = srec_with ns bs (255 - rec_sum ns bs mod 256)"

definition good_rec :: "nat list \<Rightarrow> u8 list \<Rightarrow> bool" where
  "good_rec ns bs \<longleftrightarrow> length ns \<in> {2, 3, 4} \<and> (\<forall>n \<in> set ns. n < 256) \<and> Suc (length ns + length bs) < 256"

lemma not_and_ff: "NOT (of_nat t :: u32) AND 0xFF = of_nat (255 - t mod 256)"
proof -
  have "NOT (of_nat t :: u32) AND 0xFF = take_bit 8 (NOT (of_nat t))"
    by (simp add: take_bit_eq_mask mask_eq_exp_minus_1)
  also have "\<dots> = mask 8 - take_bit 8 (of_nat t)" by (rule take_bit_not_eq_mask_diff)
  also have "take_bit 8 (of_nat t :: u32) = of_nat (t mod 256)" by (simp only: take_bit_of_nat) (simp add: take_bit_eq_mod)
  also have "mask 8 - of_nat (t mod 256) = (of_nat (255 - t mod 256) :: u32)"
    by (simp add: mask_eq_exp_minus_1 of_nat_diff)
  finally show ?thesis .
qed

lemma hexd_type: "hexd (2 - 1) = CHR ''1''" "hexd (3 - 1) = CHR ''2''" "hexd (4 - 1) = CHR ''3''"
  by code_simp+

lemma s3_datarec_with:
  assumes "good_rec ns bs" "cs < 256" "flags AND YFLAG = 0"
    and "dl_checkloadaddr (of_nat (addr_val ns) + dl_offset s) (of_nat (length bs)) s"
  defines "a \<equiv> of_nat (addr_val ns) + dl_offset s"
  defines "s' \<equiv> s\<lparr>dl_chksum := of_nat (rec_sum ns bs), l_mem := store_bytes (l_mem s) a bs,
      dl_minaddr := if a < dl_minaddr s then a else dl_minaddr s,
      dl_maxaddr := if a + of_nat (length bs) > dl_maxaddr s then a + of_nat (length bs) else dl_maxaddr s\<rparr>"
  shows "s3_datarec flags (srec_with ns bs cs) s =
    (if flags AND IFLAG = 0 \<and> cs \<noteq> 255 - rec_sum ns bs mod 256 then (DL_BADSUM, 0, s') else (DL_CONT, length bs, s'))"
proof -
  let ?p = "srec_with ns bs cs" and ?k = "length ns"
  define len where "len = Suc (?k + length bs)"
  have len: "len < 256" and ns: "\<forall>n \<in> set ns. n < 256" and k: "?k \<in> {2, 3, 4}"
    using assms(1) by (simp_all add: good_rec_def len_def)
  have p: "?p = CHR ''S'' # hexd (?k - 1) # hex2 len @ hexs ns @ hexs (map unat bs) @ hex2 cs"
    by (simp add: srec_with_def len_def)
  have d2: "drop 2 ?p = hex2 len @ hexs ns @ hexs (map unat bs) @ hex2 cs" by (simp add: p)
  have d4: "drop 4 ?p = hexs ns @ hexs (map unat bs) @ hex2 cs" by (simp add: p hex2_def)
  have dk: "drop (4 + 2 * ?k) ?p = hexs (map unat bs) @ hex2 cs"
  proof -
    have "drop (4 + 2 * ?k) ?p = drop (2 * ?k) (drop 4 ?p)" by (simp add: add.commute)
    then show ?thesis by (simp add: d4)
  qed
  have ul: "unat (of_nat len :: u32) = len" using len by (intro unat_of_nat_less) simp
  have l: "int (unat (of_nat len :: u32)) * 2 = int (strlen ?p) - 4"
    unfolding ul by (simp add: strlen_def p len_def)
  have t: "(if char_at ?p 1 = CHR ''3'' then 4 else if char_at ?p 1 = CHR ''2'' then 3 else
      if char_at ?p 1 = CHR ''1'' then 2 else (0 :: nat)) = ?k"
  proof -
    have t: "char_at ?p 1 = hexd (?k - 1)" by (simp add: p char_at_def)
    consider "?k = 2" | "?k = 3" | "?k = 4" using k by blast
    then show ?thesis unfolding t by cases (simp_all only: hexd_type, simp_all)
  qed
  have s1: "s3_addr ?k (drop 4 ?p) 0 (s\<lparr>dl_chksum := 0\<rparr>\<lparr>dl_chksum := dl_chksum (s\<lparr>dl_chksum := 0\<rparr>) + of_nat len\<rparr>) =
      (Inr (of_nat (addr_val ns)), s\<lparr>dl_chksum := of_nat (len + sum_list ns)\<rparr>)"
    using s3_addr_hexs [OF ns] foldl_push [of 0 ns] unfolding d4 by (simp add: addr_val_def)
  have n: "int (unat (of_nat len :: u32)) - int (Suc ?k) = int (length bs)"
    unfolding ul by (simp add: len_def)
  have c: "dl_checksetloadaddr a (of_int (int (length bs))) (s\<lparr>dl_chksum := of_nat (len + sum_list ns)\<rparr>) =
      (True, s'\<lparr>l_mem := l_mem s, dl_chksum := of_nat (len + sum_list ns)\<rparr>)"
    using assms(4) by (simp add: dl_checksetloadaddr_def dl_checkloadaddr_def a_def s'_def)
  have b: "s3_bytes (nat (int (length bs))) (drop (4 + 2 * ?k) ?p) a (s'\<lparr>l_mem := l_mem s, dl_chksum := of_nat (len + sum_list ns)\<rparr>)
      = (Some (hex2 cs), s')"
    using s3_bytes_hexs [of bs "hex2 cs"] unfolding dk by (simp add: s'_def len_def rec_sum_def)
  have g: "gethex (drop 2 ?p) 2 = Some (of_nat len)" using gethex_hex2 [OF len] by (simp add: d2)
  have gc: "gethex (hex2 cs) 2 = Some (of_nat cs)" using gethex_hex2 [OF assms(2), of "[]"] by simp
  have ne: "(of_nat cs :: u32) = NOT (dl_chksum s') AND 0xFF \<longleftrightarrow> cs = 255 - rec_sum ns bs mod 256"
  proof -
    have "dl_chksum s' = of_nat (rec_sum ns bs)" by (simp add: s'_def)
    then have "NOT (dl_chksum s') AND 0xFF = of_nat (255 - rec_sum ns bs mod 256)" by (simp only: not_and_ff)
    moreover have "(of_nat cs :: u32) = of_nat (255 - rec_sum ns bs mod 256) \<longleftrightarrow> cs = 255 - rec_sum ns bs mod 256"
      using assms(2) by (simp only: word_of_nat_eq_iff) (simp add: take_bit_nat_eq_self)
    ultimately show ?thesis by simp
  qed
  have k0: "?k \<noteq> 0" using k by auto
  have off: "dl_offset (s\<lparr>dl_chksum := of_nat (len + sum_list ns)\<rparr>) = dl_offset s" by simp
  show ?thesis
    using assms(3) l k0
    unfolding s3_datarec_def Let_def g option.case t s1 off a_def [symmetric] n c prod.case sum.case b gc ne
    by simp
qed

section \<open>One record\<close>

lemma srec_with_first: "char_at (srec_with ns bs cs) 0 = CHR ''S''" "char_at (srec_with ns bs cs) 1 = hexd (length ns - 1)"
  by (simp_all add: srec_with_def char_at_def)

lemma dl_s3load_with:
  assumes "good_rec ns bs"
  shows "dl_s3load flags (srec_with ns bs cs) s =
    (case s3_datarec flags (srec_with ns bs cs) s of (st, n, s1) \<Rightarrow> (Some (st, n), s1))"
proof -
  consider "length ns = 2" | "length ns = 3" | "length ns = 4" using assms by (auto simp: good_rec_def)
  then show ?thesis
    unfolding dl_s3load_def srec_with_first
    by cases (simp_all only: hexd_type, simp_all add: schar_def uchar_def)
qed

text \<open>The effect of a good record.\<close>

definition put_rec :: "nat list \<times> u8 list \<Rightarrow> loader \<Rightarrow> loader" where
  "put_rec r s = (case r of (ns, bs) \<Rightarrow>
     (let a = of_nat (addr_val ns) + dl_offset s
      in s\<lparr>dl_chksum := of_nat (rec_sum ns bs), l_mem := store_bytes (l_mem s) a bs,
           dl_minaddr := if a < dl_minaddr s then a else dl_minaddr s,
           dl_maxaddr := if a + of_nat (length bs) > dl_maxaddr s then a + of_nat (length bs) else dl_maxaddr s\<rparr>))"

definition may_load :: "loader \<Rightarrow> nat list \<times> u8 list \<Rightarrow> bool" where
  "may_load s r \<longleftrightarrow> (case r of (ns, bs) \<Rightarrow>
     dl_checkloadaddr (of_nat (addr_val ns) + dl_offset s) (of_nat (length bs)) s)"

lemma srec_put:
  assumes "good_rec ns bs" "flags AND YFLAG = 0" "may_load s (ns, bs)"
  shows "dl_s3load flags (srec_text ns bs) s = (Some (DL_CONT, length bs), put_rec (ns, bs) s)"
  using s3_datarec_with [OF assms(1) _ assms(2), of "255 - rec_sum ns bs mod 256" s] assms(3)
  unfolding srec_text_def dl_s3load_with [OF assms(1)] by (simp add: may_load_def put_rec_def Let_def)

lemma mod_256_change:
  fixes A B S T :: nat
  assumes "T + A = S + B" "A < 256" "B < 256" "A \<noteq> B"
  shows "T mod 256 \<noteq> S mod 256"
proof
  assume "T mod 256 = S mod 256"
  then have "int T mod 256 = int S mod 256" by (metis of_nat_mod of_nat_numeral)
  then have "256 dvd int T - int S" by (simp add: mod_eq_dvd_iff)
  moreover have "int T - int S = int B - int A" using assms(1) by linarith
  ultimately have "256 dvd int B - int A" by simp
  moreover have "int B - int A \<noteq> 0" "\<bar>int B - int A\<bar> < 256" using assms(2-4) by auto
  ultimately show False using dvd_imp_le_int [of "int B - int A" 256] by simp
qed

lemma rec_sum_one_byte:
  assumes "bs ! i \<noteq> x" "i < length bs"
  shows "rec_sum ns (bs[i := x]) mod 256 \<noteq> rec_sum ns bs mod 256"
proof -
  have s: "sum_list (map unat (bs[i := x])) + unat (bs ! i) = sum_list (map unat bs) + unat x"
  proof -
    have "sum_list (map unat bs) = sum_list (map unat (take i bs @ bs ! i # drop (Suc i) bs))"
      using assms(2) by (simp only: id_take_nth_drop [symmetric])
    moreover have "bs[i := x] = take i bs @ x # drop (Suc i) bs" using assms(2) by (rule upd_conv_take_nth_drop)
    ultimately show ?thesis by simp
  qed
  define K where "K = Suc (length ns + length bs) + sum_list ns"
  have "rec_sum ns (bs[i := x]) + unat (bs ! i) = rec_sum ns bs + unat x"
    using s by (simp add: rec_sum_def)
  moreover have "unat (bs ! i) < 256" "unat x < 256" using unsigned_less [of "bs ! i"] unsigned_less [of x] by simp_all
  moreover have "unat (bs ! i) \<noteq> unat x" using assms(1) by (simp add: word_unat_eq_iff)
  ultimately show ?thesis by (rule mod_256_change)
qed

text \<open>A data record that was written for some address and data, with an address of two,
  three or four bytes, stores exactly these data from that address and the load offset on,
  extends the range of modified addresses, counts the bytes and asks for more, wherever the
  address check allows it.\<close>
theorem srec_stores:
  assumes "good_rec ns bs" "flags AND YFLAG = 0" "may_load s (ns, bs)"
  shows "\<exists>s'. dl_s3load flags (srec_text ns bs) s = (Some (DL_CONT, length bs), s') \<and>
    l_mem s' = store_bytes (l_mem s) (of_nat (addr_val ns) + dl_offset s) bs \<and>
    l_syms s' = l_syms s \<and> dl_entry s' = dl_entry s"
  using srec_put [OF assms] by (simp add: put_rec_def Let_def)

text \<open>C26. A data record in which one data byte was changed on the way, and nothing else, is
  refused with a checksum error, unless checksums are ignored.\<close>
theorem srec_damaged:
  assumes "good_rec ns bs" "i < length bs" "bs ! i \<noteq> x" "flags AND YFLAG = 0" "flags AND IFLAG = 0"
    and "may_load s (ns, bs)"
  shows "fst (dl_s3load flags (srec_with ns (bs[i := x]) (255 - rec_sum ns bs mod 256)) s) = Some (DL_BADSUM, 0)"
proof -
  let ?bs = "bs[i := x]"
  have g: "good_rec ns ?bs" using assms(1) by (simp add: good_rec_def)
  have m: "dl_checkloadaddr (of_nat (addr_val ns) + dl_offset s) (of_nat (length ?bs)) s"
    using assms(6) by (simp add: may_load_def)
  have "255 - rec_sum ns bs mod 256 \<noteq> 255 - rec_sum ns ?bs mod 256"
    using rec_sum_one_byte [OF assms(3,2), of ns] mod_less_divisor [of 256 "rec_sum ns bs"]
      mod_less_divisor [of 256 "rec_sum ns ?bs"] by linarith
  then show ?thesis
    using s3_datarec_with [OF g _ assms(4) m, of "255 - rec_sum ns bs mod 256"] assms(5)
    unfolding dl_s3load_with [OF g] by simp
qed

section \<open>A file of records\<close>

lemma gethex_loop_hexs:
  "\<forall>n \<in> set ns. n < 256 \<Longrightarrow>
   gethex_loop v (hexs ns @ r) (2 * length ns) = Some (foldl (\<lambda>a v. push_bit 8 a + of_nat v) v ns)"
proof (induction ns arbitrary: v)
  case (Cons n ns)
  have n: "n < 256" using Cons.prems by simp
  have d: "digit_val (hexd (n div 16)) = Some (int (n div 16))" "digit_val (hexd (n mod 16)) = Some (int (n mod 16))"
    using n by (intro digit_val_hexd; simp)+
  have "push_bit 4 (push_bit 4 v OR of_int (int (n div 16))) OR of_int (int (n mod 16)) = push_bit 8 v + (of_nat n :: u32)"
  proof -
    have a: "push_bit 4 w OR of_int (int k) = push_bit 4 w + (of_nat k :: u32)" if "k < 16" for w k
      using nibble_or [of "int k" w] that by simp
    have m: "(of_nat n :: u32) = of_nat (n div 16) * 16 + of_nat (n mod 16)"
      by (metis div_mult_mod_eq of_nat_add of_nat_mult of_nat_numeral)
    have "push_bit 4 (push_bit 4 v + of_nat (n div 16)) + of_nat (n mod 16) = push_bit 8 v + (of_nat n :: u32)"
      unfolding m by (simp add: push_bit_eq_mult algebra_simps)
    then show ?thesis using a [of "n div 16"] a [of "n mod 16"] n by simp
  qed
  then show ?case using Cons d by (simp add: hex2_def)
qed simp

text \<open>The end record with the entry address.\<close>

definition end_text :: "nat list \<Rightarrow> cstr" where
  "end_text ns = CHR ''S'' # hexd (11 - length ns) # hex2 (Suc (length ns)) @ hexs ns @ hex2 (255 - rec_sum ns [] mod 256)"

definition file_text :: "(nat list \<times> u8 list) list \<Rightarrow> nat list \<Rightarrow> cstr" where
  "file_text recs ent = concat (map (\<lambda>(ns, bs). srec_text ns bs @ [CHR 0x0D, CHR 0x0A]) recs) @ end_text ent @ [CHR 0x0A]"

lemma end_load:
  assumes "length ns \<in> {2, 3, 4}" "\<forall>n \<in> set ns. n < 256"
  shows "dl_s3load flags (end_text ns) s = (Some (DL_DONE, 0), s\<lparr>dl_entry := of_nat (addr_val ns) + dl_offset s\<rparr>)"
proof -
  have t: "char_at (end_text ns) 0 = CHR ''S''" "char_at (end_text ns) 1 = hexd (11 - length ns)"
    by (simp_all add: end_text_def char_at_def)
  have h: "hexd (11 - 2) = CHR ''9''" "hexd (11 - 3) = CHR ''8''" "hexd (11 - 4) = CHR ''7''" by code_simp+
  have d: "drop 4 (end_text ns) = hexs ns @ hex2 (255 - rec_sum ns [] mod 256)" by (simp add: end_text_def hex2_def)
  have n: "nat ((schar CHR ''9'' - schar (char_at (end_text ns) 1) + 2) * 2) = 2 * length ns"
  proof -
    consider "length ns = 2" | "length ns = 3" | "length ns = 4" using assms(1) by blast
    then show ?thesis unfolding t by cases (simp_all only: h, simp_all add: schar_def uchar_def)
  qed
  have "gethex (drop 4 (end_text ns)) ((schar CHR ''9'' - schar (char_at (end_text ns) 1) + 2) * 2) = Some (of_nat (addr_val ns))"
    unfolding gethex_def n d gethex_loop_hexs [OF assms(2)] using foldl_push [of 0 ns] by (simp add: addr_val_def)
  then have e: "s3_endrec (end_text ns) s = (DL_DONE, s\<lparr>dl_entry := of_nat (addr_val ns) + dl_offset s\<rparr>)"
    by (simp add: s3_endrec_def)
  consider "length ns = 2" | "length ns = 3" | "length ns = 4" using assms(1) by blast
  then show ?thesis
    unfolding dl_s3load_def t e by cases (simp_all only: h, simp_all add: schar_def uchar_def)
qed

text \<open>The texts contain no character that the line reader treats specially.\<close>

definition plain_char :: "char \<Rightarrow> bool" where
  "plain_char c \<longleftrightarrow> c \<notin> {CHR 0x0D, CHR 0x0A, CHR 0xFF, NUL}"

lemma plain_hexd: "v < 16 \<Longrightarrow> plain_char (hexd v)"
proof -
  have "\<forall>v \<in> set [0..<16]. plain_char (hexd v)" by code_simp
  then show "v < 16 \<Longrightarrow> ?thesis" by auto
qed

lemma plain_hexs: "\<forall>v \<in> set vs. v < 256 \<Longrightarrow> c \<in> set (hexs vs) \<Longrightarrow> plain_char c"
  by (induction vs) (auto simp: hex2_def intro: plain_hexd)

lemma plain_hex2: "v < 256 \<Longrightarrow> c \<in> set (hex2 v) \<Longrightarrow> plain_char c"
  by (auto simp: hex2_def intro: plain_hexd)

lemma unat_u8_less: "unat (b :: u8) < 256"
  using unsigned_less [of b] by simp

lemma plain_srec: "good_rec ns bs \<Longrightarrow> c \<in> set (srec_text ns bs) \<Longrightarrow> plain_char c"
proof -
  assume g: "good_rec ns bs" and c: "c \<in> set (srec_text ns bs)"
  have "\<forall>v \<in> set (map unat bs). v < 256" using unat_u8_less by auto
  then have "c \<in> set (hexs (map unat bs)) \<Longrightarrow> plain_char c" by (rule plain_hexs)
  moreover have "c \<in> set (hexs ns) \<Longrightarrow> plain_char c" using g by (intro plain_hexs [of ns]) (auto simp: good_rec_def)
  moreover have "plain_char CHR ''S''" by (simp add: plain_char_def)
  moreover have "plain_char (hexd (length ns - 1))" using g by (intro plain_hexd) (auto simp: good_rec_def)
  moreover have "c \<in> set (hex2 (Suc (length ns + length bs))) \<Longrightarrow> plain_char c"
    using g by (intro plain_hex2 [of "Suc (length ns + length bs)"]) (simp_all add: good_rec_def)
  moreover have "c \<in> set (hex2 (255 - rec_sum ns bs mod 256)) \<Longrightarrow> plain_char c" by (rule plain_hex2) simp_all
  ultimately show ?thesis using c unfolding srec_text_def srec_with_def by fastforce
qed

lemma plain_end:
  assumes "length ns \<in> {2, 3, 4}" "\<forall>n \<in> set ns. n < 256" "c \<in> set (end_text ns)"
  shows "plain_char c"
proof -
  have "c \<in> set (hexs ns) \<Longrightarrow> plain_char c" using assms(2) by (rule plain_hexs)
  moreover have "plain_char CHR ''S''" by (simp add: plain_char_def)
  moreover have "plain_char (hexd (11 - length ns))" using assms(1) by (intro plain_hexd) auto
  moreover have "c \<in> set (hex2 (Suc (length ns))) \<Longrightarrow> plain_char c"
    using assms(1) by (intro plain_hex2 [of "Suc (length ns)"]) auto
  moreover have "c \<in> set (hex2 (255 - rec_sum ns [] mod 256)) \<Longrightarrow> plain_char c" by (rule plain_hex2) simp_all
  ultimately show ?thesis using assms(3) unfolding end_text_def by fastforce
qed

lemma srec_line_plain:
  "\<forall>c \<in> set w. plain_char c \<Longrightarrow> length acc + length w < n \<Longrightarrow>
   srec_line n acc (w @ f) = srec_line n (acc @ w) f"
  by (induction w arbitrary: acc) (auto simp: plain_char_def)

lemma cstr_of_plain: "\<forall>c \<in> set w. plain_char c \<Longrightarrow> cstr_of w = w"
  by (auto simp: cstr_of_def plain_char_def takeWhile_eq_all_conv)

lemma srec_lengths: "good_rec ns bs \<Longrightarrow> length (srec_text ns bs) < 520"
  "length ns \<in> {2, 3, 4} \<Longrightarrow> length (end_text ns) < 520"
  by (auto simp: srec_text_def srec_with_def good_rec_def end_text_def)

lemma may_load_put: "may_load (put_rec r s) = may_load s"
  by (auto simp: may_load_def put_rec_def Let_def dl_checkloadaddr_def split: prod.splits)

lemma dl_offset_put [simp]: "dl_offset (put_rec r s) = dl_offset s"
  by (simp add: put_rec_def Let_def split: prod.splits)

text \<open>The loop with its first character already in the buffer, as \<open>load_srec\<close> starts it, and
  later with an empty buffer.\<close>

lemma srec_loop_file:
  assumes "520 \<le> bufsz" "flags AND YFLAG = 0" "length ent \<in> {2, 3, 4}" "\<forall>n \<in> set ent. n < 256"
  shows "\<forall>(ns, bs) \<in> set recs. good_rec ns bs \<Longrightarrow> \<forall>r \<in> set recs. may_load s r \<Longrightarrow>
    (acc = [] \<and> f = file_text recs ent) \<or> (acc = [CHR ''S''] \<and> CHR ''S'' # f = file_text recs ent) \<Longrightarrow>
    srec_loop bufsz flags acc f s =
      (Some (Inr (of_nat (addr_val ent) + dl_offset s)),
       (fold put_rec recs s)\<lparr>dl_entry := of_nat (addr_val ent) + dl_offset s\<rparr>)"
proof (induction recs arbitrary: s acc f)
  case Nil
  have e: "srec_line bufsz acc f = Line (end_text ent) []"
  proof -
    obtain t where "end_text ent = CHR ''S'' # t" by (simp add: end_text_def)
    then obtain w where w: "end_text ent = acc @ w" "f = w @ [CHR 0x0A]"
      using Nil.prems(3) by (cases acc) (auto simp: file_text_def)
    have "srec_line bufsz acc (w @ [CHR 0x0A]) = srec_line bufsz (acc @ w) [CHR 0x0A]"
      using plain_end [OF assms(3,4)] srec_lengths(2) [OF assms(3)] assms(1) w(1)
      by (intro srec_line_plain) auto
    then show ?thesis using w srec_lengths(2) [OF assms(3)] assms(1) by simp
  qed
  have "cstr_of (end_text ent) = end_text ent" using plain_end [OF assms(3,4)] by (intro cstr_of_plain) blast
  then show ?case using end_load [OF assms(3,4), of flags s]
    by (subst srec_loop.simps) (simp add: e dl_codes)
next
  case (Cons r recs)
  obtain ns bs where r: "r = (ns, bs)" by (cases r)
  have g: "good_rec ns bs" and m: "may_load s (ns, bs)" using Cons.prems r by auto
  let ?rest = "file_text recs ent"
  have e: "srec_line bufsz acc f = Line (srec_text ns bs) ?rest"
  proof -
    obtain t where "srec_text ns bs = CHR ''S'' # t" by (simp add: srec_text_def srec_with_def)
    then obtain w where w: "srec_text ns bs = acc @ w" "f = w @ [CHR 0x0D, CHR 0x0A] @ ?rest"
      using Cons.prems(3) r by (cases acc) (auto simp: file_text_def)
    have "srec_line bufsz acc (w @ [CHR 0x0D, CHR 0x0A] @ ?rest) = srec_line bufsz (acc @ w) ([CHR 0x0D, CHR 0x0A] @ ?rest)"
      using plain_srec [OF g] srec_lengths(1) [OF g] assms(1) w(1) by (intro srec_line_plain) auto
    then show ?thesis using w srec_lengths(1) [OF g] assms(1) by simp
  qed
  have c: "cstr_of (srec_text ns bs) = srec_text ns bs" using plain_srec [OF g] by (intro cstr_of_plain) blast
  have "srec_loop bufsz flags acc f s = srec_loop bufsz flags [] ?rest (put_rec (ns, bs) s)"
    using srec_put [OF g assms(2) m] by (subst srec_loop.simps) (simp add: e c)
  also have "\<dots> = (Some (Inr (of_nat (addr_val ent) + dl_offset s)),
      (fold put_rec recs (put_rec (ns, bs) s))\<lparr>dl_entry := of_nat (addr_val ent) + dl_offset s\<rparr>)"
    using Cons.IH [of "put_rec (ns, bs) s" "[]" ?rest] Cons.prems(1,2) by (simp add: may_load_put)
  finally show ?case by (simp add: r)
qed

text \<open>What a list of records leaves in memory.\<close>

definition store_recs :: "u32 \<Rightarrow> (nat list \<times> u8 list) list \<Rightarrow> mem \<Rightarrow> mem" where
  "store_recs off recs m = fold (\<lambda>(ns, bs) m. store_bytes m (of_nat (addr_val ns) + off) bs) recs m"

lemma fold_put_rec:
  "l_mem (fold put_rec recs s) = store_recs (dl_offset s) recs (l_mem s) \<and> l_syms (fold put_rec recs s) = l_syms s"
  by (induction recs arbitrary: s) (simp_all add: store_recs_def put_rec_def Let_def split: prod.splits)

lemma load_srec_recs:
  assumes "\<forall>(ns, bs) \<in> set recs. good_rec ns bs" "\<forall>r \<in> set recs. may_load s r"
    and "length ent \<in> {2, 3, 4}" "\<forall>n \<in> set ent. n < 256" "flags AND YFLAG = 0" "520 \<le> bufsz"
  shows "load_srec bufsz flags (file_text recs ent) s =
    (Some (Inr (of_nat (addr_val ent) + dl_offset s)),
     (fold put_rec recs s)\<lparr>dl_entry := of_nat (addr_val ent) + dl_offset s\<rparr>)"
proof -
  obtain f where f: "file_text recs ent = CHR ''S'' # f"
    by (cases recs) (auto simp: file_text_def end_text_def srec_text_def srec_with_def split: prod.splits)
  then show ?thesis
    using srec_loop_file [OF assms(6,5,3,4,1,2), of "[CHR ''S'']" f] by (simp add: load_srec_def)
qed

text \<open>C12. Loading a file of data records and an end record returns the entry address and leaves
  in memory exactly the data of the records, each at its address plus the load offset, in the
  order of the file; the loader ends after at most one round per line, and the caller's
  buffer needs room for 520 characters.\<close>
theorem load_srec_file:
  assumes "\<forall>(ns, bs) \<in> set recs. good_rec ns bs" "\<forall>r \<in> set recs. may_load s r"
    and "length ent \<in> {2, 3, 4}" "\<forall>n \<in> set ent. n < 256" "flags AND YFLAG = 0" "520 \<le> bufsz"
  shows "\<exists>s'. load_srec bufsz flags (file_text recs ent) s = (Some (Inr (of_nat (addr_val ent) + dl_offset s)), s') \<and>
    l_mem s' = store_recs (dl_offset s) recs (l_mem s)"
  using load_srec_recs [OF assms] fold_put_rec [of recs s] by simp

definition demo_loader :: loader where
  "demo_loader = \<lparr>dl_entry = 0, dl_offset = 0, dl_minaddr = NOT 0, dl_maxaddr = 0, dl_chksum = 0, nextaddr = 0,
     l_mem = (\<lambda>_. 0), l_syms = empty_symtab,
     l_layout = \<lparr>ml_start = 0x8F010000, ml_end = 0x8F080000, ml_allocp1 = 0x8F080000, ml_heaptop = 0x8F100000\<rparr>\<rparr>"

lemma demo_may_load: "may_load demo_loader ([0x80, 0x20, 0, 0], [1, 2])" "may_load demo_loader ([0x80, 0x20, 0, 2], [3])"
  by (simp_all add: may_load_def dl_checkloadaddr_def md_valid_load_addr_def Let_def CACHED_TO_PHYS_def
      address_in_heap_def demo_loader_def addr_val_def)

theorem load_srec_file_witness:
  "\<exists>s'. load_srec 520 0 (''S30780200000010255'' @ [CHR 0x0D, CHR 0x0A] @ ''S306802000020354'' @ [CHR 0x0D, CHR 0x0A] @
      ''S70580200000'' @ ''5A'' @ [CHR 0x0A]) demo_loader = (Some (Inr 0x80200000), s') \<and> l_mem s' 0x80200002 = 3"
proof -
  let ?recs = "[([0x80, 0x20, 0, 0], [1, 2]), ([0x80, 0x20, 0, 2], [3])] :: (nat list \<times> u8 list) list"
  have t: "file_text ?recs [0x80, 0x20, 0, 0] = ''S30780200000010255'' @ [CHR 0x0D, CHR 0x0A] @ ''S306802000020354'' @
      [CHR 0x0D, CHR 0x0A] @ ''S70580200000'' @ ''5A'' @ [CHR 0x0A]" by code_simp
  have a: "\<forall>(ns, bs) \<in> set ?recs. good_rec ns bs" by (simp add: good_rec_def)
  have b: "\<forall>r \<in> set ?recs. may_load demo_loader r" using demo_may_load by simp
  have "(0 :: u32) AND YFLAG = 0" by simp
  from load_srec_file [OF a b _ _ this, of "[0x80, 0x20, 0, 0]" 520, unfolded t]
  show ?thesis by (auto simp: addr_val_def store_recs_def demo_loader_def)
qed

theorem srec_stores_witness:
  "\<exists>s'. dl_s3load 0 ''S30780200000010255'' demo_loader = (Some (DL_CONT, 2), s') \<and>
    l_mem s' = store_bytes (\<lambda>_. 0) 0x80200000 [1, 2]"
proof -
  have t: "srec_text [0x80, 0x20, 0, 0] [1, 2] = ''S30780200000010255''" by code_simp
  have "good_rec [0x80, 0x20, 0, 0] [1, 2]" by (simp add: good_rec_def)
  from srec_stores [OF this _ demo_may_load(1), of 0, unfolded t]
  show ?thesis by (auto simp: addr_val_def demo_loader_def)
qed

theorem srec_damaged_witness: "fst (dl_s3load 0 ''S30780200000011255'' demo_loader) = Some (DL_BADSUM, 0)"
proof -
  have t: "srec_with [0x80, 0x20, 0, 0] ([1, 2][1 := 0x12]) (255 - rec_sum [0x80, 0x20, 0, 0] [1, 2] mod 256) =
      ''S30780200000011255''" by code_simp
  have g: "good_rec [0x80, 0x20, 0, 0] [1, 2]" by (simp add: good_rec_def)
  show ?thesis
    using srec_damaged [OF g _ _ _ _ demo_may_load(1), of 1 "0x12" 0, unfolded t] by simp
qed

section \<open>What the address check protects\<close>

lemma unat_phys: "unat (CACHED_TO_PHYS x) = unat x mod 2 ^ 29"
proof -
  have "CACHED_TO_PHYS x = take_bit 29 x" by (simp add: CACHED_TO_PHYS_def take_bit_eq_mask mask_eq_exp_minus_1)
  then show ?thesis by (simp only: unsigned_take_bit_eq) (simp add: take_bit_eq_mod)
qed

lemma phys_add:
  assumes "unat (CACHED_TO_PHYS a) + k < 2 ^ 29"
  shows "unat (CACHED_TO_PHYS (a + of_nat k)) = unat (CACHED_TO_PHYS a) + k"
proof -
  have k: "k < 2 ^ 32" using assms by simp
  have "unat (a + of_nat k) mod 2 ^ 29 = (unat a + k) mod 2 ^ 29"
  proof -
    have "unat (a + of_nat k) = (unat a + unat (of_nat k :: u32)) mod 2 ^ 32" by (simp add: unat_word_ariths)
    also have "unat (of_nat k :: u32) = k" using k by (simp add: unat_of_nat_less)
    finally have "unat (a + of_nat k) = (unat a + k) mod (2 ^ 29 * 8)" by simp
    then show ?thesis by (simp only: mod_mod_cancel dvd_triv_left)
  qed
  also have "\<dots> = (unat a mod 2 ^ 29 + k) mod 2 ^ 29" by (simp only: mod_add_left_eq)
  also have "\<dots> = unat a mod 2 ^ 29 + k" using assms by (simp only: unat_phys) (rule mod_less)
  finally show ?thesis by (simp only: unat_phys)
qed

text \<open>C28. A load that the address check allows does not touch the image of the monitor, in
  whichever cached or uncached segment the addresses are given, as long as the range does not
  run over the end of the physical address space.\<close>
theorem load_check_protects:
  assumes "dl_checkloadaddr addr (of_nat n) s" "unat (CACHED_TO_PHYS addr) + n < 2 ^ 29" "i < n"
  shows "CACHED_TO_PHYS (addr + of_nat i) < CACHED_TO_PHYS (ml_start (l_layout s)) \<or>
    CACHED_TO_PHYS (addr + of_nat i) \<ge> CACHED_TO_PHYS (ml_end (l_layout s))"
proof -
  have i: "unat (CACHED_TO_PHYS (addr + of_nat i)) = unat (CACHED_TO_PHYS addr) + i"
    and n: "unat (CACHED_TO_PHYS (addr + of_nat n)) = unat (CACHED_TO_PHYS addr) + n"
    using assms(2,3) by (intro phys_add; simp)+
  have "\<not> (CACHED_TO_PHYS addr < CACHED_TO_PHYS (ml_end (l_layout s)) \<and>
      CACHED_TO_PHYS (addr + of_nat n) > CACHED_TO_PHYS (ml_start (l_layout s)))"
    using assms(1) by (simp add: dl_checkloadaddr_def md_valid_load_addr_def Let_def)
  then show ?thesis using i n assms(3) unfolding word_less_nat_alt word_le_nat_alt by linarith
qed

theorem load_check_protects_witness:
  "CACHED_TO_PHYS (0x80200000 + 1) < CACHED_TO_PHYS 0x8F010000"
proof -
  have c: "dl_checkloadaddr 0x80200000 (of_nat 2) demo_loader" by code_simp
  have p: "unat (CACHED_TO_PHYS 0x80200000) + 2 < 2 ^ 29" by (simp add: unat_phys)
  show ?thesis using load_check_protects [OF c p, of 1] by (simp add: demo_loader_def CACHED_TO_PHYS_def)
qed

end
