(* ===== verification/Fastload.thy ===== *)
theory Fastload
  imports Loader
begin

text \<open>
  The LSI fastload format of \<^verbatim>\<open>pmon/loaders/loadfn.c\<close>: blocks of four-character records, three
  data bytes in four base-64 digits or a command after a slash, with a 12-bit checksum. The
  lemmas show that a block that was encoded is decoded to the same bytes and passes its
  checksum.
\<close>

section \<open>The code\<close>

definition etob :: "nat list" where
  "etob =
     replicate 44 64 @ [62, 64, 63, 64] @ [52, 53, 54, 55, 56, 57, 58, 59, 60, 61] @ replicate 7 64 @
     [0, 1, 2, 3, 4, 5, 6, 7, 8, 9, 10, 11, 12, 13, 14, 15, 16, 17, 18, 19, 20, 21, 22, 23, 24, 25] @ replicate 6 64 @
     [26, 27, 28, 29, 30, 31, 32, 33, 34, 35, 36, 37, 38, 39, 40, 41, 42, 43, 44, 45, 46, 47, 48, 49, 50, 51] @
     replicate 5 64"

fun b64_loop :: "u32 \<Rightarrow> cstr \<Rightarrow> nat \<Rightarrow> u32 option" where
  "b64_loop v p 0 = Some v"
| "b64_loop v [] (Suc n) = None"
| "b64_loop v (c # p) (Suc n) =
     (let b = etob ! (uchar c mod 128)
      in if b = 64 then None else b64_loop (push_bit 6 v OR of_nat b) p n)"

text \<open>The checksum of a value of \<open>n\<close> digits.\<close>

definition b64_sum :: "nat \<Rightarrow> u32 \<Rightarrow> u32" where
  "b64_sum n v =
     (if n = 6 then (drop_bit 24 v) AND 0xFFF else 0) + (if n = 6 \<or> n = 4 then (drop_bit 12 v) AND 0xFFF else 0) +
     (if n = 6 \<or> n = 4 \<or> n = 2 then v AND 0xFFF else 0)"

text \<open>\<open>getb64\<close> with a positive count adds the value to the checksum.\<close>

definition getb64 :: "cstr \<Rightarrow> nat \<Rightarrow> loader \<Rightarrow> u32 option \<times> loader" where
  "getb64 p n s =
     (case b64_loop 0 p n of
        None \<Rightarrow> (None, s)
      | Some v \<Rightarrow> (Some v, s\<lparr>dl_chksum := dl_chksum s + b64_sum n v\<rparr>))"

fun zero_fill :: "nat \<Rightarrow> loader \<Rightarrow> loader" where
  "zero_fill 0 s = s"
| "zero_fill (Suc n) s = zero_fill n ((store_byte (nextaddr s) 0 s)\<lparr>nextaddr := nextaddr s + 1\<rparr>)"

definition store_3 :: "u32 \<Rightarrow> loader \<Rightarrow> loader" where
  "store_3 v s =
     s\<lparr>l_mem := store_bytes (l_mem s) (nextaddr s) [ucast (drop_bit 16 v), ucast (drop_bit 8 v), ucast v],
       nextaddr := nextaddr s + 3\<rparr>"

text \<open>The records of a block from offset \<open>b\<close> on; \<open>len\<close> bytes have been loaded and \<open>st\<close> is the
  code to return. \<open>None\<close>: a symbol name overruns its buffer. When only symbols are loaded the
  loop ends at the first data record.\<close>

function fl_loop :: "u32 \<Rightarrow> cstr \<Rightarrow> nat \<Rightarrow> nat \<Rightarrow> int \<Rightarrow> loader \<Rightarrow> (int \<times> nat) option \<times> loader" where
  "fl_loop flags buf b len st s =
     (if b \<ge> length buf then (Some (st, len), s)
      else
        (let rp = drop b buf
         in if char_at rp 0 = CHR ''/'' then
              (if char_at rp 1 = CHR ''K'' then fl_loop flags buf (b + 4) len st (s\<lparr>dl_chksum := 0\<rparr>)
               else if char_at rp 1 = CHR ''C'' then
                 (case b64_loop 0 (drop 2 rp) 2 of
                    None \<Rightarrow> (Some (DL_BADCHAR, 0), s)
                  | Some zcnt \<Rightarrow>
                      if flags AND IFLAG = 0 \<and> zcnt \<noteq> dl_chksum s AND 0xFFF
                      then (Some (DL_BADSUM, 0), s\<lparr>dl_chksum := dl_chksum s AND 0xFFF\<rparr>)
                      else fl_loop flags buf (b + 4) len st (s\<lparr>dl_chksum := 0\<rparr>))
               else if char_at rp 1 = CHR ''Z'' then
                 (case getb64 (drop 2 rp) 2 s of
                    (None, s1) \<Rightarrow> (Some (DL_BADCHAR, 0), s1)
                  | (Some z, s1) \<Rightarrow>
                      (let zcnt = z * 3
                       in if flags AND YFLAG \<noteq> 0
                          then fl_loop flags buf (b + 4) len st (s1\<lparr>nextaddr := nextaddr s1 + zcnt\<rparr>)
                          else case dl_checksetloadaddr (nextaddr s1) zcnt s1 of (ok, s2) \<Rightarrow>
                            if \<not> ok then (Some (DL_BADADDR, 0), s2)
                            else fl_loop flags buf (b + 4) (len + unat zcnt) st (zero_fill (unat zcnt) s2)))
               else if char_at rp 1 = CHR ''B'' then
                 (case getb64 (drop 2 rp) 2 s of
                    (None, s1) \<Rightarrow> (Some (DL_BADCHAR, 0), s1)
                  | (Some bdat, s1) \<Rightarrow>
                      if flags AND YFLAG \<noteq> 0
                      then fl_loop flags buf (b + 4) len st (s1\<lparr>nextaddr := nextaddr s1 + 1\<rparr>)
                      else case dl_checksetloadaddr (nextaddr s1) 1 s1 of (ok, s2) \<Rightarrow>
                        if \<not> ok then (Some (DL_BADADDR, 0), s2)
                        else fl_loop flags buf (b + 4) (len + 1) st
                               ((store_byte (nextaddr s2) (ucast bdat) s2)\<lparr>nextaddr := nextaddr s2 + 1\<rparr>))
               else if char_at rp 1 = CHR ''A'' then
                 (if b + 4 \<ge> length buf then (Some (DL_BADLEN, 0), s)
                  else case getb64 (drop 2 rp) 6 s of
                    (None, s1) \<Rightarrow> (Some (DL_BADCHAR, 0), s1)
                  | (Some addr, s1) \<Rightarrow>
                      fl_loop flags buf (b + 8) len st (s1\<lparr>nextaddr := addr + dl_offset s1\<rparr>))
               else if char_at rp 1 = CHR ''E'' then
                 fl_loop flags buf (b + 4) len DL_DONE (s\<lparr>dl_entry := nextaddr s\<rparr>)
               else if char_at rp 1 = CHR ''S'' then
                 (let name = takeWhile (\<lambda>c. c \<noteq> CHR '','') (drop 2 rp)
                  in if length name = length (drop 2 rp)
                     then (if length name > LINESZ then None else Some (DL_BADLEN, 0), s)
                     else if length name \<ge> LINESZ then (None, s)
                     else
                       (let b' = 4 * ((b + 2 + length name) div 4) + 4
                        in if flags AND NFLAG \<noteq> 0 then fl_loop flags buf (max b' (b + 4)) len st s
                           else case newsym (cstr_of name) (nextaddr s) (l_syms s) of (ok, sy) \<Rightarrow>
                             if \<not> ok then (Some (DL_NOSYMSPACE, 0), s\<lparr>l_syms := sy\<rparr>)
                             else fl_loop flags buf (max b' (b + 4)) len st (s\<lparr>l_syms := sy\<rparr>)))
               else (Some (DL_BADTYPE, 0), s))
            else
              (case getb64 rp 4 s of
                 (None, s1) \<Rightarrow> (Some (DL_BADLEN, 0), s1)
               | (Some bdat, s1) \<Rightarrow>
                   if flags AND YFLAG \<noteq> 0 then (Some (st, len), s1\<lparr>nextaddr := nextaddr s1 + 3\<rparr>)
                   else case dl_checksetloadaddr (nextaddr s1) 3 s1 of (ok, s2) \<Rightarrow>
                     if \<not> ok then (Some (DL_BADADDR, 0), s2)
                     else fl_loop flags buf (b + 4) (len + 3) st (store_3 bdat s2))))"
  by pat_completeness auto
termination by (relation "measure (\<lambda>(flags, buf, b, len, st, s). length buf - b)") auto

declare fl_loop.simps [simp del]

definition dl_fastload :: "u32 \<Rightarrow> cstr \<Rightarrow> loader \<Rightarrow> (int \<times> nat) option \<times> loader" where
  "dl_fastload flags recbuf s =
     (if length recbuf mod 4 \<noteq> 0 then (Some (DL_BADLEN, 0), s) else fl_loop flags recbuf 0 0 DL_CONT s)"

section \<open>Encoding\<close>

definition b64_chars :: cstr where
  "b64_chars = ''ABCDEFGHIJKLMNOPQRSTUVWXYZabcdefghijklmnopqrstuvwxyz0123456789,.''"

definition btoe :: "nat \<Rightarrow> char" where
  "btoe d = b64_chars ! d"

lemma etob_btoe: "d < 64 \<Longrightarrow> etob ! (uchar (btoe d) mod 128) = d \<and> btoe d \<noteq> CHR ''/''"
proof -
  have "\<forall>d \<in> set [0..<64]. etob ! (uchar (btoe d) mod 128) = d \<and> btoe d \<noteq> CHR ''/''" by code_simp
  then show "d < 64 \<Longrightarrow> ?thesis" by auto
qed

lemma sextet_or:
  fixes v :: u32
  assumes "d < 64"
  shows "push_bit 6 v OR of_nat d = push_bit 6 v + of_nat d"
proof (rule disjunctive_add [symmetric])
  fix n
  show "\<not> bit (push_bit 6 v) n \<or> \<not> bit (of_nat d :: u32) n"
  proof (cases "n < 6")
    case False
    then have "(2::nat) ^ 6 \<le> 2 ^ n" by (intro power_increasing) auto
    with assms have "d div 2 ^ n = 0" by simp
    then have "\<not> bit d n" by (simp add: bit_iff_odd)
    moreover have "(of_nat d :: u32) = of_int (int d)" by simp
    ultimately show ?thesis by (simp only: bit_word_of_int_iff bit_of_nat_iff_bit) simp
  qed (simp add: bit_push_bit_iff)
qed

lemma b64_loop_digits:
  "\<forall>d \<in> set ds. d < 64 \<Longrightarrow>
   b64_loop (of_nat v) (map btoe ds @ r) (length ds) = Some (of_nat (foldl (\<lambda>a d. a * 64 + d) v ds))"
proof (induction ds arbitrary: v)
  case (Cons d ds)
  then have d: "d < 64" by simp
  have eq: "push_bit 6 (of_nat v) OR of_nat d = (of_nat (v * 64 + d) :: u32)"
    unfolding sextet_or [OF d] by (simp add: push_bit_eq_mult mult.commute)
  have "b64_loop (of_nat v) (map btoe (d # ds) @ r) (length (d # ds)) =
      b64_loop (push_bit 6 (of_nat v) OR of_nat d) (map btoe ds @ r) (length ds)"
    using etob_btoe [OF d] d by (simp add: Let_def)
  also have "\<dots> = Some (of_nat (foldl (\<lambda>a d. a * 64 + d) (v * 64 + d) ds))"
    unfolding eq using Cons by (intro Cons.IH) simp
  finally show ?case by simp
qed simp

text \<open>Three bytes are a number of 24 bits.\<close>

type_synonym triple = "u8 \<times> u8 \<times> u8"

fun tval :: "triple \<Rightarrow> nat" where
  "tval (x, y, z) = unat x * 65536 + unat y * 256 + unat z"

definition enc3 :: "triple \<Rightarrow> cstr" where
  "enc3 t = map btoe [tval t div 262144, tval t div 4096 mod 64, tval t div 64 mod 64, tval t mod 64]"

definition enc2 :: "nat \<Rightarrow> cstr" where
  "enc2 v = map btoe [v div 64, v mod 64]"

lemma tval_less: "tval t < 16777216"
proof -
  obtain x y z where "t = (x, y, z)" by (cases t) auto
  then have "tval t = unat x * 65536 + unat y * 256 + unat z" by simp
  then show ?thesis using unat_u8_less [of x] unat_u8_less [of y] unat_u8_less [of z] by linarith
qed

lemma length_4: "length [a, b, c, d] = 4"
  by simp

lemma enc3_value:
  "b64_loop 0 (enc3 t @ r) 4 = Some (of_nat (tval t))"
proof -
  let ?v = "tval t"
  have "\<forall>d \<in> set [?v div 262144, ?v div 4096 mod 64, ?v div 64 mod 64, ?v mod 64]. d < 64"
    using tval_less [of t] by (simp add: less_mult_imp_div_less)
  from b64_loop_digits [OF this, of 0 r]
  have "b64_loop 0 (enc3 t @ r) 4 = Some (of_nat ((((?v div 262144) * 64 + ?v div 4096 mod 64) * 64 + ?v div 64 mod 64) * 64 + ?v mod 64))"
    by (simp only: enc3_def length_4 foldl.simps semiring_1_class.of_nat_0 mult_0 add_0)
  also have "(((?v div 262144) * 64 + ?v div 4096 mod 64) * 64 + ?v div 64 mod 64) * 64 + ?v mod 64 = ?v"
  proof -
    have "?v div 4096 = ?v div 64 div 64" "?v div 262144 = ?v div 64 div 64 div 64" by (simp_all flip: div_mult2_eq)
    then show ?thesis by (simp only: div_mult_mod_eq)
  qed
  finally show ?thesis .
qed

lemma enc2_value: "v < 4096 \<Longrightarrow> b64_loop 0 (enc2 v @ r) 2 = Some (of_nat v)"
  using b64_loop_digits [of "[v div 64, v mod 64]" 0 r] by (simp add: enc2_def numeral_2_eq_2 less_mult_imp_div_less)

lemma drop_bit_of_nat_u32: "v < 2 ^ 32 \<Longrightarrow> drop_bit k (of_nat v :: u32) = of_nat (v div 2 ^ k)"
proof (rule word_unat_eq_iff [THEN iffD2])
  assume v: "v < 2 ^ 32"
  then have "v div 2 ^ k < 2 ^ 32" by (rule le_less_trans [OF div_le_dividend])
  then show "unat (drop_bit k (of_nat v :: u32)) = unat (of_nat (v div 2 ^ k) :: u32)"
    using v by (simp only: unat_drop_bit_eq) (simp add: drop_bit_eq_div unat_of_nat_less)
qed

lemma ucast_of_nat_u8: "(ucast (of_nat v :: u32) :: u8) = of_nat v"
  by (simp only: unsigned_of_nat word_of_nat_eq_iff) simp

lemma of_nat_u8_eqI: "v mod 256 = unat x \<Longrightarrow> of_nat v = (x :: u8)"
  by (rule word_unat_eq_iff [THEN iffD2]) (simp add: unsigned_of_nat take_bit_eq_mod)

lemma digits_256:
  fixes a b c :: nat
  assumes "a < 256" "b < 256" "c < 256"
  shows "(a * 65536 + b * 256 + c) div 65536 mod 256 = a" "(a * 65536 + b * 256 + c) div 256 mod 256 = b"
    "(a * 65536 + b * 256 + c) mod 256 = c"
proof -
  have "b * 256 + c < 65536" using assms by linarith
  then have "(a * 65536 + (b * 256 + c)) div 65536 = a" by simp
  then show "(a * 65536 + b * 256 + c) div 65536 mod 256 = a" using assms by (simp add: add.assoc)
  have e: "a * 65536 + b * 256 + c = (a * 256 + b) * 256 + c" by simp
  then have "(a * 65536 + b * 256 + c) div 256 = a * 256 + b" using assms by simp
  then show "(a * 65536 + b * 256 + c) div 256 mod 256 = b" using assms by simp
  show "(a * 65536 + b * 256 + c) mod 256 = c" unfolding e using assms(3) by (simp only: mod_mult_self3 mod_less)
qed

fun tbytes :: "triple \<Rightarrow> u8 list" where
  "tbytes (x, y, z) = [x, y, z]"

lemma store_3_bytes: "store_3 (of_nat (tval t)) s = s\<lparr>l_mem := store_bytes (l_mem s) (nextaddr s) (tbytes t), nextaddr := nextaddr s + 3\<rparr>"
proof -
  obtain x y z where t: "t = (x, y, z)" by (cases t) auto
  note l = unat_u8_less [of x] unat_u8_less [of y] unat_u8_less [of z]
  have v: "tval t < 2 ^ 32" using tval_less [of t] by simp
  have "of_nat (tval t div 2 ^ 16) = x" "of_nat (tval t div 2 ^ 8) = y" "of_nat (tval t) = z"
    using digits_256 [OF l] by (intro of_nat_u8_eqI; simp only: t tval.simps power_numeral Num.pow.simps Num.sqr.simps)+
  then show ?thesis unfolding store_3_def drop_bit_of_nat_u32 [OF v] ucast_of_nat_u8 by (simp only: t tbytes.simps)
qed

definition tsum :: "triple \<Rightarrow> nat" where
  "tsum t = tval t div 4096 + tval t mod 4096"

lemma and_fff: "(of_nat v :: u32) AND 0xFFF = of_nat (v mod 4096)"
proof -
  have "(of_nat v :: u32) AND 0xFFF = take_bit 12 (of_nat v)"
    by (simp add: take_bit_eq_mask mask_eq_exp_minus_1)
  then show ?thesis by (simp only: take_bit_of_nat) (simp add: take_bit_eq_mod)
qed

lemma b64_sum_tval: "b64_sum 4 (of_nat (tval t)) = of_nat (tsum t)"
proof -
  have v: "tval t < 2 ^ 32" using tval_less [of t] by simp
  have "tval t div 4096 < 4096" using tval_less [of t] by (simp add: less_mult_imp_div_less)
  then show ?thesis
    by (simp add: b64_sum_def tsum_def and_fff drop_bit_of_nat_u32 [OF v])
qed

text \<open>The effect of one data record.\<close>

definition put_triple :: "triple \<Rightarrow> loader \<Rightarrow> loader" where
  "put_triple t s =
     store_3 (of_nat (tval t)) (snd (dl_checksetloadaddr (nextaddr s) 3 (s\<lparr>dl_chksum := dl_chksum s + of_nat (tsum t)\<rparr>)))"

lemma put_triple_simps:
  "l_mem (put_triple t s) = store_bytes (l_mem s) (nextaddr s) (tbytes t)"
  "nextaddr (put_triple t s) = nextaddr s + 3" "dl_chksum (put_triple t s) = dl_chksum s + of_nat (tsum t)"
  "l_layout (put_triple t s) = l_layout s"
  by (simp_all add: put_triple_def store_3_bytes dl_checksetloadaddr_def)

lemma fl_loop_triple:
  assumes "buf = pre @ enc3 t @ rest" "flags AND YFLAG = 0" "dl_checkloadaddr (nextaddr s) 3 s"
  shows "fl_loop flags buf (length pre) len st s = fl_loop flags buf (length pre + 4) (len + 3) st (put_triple t s)"
proof -
  have d: "drop (length pre) buf = enc3 t @ rest" using assms(1) by simp
  have b: "\<not> length pre \<ge> length buf" using assms(1) by (simp add: enc3_def)
  have "tval t div 262144 < 64" using tval_less [of t] by (simp add: less_mult_imp_div_less)
  then have c: "char_at (enc3 t @ rest) 0 \<noteq> CHR ''/''" using etob_btoe by (simp add: enc3_def char_at_def)
  have g: "getb64 (enc3 t @ rest) 4 s = (Some (of_nat (tval t)), s\<lparr>dl_chksum := dl_chksum s + of_nat (tsum t)\<rparr>)"
    by (simp add: getb64_def enc3_value b64_sum_tval)
  obtain s2 where k: "dl_checksetloadaddr (nextaddr s) 3 (s\<lparr>dl_chksum := dl_chksum s + of_nat (tsum t)\<rparr>) = (True, s2)"
    using assms(3) by (simp add: dl_checksetloadaddr_def dl_checkloadaddr_def)
  have n: "nextaddr (s\<lparr>dl_chksum := x\<rparr>) = nextaddr s" for x by simp
  have "fl_loop flags buf (length pre) len st s = fl_loop flags buf (length pre + 4) (len + 3) st (store_3 (of_nat (tval t)) s2)"
    using b c assms(2) by (subst fl_loop.simps) (simp add: d Let_def g n k)
  then show ?thesis by (simp only: put_triple_def k snd_conv)
qed

lemma fl_loop_triples:
  "buf = pre @ concat (map enc3 ts) @ rest \<Longrightarrow> flags AND YFLAG = 0 \<Longrightarrow>
   \<forall>i < length ts. dl_checkloadaddr (nextaddr s + of_nat (3 * i)) 3 s \<Longrightarrow>
   fl_loop flags buf (length pre) len st s =
     fl_loop flags buf (length pre + 4 * length ts) (len + 3 * length ts) st (fold put_triple ts s)"
proof (induction ts arbitrary: pre len s)
  case (Cons t ts)
  have c: "dl_checkloadaddr (nextaddr s) 3 s" using Cons.prems(3) by (auto dest: spec [of _ 0])
  have "fl_loop flags buf (length pre) len st s = fl_loop flags buf (length pre + 4) (len + 3) st (put_triple t s)"
    using Cons.prems(1) by (intro fl_loop_triple [OF _ Cons.prems(2) c, where rest = "concat (map enc3 ts) @ rest"]) simp
  moreover have "fl_loop flags buf (length (pre @ enc3 t)) (len + 3) st (put_triple t s) =
      fl_loop flags buf (length (pre @ enc3 t) + 4 * length ts) (len + 3 + 3 * length ts) st (fold put_triple ts (put_triple t s))"
  proof (rule Cons.IH)
    show "\<forall>i < length ts. dl_checkloadaddr (nextaddr (put_triple t s) + of_nat (3 * i)) 3 (put_triple t s)"
    proof (intro allI impI)
      fix i assume "i < length ts"
      then have "dl_checkloadaddr (nextaddr s + of_nat (3 * Suc i)) 3 s" using Cons.prems(3) by auto
      then show "dl_checkloadaddr (nextaddr (put_triple t s) + of_nat (3 * i)) 3 (put_triple t s)"
        by (simp add: dl_checkloadaddr_def put_triple_simps algebra_simps)
    qed
  qed (use Cons.prems in simp_all)
  moreover have "length (pre @ enc3 t) = length pre + 4" by (simp add: enc3_def)
  ultimately show ?case by (simp add: algebra_simps)
qed simp

lemma fold_put_triple:
  "l_mem (fold put_triple ts s) = store_bytes (l_mem s) (nextaddr s) (concat (map tbytes ts)) \<and>
   nextaddr (fold put_triple ts s) = nextaddr s + of_nat (3 * length ts) \<and>
   dl_chksum (fold put_triple ts s) = dl_chksum s + of_nat (sum_list (map tsum ts))"
proof (induction ts arbitrary: s)
  case (Cons t ts)
  have "length (tbytes t) = 3" by (cases t) simp
  then show ?case using Cons [of "put_triple t s"] by (simp add: put_triple_simps store_bytes_append algebra_simps)
qed simp

section \<open>A whole block\<close>

definition fast_block :: "triple list \<Rightarrow> nat \<Rightarrow> cstr" where
  "fast_block ts cs = ''/KAA'' @ concat (map enc3 ts) @ (''/C'' @ enc2 cs)"

definition block_sum :: "triple list \<Rightarrow> nat" where
  "block_sum ts = sum_list (map tsum ts) mod 4096"

lemma length_concat_enc3 [simp]: "length (concat (map enc3 ts)) = 4 * length ts"
  by (induction ts) (simp_all add: enc3_def)

lemma length_enc2 [simp]: "length (enc2 v) = 2"
  by (simp add: enc2_def)

lemma fl_loop_clear:
  "fl_loop flags (''/KAA'' @ rest) 0 len st s = fl_loop flags (''/KAA'' @ rest) 4 len st (s\<lparr>dl_chksum := 0\<rparr>)"
  by (subst fl_loop.simps) (simp add: Let_def char_at_def)

lemma fl_loop_compare:
  assumes "buf = pre @ (''/C'' @ enc2 cs)" "cs < 4096"
  shows "fl_loop flags buf (length pre) len st s =
    (if flags AND IFLAG = 0 \<and> of_nat cs \<noteq> dl_chksum s AND 0xFFF
     then (Some (DL_BADSUM, 0), s\<lparr>dl_chksum := dl_chksum s AND 0xFFF\<rparr>)
     else (Some (st, len), s\<lparr>dl_chksum := 0\<rparr>))"
proof -
  have d: "drop (length pre) buf = ''/C'' @ enc2 cs" using assms(1) by simp
  have v: "b64_loop 0 (enc2 cs) 2 = Some (of_nat cs)" using enc2_value [OF assms(2), of "[]"] by simp
  have l: "length buf = length pre + 4" using assms(1) by simp
  have e: "fl_loop flags buf (length pre + 4) len st s' = (Some (st, len), s')" for s'
    by (subst fl_loop.simps) (simp add: l)
  show ?thesis
    by (subst fl_loop.simps) (simp add: l d Let_def char_at_def v e)
qed

lemma word_len_4096: "4096 < (2 :: nat) ^ LENGTH(32)"
  by simp

lemma fl_block:
  fixes ts cs and s :: loader
  assumes "cs < 4096" "flags AND YFLAG = 0"
    "\<forall>i < length ts. dl_checkloadaddr (nextaddr s + of_nat (3 * i)) 3 s"
  defines "r \<equiv> dl_fastload flags (fast_block ts cs) s"
  shows "l_mem (snd r) = store_bytes (l_mem s) (nextaddr s) (concat (map tbytes ts))"
    "nextaddr (snd r) = nextaddr s + of_nat (3 * length ts)"
    "fst r = Some (if flags AND IFLAG = 0 \<and> cs \<noteq> block_sum ts then (DL_BADSUM, 0) else (DL_CONT, 3 * length ts))"
proof -
  let ?b = "fast_block ts cs" and ?s = "s\<lparr>dl_chksum := 0\<rparr>"
  let ?f = "fold put_triple ts ?s"
  have m: "length ?b mod 4 = 0" by (simp add: fast_block_def)
  have "dl_fastload flags ?b s = fl_loop flags ?b 0 0 DL_CONT s"
    by (simp add: dl_fastload_def m)
  also have "\<dots> = fl_loop flags ?b (length ''/KAA'') 0 DL_CONT ?s"
    unfolding fast_block_def fl_loop_clear length_4 ..
  also have "\<dots> = fl_loop flags ?b (length ''/KAA'' + 4 * length ts) (0 + 3 * length ts) DL_CONT ?f"
    using assms(3) by (intro fl_loop_triples [OF _ assms(2)]) (auto simp: fast_block_def dl_checkloadaddr_def)
  also have "\<dots> = fl_loop flags ?b (length (''/KAA'' @ concat (map enc3 ts))) (3 * length ts) DL_CONT ?f"
    by simp
  also have "\<dots> = (if flags AND IFLAG = 0 \<and> of_nat cs \<noteq> dl_chksum ?f AND 0xFFF
     then (Some (DL_BADSUM, 0), ?f\<lparr>dl_chksum := dl_chksum ?f AND 0xFFF\<rparr>)
     else (Some (DL_CONT, 3 * length ts), ?f\<lparr>dl_chksum := 0\<rparr>))"
    by (rule fl_loop_compare [OF _ assms(1)]) (simp add: fast_block_def)
  finally have r: "r = \<dots>" by (simp only: r_def)
  have f: "dl_chksum ?f AND 0xFFF = of_nat (block_sum ts)"
    using fold_put_triple [of ts ?s] by (simp add: and_fff block_sum_def)
  have b: "block_sum ts < 4096" by (simp add: block_sum_def)
  have "unat (of_nat cs :: u32) = cs" "unat (of_nat (block_sum ts) :: u32) = block_sum ts"
    by (rule unat_of_nat_less, rule less_trans [OF _ word_len_4096], (rule assms(1) | rule b))+
  then have "(of_nat cs :: u32) = of_nat (block_sum ts) \<longleftrightarrow> cs = block_sum ts"
    by metis
  then show "fst r = Some (if flags AND IFLAG = 0 \<and> cs \<noteq> block_sum ts then (DL_BADSUM, 0) else (DL_CONT, 3 * length ts))"
    by (simp add: r f)
  show "l_mem (snd r) = store_bytes (l_mem s) (nextaddr s) (concat (map tbytes ts))"
    "nextaddr (snd r) = nextaddr s + of_nat (3 * length ts)"
    using fold_put_triple [of ts ?s] by (simp_all add: r)
qed

text \<open>C31. A fastload block, the data three bytes at a time in base 64 between a command that
  clears the checksum and one that compares it, stores exactly the bytes it encodes at the
  current address, advances the address past them and reports their number, provided that
  each address is outside the monitor; with another checksum the block is refused.\<close>

theorem fastload_block:
  fixes ts :: "triple list" and s :: loader
  assumes "cs < 4096" "flags AND YFLAG = 0"
    "\<forall>i < length ts. dl_checkloadaddr (nextaddr s + of_nat (3 * i)) 3 s"
  shows "l_mem (snd (dl_fastload flags (fast_block ts cs) s)) =
      store_bytes (l_mem s) (nextaddr s) (concat (map tbytes ts)) \<and>
    nextaddr (snd (dl_fastload flags (fast_block ts cs) s)) = nextaddr s + of_nat (3 * length ts) \<and>
    fst (dl_fastload flags (fast_block ts cs) s) =
      Some (if flags AND IFLAG = 0 \<and> cs \<noteq> block_sum ts then (DL_BADSUM, 0) else (DL_CONT, 3 * length ts))"
  using fl_block [OF assms] by blast

theorem fastload_block_witness:
  "l_mem (snd (dl_fastload 0 ''/KAAAQID/CIT'' (demo_loader\<lparr>nextaddr := 0x80200000\<rparr>))) 0x80200002 = 3 \<and>
   fst (dl_fastload 0 ''/KAAAQID/CIT'' (demo_loader\<lparr>nextaddr := 0x80200000\<rparr>)) = Some (DL_CONT, 3)"
proof -
  let ?s = "demo_loader\<lparr>nextaddr := 0x80200000\<rparr>"
  have t: "fast_block [(1, 2, 3)] 531 = ''/KAAAQID/CIT''"
    by (simp add: fast_block_def enc3_def enc2_def btoe_def b64_chars_def)
  have b: "block_sum [(1, 2, 3)] = 531" by (simp add: block_sum_def tsum_def)
  have "dl_checkloadaddr 0x80200000 3 ?s" by code_simp
  then have c: "\<forall>i < length [(1, 2, 3) :: triple]. dl_checkloadaddr (nextaddr ?s + of_nat (3 * i)) 3 ?s" by simp
  have "(531::nat) < 4096" "(0 :: u32) AND YFLAG = 0" by simp_all
  from fastload_block [OF this c, unfolded t b] show ?thesis by simp
qed

end
