(* ===== verification/Xmodem.thy ===== *)
theory Xmodem
  imports Crc "HOL-Library.Sublist"
begin

text \<open>
  The XMODEM receiver of \<^verbatim>\<open>pmon/cmds/xmodem.c\<close>. The serial line is the sequence of what the polls of
  \<open>testchar\<close> find: a character that has arrived, or a wait that ran out; behind the last event
  the line is silent. The lemmas show that a file arrives whole through any number of damaged and cut
  packets, that only checked packets are stored, and what becomes of a packet that is sent again.
\<close>

section \<open>The line\<close>

datatype line_event = Arrives u8 | Quiet

type_synonym serial = "line_event list"

text \<open>\<open>get_data\<close>: each poll takes one event; the second wait that runs out ends the packet.\<close>

function get_data_loop :: "nat \<Rightarrow> nat \<Rightarrow> nat \<Rightarrow> u8 list \<Rightarrow> serial \<Rightarrow> nat \<times> u8 list \<times> serial" where
  "get_data_loop len i cnt ptr l =
     (if i < len then
        (case l of
           Arrives b # l' \<Rightarrow> get_data_loop len (i + 1) cnt (ptr[i := b]) l'
         | Quiet # l' \<Rightarrow> if cnt = 0 then (i, ptr, l') else get_data_loop len i (cnt - 1) ptr l'
         | [] \<Rightarrow> if cnt = 0 then (i, ptr, []) else get_data_loop len i (cnt - 1) ptr [])
      else (i, ptr, l))"
  by pat_completeness auto
termination get_data_loop
  by (relation "measure (\<lambda>(len, i, cnt, _, _). len - i + cnt)") auto

declare get_data_loop.simps [simp del]

definition get_data :: "nat \<Rightarrow> u8 list \<Rightarrow> serial \<Rightarrow> nat \<times> u8 list \<times> serial" where
  "get_data len ptr l = get_data_loop len 0 1 ptr l"

section \<open>The receiver\<close>

definition BLOCKSIZE :: nat where "BLOCKSIZE = 128"

definition XMODEM_SOH :: u8 where "XMODEM_SOH = 0x01"
definition XMODEM_EOT :: u8 where "XMODEM_EOT = 0x04"
definition XMODEM_ACK :: u8 where "XMODEM_ACK = 0x06"
definition XMODEM_NAK :: u8 where "XMODEM_NAK = 0x15"
definition XMODEM_CAN :: u8 where "XMODEM_CAN = 0x18"
definition XMODEM_WAIT_CHAR :: u8 where "XMODEM_WAIT_CHAR = 0x43"

datatype xm_status = ST_WAIT_START | ST_BLOCK_OK | ST_BLOCK_FAIL | ST_OK

text \<open>\<open>strXMODEM\<close> is filled as bytes from its first field on and read by its fields.\<close>

definition xm_SOH :: "u8 list \<Rightarrow> u8" where "xm_SOH x = x ! 0"
definition xm_BlockNo :: "u8 list \<Rightarrow> u8" where "xm_BlockNo x = x ! 1"
definition xm_nBlockNo :: "u8 list \<Rightarrow> u8" where "xm_nBlockNo x = x ! 2"
definition xm_Xdata :: "u8 list \<Rightarrow> u8 list" where "xm_Xdata x = take BLOCKSIZE (drop 3 x)"
definition xm_CRC16hi :: "u8 list \<Rightarrow> u8" where "xm_CRC16hi x = x ! (BLOCKSIZE + 3)"
definition xm_CRC16lo :: "u8 list \<Rightarrow> u8" where "xm_CRC16lo x = x ! (BLOCKSIZE + 4)"

text \<open>The static variables, the locals of \<open>xmodem_transfer\<close>, the memory, and the characters sent.\<close>

record xmodem =
  strXMODEM :: "u8 list"
  STATUS :: xm_status
  BlockCount :: u8
  filesize :: u32
  xm_mem :: mem
  xm_sent :: "u8 list"

definition tgt_putchar :: "u8 \<Rightarrow> xmodem \<Rightarrow> xmodem" where
  "tgt_putchar c s = s\<lparr>xm_sent := xm_sent s @ [c]\<rparr>"

text \<open>The switch on the first byte of what arrived.\<close>

definition xm_first :: "nat \<Rightarrow> xmodem \<Rightarrow> xmodem" where
  "xm_first i s =
     (let c = xm_SOH (strXMODEM s) in
      if c = XMODEM_SOH then
        if i \<ge> BLOCKSIZE + 5 then s\<lparr>STATUS := ST_BLOCK_OK\<rparr>
        else tgt_putchar XMODEM_NAK (s\<lparr>STATUS := ST_BLOCK_FAIL\<rparr>)
      else if c = XMODEM_EOT then (tgt_putchar XMODEM_ACK s)\<lparr>STATUS := ST_OK\<rparr>
      else if c = XMODEM_CAN then (tgt_putchar XMODEM_ACK s)\<lparr>STATUS := ST_OK\<rparr>
      else (tgt_putchar XMODEM_NAK s)\<lparr>STATUS := ST_BLOCK_FAIL\<rparr>)"

text \<open>The checks of a whole packet.\<close>

definition xm_block :: "u32 \<Rightarrow> xmodem \<Rightarrow> xmodem" where
  "xm_block base s =
     (let x = strXMODEM s; crc = push_bit 8 (ucast (xm_CRC16hi x)) + ucast (xm_CRC16lo x) in
      if BlockCount s \<noteq> xm_BlockNo x then tgt_putchar XMODEM_NAK s
      else if BlockCount s \<noteq> NOT (xm_nBlockNo x) then tgt_putchar XMODEM_NAK s
      else if calcrc (xm_Xdata x) \<noteq> crc then tgt_putchar XMODEM_NAK s
      else
        let s1 = s\<lparr>xm_mem := store_bytes (xm_mem s) (base + filesize s) (xm_Xdata x), filesize := filesize s + 128\<rparr>;
            s2 = tgt_putchar XMODEM_ACK s1
        in s2\<lparr>BlockCount := BlockCount s2 + 1\<rparr>)"

definition xm_step :: "u32 \<Rightarrow> nat \<Rightarrow> xmodem \<Rightarrow> xmodem" where
  "xm_step base i s =
     (let s1 = xm_first i s in if STATUS s1 = ST_BLOCK_OK then xm_block base s1 else s1)"

text \<open>A packet is what arrives in a part of the line, and the line behind that part is left.\<close>

fun arrived :: "serial \<Rightarrow> u8 list" where
  "arrived [] = []"
| "arrived (Arrives b # l) = b # arrived l"
| "arrived (Quiet # l) = arrived l"

lemma arrived_append: "arrived (k @ l) = arrived k @ arrived l"
  by (induction k rule: arrived.induct) simp_all

lemma arrived_map: "arrived (map Arrives p) = p"
  by (induction p) simp_all

lemma get_data_loop_takes:
  assumes "get_data_loop len i cnt ptr l = (n, buf, l')"
  shows "\<exists>k. l = k @ l' \<and> n = i + length (arrived k) \<and> length buf = length ptr \<and>
    (i \<le> length ptr \<longrightarrow> len = length ptr \<longrightarrow> buf = take i ptr @ arrived k @ drop n ptr)"
  using assms
proof (induction len i cnt ptr l arbitrary: n buf l' rule: get_data_loop.induct)
  case (1 len i cnt ptr l)
  note eq = get_data_loop.simps [of len i cnt ptr l]
  have stop: ?case if "(n, buf, l') = (i, ptr, l2)" "l = k @ l2" "arrived k = []" for k l2
    using that by auto
  show ?case
  proof (cases "i < len")
    case True
    consider "l = []" | l1 where "l = Quiet # l1" | b l1 where "l = Arrives b # l1" by (metis line_event.exhaust list.exhaust)
    then show ?thesis
    proof cases
      case 1
      show ?thesis
      proof (cases "cnt = 0")
        case False
        with 1 True "1.prems" eq have "get_data_loop len i (cnt - 1) ptr [] = (n, buf, l')" by simp
        with "1.IH"(1) [OF True 1 False] 1 show ?thesis by simp
      qed (use 1 True "1.prems" eq stop [of "[]" "[]"] in simp)
    next
      case (2 l1)
      show ?thesis
      proof (cases "cnt = 0")
        case False
        with 2 True "1.prems" eq have "get_data_loop len i (cnt - 1) ptr l1 = (n, buf, l')" by simp
        with "1.IH"(3) [OF True 2 refl False] obtain k where "l1 = k @ l'" "n = i + length (arrived k)" "length buf = length ptr"
          "i \<le> length ptr \<longrightarrow> len = length ptr \<longrightarrow> buf = take i ptr @ arrived k @ drop n ptr" by blast
        with 2 show ?thesis by (intro exI [of _ "Quiet # k"]) simp
      qed (use 2 True "1.prems" eq stop [of l1 "[Quiet]"] in simp)
    next
      case (3 b l1)
      with True "1.prems" eq have "get_data_loop len (i + 1) cnt (ptr[i := b]) l1 = (n, buf, l')" by simp
      with "1.IH"(2) [OF True 3 refl] obtain k where k: "l1 = k @ l'" "n = i + 1 + length (arrived k)" "length buf = length ptr"
        "i + 1 \<le> length ptr \<longrightarrow> len = length ptr \<longrightarrow> buf = take (i + 1) (ptr[i := b]) @ arrived k @ drop n (ptr[i := b])" by auto
      have "take (i + 1) (ptr[i := b]) = take i ptr @ [b]" if "len = length ptr"
        using that True by (simp add: take_Suc_conv_app_nth)
      moreover have "drop n (ptr[i := b]) = drop n ptr" using k(2) by simp
      ultimately show ?thesis using k 3 True by (intro exI [of _ "Arrives b # k"]) auto
    qed
  qed (use "1.prems" eq stop [of l "[]"] in simp)
qed

lemma get_data_takes:
  assumes "get_data len ptr l = (n, x, l')" "length ptr = len"
  shows "\<exists>k. l = k @ l' \<and> n = length (arrived k) \<and> length x = len \<and> x = arrived k @ drop n ptr"
  using get_data_loop_takes [of len 0 1 ptr l n x l'] assms by (auto simp: get_data_def)

lemma get_data_shorter: "get_data len ptr l = (n, x, l') \<Longrightarrow> 0 < n \<Longrightarrow> length l' < length l"
  using get_data_loop_takes [of len 0 1 ptr l n x l'] by (auto simp: get_data_def)

function xmodem_loop :: "u32 \<Rightarrow> serial \<Rightarrow> xmodem \<Rightarrow> xmodem" where
  "xmodem_loop base l s =
     (if STATUS s = ST_OK then s
      else case get_data (BLOCKSIZE + 5) (strXMODEM s) l of (i, x, l') \<Rightarrow>
        if i = 0 then s\<lparr>strXMODEM := x\<rparr>
        else xmodem_loop base l' (xm_step base i (s\<lparr>strXMODEM := x\<rparr>)))"
  by pat_completeness auto
termination xmodem_loop
  by (relation "measure (\<lambda>(_, l, _). length l)") (auto intro: get_data_shorter [OF sym])

declare xmodem_loop.simps [simp del]

text \<open>The start: a request character with every poll until something arrives. Nothing is taken from the line.\<close>

fun xmodem_wait :: "serial \<Rightarrow> xmodem \<Rightarrow> (serial \<times> xmodem) option" where
  "xmodem_wait [] s = None"
| "xmodem_wait (Quiet # l) s = xmodem_wait l (tgt_putchar XMODEM_WAIT_CHAR s)"
| "xmodem_wait (Arrives b # l) s = Some (Arrives b # l, tgt_putchar XMODEM_WAIT_CHAR s)"

definition xmodem_transfer :: "u32 \<Rightarrow> serial \<Rightarrow> xmodem \<Rightarrow> (u32 \<times> xmodem) option" where
  "xmodem_transfer base l s =
     (case xmodem_wait l (s\<lparr>filesize := 0, BlockCount := 1, STATUS := ST_WAIT_START\<rparr>) of
        None \<Rightarrow> None
      | Some (l', s1) \<Rightarrow> let s2 = xmodem_loop base l' s1 in Some (filesize s2, s2))"

section \<open>Packets\<close>

text \<open>A packet as a sender makes it.\<close>

definition xm_packet :: "u8 \<Rightarrow> u8 list \<Rightarrow> u8 list" where
  "xm_packet k d = [XMODEM_SOH, k, NOT k] @ d @ [hi8 (cyg_crc16 d), lo8 (cyg_crc16 d)]"

text \<open>What the receiver takes for block \<open>k\<close>.\<close>

definition xm_valid :: "u8 \<Rightarrow> u8 list \<Rightarrow> bool" where
  "xm_valid k x \<longleftrightarrow> length x = 133 \<and> x ! 0 = XMODEM_SOH \<and> x ! 1 = k \<and> x ! 2 = NOT k \<and>
     cyg_crc16 (take 128 (drop 3 x)) = push_bit 8 (ucast (x ! 131)) + ucast (x ! 132)"

lemma calcrc_crc16: "calcrc d = ucast (cyg_crc16 d)"
  using calcrc_loop_eq [of 0 d] by (simp add: calcrc_def cyg_crc16_def)

lemma crc_bytes_of_nat: "push_bit 8 (ucast (h :: u8)) + ucast (l :: u8) = (of_nat (256 * unat h + unat l) :: 'a :: len word)"
proof -
  have "(ucast h :: 'a word) = of_nat (unat h)" "(ucast l :: 'a word) = of_nat (unat l)" by simp_all
  then show ?thesis by (simp only: push_bit_eq_mult of_nat_add of_nat_mult) simp
qed

lemma unat_crc_bytes:
  "unat (push_bit 8 (ucast (h :: u8)) + ucast (l :: u8) :: u16) = 256 * unat h + unat l"
  "unat (push_bit 8 (ucast (h :: u8)) + ucast (l :: u8) :: u32) = 256 * unat h + unat l"
proof -
  have "256 * unat h + unat l < 65536" using unat_byte_less [of h] unat_byte_less [of l] by linarith
  then show "unat (push_bit 8 (ucast h) + ucast l :: u16) = 256 * unat h + unat l"
    "unat (push_bit 8 (ucast h) + ucast l :: u32) = 256 * unat h + unat l"
    unfolding crc_bytes_of_nat by (intro unat_of_nat_less, simp)+
qed

lemma crc_bytes_inject:
  "(push_bit 8 (ucast (h :: u8)) + ucast (l :: u8) :: u16) = push_bit 8 (ucast h') + ucast l' \<Longrightarrow> h = h' \<and> l = l'"
proof -
  assume "(push_bit 8 (ucast h) + ucast l :: u16) = push_bit 8 (ucast h') + ucast l'"
  from arg_cong [OF this, of unat] have e: "256 * unat h + unat l = 256 * unat h' + unat l'" by (simp only: unat_crc_bytes)
  have d: "(256 * a + b) div 256 = a" "(256 * a + b) mod 256 = b" if "b < 256" for a b :: nat using that by simp_all
  from arg_cong [OF e, of "\<lambda>x. x div 256"] arg_cong [OF e, of "\<lambda>x. x mod 256"]
  have "unat h = unat h'" "unat l = unat l'" by (simp_all only: d unat_byte_less)
  then show ?thesis by (simp add: word_unat_eq_iff)
qed

lemma crc_bytes_eq:
  "(ucast (c :: u16) :: u32) = push_bit 8 (ucast (h :: u8)) + ucast (l :: u8) \<longleftrightarrow> c = push_bit 8 (ucast h) + ucast l"
proof -
  have "unat c < 2 ^ 16" using unsigned_less [of c] by simp
  then have "unat (of_nat (unat c) :: u32) = unat c" by (intro unat_of_nat_less) simp
  moreover have "(ucast c :: u32) = of_nat (unat c)" by simp
  ultimately have "unat (ucast c :: u32) = unat c" by metis
  then show ?thesis unfolding word_unat_eq_iff unat_crc_bytes by simp
qed

lemma xm_step_valid:
  assumes "length x = 133" "strXMODEM s = x" "STATUS s \<noteq> ST_OK"
  shows "xm_step base 133 s =
    (if x ! 0 = XMODEM_EOT \<or> x ! 0 = XMODEM_CAN then (tgt_putchar XMODEM_ACK s)\<lparr>STATUS := ST_OK\<rparr>
     else if xm_valid (BlockCount s) x then
       (tgt_putchar XMODEM_ACK s)\<lparr>STATUS := ST_BLOCK_OK, xm_mem := store_bytes (xm_mem s) (base + filesize s) (xm_Xdata x),
         filesize := filesize s + 128, BlockCount := BlockCount s + 1\<rparr>
     else (tgt_putchar XMODEM_NAK s)\<lparr>STATUS := (if x ! 0 = XMODEM_SOH then ST_BLOCK_OK else ST_BLOCK_FAIL)\<rparr>)"
  using assms
  by (auto simp: xm_step_def xm_first_def xm_block_def xm_valid_def Let_def tgt_putchar_def BLOCKSIZE_def xm_SOH_def xm_BlockNo_def
    xm_nBlockNo_def xm_Xdata_def xm_CRC16hi_def xm_CRC16lo_def XMODEM_SOH_def XMODEM_EOT_def XMODEM_CAN_def calcrc_crc16 crc_bytes_eq)

lemma hi_lo_bytes: "push_bit 8 (ucast (hi8 c)) + ucast (lo8 c) = (c :: u16)"
proof -
  have c: "unat c < 2 ^ 16" using unsigned_less [of c] by simp
  have "unat (hi8 c) = unat c div 256"
    using c by (simp add: hi8_def drop_bit_eq_div unsigned_ucast_eq unat_div_distrib take_bit_nat_eq_self)
  moreover have "unat (lo8 c) = unat c mod 256"
    by (simp add: lo8_def unsigned_ucast_eq take_bit_eq_mod)
  ultimately show ?thesis by (intro word_unat_eq_iff [THEN iffD2]) (simp only: unat_crc_bytes mult_div_mod_eq)
qed

lemma xm_packet_valid: "length d = 128 \<Longrightarrow> xm_valid k (xm_packet k d)"
  by (simp add: xm_valid_def xm_packet_def hi_lo_bytes nth_append)

lemma xm_valid_number: "xm_valid k x \<Longrightarrow> xm_valid k' x \<Longrightarrow> k = k'"
  by (simp add: xm_valid_def)

section \<open>What a session sends\<close>

text \<open>An attempt that fails: a whole packet that is not the awaited one, or one of which too little arrives.
  A first byte that ends the session is not a failure.\<close>

datatype attempt = Whole "u8 list" | Cut "u8 list"

definition ends_session :: "u8 \<Rightarrow> bool" where
  "ends_session c \<longleftrightarrow> c = XMODEM_EOT \<or> c = XMODEM_CAN"

fun attempt_line :: "attempt \<Rightarrow> serial" where
  "attempt_line (Whole p) = map Arrives p"
| "attempt_line (Cut p) = map Arrives p @ [Quiet, Quiet]"

fun attempt_fails :: "u8 \<Rightarrow> attempt \<Rightarrow> bool" where
  "attempt_fails k (Whole p) \<longleftrightarrow> length p = 133 \<and> \<not> ends_session (p ! 0) \<and> \<not> xm_valid k p"
| "attempt_fails k (Cut p) \<longleftrightarrow> p \<noteq> [] \<and> length p < 133 \<and> \<not> ends_session (p ! 0)"

text \<open>Each block of the file with the attempts that fail before it gets through, and the replies.\<close>

fun session_line :: "u8 \<Rightarrow> (attempt list \<times> u8 list) list \<Rightarrow> serial" where
  "session_line k [] = []"
| "session_line k ((bad, d) # r) = concat (map attempt_line bad) @ map Arrives (xm_packet k d) @ session_line (k + 1) r"

fun session_ok :: "u8 \<Rightarrow> (attempt list \<times> u8 list) list \<Rightarrow> bool" where
  "session_ok k [] = True"
| "session_ok k ((bad, d) # r) = (list_all (attempt_fails k) bad \<and> length d = 128 \<and> session_ok (k + 1) r)"

definition session_replies :: "(attempt list \<times> u8 list) list \<Rightarrow> u8 list" where
  "session_replies r = concat (map (\<lambda>(bad, d). replicate (length bad) XMODEM_NAK @ [XMODEM_ACK]) r)"

definition session_data :: "(attempt list \<times> u8 list) list \<Rightarrow> u8 list" where
  "session_data r = concat (map snd r)"

section \<open>Reception\<close>

lemma get_data_loop_bytes:
  "i + length p \<le> len \<Longrightarrow> len = length ptr \<Longrightarrow>
   get_data_loop len i cnt ptr (map Arrives p @ l) = get_data_loop len (i + length p) cnt (take i ptr @ p @ drop (i + length p) ptr) l"
proof (induction p arbitrary: i ptr)
  case (Cons b p)
  have "take (i + 1) (ptr[i := b]) = take i ptr @ [b]" using Cons.prems by (simp add: take_Suc_conv_app_nth)
  moreover have "drop (i + 1 + length p) (ptr[i := b]) = drop (i + 1 + length p) ptr" by simp
  ultimately show ?case
    using Cons.IH [of "i + 1" "ptr[i := b]"] Cons.prems
    by (subst get_data_loop.simps) simp
qed simp

lemma get_data_whole: "length p = length ptr \<Longrightarrow> get_data (length ptr) ptr (map Arrives p @ l) = (length p, p, l)"
  unfolding get_data_def by (subst get_data_loop_bytes) (simp_all add: get_data_loop.simps)

lemma get_data_cut:
  assumes "length p < length ptr"
  shows "get_data (length ptr) ptr (map Arrives p @ Quiet # Quiet # l) = (length p, p @ drop (length p) ptr, l)"
    "get_data (length ptr) ptr (map Arrives p) = (length p, p @ drop (length p) ptr, [])"
proof -
  let ?n = "length ptr" and ?i = "length p" and ?b = "p @ drop (length p) ptr"
  have "get_data_loop ?n ?i 1 ?b (Quiet # Quiet # l) = (?i, ?b, l)" "get_data_loop ?n ?i 1 ?b [] = (?i, ?b, [])"
    using assms by (simp_all add: get_data_loop.simps [of ?n ?i])
  then show "get_data ?n ptr (map Arrives p @ Quiet # Quiet # l) = (?i, ?b, l)" "get_data ?n ptr (map Arrives p) = (?i, ?b, [])"
    using get_data_loop_bytes [of 0 p ?n ptr 1 "Quiet # Quiet # l"] get_data_loop_bytes [of 0 p ?n ptr 1 "[]"] assms
    by (simp_all add: get_data_def)
qed

text \<open>The receiver between two packets: what it counts, what it stored and what it sent.\<close>

definition xm_at :: "xmodem \<Rightarrow> u8 \<Rightarrow> u32 \<Rightarrow> mem \<Rightarrow> u8 list \<Rightarrow> bool" where
  "xm_at s k n m out \<longleftrightarrow> STATUS s \<noteq> ST_OK \<and> length (strXMODEM s) = 133 \<and> BlockCount s = k \<and>
     filesize s = n \<and> xm_mem s = m \<and> xm_sent s = out"

lemma xmodem_loop_whole:
  assumes "xm_at s k n m out" "length p = 133"
  shows "xmodem_loop base (map Arrives p @ l) s = xmodem_loop base l (xm_step base 133 (s\<lparr>strXMODEM := p\<rparr>))"
  using assms get_data_whole [of p "strXMODEM s" l]
  by (subst xmodem_loop.simps) (simp add: xm_at_def BLOCKSIZE_def)

lemma loop_good:
  assumes "xm_at s k n m out" "length d = 128"
  shows "\<exists>s'. xmodem_loop base (map Arrives (xm_packet k d) @ l) s = xmodem_loop base l s' \<and>
    xm_at s' (k + 1) (n + 128) (store_bytes m (base + n) d) (out @ [XMODEM_ACK])"
proof -
  let ?x = "xm_packet k d"
  have len: "length ?x = 133" using assms(2) by (simp add: xm_packet_def)
  have data: "xm_Xdata ?x = d" and first: "?x ! 0 = XMODEM_SOH"
    using assms(2) by (simp_all add: xm_Xdata_def xm_packet_def BLOCKSIZE_def)
  have "xm_at (xm_step base 133 (s\<lparr>strXMODEM := ?x\<rparr>)) (k + 1) (n + 128) (store_bytes m (base + n) d) (out @ [XMODEM_ACK])"
    using assms(1) xm_packet_valid [OF assms(2), of k] data first len
    by (subst xm_step_valid [OF len]) (simp_all add: xm_at_def tgt_putchar_def XMODEM_SOH_def XMODEM_EOT_def XMODEM_CAN_def)
  then show ?thesis using xmodem_loop_whole [OF assms(1) len] by blast
qed

lemma loop_fail:
  assumes "xm_at s k n m out" "attempt_fails k a"
  shows "\<exists>s'. xmodem_loop base (attempt_line a @ l) s = xmodem_loop base l s' \<and> xm_at s' k n m (out @ [XMODEM_NAK])"
proof (cases a)
  case (Whole p)
  with assms(2) have p: "length p = 133" "\<not> ends_session (p ! 0)" "\<not> xm_valid k p" by simp_all
  have "xm_at (xm_step base 133 (s\<lparr>strXMODEM := p\<rparr>)) k n m (out @ [XMODEM_NAK])"
    using assms(1) p by (subst xm_step_valid [OF p(1)]) (auto simp: xm_at_def tgt_putchar_def ends_session_def)
  then show ?thesis using xmodem_loop_whole [OF assms(1) p(1)] Whole by auto
next
  case (Cut p)
  with assms(2) have p: "p \<noteq> []" "length p < 133" "\<not> ends_session (p ! 0)" by simp_all
  let ?x = "p @ drop (length p) (strXMODEM s)"
  let ?s = "xm_step base (length p) (s\<lparr>strXMODEM := ?x\<rparr>)"
  have "?x ! 0 = p ! 0" using p(1) by (simp add: nth_append)
  then have "xm_at ?s k n m (out @ [XMODEM_NAK])"
    using assms(1) p by (auto simp: xm_step_def xm_first_def xm_at_def Let_def tgt_putchar_def ends_session_def BLOCKSIZE_def xm_SOH_def)
  moreover have "xmodem_loop base (attempt_line a @ l) s = xmodem_loop base l ?s"
    using assms(1) p get_data_cut(1) [of p "strXMODEM s" l] Cut
    by (subst xmodem_loop.simps) (simp add: xm_at_def BLOCKSIZE_def)
  ultimately show ?thesis by blast
qed

lemma loop_fails:
  assumes "xm_at s k n m out" "list_all (attempt_fails k) bad"
  shows "\<exists>s'. xmodem_loop base (concat (map attempt_line bad) @ l) s = xmodem_loop base l s' \<and>
    xm_at s' k n m (out @ replicate (length bad) XMODEM_NAK)"
  using assms
proof (induction bad arbitrary: s out)
  case (Cons a bad)
  obtain s1 where s1: "xmodem_loop base (attempt_line a @ concat (map attempt_line bad) @ l) s =
      xmodem_loop base (concat (map attempt_line bad) @ l) s1" "xm_at s1 k n m (out @ [XMODEM_NAK])"
    using loop_fail [OF Cons.prems(1), of a] Cons.prems(2) by auto
  with Cons.IH [OF s1(2)] Cons.prems(2) show ?case by simp
qed auto

lemma session_append [simp]:
  "session_data (x # r) = snd x @ session_data r"
  "session_replies (x # r) = replicate (length (fst x)) XMODEM_NAK @ XMODEM_ACK # session_replies r"
  "session_data [] = []" "session_replies [] = []"
  by (simp_all add: session_data_def session_replies_def split_beta)

lemma loop_session:
  assumes "xm_at s k n m out" "session_ok k r"
  shows "\<exists>s'. xmodem_loop base (session_line k r @ l) s = xmodem_loop base l s' \<and>
    xm_at s' (k + of_nat (length r)) (n + of_nat (128 * length r)) (store_bytes m (base + n) (session_data r)) (out @ session_replies r)"
  using assms
proof (induction k r arbitrary: s n m out rule: session_ok.induct)
  case (2 k bad d r)
  then have ok: "list_all (attempt_fails k) bad" "length d = 128" "session_ok (k + 1) r" by simp_all
  let ?rest = "map Arrives (xm_packet k d) @ session_line (k + 1) r @ l"
  obtain s1 where s1: "xmodem_loop base (concat (map attempt_line bad) @ ?rest) s = xmodem_loop base ?rest s1"
      "xm_at s1 k n m (out @ replicate (length bad) XMODEM_NAK)" using loop_fails [OF "2.prems"(1) ok(1)] by blast
  obtain s2 where s2: "xmodem_loop base ?rest s1 = xmodem_loop base (session_line (k + 1) r @ l) s2"
      "xm_at s2 (k + 1) (n + 128) (store_bytes m (base + n) d) ((out @ replicate (length bad) XMODEM_NAK) @ [XMODEM_ACK])"
    using loop_good [OF s1(2) ok(2)] by blast
  have "base + n + 128 = base + (n + 128)" by simp
  with "2.IH" [OF s2(2) ok(3)] s1(1) s2(1) ok(2) show ?case
    by (simp add: store_bytes_append algebra_simps)
qed (auto simp: xm_at_def)

lemma xmodem_loop_done: "STATUS s = ST_OK \<Longrightarrow> xmodem_loop base l s = s"
  by (simp add: xmodem_loop.simps)

lemma loop_eot:
  assumes "xm_at s k n m out"
  shows "\<exists>s'. xmodem_loop base [Arrives XMODEM_EOT] s = s' \<and> filesize s' = n \<and> xm_mem s' = m \<and> xm_sent s' = out @ [XMODEM_ACK]"
proof -
  have g: "get_data (BLOCKSIZE + 5) (strXMODEM s) [Arrives XMODEM_EOT] = (1, [XMODEM_EOT] @ drop 1 (strXMODEM s), [])"
    using get_data_cut(2) [of "[XMODEM_EOT]" "strXMODEM s"] assms by (simp add: xm_at_def BLOCKSIZE_def)
  let ?s = "xm_step base 1 (s\<lparr>strXMODEM := [XMODEM_EOT] @ drop 1 (strXMODEM s)\<rparr>)"
  have "STATUS ?s = ST_OK" "filesize ?s = n" "xm_mem ?s = m" "xm_sent ?s = out @ [XMODEM_ACK]"
    using assms by (simp_all add: xm_step_def xm_first_def Let_def tgt_putchar_def xm_SOH_def xm_at_def XMODEM_SOH_def XMODEM_EOT_def)
  moreover have "xmodem_loop base [Arrives XMODEM_EOT] s = ?s"
    using assms g xmodem_loop_done [OF calculation(1)] by (subst xmodem_loop.simps) (simp add: xm_at_def)
  ultimately show ?thesis by simp
qed

lemma loop_silence:
  assumes "xm_at s k n m out"
  shows "xmodem_loop base [] s = s"
proof -
  have "get_data (BLOCKSIZE + 5) (strXMODEM s) [] = (0, strXMODEM s, [])"
    using get_data_cut(2) [of "[]" "strXMODEM s"] assms by (cases "strXMODEM s") (simp_all add: xm_at_def BLOCKSIZE_def)
  then show ?thesis by (subst xmodem_loop.simps) simp
qed

lemma xmodem_wait_starts:
  "l = Arrives b # l' \<Longrightarrow> xmodem_wait (replicate q Quiet @ l) s = Some (l, s\<lparr>xm_sent := xm_sent s @ replicate (q + 1) XMODEM_WAIT_CHAR\<rparr>)"
  by (induction q arbitrary: s) (simp_all add: tgt_putchar_def)

definition xm_start :: "nat \<Rightarrow> xmodem \<Rightarrow> xmodem" where
  "xm_start q s = s\<lparr>filesize := 0, BlockCount := 1, STATUS := ST_WAIT_START, xm_sent := xm_sent s @ replicate (q + 1) XMODEM_WAIT_CHAR\<rparr>"

lemma xmodem_transfer_starts:
  assumes "arrived l \<noteq> []" "\<forall>l'. l \<noteq> Quiet # l'"
  shows "xmodem_transfer base (replicate q Quiet @ l) s =
    Some (filesize (xmodem_loop base l (xm_start q s)), xmodem_loop base l (xm_start q s))"
proof -
  obtain b l' where "l = Arrives b # l'" using assms by (cases l rule: arrived.cases) auto
  then show ?thesis by (simp add: xmodem_transfer_def xmodem_wait_starts xm_start_def Let_def)
qed

lemma xm_start_at: "length (strXMODEM s) = 133 \<Longrightarrow> xm_at (xm_start q s) 1 0 (xm_mem s) (xm_sent s @ replicate (q + 1) XMODEM_WAIT_CHAR)"
  by (simp add: xm_at_def xm_start_def)

lemma session_line_first:
  assumes "session_ok k r" "\<forall>l'. t \<noteq> Quiet # l'"
  shows "\<forall>l'. session_line k r @ t \<noteq> Quiet # l'"
proof (cases r)
  case (Cons x r')
  with assms(1) have "list_all (attempt_fails k) (fst x)" by (cases x) simp
  with Cons show ?thesis
    by (cases x; cases "fst x"; cases "hd (fst x)") (auto simp: xm_packet_def neq_Nil_conv length_Suc_conv eval_nat_numeral)
qed (use assms in simp)

text \<open>A session as the start and the loop see it.\<close>

lemma transfer_session:
  assumes "length (strXMODEM s) = 133" "session_ok 1 r" "\<forall>l'. t \<noteq> Quiet # l'" "arrived (session_line 1 r @ t) \<noteq> []"
  obtains s1 where "xmodem_transfer base (replicate q Quiet @ session_line 1 r @ t) s =
      Some (filesize (xmodem_loop base t s1), xmodem_loop base t s1)"
    "xm_at s1 (1 + of_nat (length r)) (of_nat (128 * length r)) (store_bytes (xm_mem s) base (session_data r))
      (xm_sent s @ replicate (q + 1) XMODEM_WAIT_CHAR @ session_replies r)"
  using xmodem_transfer_starts [OF assms(4) session_line_first [OF assms(2,3)], of base q s]
    loop_session [OF xm_start_at [OF assms(1), of q] assms(2), of base t] by auto

text \<open>C13. A file of blocks is received whole, whatever number of attempts fails before each of its blocks gets
  through: damaged or wrong packets and packets of which a part is lost. The data is stored in order from the
  base on, every failed attempt is answered with a negative acknowledgement, every block and the end with a
  positive one, and the size is returned. The number of the blocks may pass 255.\<close>

theorem xmodem_receives:
  assumes "length (strXMODEM s) = 133" "session_ok 1 r"
  shows "\<exists>s'. xmodem_transfer base (replicate q Quiet @ session_line 1 r @ [Arrives XMODEM_EOT]) s = Some (of_nat (128 * length r), s') \<and>
    xm_mem s' = store_bytes (xm_mem s) base (session_data r) \<and>
    xm_sent s' = xm_sent s @ replicate (q + 1) XMODEM_WAIT_CHAR @ session_replies r @ [XMODEM_ACK]"
proof -
  have "\<forall>l'. [Arrives XMODEM_EOT] \<noteq> Quiet # l'" "arrived (session_line 1 r @ [Arrives XMODEM_EOT]) \<noteq> []"
    by (simp_all add: arrived_append)
  then obtain s1 where s1: "xmodem_transfer base (replicate q Quiet @ session_line 1 r @ [Arrives XMODEM_EOT]) s =
      Some (filesize (xmodem_loop base [Arrives XMODEM_EOT] s1), xmodem_loop base [Arrives XMODEM_EOT] s1)"
    "xm_at s1 (1 + of_nat (length r)) (of_nat (128 * length r)) (store_bytes (xm_mem s) base (session_data r))
      (xm_sent s @ replicate (q + 1) XMODEM_WAIT_CHAR @ session_replies r)"
    using transfer_session [OF assms] by blast
  with loop_eot [OF s1(2), of base] show ?thesis by simp
qed

definition demo_xm :: xmodem where
  "demo_xm = \<lparr>strXMODEM = replicate 133 0, STATUS = ST_OK, BlockCount = 0, filesize = 0, xm_mem = (\<lambda>_. 0), xm_sent = []\<rparr>"

theorem xmodem_receives_witness:
  "\<exists>s'. xmodem_transfer 0x84000000 (Quiet # map Arrives [1, 1, 7] @ [Quiet, Quiet] @
      map Arrives (xm_packet 1 (replicate 128 42)) @ [Arrives XMODEM_EOT]) demo_xm = Some (128, s') \<and>
    xm_mem s' = store_bytes (\<lambda>_. 0) 0x84000000 (replicate 128 42) \<and>
    xm_sent s' = [XMODEM_WAIT_CHAR, XMODEM_WAIT_CHAR, XMODEM_NAK, XMODEM_ACK, XMODEM_ACK]"
  using xmodem_receives [where s = demo_xm and r = "[([Cut [1, 1, 7]], replicate 128 42)]" and base = "0x84000000" and q = 1]
  by (simp add: demo_xm_def ends_session_def XMODEM_EOT_def XMODEM_CAN_def)

lemma session_last: "session_ok k r \<Longrightarrow> r \<noteq> [] \<Longrightarrow> length (snd (last r)) = 128"
  by (induction k r rule: session_ok.induct) auto

text \<open>C36. When the acknowledgement of a block is lost and the sender sends the block again, the receiver refuses
  it: the last block is answered with a negative acknowledgement however often it comes, none of the copies is
  ever acknowledged, and the transfer ends when the sender gives up.\<close>

theorem xmodem_lost_ack:
  assumes "length (strXMODEM s) = 133" "session_ok 1 r" "r \<noteq> []"
    and "again = map Arrives (xm_packet (of_nat (length r)) (snd (last r)))"
  shows "\<exists>s'. xmodem_transfer base (replicate q Quiet @ session_line 1 r @ concat (replicate n again)) s = Some (of_nat (128 * length r), s') \<and>
    xm_sent s' = xm_sent s @ replicate (q + 1) XMODEM_WAIT_CHAR @ session_replies r @ replicate n XMODEM_NAK"
proof -
  let ?p = "xm_packet (of_nat (length r)) (snd (last r))"
  have len: "length (snd (last r)) = 128" using assms(2,3) by (rule session_last)
  then have "\<not> xm_valid (1 + of_nat (length r)) ?p" using xm_valid_number [OF xm_packet_valid [OF len]] by fastforce
  with len have bad: "list_all (attempt_fails (1 + of_nat (length r))) (replicate n (Whole ?p))"
    by (simp add: list_all_iff ends_session_def) (simp add: xm_packet_def XMODEM_SOH_def XMODEM_EOT_def XMODEM_CAN_def)
  have l: "concat (replicate n again) = concat (map attempt_line (replicate n (Whole ?p)))" by (simp add: assms(4))
  have "\<forall>l'. concat (replicate n again) \<noteq> Quiet # l'" unfolding assms(4) by (cases n) (simp_all add: xm_packet_def)
  moreover have "arrived (session_line 1 r @ concat (replicate n again)) \<noteq> []"
    using assms(3) by (cases r) (auto simp: arrived_append xm_packet_def)
  ultimately obtain s1 where s1: "xmodem_transfer base (replicate q Quiet @ session_line 1 r @ concat (replicate n again)) s =
      Some (filesize (xmodem_loop base (concat (replicate n again)) s1), xmodem_loop base (concat (replicate n again)) s1)"
    "xm_at s1 (1 + of_nat (length r)) (of_nat (128 * length r)) (store_bytes (xm_mem s) base (session_data r))
      (xm_sent s @ replicate (q + 1) XMODEM_WAIT_CHAR @ session_replies r)"
    using transfer_session [OF assms(1,2)] by blast
  from loop_fails [OF s1(2) bad, of base "[]"] obtain s2 where
    s2: "xmodem_loop base (concat (replicate n again)) s1 = xmodem_loop base [] s2"
      "xm_at s2 (1 + of_nat (length r)) (of_nat (128 * length r)) (store_bytes (xm_mem s) base (session_data r))
      ((xm_sent s @ replicate (q + 1) XMODEM_WAIT_CHAR @ session_replies r) @ replicate n XMODEM_NAK)"
    unfolding l by auto
  with s1(1) loop_silence [OF s2(2)] show ?thesis by (auto simp: xm_at_def)
qed

theorem xmodem_lost_ack_witness:
  "\<exists>s'. xmodem_transfer 0x84000000 (map Arrives (xm_packet 1 (replicate 128 42)) @
      map Arrives (xm_packet 1 (replicate 128 42)) @ map Arrives (xm_packet 1 (replicate 128 42))) demo_xm = Some (128, s') \<and>
    xm_sent s' = [XMODEM_WAIT_CHAR, XMODEM_ACK, XMODEM_NAK, XMODEM_NAK]"
  using xmodem_lost_ack [where s = demo_xm and r = "[([], replicate 128 42)]" and base = "0x84000000" and q = 0 and n = 2]
  by (simp add: demo_xm_def numeral_2_eq_2)

section \<open>What is stored\<close>

lemma xm_step_cases:
  assumes "length (strXMODEM s) = 133" "s' = xm_step base i s"
  shows "strXMODEM s' = strXMODEM s \<and>
    (133 \<le> i \<and> xm_valid (BlockCount s) (strXMODEM s) \<and> filesize s' = filesize s + 128 \<and> BlockCount s' = BlockCount s + 1 \<and>
        xm_mem s' = store_bytes (xm_mem s) (base + filesize s) (xm_Xdata (strXMODEM s)) \<or>
     filesize s' = filesize s \<and> BlockCount s' = BlockCount s \<and> xm_mem s' = xm_mem s)"
  unfolding assms(2) using assms(1)
  by (auto simp: xm_step_def xm_first_def xm_block_def xm_valid_def Let_def tgt_putchar_def BLOCKSIZE_def xm_SOH_def xm_BlockNo_def
    xm_nBlockNo_def xm_Xdata_def xm_CRC16hi_def xm_CRC16lo_def calcrc_crc16 crc_bytes_eq)

lemma length_xm_Xdata: "xm_valid k x \<Longrightarrow> length (xm_Xdata x) = 128"
  by (simp add: xm_valid_def xm_Xdata_def BLOCKSIZE_def)

text \<open>The packets that were stored, numbered from the count on, came over the line in this order.\<close>

definition xm_stored :: "u32 \<Rightarrow> serial \<Rightarrow> xmodem \<Rightarrow> xmodem \<Rightarrow> u8 list list \<Rightarrow> bool" where
  "xm_stored base l s s' ps \<longleftrightarrow>
     filesize s' = filesize s + of_nat (128 * length ps) \<and>
     xm_mem s' = store_bytes (xm_mem s) (base + filesize s) (concat (map xm_Xdata ps)) \<and>
     (\<forall>i < length ps. xm_valid (BlockCount s + of_nat i) (ps ! i)) \<and> subseq (concat ps) (arrived l)"

lemma xm_stored_Nil: "filesize s' = filesize s \<Longrightarrow> xm_mem s' = xm_mem s \<Longrightarrow> xm_stored base l s s' []"
  by (simp add: xm_stored_def)

lemma xm_stored_Cons:
  assumes "xm_stored base l s1 s' ps" "xm_valid (BlockCount s) x" "filesize s1 = filesize s + 128" "BlockCount s1 = BlockCount s + 1"
    "xm_mem s1 = store_bytes (xm_mem s) (base + filesize s) (xm_Xdata x)" "x = arrived k"
  shows "xm_stored base (k @ l) s s' (x # ps)"
  unfolding xm_stored_def
proof (intro conjI)
  show "filesize s' = filesize s + of_nat (128 * length (x # ps))" using assms(1,3) by (simp add: xm_stored_def)
  have "base + filesize s + 128 = base + (filesize s + 128)" by simp
  then show "xm_mem s' = store_bytes (xm_mem s) (base + filesize s) (concat (map xm_Xdata (x # ps)))"
    using assms(1,3,5) length_xm_Xdata [OF assms(2)] by (simp add: xm_stored_def store_bytes_append algebra_simps)
  show "\<forall>i < length (x # ps). xm_valid (BlockCount s + of_nat i) ((x # ps) ! i)"
    using assms(1,2,4) by (auto simp: xm_stored_def nth_Cons algebra_simps split: nat.split)
  show "subseq (concat (x # ps)) (arrived (k @ l))"
    using assms(1,6) by (simp add: xm_stored_def arrived_append subseq_append')
qed

lemma xm_stored_skip: "xm_stored base l s s' ps \<Longrightarrow> xm_stored base (k @ l) s s' ps"
  by (auto simp: xm_stored_def arrived_append)

lemma xmodem_loop_stored:
  "length (strXMODEM s) = 133 \<Longrightarrow> \<exists>ps. xm_stored base l s (xmodem_loop base l s) ps"
proof (induction base l s rule: xmodem_loop.induct)
  case (1 base l s)
  obtain i x l' where g: "get_data (BLOCKSIZE + 5) (strXMODEM s) l = (i, x, l')" by (metis prod_cases3)
  show ?case
  proof (cases "STATUS s = ST_OK \<or> i = 0")
    case True
    with g show ?thesis by (subst xmodem_loop.simps) (auto intro!: exI [of _ "[]"] xm_stored_Nil)
  next
    case False
    let ?t = "s\<lparr>strXMODEM := x\<rparr>" and ?s = "xm_step base i (s\<lparr>strXMODEM := x\<rparr>)"
    from g "1.prems" have g133: "get_data 133 (strXMODEM s) l = (i, x, l')" by (simp add: BLOCKSIZE_def)
    from get_data_takes [OF this "1.prems"] obtain k where
      k: "l = k @ l'" "i = length (arrived k)" and len: "length x = 133" and x: "x = arrived k @ drop i (strXMODEM s)" by blast
    from False g have eq: "xmodem_loop base l s = xmodem_loop base l' ?s" by (subst xmodem_loop.simps) simp
    have c: "length (strXMODEM ?t) = 133" using len by simp
    note step = xm_step_cases [OF c refl, of base i]
    have "length (strXMODEM ?s) = 133" using step len by simp
    with "1.IH" g False obtain ps where ps: "xm_stored base l' ?s (xmodem_loop base l' ?s) ps" by fastforce
    show ?thesis
    proof (cases "filesize ?s = filesize s \<and> BlockCount ?s = BlockCount s \<and> xm_mem ?s = xm_mem s")
      case True
      then have "xm_stored base l' s (xmodem_loop base l' ?s) ps" using ps by (simp add: xm_stored_def)
      then have "xm_stored base l s (xmodem_loop base l' ?s) ps" unfolding k(1) by (rule xm_stored_skip)
      then show ?thesis unfolding eq by blast
    next
      case False
      with step have st: "133 \<le> i" "xm_valid (BlockCount s) x" "filesize ?s = filesize s + 128" "BlockCount ?s = BlockCount s + 1"
        "xm_mem ?s = store_bytes (xm_mem s) (base + filesize s) (xm_Xdata x)" by auto
      have "x = arrived k" using k(2) x st(1) "1.prems" by simp
      from xm_stored_Cons [OF ps st(2-5) this] have "xm_stored base l s (xmodem_loop base l' ?s) (x # ps)" unfolding k(1) .
      then show ?thesis unfolding eq by blast
    qed
  qed
qed

lemma xmodem_wait_line:
  "xmodem_wait l s = Some (l', s') \<Longrightarrow> arrived l' = arrived l \<and>
     filesize s' = filesize s \<and> BlockCount s' = BlockCount s \<and> strXMODEM s' = strXMODEM s \<and> xm_mem s' = xm_mem s"
  by (induction l s rule: xmodem_wait.induct) (auto simp: tgt_putchar_def)

text \<open>C20. Whatever comes over the line, memory changes only by the data of whole packets that pass every check,
  numbered without a gap from 1, in the order in which their bytes came over the line, and the size returned counts them.\<close>

theorem xmodem_stores_checked:
  assumes "length (strXMODEM s) = 133" "xmodem_transfer base l s = Some (n, s')"
  shows "\<exists>ps. n = of_nat (128 * length ps) \<and> xm_mem s' = store_bytes (xm_mem s) base (concat (map xm_Xdata ps)) \<and>
    (\<forall>i < length ps. xm_valid (of_nat (i + 1)) (ps ! i)) \<and> subseq (concat ps) (arrived l)"
proof -
  let ?t = "s\<lparr>filesize := 0, BlockCount := 1, STATUS := ST_WAIT_START\<rparr>"
  obtain l1 s1 where w: "xmodem_wait l ?t = Some (l1, s1)" "s' = xmodem_loop base l1 s1" "n = filesize s'"
    using assms(2) by (auto simp: xmodem_transfer_def Let_def split: option.splits)
  note s1 = xmodem_wait_line [OF w(1)]
  have "length (strXMODEM s1) = 133" using s1 assms(1) by simp
  from xmodem_loop_stored [OF this, of base l1] obtain ps where "xm_stored base l1 s1 s' ps" unfolding w(2) by blast
  then show ?thesis using s1 w(3) unfolding xm_stored_def by (intro exI [of _ ps]) simp
qed

theorem xmodem_stores_checked_witness:
  "\<exists>ps n s'. xmodem_transfer 0x84000000 (map Arrives ([1, 1, 254] @ replicate 130 0) @ map Arrives [XMODEM_EOT]) demo_xm = Some (n, s') \<and>
     n = of_nat (128 * length ps) \<and> subseq (concat ps) ([1, 1, 254] @ replicate 130 0 @ [XMODEM_EOT])"
proof -
  let ?l = "map Arrives ([1, 1, 254] @ replicate 130 0) @ map Arrives [XMODEM_EOT]"
  obtain n s' where t: "xmodem_transfer 0x84000000 ?l demo_xm = Some (n, s')" by (simp add: xmodem_transfer_def Let_def)
  have "arrived ?l = [1, 1, 254] @ replicate 130 0 @ [XMODEM_EOT]" by (simp only: arrived_append arrived_map append.assoc)
  with xmodem_stores_checked [OF _ t] t show ?thesis by (auto simp: demo_xm_def)
qed

section \<open>Damaged packets\<close>

lemma crc16_differs: "b \<noteq> b' \<Longrightarrow> cyg_crc16 (p @ b # q) \<noteq> cyg_crc16 (p @ b' # q)"
  by (simp add: cyg_crc16_def crc16_loop_append) (metis crc16_loop_inj crc16_step_inj_byte)

text \<open>One damaged byte behind the first is enough for a packet to be refused: the receiver asks for it again
  and keeps its count, its size and the memory.\<close>

theorem xmodem_one_byte:
  assumes "length d = 128" "0 < j" "j < 133" "b \<noteq> xm_packet k d ! j"
    and "strXMODEM s = (xm_packet k d)[j := b]" "BlockCount s = k" "STATUS s \<noteq> ST_OK"
  shows "xm_step base 133 s = (tgt_putchar XMODEM_NAK s)\<lparr>STATUS := ST_BLOCK_OK\<rparr>"
proof -
  let ?p = "xm_packet k d" and ?x = "(xm_packet k d)[j := b]"
  have v: "xm_valid k ?p" by (rule xm_packet_valid [OF assms(1)])
  then have len: "length ?x = 133" by (simp add: xm_valid_def)
  have first: "?x ! 0 = XMODEM_SOH" using assms(2) by (cases j) (simp_all add: xm_packet_def)
  have "\<not> xm_valid k ?x"
  proof
    assume x: "xm_valid k ?x"
    consider "j = 1" | "j = 2" | "3 \<le> j" "j < 131" | "j = 131" | "j = 132" using assms(2,3) by linarith
    then show False
    proof cases
      case 3
      define i where "i = j - 3"
      have i: "j = Suc (Suc (Suc i))" "i < 128" using 3 by (simp_all add: i_def)
      have "?x = [XMODEM_SOH, k, NOT k] @ d[i := b] @ [hi8 (cyg_crc16 d), lo8 (cyg_crc16 d)]"
        using assms(1) i by (simp add: xm_packet_def list_update_append)
      then have "take 128 (drop 3 ?x) = d[i := b]" "?x ! 131 = ?p ! 131" "?x ! 132 = ?p ! 132" "b \<noteq> d ! i"
        using assms(1,4) i by (simp_all add: xm_packet_def nth_append)
      moreover have "take 128 (drop 3 ?p) = d" using assms(1) by (simp add: xm_packet_def)
      ultimately have "cyg_crc16 (d[i := b]) = cyg_crc16 d" using x v by (simp add: xm_valid_def)
      moreover have "d = take i d @ d ! i # drop (Suc i) d" using i assms(1) by (simp add: id_take_nth_drop)
      moreover have "d[i := b] = take i d @ b # drop (Suc i) d" using i assms(1) by (simp add: upd_conv_take_nth_drop)
      ultimately show False using crc16_differs [of b "d ! i"] \<open>b \<noteq> d ! i\<close> by metis
    next
      case 4
      with x v have "(push_bit 8 (ucast b) + ucast (?p ! 132) :: u16) = push_bit 8 (ucast (?p ! 131)) + ucast (?p ! 132)"
        by (simp add: xm_valid_def drop_update_swap)
      with crc_bytes_inject 4 assms(4) show False by blast
    next
      case 5
      with x v have "(push_bit 8 (ucast (?p ! 131)) + ucast b :: u16) = push_bit 8 (ucast (?p ! 131)) + ucast (?p ! 132)"
        by (simp add: xm_valid_def drop_update_swap)
      with crc_bytes_inject 5 assms(4) show False by blast
    qed (use x v assms(4) in \<open>auto simp: xm_valid_def\<close>)
  qed
  with xm_step_valid [OF len assms(5,7)] first assms(6) show ?thesis
    by (simp add: XMODEM_SOH_def XMODEM_EOT_def XMODEM_CAN_def)
qed

theorem xmodem_one_byte_witness:
  "xm_step 0x84000000 133 (demo_xm\<lparr>strXMODEM := (xm_packet 1 (replicate 128 42))[5 := 43], BlockCount := 1, STATUS := ST_BLOCK_OK\<rparr>) =
    (tgt_putchar XMODEM_NAK (demo_xm\<lparr>strXMODEM := (xm_packet 1 (replicate 128 42))[5 := 43], BlockCount := 1, STATUS := ST_BLOCK_OK\<rparr>))\<lparr>STATUS := ST_BLOCK_OK\<rparr>"
proof (rule xmodem_one_byte)
  show "43 \<noteq> xm_packet 1 (replicate 128 42) ! 5" by (simp add: xm_packet_def nth_append)
qed simp_all

end
