(* ===== verification/Printf.thy ===== *)
theory Printf
  imports Number
begin

text \<open>
  The formatted output of the library (\<^verbatim>\<open>lib/libc/vsprintf.c\<close>, \<^verbatim>\<open>sprintf.c\<close>, \<^verbatim>\<open>vfprintf.c\<close>),
  configured without floating point. The text grows without a bound: the size of the destination is the
  caller's business, as in the code. The lemmas show that a format made of literal text
  and conversions prints the text with each conversion replaced by its argument, padded and cut.
\<close>

section \<open>The conversions\<close>

datatype va = Va_int u32 | Va_quad u64 | Va_str "cstr option"

record spec =
  sp_fmt :: fmt
  sp_width :: int
  sp_trunc :: int
  sp_dot :: bool

definition spec_start :: spec where
  "spec_start = \<lparr>sp_fmt = FMT_RJUST, sp_width = 0, sp_trunc = 0, sp_dot = False\<rparr>"

definition set_number :: "int \<Rightarrow> spec \<Rightarrow> spec" where
  "set_number n sp = (if sp_dot sp then sp\<lparr>sp_trunc := n\<rparr> else sp\<lparr>sp_width := n\<rparr>)"

definition conv_letter :: "char \<Rightarrow> bool" where
  "conv_letter c \<longleftrightarrow> strchr ''diobpxXulscefg%'' c \<noteq> None"

text \<open>A flag, a width or a precision; other characters are skipped. No result stands for an argument of
  another type, and for a number that overruns the 40 bytes of \<open>tmp\<close>.\<close>

definition vs_step :: "char \<Rightarrow> cstr \<Rightarrow> spec \<Rightarrow> va list \<Rightarrow> (cstr \<times> spec \<times> va list) option" where
  "vs_step c s sp ap =
     (if c = CHR ''-'' then Some (s, sp\<lparr>sp_fmt := FMT_LJUST\<rparr>, ap)
      else if c = CHR ''0'' then Some (s, sp\<lparr>sp_fmt := FMT_RJUST0\<rparr>, ap)
      else if c = CHR ''~'' then Some (s, sp\<lparr>sp_fmt := FMT_CENTER\<rparr>, ap)
      else if c = CHR ''*'' then
        (case ap of Va_int n # ap' \<Rightarrow> Some (s, set_number (sint n) sp, ap') | _ \<Rightarrow> None)
      else if uchar CHR ''1'' \<le> uchar c \<and> uchar c \<le> uchar CHR ''9'' then
        (let t = takeWhile isdigit (c # s) in
         if length t \<ge> 40 then None
         else map_option (\<lambda>n. (dropWhile isdigit s, set_number (sint n) sp, ap)) (atob t 10))
      else if c = CHR ''.'' then Some (s, sp\<lparr>sp_dot := True\<rparr>, ap)
      else Some (s, sp, ap))"

lemma vs_step_length: "vs_step c s sp ap = Some (s', sp', ap') \<Longrightarrow> length s' \<le> length s"
  unfolding vs_step_def Let_def
  by (auto simp: length_dropWhile_le split: if_split_asm option.split_asm list.split_asm va.split_asm)

text \<open>Up to the letter of the conversion, or the end of the format.\<close>

function vs_spec :: "cstr \<Rightarrow> spec \<Rightarrow> va list \<Rightarrow> (spec \<times> cstr \<times> va list) option" where
  "vs_spec [] sp ap = Some (sp, [], ap)"
| "vs_spec (c # s) sp ap =
     (if conv_letter c then Some (sp, c # s, ap)
      else case vs_step c s sp ap of None \<Rightarrow> None | Some (s', sp', ap') \<Rightarrow> vs_spec s' sp' ap')"
  by pat_completeness auto
termination vs_spec
  by (relation "measure (\<lambda>(s, _, _). length s)") (auto dest: vs_step_length)

text \<open>The base of a number.\<close>

definition conv_base :: "char \<Rightarrow> int option" where
  "conv_base c =
     (if c = CHR ''d'' \<or> c = CHR ''i'' then Some (- 10) else if c = CHR ''u'' then Some 10
      else if c = CHR ''x'' \<or> c = CHR ''X'' then Some 16 else if c = CHR ''p'' then Some 16
      else if c = CHR ''o'' then Some 8 else if c = CHR ''b'' then Some 2 else None)"

definition vs_number :: "char \<Rightarrow> bool \<Rightarrow> va list \<Rightarrow> (cstr \<times> va list) option" where
  "vs_number c longlong ap =
     (case conv_base c of
        None \<Rightarrow> None
      | Some base \<Rightarrow>
          (case (if longlong then (case ap of Va_quad v # ap' \<Rightarrow> map_option (\<lambda>t. (t, ap')) (llbtoa v base) | _ \<Rightarrow> None)
                 else (case ap of Va_int v # ap' \<Rightarrow> map_option (\<lambda>t. (t, ap')) (btoa v base) | _ \<Rightarrow> None)) of
             None \<Rightarrow> None
           | Some (t, ap') \<Rightarrow> Some (if c = CHR ''X'' then strtoupper t else t, ap')))"

text \<open>One conversion: what is put before the field, the field, and what is left. Without floating point \<open>e\<close>,
  \<open>f\<close> and \<open>g\<close> leave in the field what the buffer held, and a format that ends inside a conversion
  is read on behind its end: neither has a result.\<close>

definition vs_conv :: "char \<Rightarrow> cstr \<Rightarrow> spec \<Rightarrow> va list \<Rightarrow> (cstr \<times> cstr \<times> spec \<times> cstr \<times> va list) option" where
  "vs_conv c s sp ap =
     (if c = CHR ''%'' then Some (''%'', [], sp, s, ap)
      else if c = CHR ''s'' then
        (case ap of Va_str p # ap' \<Rightarrow> Some ([], case p of None \<Rightarrow> ''(null)'' | Some t \<Rightarrow> t, sp, s, ap') | _ \<Rightarrow> None)
      else if c = CHR ''c'' then
        (case ap of Va_int n # ap' \<Rightarrow> Some ([], cstr_of [char_of (unat (ucast n :: u8))], sp, s, ap') | _ \<Rightarrow> None)
      else
        let (longlong, r) =
              (if c = CHR ''l'' then
                 if s \<noteq> [] \<and> hd s = CHR ''l'' then (True, tl s) else (False, s)
               else (False, c # s)) in
        case r of
          [] \<Rightarrow> None
        | c' # s' \<Rightarrow>
            (case vs_number c' longlong ap of
               None \<Rightarrow> None
             | Some (t, ap') \<Rightarrow>
                 if c' = CHR ''p'' then Some (''0x'', t, sp\<lparr>sp_fmt := FMT_RJUST0, sp_width := 8\<rparr>, s', ap')
                 else Some ([], t, sp, s', ap')))"

text \<open>Cutting at the precision and padding. The code cuts by writing a \<open>NUL\<close> at \<open>d[trunc]\<close>, also when the text is
  shorter: this changes no byte of the text, which is what is modelled, but one byte of the destination behind it.\<close>

definition vs_field :: "spec \<Rightarrow> cstr \<Rightarrow> cstr" where
  "vs_field sp t =
     (let t1 = (if sp_trunc sp \<noteq> 0 then take (nat (sp_trunc sp)) t else t)
      in if sp_width sp \<noteq> 0 then str_fmt t1 (sp_width sp) (sp_fmt sp) else t1)"

section \<open>The format\<close>

lemma vs_spec_length: "vs_spec s sp ap = Some (sp', s', ap') \<Longrightarrow> length s' \<le> length s"
proof (induction s sp ap rule: vs_spec.induct)
  case (2 c s sp ap)
  then show ?case by (fastforce dest: vs_step_length split: if_splits option.splits)
qed simp

lemma vs_conv_length: "vs_conv c s sp ap = Some (pre, t, sp', s', ap') \<Longrightarrow> length s' \<le> length s"
  by (auto simp: vs_conv_def Let_def neq_Nil_conv split: if_splits option.splits list.splits va.splits)

function vsprintf_loop :: "cstr \<Rightarrow> cstr \<Rightarrow> va list \<Rightarrow> cstr option" where
  "vsprintf_loop d [] ap = Some d"
| "vsprintf_loop d (x # s) ap =
     (if x = CHR ''%'' then
        (case vs_spec s spec_start ap of
           None \<Rightarrow> None
         | Some (sp, r, ap1) \<Rightarrow>
             (case r of
                [] \<Rightarrow> None
              | c # s1 \<Rightarrow>
                  (case vs_conv c s1 sp ap1 of
                     None \<Rightarrow> None
                   | Some (pre, t, sp1, s2, ap2) \<Rightarrow>
                       if sp_trunc sp1 < 0 then None
                       else vsprintf_loop (d @ pre @ vs_field sp1 t) s2 ap2)))
      else vsprintf_loop (d @ [x]) s ap)"
  by pat_completeness auto
termination vsprintf_loop
proof (relation "measure (\<lambda>(_, s, _). length s)", goal_cases)
  case (2 d x s ap q sp r1 r ap1 c s1 q1 pre r2 t r3 sp1 r4 s2 ap2)
  then have "length (c # s1) \<le> length s" using vs_spec_length by metis
  moreover have "length s2 \<le> length s1" using 2 vs_conv_length by metis
  ultimately show ?case by simp
qed simp_all

text \<open>The text that \<open>vsprintf\<close> leaves in the buffer; its result is the length of the text.\<close>

definition vsprintf :: "cstr \<Rightarrow> va list \<Rightarrow> cstr option" where
  "vsprintf s ap = vsprintf_loop [] s ap"

text \<open>\<open>snprintf\<close> does not look at the size it is given.\<close>

definition snprintf :: "u32 \<Rightarrow> cstr \<Rightarrow> va list \<Rightarrow> cstr option" where
  "snprintf maxlen s ap = vsprintf s ap"

text \<open>What \<open>vfprintf\<close> writes to the stream, formatted in 1024 bytes on the stack.\<close>

definition vfprintf :: "cstr \<Rightarrow> va list \<Rightarrow> cstr option" where
  "vfprintf s ap = (case vsprintf s ap of None \<Rightarrow> None | Some t \<Rightarrow> if length t < 1024 then Some t else None)"

section \<open>Numbers as text\<close>

definition digits_of :: "nat \<Rightarrow> nat \<Rightarrow> cstr" where
  "digits_of b n = (if n = 0 then ''0'' else nat_digits b n)"

definition int_digits :: "int \<Rightarrow> cstr" where
  "int_digits i = (if i < 0 then CHR ''-'' # nat_digits 10 (nat (- i)) else digits_of 10 (nat i))"

lemma sint_split:
  fixes v :: "'a::len word"
  shows "sint v = (if bit v (LENGTH('a) - 1) then int (unat v) - 2 ^ LENGTH('a) else int (unat v))"
proof -
  have "take_bit LENGTH('a) (uint v) = uint v" by (rule take_bit_int_eq_self) simp_all
  then show ?thesis
    using signed_take_bit_eq_take_bit_minus [of "LENGTH('a) - 1" "uint v"] by (simp add: sint_uint bit_uint_iff)
qed

lemma unat_neg:
  fixes v :: "'a::len word"
  assumes "bit v (LENGTH('a) - 1)"
  shows "unat (NOT v + 1) = nat (- sint v)" "sint v < 0"
proof -
  have lt: "int (unat v) < 2 ^ LENGTH('a)" by simp
  from assms have "v \<noteq> 0" by auto
  then have "uint v mod 2 ^ LENGTH('a) \<noteq> 0" by (simp add: uint_0_iff)
  then have "(- uint v) mod 2 ^ LENGTH('a) = 2 ^ LENGTH('a) - uint v" by (simp add: zmod_zminus1_eq_if)
  then have "uint (NOT v + 1) = 2 ^ LENGTH('a) - int (unat v)"
    by (simp add: minus_eq_not_plus_1 [symmetric] uint_word_ariths)
  then show "unat (NOT v + 1) = nat (- sint v)" using sint_split [of v] assms by (simp only: unat_eq_nat_uint) simp
  show "sint v < 0" using sint_split [of v] assms lt by simp
qed

lemma unat_base:
  assumes "b \<le> 16" "LENGTH('a::len) > 4"
  shows "unat (of_nat b :: 'a word) = b"
proof -
  have "(16::nat) < 2 ^ LENGTH('a)" using assms(2) power_strict_increasing [of 4 "LENGTH('a)" "2::nat"] by simp
  with assms(1) show ?thesis by (simp add: unat_of_nat_less)
qed

lemma btoa_unsigned:
  assumes "2 \<le> b" "b \<le> 16" "LENGTH('a) > 4"
  shows "btoa_word (w :: 'a::len word) (int b) = Some (digits_of b (unat w))"
  using btoa_digits_nat_digits [of "of_nat b" w] assms(1,2) unat_base [OF assms(2,3)]
  by (simp add: btoa_word_def digits_of_def unat_eq_0)

lemma btoa_signed:
  assumes "LENGTH('a) > 4"
  shows "btoa_word (w :: 'a::len word) (- 10) = Some (int_digits (sint w))"
proof -
  have ten: "unat (10 :: 'a word) = 10" using unat_base [OF _ assms, of 10] by simp
  show ?thesis
  proof (cases "bit w (LENGTH('a) - 1)")
    case True
    then have "w \<noteq> 0" by auto
    with True unat_neg [OF True] btoa_digits_nat_digits [of 10 "NOT w + 1"] ten show ?thesis
      by (simp add: btoa_word_def Let_def int_digits_def)
  next
    case False
    then show ?thesis using sint_split [of w] btoa_digits_nat_digits [of 10 w] ten
      by (simp add: btoa_word_def Let_def int_digits_def digits_of_def unat_eq_0)
  qed
qed

section \<open>Formats\<close>

text \<open>A format as its items: literal text, and conversions with a flag, a width and a precision, together with
  the argument that belongs to each. The number 0 stands for no width and no precision.\<close>

datatype item =
    Lit cstr
  | Percent
  | Num fmt nat nat char u32
  | Quad fmt nat nat char u64
  | Str fmt nat nat "cstr option"

definition flag_text :: "fmt \<Rightarrow> cstr" where
  "flag_text f = (case f of FMT_RJUST \<Rightarrow> [] | FMT_LJUST \<Rightarrow> ''-'' | FMT_RJUST0 \<Rightarrow> ''0'' | FMT_CENTER \<Rightarrow> ''~'')"

definition spec_text :: "fmt \<Rightarrow> nat \<Rightarrow> nat \<Rightarrow> cstr" where
  "spec_text f w p = flag_text f @ nat_digits 10 w @ (if p = 0 then [] else CHR ''.'' # nat_digits 10 p)"

fun item_format :: "item \<Rightarrow> cstr" where
  "item_format (Lit t) = t"
| "item_format Percent = ''%%''"
| "item_format (Num f w p c v) = CHR ''%'' # spec_text f w p @ [c]"
| "item_format (Quad f w p c v) = CHR ''%'' # spec_text f w p @ [CHR ''l'', CHR ''l'', c]"
| "item_format (Str f w p t) = CHR ''%'' # spec_text f w p @ ''s''"

fun item_args :: "item \<Rightarrow> va list" where
  "item_args (Num f w p c v) = [Va_int v]"
| "item_args (Quad f w p c v) = [Va_quad v]"
| "item_args (Str f w p t) = [Va_str t]"
| "item_args _ = []"

definition number_text :: "char \<Rightarrow> 'a::len word \<Rightarrow> cstr" where
  "number_text c v =
     (if c = CHR ''d'' \<or> c = CHR ''i'' then int_digits (sint v)
      else if c = CHR ''u'' then digits_of 10 (unat v)
      else if c = CHR ''x'' then digits_of 16 (unat v)
      else if c = CHR ''X'' then map toupper (digits_of 16 (unat v))
      else if c = CHR ''o'' then digits_of 8 (unat v)
      else digits_of 2 (unat v))"

definition padded :: "fmt \<Rightarrow> nat \<Rightarrow> nat \<Rightarrow> cstr \<Rightarrow> cstr" where
  "padded f w p t =
     (let u = (if p = 0 then t else take p t) in if w = 0 then u else str_fmt u (int w) f)"

fun item_text :: "item \<Rightarrow> cstr" where
  "item_text (Lit t) = t"
| "item_text Percent = ''%''"
| "item_text (Num f w p c v) = padded f w p (number_text c v)"
| "item_text (Quad f w p c v) = padded f w p (number_text c v)"
| "item_text (Str f w p t) = padded f w p (case t of None \<Rightarrow> ''(null)'' | Some u \<Rightarrow> u)"

fun item_ok :: "item \<Rightarrow> bool" where
  "item_ok (Lit t) \<longleftrightarrow> CHR ''%'' \<notin> set t"
| "item_ok Percent \<longleftrightarrow> True"
| "item_ok (Num f w p c v) \<longleftrightarrow> w < 2 ^ 31 \<and> p < 2 ^ 31 \<and> c \<in> set ''diuxXob''"
| "item_ok (Quad f w p c v) \<longleftrightarrow> w < 2 ^ 31 \<and> p < 2 ^ 31 \<and> c \<in> set ''diuxXob''"
| "item_ok (Str f w p t) \<longleftrightarrow> w < 2 ^ 31 \<and> p < 2 ^ 31"

lemma digit_char_10: "d < 10 \<Longrightarrow> digit_char d = Some (char_of (d + 48))"
  by (simp add: digit_char_def)

lemma nat_digits_step: "n \<noteq> 0 \<Longrightarrow> nat_digits 10 n = nat_digits 10 (n div 10) @ [char_of (n mod 10 + 48)]"
  by (simp add: nat_digits.simps [of 10 n] digit_char_10)

lemma nat_digits_0: "nat_digits 10 0 = []"
  by (simp add: nat_digits.simps)

lemma nat_digits_isdigit: "c \<in> set (nat_digits 10 n) \<Longrightarrow> isdigit c"
proof (induction n rule: less_induct)
  case (less n)
  show ?case
  proof (cases "n = 0")
    case False
    with less.prems less.IH [of "n div 10"] show ?thesis by (auto simp: nat_digits_step isdigit_range)
  qed (use less.prems in \<open>simp add: nat_digits_0\<close>)
qed

lemma length_nat_digits: "n < 10 ^ k \<Longrightarrow> length (nat_digits 10 n) \<le> k"
proof (induction k arbitrary: n)
  case (Suc k)
  then have "n div 10 < 10 ^ k" by (simp add: div_less_iff_less_mult)
  with Suc.IH [of "n div 10"] show ?case by (cases "n = 0") (simp_all add: nat_digits_0 nat_digits_step)
qed (simp add: nat_digits_0)

lemma nat_digits_first: "n \<noteq> 0 \<Longrightarrow> \<exists>a r. nat_digits 10 n = a # r \<and> 49 \<le> uchar a \<and> uchar a \<le> 57"
proof (induction n rule: less_induct)
  case (less n)
  show ?case
  proof (cases "n < 10")
    case True
    with less.prems show ?thesis by (simp add: nat_digits_step nat_digits_0)
  next
    case False
    then have "n div 10 < n" "n div 10 \<noteq> 0" by simp_all
    from less.IH [OF this] nat_digits_step [OF less.prems] show ?thesis by auto
  qed
qed

lemma atob_nat_digits: "n < 2 ^ 31 \<Longrightarrow> atob (nat_digits 10 n) 10 = Some (of_nat n)"
  using atob_value [of 10 "nat_digits 10 n"] nat_digits_chars [of 10 _ n] horner_nat_digits [of 10 n] by fastforce

lemma vs_spec_number:
  assumes "n < 2 ^ 31" "n \<noteq> 0" "\<not> isdigit x"
  shows "vs_spec (nat_digits 10 n @ x # s) sp ap = vs_spec (x # s) (set_number (int n) sp) ap"
proof -
  obtain a r where d: "nat_digits 10 n = a # r" "49 \<le> uchar a" "uchar a \<le> 57" using nat_digits_first [OF assms(2)] by blast
  have r: "\<forall>y \<in> set (a # r). isdigit y" using nat_digits_isdigit [of _ n] d(1) by simp
  have "strchr ''diobpxXulscefg%'' a = None" using d(2,3) by (subst strchr_None) auto
  then have c: "\<not> conv_letter a" by (simp add: conv_letter_def)
  have ne: "a \<noteq> CHR ''-''" "a \<noteq> CHR ''0''" "a \<noteq> CHR ''~''" "a \<noteq> CHR ''*''" using d(2,3) by auto
  have take: "takeWhile isdigit (a # r @ x # s) = nat_digits 10 n" "dropWhile isdigit (r @ x # s) = x # s"
    using r assms(3) by (simp_all add: d(1) takeWhile_append2 dropWhile_append2)
  have "length (nat_digits 10 n) < 40" using length_nat_digits [of n 10] assms(1) by simp
  then have "vs_step a (r @ x # s) sp ap = Some (x # s, set_number (int n) sp, ap)"
    using d(2,3) by (simp add: vs_step_def ne Let_def take atob_nat_digits [OF assms(1)] sint_count [OF assms(1)] del: takeWhile.simps)
  then show ?thesis by (simp add: d(1) c)
qed

lemma conv_letter_not_digit: "conv_letter c \<Longrightarrow> \<not> isdigit c"
proof -
  have all: "list_all (\<lambda>c. \<not> isdigit c) ''diobpxXulscefg%''" by code_simp
  assume "conv_letter c"
  then have "c \<in> set ''diobpxXulscefg%''" unfolding conv_letter_def strchr_None by simp
  with all show ?thesis unfolding list_all_iff by blast
qed

lemma vs_spec_flag:
  assumes "hd s \<noteq> CHR ''-''"
  shows "vs_spec (flag_text f @ s) spec_start ap = vs_spec s (spec_start\<lparr>sp_fmt := f\<rparr>) ap"
  by (cases f) (simp_all add: flag_text_def spec_start_def conv_letter_def vs_step_def)

lemma vs_spec_width:
  assumes "n < 2 ^ 31" "\<not> isdigit x" "sp_width sp = 0" "\<not> sp_dot sp"
  shows "vs_spec (nat_digits 10 n @ x # s) sp ap = vs_spec (x # s) (sp\<lparr>sp_width := int n\<rparr>) ap"
proof (cases "n = 0")
  case True
  with assms(3) show ?thesis by (cases sp) (simp add: nat_digits_0)
next
  case False
  from vs_spec_number [OF assms(1) False assms(2)] assms(4) show ?thesis by (simp add: set_number_def)
qed

lemma vs_spec_text:
  assumes "w < 2 ^ 31" "p < 2 ^ 31" "conv_letter c"
  shows "vs_spec (spec_text f w p @ c # s) spec_start ap =
    Some (\<lparr>sp_fmt = f, sp_width = int w, sp_trunc = int p, sp_dot = p \<noteq> 0\<rparr>, c # s, ap)"
proof -
  let ?sp = "\<lparr>sp_fmt = f, sp_width = int w, sp_trunc = 0, sp_dot = False\<rparr>"
  let ?prec = "if p = 0 then [] else CHR ''.'' # nat_digits 10 p"
  have "\<not> conv_letter CHR ''-''" by code_simp
  with assms(3) have "c \<noteq> CHR ''-''" by blast
  then have hd: "hd (nat_digits 10 w @ ?prec @ c # s) \<noteq> CHR ''-''"
    using nat_digits_first [of w] by (cases "w = 0") (auto simp: nat_digits_0)
  have w: "vs_spec (nat_digits 10 w @ x # s) (spec_start\<lparr>sp_fmt := f\<rparr>) ap = vs_spec (x # s) ?sp ap" if "\<not> isdigit x" for x s
    using vs_spec_width [OF assms(1) that] by (simp add: spec_start_def)
  have "vs_spec (?prec @ c # s) ?sp ap = Some (?sp\<lparr>sp_trunc := int p, sp_dot := p \<noteq> 0\<rparr>, c # s, ap)"
  proof (cases "p = 0")
    case False
    have "\<not> conv_letter CHR ''.''" by (simp add: conv_letter_def)
    then show ?thesis
      using vs_spec_number [OF assms(2) False conv_letter_not_digit [OF assms(3)]] False assms(3)
      by (simp add: vs_step_def set_number_def)
  qed (use assms(3) in simp)
  with w [of "hd (?prec @ [c])" "tl (?prec @ c # s)"] vs_spec_flag [OF hd] conv_letter_not_digit [OF assms(3)] show ?thesis
    by (cases "p = 0") (simp_all add: spec_text_def)
qed

lemma vs_number_text:
  assumes "c \<in> set ''diuxXob''"
  shows "vs_number c False (Va_int v # ap) = Some (number_text c v, ap)" "vs_number c True (Va_quad q # ap) = Some (number_text c q, ap)"
  using assms btoa_signed [of v] btoa_signed [of q] btoa_unsigned [of 2 v] btoa_unsigned [of 2 q] btoa_unsigned [of 8 v] btoa_unsigned [of 8 q]
    btoa_unsigned [of 10 v] btoa_unsigned [of 10 q] btoa_unsigned [of 16 v] btoa_unsigned [of 16 q]
  by (auto simp: vs_number_def conv_base_def number_text_def btoa_def llbtoa_def strtoupper_def)

lemma vs_field_padded:
  "vs_field \<lparr>sp_fmt = f, sp_width = int w, sp_trunc = int p, sp_dot = b\<rparr> t = padded f w p t"
  by (simp add: vs_field_def padded_def Let_def)

lemma vsprintf_lit: "CHR ''%'' \<notin> set t \<Longrightarrow> vsprintf_loop d (t @ s) ap = vsprintf_loop (d @ t) s ap"
  by (induction t arbitrary: d) auto

lemma vsprintf_percent:
  assumes "vs_spec s spec_start ap = Some (sp, c # s1, ap1)" "vs_conv c s1 sp ap1 = Some (pre, t, sp1, s2, ap2)" "0 \<le> sp_trunc sp1"
  shows "vsprintf_loop d (CHR ''%'' # s) ap = vsprintf_loop (d @ pre @ vs_field sp1 t) s2 ap2"
  using assms by simp

lemma conv_chars:
  assumes "c \<in> set ''diuxXob''"
  shows "conv_letter c" "c \<noteq> CHR ''%'' \<and> c \<noteq> CHR ''s'' \<and> c \<noteq> CHR ''c'' \<and> c \<noteq> CHR ''l'' \<and> c \<noteq> CHR ''p''"
proof -
  have "list_all (\<lambda>c. conv_letter c \<and> c \<noteq> CHR ''%'' \<and> c \<noteq> CHR ''s'' \<and> c \<noteq> CHR ''c'' \<and> c \<noteq> CHR ''l'' \<and> c \<noteq> CHR ''p'') ''diuxXob''"
    by code_simp
  with assms show "conv_letter c" "c \<noteq> CHR ''%'' \<and> c \<noteq> CHR ''s'' \<and> c \<noteq> CHR ''c'' \<and> c \<noteq> CHR ''l'' \<and> c \<noteq> CHR ''p''"
    unfolding list_all_iff by blast+
qed

lemma conv_letters: "conv_letter CHR ''l''" "conv_letter CHR ''s''" "conv_letter CHR ''%''"
  by code_simp+

lemma vsprintf_item:
  assumes "item_ok it"
  shows "vsprintf_loop d (item_format it @ s) (item_args it @ ap) = vsprintf_loop (d @ item_text it) s ap"
proof (cases it)
  case (Lit t)
  with assms show ?thesis by (simp add: vsprintf_lit)
next
  case Percent
  have "vs_spec (CHR ''%'' # s) spec_start ap = Some (spec_start, CHR ''%'' # s, ap)" by (simp add: conv_letters)
  then show ?thesis
    using vsprintf_percent [of "CHR ''%'' # s" ap spec_start "CHR ''%''" s ap "''%''" "[]" spec_start s ap d] Percent
    by (simp add: vs_conv_def vs_field_def spec_start_def)
next
  case (Num f w p c v)
  with assms have ok: "w < 2 ^ 31" "p < 2 ^ 31" "c \<in> set ''diuxXob''" by simp_all
  note c = conv_chars [OF ok(3)]
  have "vs_conv c s sp (Va_int v # ap) = Some ([], number_text c v, sp, s, ap)" for sp
    using c vs_number_text(1) [OF ok(3)] by (simp add: vs_conv_def)
  from vsprintf_percent [OF vs_spec_text [OF ok(1,2)] this] c Num show ?thesis by (simp add: vs_field_padded)
next
  case (Quad f w p c v)
  with assms have ok: "w < 2 ^ 31" "p < 2 ^ 31" "c \<in> set ''diuxXob''" by simp_all
  note c = conv_chars [OF ok(3)]
  have "vs_conv CHR ''l'' (CHR ''l'' # c # s) sp (Va_quad v # ap) = Some ([], number_text c v, sp, s, ap)" for sp
    using c vs_number_text(2) [OF ok(3)] by (simp add: vs_conv_def)
  from vsprintf_percent [OF vs_spec_text [OF ok(1,2) conv_letters(1)] this] Quad show ?thesis by (simp add: vs_field_padded)
next
  case (Str f w p t)
  with assms have ok: "w < 2 ^ 31" "p < 2 ^ 31" by simp_all
  have "vs_conv CHR ''s'' s sp (Va_str t # ap) = Some ([], case t of None \<Rightarrow> ''(null)'' | Some u \<Rightarrow> u, sp, s, ap)" for sp
    by (simp add: vs_conv_def)
  from vsprintf_percent [OF vs_spec_text [OF ok conv_letters(2)] this] Str show ?thesis by (simp add: vs_field_padded)
qed

text \<open>C14. A format prints its literal text with each conversion replaced by its argument: a number in its base, a
  string, cut to the precision and padded to the width on the side the flag says.\<close>

theorem vsprintf_items:
  assumes "\<forall>it \<in> set is. item_ok it"
  shows "vsprintf (concat (map item_format is)) (concat (map item_args is)) = Some (concat (map item_text is))"
proof -
  have "vsprintf_loop d (concat (map item_format is)) (concat (map item_args is)) = Some (d @ concat (map item_text is))" for d
    using assms by (induction "is" arbitrary: d) (simp_all add: vsprintf_item)
  then show ?thesis by (simp add: vsprintf_def)
qed

theorem vsprintf_items_witness:
  "vsprintf ''%08x: %-5d|%s%%'' [Va_int 0xbfc, Va_int 0xffffffff, Va_str None] = Some ''00000bfc: -1   |(null)%''"
proof -
  let ?is = "[Num FMT_RJUST0 8 0 CHR ''x'' 0xbfc, Lit '': '', Num FMT_LJUST 5 0 CHR ''d'' 0xffffffff, Lit ''|'', Str FMT_RJUST 0 0 None, Percent]"
  have "concat (map item_format ?is) = ''%08x: %-5d|%s%%''" by code_simp
  moreover have "concat (map item_text ?is) = ''00000bfc: -1   |(null)%''" by code_simp
  moreover have "concat (map item_args ?is) = [Va_int 0xbfc, Va_int 0xffffffff, Va_str None]" by simp
  moreover have "\<forall>it \<in> set ?is. item_ok it" by simp
  ultimately show ?thesis using vsprintf_items [of ?is] by (simp only:)
qed

text \<open>A number printed in a field of digits is read back.\<close>

lemma digit_val_0: "digit_val CHR ''0'' = Some 0"
  by (simp add: digit_val_def uchar_def)

lemma horner_zeros: "2 \<le> b \<Longrightarrow> horner b (replicate k CHR ''0'' @ t) 0 = horner b t 0"
  by (induction k) (simp_all add: digit_val_0)

lemma horner_digits_of: "2 \<le> b \<Longrightarrow> b \<le> 16 \<Longrightarrow> horner b (digits_of b n) 0 = Some n"
  by (simp add: digits_of_def horner_nat_digits digit_val_def uchar_def)

lemma digits_of_chars: "2 \<le> b \<Longrightarrow> b \<le> 16 \<Longrightarrow> c \<in> set (digits_of b n) \<Longrightarrow> digit_val c \<noteq> None"
  using nat_digits_chars [of b c n] by (auto simp: digits_of_def digit_val_def uchar_def split: if_splits)

text \<open>C37. A hexadecimal number printed with leading zeros is read back by the number parser.\<close>

theorem printed_hex_read:
  assumes "w < 2 ^ 31"
  shows "\<exists>t. vsprintf (CHR ''%'' # CHR ''0'' # nat_digits 10 w @ ''x'') [Va_int v] = Some t \<and> w \<le> length t \<and> atob t 16 = Some v"
proof -
  let ?t = "replicate (w - length (digits_of 16 (unat v))) CHR ''0'' @ digits_of 16 (unat v)"
  have "vsprintf (CHR ''%'' # CHR ''0'' # nat_digits 10 w @ ''x'') [Va_int v] = Some ?t"
    using vsprintf_items [of "[Num FMT_RJUST0 w 0 CHR ''x'' v]"] assms
    by (simp add: spec_text_def flag_text_def padded_def number_text_def Let_def nat_diff_distrib' split: if_splits)
  moreover have "\<forall>c \<in> set ?t. digit_val c \<noteq> None"
    using digits_of_chars [of 16 _ "unat v"] digit_val_0 by auto
  then have "atob ?t 16 = Some v" using atob_value [of 16 ?t] by (simp add: horner_zeros horner_digits_of)
  ultimately show ?thesis by auto
qed

theorem printed_hex_read_witness:
  "\<exists>t. vsprintf ''%08x'' [Va_int 0xbfc00000] = Some t \<and> 8 \<le> length t \<and> atob t 16 = Some 0xbfc00000"
proof -
  have "nat_digits 10 8 = ''8''" by code_simp
  then show ?thesis using printed_hex_read [of 8 "0xbfc00000"] by simp
qed

end
