(* ===== verification/Memcmds.thy ===== *)
theory Memcmds
  imports Rsa Argv Printf "HOL-Library.Monad_Syntax"
begin

text \<open>
  The memory commands of \<^verbatim>\<open>pmon/cmds/memcmds.c\<close> with the copy routines and the pager they use
  (\<^verbatim>\<open>lib/libc/bcopy.c\<close>, \<^verbatim>\<open>memcpy.c\<close>, \<^verbatim>\<open>pmon/common/more.c\<close>). A command gets its argument
  vector and the context of the expression evaluator, whose memory is the memory of the machine. A command has no
  result when it does not end or when it leaves the defined behaviour: an evaluator that overruns its buffer is such a
  case. Only the listings are part of the result, messages are not, and neither are the cache flushes.

  The copy routines are those of the C files, which the library of some boards is built from
  (\<^verbatim>\<open>arch/mips/Makefile.inc.Godson1\<close>); the others link the assembly of \<^verbatim>\<open>arch/mips/ovbcopy.S\<close>, which differs
  for sizes of 2 GB or more: it copies nothing then.
\<close>

section \<open>Storing values\<close>

text \<open>The low bytes of a value, as the little-endian processor stores them.\<close>

definition le_bytes :: "nat \<Rightarrow> u64 \<Rightarrow> u8 list" where
  "le_bytes n v = map (\<lambda>i. ucast (drop_bit (8 * i) v)) [0..<n]"

fun le_value :: "u8 list \<Rightarrow> u64" where
  "le_value [] = 0"
| "le_value (b # bs) = ucast b OR push_bit 8 (le_value bs)"

definition swap16 :: "u16 \<Rightarrow> u16" where
  "swap16 x = push_bit 8 (x AND 0xff) OR drop_bit 8 (x AND 0xff00)"

definition swap32 :: "u32 \<Rightarrow> u32" where
  "swap32 x = push_bit 24 (x AND 0xff) OR push_bit 8 (x AND 0xff00) OR drop_bit 8 (x AND 0xff0000) OR drop_bit 24 (x AND 0xff000000)"

text \<open>The two switches over the size: what is stored, and what is read, byte-swapped if asked for. There is no
  swap of double words.\<close>

definition swap_value :: "u32 \<Rightarrow> bool \<Rightarrow> u64 \<Rightarrow> u64" where
  "swap_value datasz reverse v =
     (if datasz = 2 \<and> reverse then ucast (swap16 (ucast v))
      else if datasz = 4 \<and> reverse then ucast (swap32 (ucast v))
      else v)"

definition store_value :: "u32 \<Rightarrow> bool \<Rightarrow> u32 \<Rightarrow> u64 \<Rightarrow> mem \<Rightarrow> mem" where
  "store_value datasz reverse adr v m =
     (if datasz \<in> {1, 2, 4, 8} then store_bytes m adr (le_bytes (unat datasz) (swap_value datasz reverse v)) else m)"

definition read_value :: "u32 \<Rightarrow> bool \<Rightarrow> u32 \<Rightarrow> u64 \<Rightarrow> mem \<Rightarrow> u64" where
  "read_value datasz reverse adr v m =
     (if datasz \<in> {1, 2, 4, 8} then swap_value datasz reverse (le_value (load_bytes m adr (unat datasz))) else v)"

section \<open>The command m\<close>

record m_opts =
  mo_datasz :: u32
  mo_nowrite :: bool
  mo_reverse :: bool

text \<open>The option loop; no result for an illegal option.\<close>

fun m_option :: "char \<Rightarrow> m_opts \<Rightarrow> m_opts option" where
  "m_option c o1 =
     (if c = CHR ''d'' then Some (o1\<lparr>mo_datasz := mo_datasz o1 OR 8\<rparr>)
      else if c = CHR ''w'' then Some (o1\<lparr>mo_datasz := mo_datasz o1 OR 4\<rparr>)
      else if c = CHR ''h'' then Some (o1\<lparr>mo_datasz := mo_datasz o1 OR 2\<rparr>)
      else if c = CHR ''b'' then Some (o1\<lparr>mo_datasz := mo_datasz o1 OR 1\<rparr>)
      else if c = CHR ''n'' then Some (o1\<lparr>mo_nowrite := True\<rparr>)
      else if c = CHR ''x'' then Some (o1\<lparr>mo_reverse := True\<rparr>)
      else None)"

fun m_options :: "(char \<times> cstr option) list \<Rightarrow> m_opts \<Rightarrow> m_opts option" where
  "m_options [] o1 = Some o1"
| "m_options ((c, a) # os) o1 = (case m_option c o1 of None \<Rightarrow> None | Some o2 \<Rightarrow> m_options os o2)"

definition cmd_getopt :: "cstr list \<Rightarrow> cstr \<Rightarrow> ((char \<times> cstr option) list \<times> nat) option" where
  "cmd_getopt av ostr = getopt_all (Suc (sum_list (map length av))) av ostr (getopt_state.make 0 NUL None [])"

text \<open>\<open>1 << matchenv ("datasize")\<close>; a shift by a negative number has no result.\<close>

definition default_datasz :: "'n rsa_ctx \<Rightarrow> u32 option" where
  "default_datasz c = (case matchenv ''datasize'' (r_env c) of None \<Rightarrow> None | Some j \<Rightarrow> if j < 0 then None else Some (push_bit (nat j) 1))"

text \<open>The values given on the line. The value variable keeps what it held when the evaluator does not set it.\<close>

fun m_args :: "u32 \<Rightarrow> bool \<Rightarrow> u32 \<Rightarrow> u64 \<Rightarrow> cstr list \<Rightarrow> 'n rsa_ctx \<Rightarrow> (int \<times> 'n rsa_ctx) option" where
  "m_args datasz reverse adr v [] c = Some (0, c)"
| "m_args datasz reverse adr v (a # as) c =
     (if strcmp a ''-s'' = 0 then
        (case as of
           [] \<Rightarrow> Some (- 1, c)
         | s # as' \<Rightarrow> m_args datasz reverse (adr + of_nat (length s)) v as' (c\<lparr>r_mem := store_bytes (r_mem c) adr (map byte_of s)\<rparr>))
      else case get_rsa_reg c v a of None \<Rightarrow> None | Some (ok, v') \<Rightarrow>
        if \<not> ok then Some (- 1, c)
        else if adr AND (datasz - 1) \<noteq> 0 then Some (1, c)
        else m_args datasz reverse (adr + datasz) (swap_value datasz reverse v') as
               (c\<lparr>r_mem := store_value datasz reverse adr v' (r_mem c)\<rparr>))"

text \<open>The dialogue: the prompt with the value, then a line. No result when the input ends: the command waits.\<close>

definition m_prompt :: "u32 \<Rightarrow> u32 \<Rightarrow> u64 \<Rightarrow> cstr" where
  "m_prompt datasz adr v = the (vsprintf ''%08x %0*llx '' [Va_int adr, Va_int (2 * datasz), Va_quad v])"

fun m_dialogue :: "u32 \<Rightarrow> bool \<Rightarrow> bool \<Rightarrow> u32 \<Rightarrow> u64 \<Rightarrow> cstr list \<Rightarrow> cstr list \<Rightarrow> 'n rsa_ctx \<Rightarrow> (int \<times> cstr list \<times> 'n rsa_ctx) option" where
  "m_dialogue datasz reverse nowrite adr v0 out [] c =
     (let v = read_value datasz reverse adr v0 (r_mem c) in
      if nowrite then Some (0, out @ [m_prompt datasz adr v], c) else None)"
| "m_dialogue datasz reverse nowrite adr v0 out (l # ls) c =
     (let v = read_value datasz reverse adr v0 (r_mem c);
          out' = out @ [m_prompt datasz adr v];
          p = dropWhile (\<lambda>x. x = CHR '' '') l
      in
      if nowrite then Some (0, out', c)
      else if char_at p 0 = CHR ''.'' then Some (0, out', c)
      else if p = [] then m_dialogue datasz reverse nowrite (adr + datasz) v out' ls c
      else if hd p = CHR ''^'' \<or> hd p = CHR ''-'' then m_dialogue datasz reverse nowrite (adr - datasz) v out' ls c
      else if hd p = CHR ''='' then m_dialogue datasz reverse nowrite adr v out' ls c
      else case get_rsa_reg c v p of None \<Rightarrow> None | Some (ok, v') \<Rightarrow>
        if ok then m_dialogue datasz reverse nowrite (adr + datasz) (swap_value datasz reverse v') out' ls
                     (c\<lparr>r_mem := store_value datasz reverse adr v' (r_mem c)\<rparr>)
        else m_dialogue datasz reverse nowrite adr v' out' ls c)"

definition cmd_modify :: "cstr list \<Rightarrow> cstr list \<Rightarrow> 'n rsa_ctx \<Rightarrow> (int \<times> cstr list \<times> 'n rsa_ctx) option" where
  "cmd_modify av ls c = do {
     (os, i) \<leftarrow> cmd_getopt av ''dwhbnx'';
     case m_options os \<lparr>mo_datasz = 0, mo_nowrite = False, mo_reverse = False\<rparr> of
       None \<Rightarrow> Some (- 1, [], c)
     | Some o1 \<Rightarrow>
         if mo_datasz o1 AND (mo_datasz o1 - 1) \<noteq> 0 then Some (- 1, [], c)
         else if i \<ge> length av then Some (- 1, [], c)
         else case get_rsa c (av ! i) of
           None \<Rightarrow> None
         | Some None \<Rightarrow> Some (- 1, [], c)
         | Some (Some adr) \<Rightarrow> do {
             datasz \<leftarrow> (if mo_datasz o1 = 0 then default_datasz c else Some (mo_datasz o1));
             if Suc i < length av then
               map_option (\<lambda>(r, c'). (r, [], c')) (m_args datasz (mo_reverse o1) adr (r_junk c) (drop (Suc i) av) c)
             else if adr AND (datasz - 1) \<noteq> 0 then Some (1, [], c)
             else m_dialogue datasz (mo_reverse o1) (mo_nowrite o1) adr (r_junk c) [] ls c }}"

section \<open>Operands\<close>

text \<open>Two or three addresses, read from the left until one has no value.\<close>

definition get_two :: "'n rsa_ctx \<Rightarrow> cstr \<Rightarrow> cstr \<Rightarrow> (u32 \<times> u32) option option" where
  "get_two c p q =
     (case get_rsa c p of
        None \<Rightarrow> None
      | Some None \<Rightarrow> Some None
      | Some (Some x) \<Rightarrow> map_option (map_option (\<lambda>y. (x, y))) (get_rsa c q))"

definition get_three :: "'n rsa_ctx \<Rightarrow> cstr \<Rightarrow> cstr \<Rightarrow> cstr \<Rightarrow> (u32 \<times> u32 \<times> u32) option option" where
  "get_three c p q r =
     (case get_two c p q of
        None \<Rightarrow> None
      | Some None \<Rightarrow> Some None
      | Some (Some (x, y)) \<Rightarrow> map_option (map_option (\<lambda>z. (x, y, z))) (get_rsa c r))"

section \<open>The command fill\<close>

definition PATSZ :: nat where "PATSZ = 80"

text \<open>The pattern; the integer is the status with which the command ends early. \<open>fill\<close> checks the size
  of the pattern before every byte.\<close>

fun fill_pattern :: "'n rsa_ctx \<Rightarrow> u8 list \<Rightarrow> cstr list \<Rightarrow> (int + u8 list) option" where
  "fill_pattern c d [] = Some (Inr d)"
| "fill_pattern c d (a # as) =
     (if strcmp a ''-s'' = 0 then
        (case as of
           [] \<Rightarrow> Some (Inl (- 1))
         | s # as' \<Rightarrow> if length d + length s > PATSZ then Some (Inl (- 1)) else fill_pattern c (d @ map byte_of s) as')
      else case get_rsa c a of
        None \<Rightarrow> None
      | Some None \<Rightarrow> Some (Inl (- 1))
      | Some (Some w) \<Rightarrow> if length d \<ge> PATSZ then Some (Inl (- 1)) else fill_pattern c (d @ [ucast w]) as)"

text \<open>The word that is stored. No case of the switch sets it for an empty pattern.\<close>

definition fill_word :: "u8 list \<Rightarrow> u32 option" where
  "fill_word p =
     (if length p = 1 then
        (let w1 = ucast (p ! 0); w2 = w1 OR push_bit 8 w1 in Some (w2 OR push_bit 16 w2))
      else if length p = 2 then
        (let h = ucast (le_value (take 2 p)) in Some (h OR push_bit 16 h))
      else if length p = 4 then Some (ucast (le_value (take 4 p)))
      else None)"

text \<open>The two loops. No result: the address passes the end of memory and the loop goes on for ever.\<close>

partial_function (option) fill_words :: "u32 \<Rightarrow> u32 \<Rightarrow> u32 \<Rightarrow> mem \<Rightarrow> mem option" where
  "fill_words from1 to1 w m =
     (if from1 < to1 then fill_words (from1 + 4) to1 w (store_bytes m from1 (le_bytes 4 (ucast w))) else Some m)"

partial_function (option) fill_bytes :: "u32 \<Rightarrow> u32 \<Rightarrow> nat \<Rightarrow> u8 list \<Rightarrow> mem \<Rightarrow> mem option" where
  "fill_bytes from1 to1 i p m =
     (if from1 < to1 then
        if i < length p then fill_bytes (from1 + 1) to1 (if Suc i \<ge> length p then 0 else Suc i) p (m(from1 := p ! i))
        else None
      else Some m)"

text \<open>The special case that uses word writes.\<close>

definition fill_aligned :: "u32 \<Rightarrow> u32 \<Rightarrow> u32 \<Rightarrow> bool" where
  "fill_aligned len from1 to1 \<longleftrightarrow> len < 5 \<and> len AND (len - 1) = 0 \<and> (to1 OR from1) AND 3 = 0"

definition cmd_fill :: "cstr list \<Rightarrow> 'n rsa_ctx \<Rightarrow> (int \<times> 'n rsa_ctx) option" where
  "cmd_fill av c =
     (case get_two c (av ! 1) (av ! 2) of
        None \<Rightarrow> None
      | Some None \<Rightarrow> Some (- 1, c)
      | Some (Some (from1, to0)) \<Rightarrow>
          if to0 < from1 then Some (1, c)
          else (case fill_pattern c [] (drop 3 av) of
             None \<Rightarrow> None
           | Some (Inl r) \<Rightarrow> Some (r, c)
           | Some (Inr p) \<Rightarrow>
               let to1 = to0 + 1; len = of_nat (length p) in
               if fill_aligned len from1 to1 then do {
                 w \<leftarrow> fill_word p; m \<leftarrow> fill_words from1 to1 w (r_mem c); Some (0, c\<lparr>r_mem := m\<rparr>) }
               else do {
                 m \<leftarrow> fill_bytes from1 to1 0 p (r_mem c); Some (0, c\<lparr>r_mem := m\<rparr>) }))"

section \<open>The command copy\<close>

fun copy_up :: "u32 \<Rightarrow> u32 \<Rightarrow> nat \<Rightarrow> mem \<Rightarrow> mem" where
  "copy_up t f 0 m = m"
| "copy_up t f (Suc n) m = copy_up (t + 1) (f + 1) n (m(t := m f))"

fun copy_down :: "u32 \<Rightarrow> u32 \<Rightarrow> nat \<Rightarrow> mem \<Rightarrow> mem" where
  "copy_down t f 0 m = m"
| "copy_down t f (Suc n) m = copy_down (t - 1) (f - 1) n (m(t - 1 := m (f - 1)))"

definition memcpy :: "u32 \<Rightarrow> u32 \<Rightarrow> u32 \<Rightarrow> mem \<Rightarrow> mem" where
  "memcpy s1 s2 n m = (if s2 < s1 then copy_down (s1 + n) (s2 + n) (unat n) m else copy_up s1 s2 (unat n) m)"

definition bcopy :: "u32 \<Rightarrow> u32 \<Rightarrow> u32 \<Rightarrow> mem \<Rightarrow> mem" where
  "bcopy src dst n m =
     (if dst \<ge> src \<and> dst < src + n then copy_down (dst + n) (src + n) (unat n) m else memcpy dst src n m)"

definition cmd_copy :: "cstr list \<Rightarrow> 'n rsa_ctx \<Rightarrow> (int \<times> 'n rsa_ctx) option" where
  "cmd_copy av c =
     (case get_three c (av ! 1) (av ! 2) (av ! 3) of
        None \<Rightarrow> None
      | Some None \<Rightarrow> Some (- 1, c)
      | Some (Some (from1, to1, n)) \<Rightarrow> Some (0, c\<lparr>r_mem := bcopy from1 to1 n (r_mem c)\<rparr>))"

section \<open>The command compare\<close>

text \<open>A line for each difference. The bytes are read as \<open>char\<close>, so those from 0x80 on are printed as negative numbers.\<close>

definition compare_line :: "u32 \<Rightarrow> u8 \<Rightarrow> u8 \<Rightarrow> cstr" where
  "compare_line a x y = the (vsprintf ''%08x: %02x != %02x (%02x)\<newline>'' [Va_int a, Va_int (scast x), Va_int (scast y), Va_int (scast x XOR scast y)])"

partial_function (option) compare_loop :: "u32 \<Rightarrow> u32 \<Rightarrow> u32 \<Rightarrow> cstr list \<Rightarrow> mem \<Rightarrow> cstr list option" where
  "compare_loop from1 to1 with1 out m =
     (if from1 \<le> to1 then
        compare_loop (from1 + 1) to1 (with1 + 1)
          (if m from1 \<noteq> m with1 then out @ [compare_line from1 (m from1) (m with1)] else out) m
      else Some out)"

definition cmd_compare :: "cstr list \<Rightarrow> 'n rsa_ctx \<Rightarrow> (int \<times> cstr list) option" where
  "cmd_compare av c =
     (case get_three c (av ! 1) (av ! 2) (av ! 3) of
        None \<Rightarrow> None
      | Some None \<Rightarrow> Some (- 1, [])
      | Some (Some (from1, to1, with1)) \<Rightarrow> map_option (\<lambda>out. (0, out)) (compare_loop from1 to1 with1 [] (r_mem c)))"

section \<open>The pager\<close>

text \<open>The lines left on the page, the search pattern, the keys that will be typed and the lines printed. The
  prompt and its removal are not modelled.\<close>

record pager =
  pg_cnt :: int
  pg_pat :: cbuf
  pg_keys :: cstr
  pg_out :: "cstr list"

text \<open>The pattern after a slash; \<open>False\<close> when the slash itself is deleted. No result: the input ends, or the
  pattern leaves its buffer.\<close>

fun more_pattern :: "nat \<Rightarrow> cbuf \<Rightarrow> cstr \<Rightarrow> (bool \<times> cbuf \<times> cstr) option" where
  "more_pattern i pat [] = None"
| "more_pattern i pat (c # ks) =
     (if c = CHR 0x0A then if i < length pat then Some (True, pat[i := NUL], ks) else None
      else if c = CHR 0x08 then if i > 0 then more_pattern (i - 1) pat ks else Some (False, pat, ks)
      else if i < length pat then more_pattern (Suc i) (pat[i := c]) ks else None)"

lemma more_pattern_length: "more_pattern i pat ks = Some (b, pat', ks') \<Longrightarrow> length ks' < length ks"
  by (induction i pat ks rule: more_pattern.induct) (auto split: if_splits)

text \<open>\<open>getinp\<close> until it does not ask again: whether to quit. The search for the key in the list of answers
  also finds the NUL that ends the list.\<close>

function getinp :: "int \<Rightarrow> cstr \<Rightarrow> pager \<Rightarrow> (bool \<times> pager) option" where
  "getinp size1 ks g =
     (case dropWhile (\<lambda>c. c \<notin> set [CHR ''n'', CHR ''q'', CHR ''/'', CHR '' '', CHR 0x0A, NUL]) ks of
        [] \<Rightarrow> None
      | c # ks' \<Rightarrow>
          if c = CHR ''q'' then Some (True, g\<lparr>pg_keys := ks'\<rparr>)
          else if c = CHR '' '' then Some (False, g\<lparr>pg_cnt := size1, pg_keys := ks'\<rparr>)
          else if c = CHR 0x0A then Some (False, g\<lparr>pg_cnt := 1, pg_keys := ks'\<rparr>)
          else if c = CHR ''/'' then
            (case more_pattern 0 (pg_pat g) ks' of
               None \<Rightarrow> None
             | Some (ok, pat, ks1) \<Rightarrow>
                 if ok then Some (False, g\<lparr>pg_cnt := - 1, pg_pat := pat, pg_keys := ks1\<rparr>)
                 else getinp size1 ks1 (g\<lparr>pg_pat := pat\<rparr>))
          else if c = CHR ''n'' then Some (False, g\<lparr>pg_cnt := - 1, pg_keys := ks'\<rparr>)
          else Some (False, g\<lparr>pg_keys := ks'\<rparr>))"
  by pat_completeness auto
termination getinp
proof (relation "measure (\<lambda>(_, ks, _). length ks)", goal_cases)
  case (2 size1 ks g c ks' x ok y pat ks1)
  then have "length (c # ks') \<le> length ks" by (metis length_dropWhile_le)
  moreover have "length ks1 < length ks'" using 2 more_pattern_length by metis
  ultimately show ?case by simp
qed simp

text \<open>\<open>more\<close>: whether the listing ends.\<close>

definition more_page :: "cstr \<Rightarrow> int \<Rightarrow> pager \<Rightarrow> (bool \<times> pager) option" where
  "more_page p size1 g =
     (let show_line = (\<lambda>g.
            let cnt = pg_cnt g in
            if cnt = - 1 \<and> strposn p (cstr_of (pg_pat g)) = None then (False, g)
            else (False, g\<lparr>pg_out := pg_out g @ [p], pg_cnt := (if cnt = - 1 then size1 else cnt) - 1\<rparr>))
      in if pg_cnt g = 0 then
           if size1 = 0 then Some (True, g)
           else (case getinp size1 (pg_keys g) g of
                   None \<Rightarrow> None
                 | Some (quit, g1) \<Rightarrow> if quit then Some (True, g1) else Some (show_line g1))
         else Some (show_line g))"

section \<open>The command d\<close>

text \<open>One line of a dump: the address, sixteen bytes in groups of \<open>siz\<close>, and their characters.\<close>

definition disp_group :: "u8 list \<Rightarrow> nat \<Rightarrow> nat \<Rightarrow> bool \<Rightarrow> cstr" where
  "disp_group buf siz i reverse =
     (let val = le_value (take siz (drop i buf)) in
      if siz = 1 then the (vsprintf ''%02x '' [Va_int (ucast val)])
      else if siz = 2 then
        the (vsprintf ''%04x '' [Va_int (if reverse then ucast (swap16 (ucast val)) else ucast val)])
      else if siz = 4 then
        the (vsprintf ''%08x '' [Va_int (if reverse then swap32 (ucast val) else ucast val)])
      else the (vsprintf ''%016llx '' [Va_quad val]))"

definition dispmem :: "u32 \<Rightarrow> nat \<Rightarrow> bool \<Rightarrow> mem \<Rightarrow> cstr" where
  "dispmem adr siz reverse m =
     (let buf = load_bytes m adr 16 in
      the (vsprintf ''%08x  '' [Va_int adr]) @
      concat (map (\<lambda>i. (if i = 8 then '' '' else []) @ disp_group buf siz i reverse) (filter (\<lambda>i. i mod siz = 0) [0..<16])) @
      ''  '' @ map (\<lambda>b. if isprint (char_of_byte b) then char_of_byte b else CHR ''.'') buf)"

fun d_option :: "char \<times> cstr option \<Rightarrow> (u32 \<times> bool \<times> cstr) \<Rightarrow> (u32 \<times> bool \<times> cstr) option" where
  "d_option (c, a) (datasz, reverse, reg) =
     (if c = CHR ''s'' then Some (datasz OR 16, reverse, reg)
      else if c = CHR ''d'' then Some (datasz OR 8, reverse, reg)
      else if c = CHR ''w'' then Some (datasz OR 4, reverse, reg)
      else if c = CHR ''h'' then Some (datasz OR 2, reverse, reg)
      else if c = CHR ''b'' then Some (datasz OR 1, reverse, reg)
      else if c = CHR ''x'' then Some (datasz, True, reg)
      else if c = CHR ''r'' then Some (- 1, reverse, case a of None \<Rightarrow> [] | Some r \<Rightarrow> r)
      else None)"

fun d_options :: "(char \<times> cstr option) list \<Rightarrow> (u32 \<times> bool \<times> cstr) \<Rightarrow> (u32 \<times> bool \<times> cstr) option" where
  "d_options [] o1 = Some o1"
| "d_options (x # os) o1 = (case d_option x o1 of None \<Rightarrow> None | Some o2 \<Rightarrow> d_options os o2)"

partial_function (option) dump_loop :: "u32 \<Rightarrow> nat \<Rightarrow> bool \<Rightarrow> int \<Rightarrow> pager \<Rightarrow> mem \<Rightarrow> (u32 \<times> pager) option" where
  "dump_loop adr siz reverse size1 g m =
     do { (stop, g1) \<leftarrow> more_page (dispmem adr siz reverse m) size1 g;
          if stop then Some (adr, g1) else dump_loop (adr + 16) siz reverse size1 g1 m }"

text \<open>The operand behind the address: a number of lines, or the name of a register.\<close>

datatype d_amount = D_lines int int | D_register cstr | D_error

definition d_operand :: "'n rsa_ctx \<Rightarrow> cstr list \<Rightarrow> nat \<Rightarrow> u32 \<Rightarrow> (d_amount \<times> nat) option" where
  "d_operand c av i datasz =
     (if i < length av then
        (case get_rsa c (av ! i) of
           None \<Rightarrow> None
         | Some (Some x) \<Rightarrow> Some (D_lines (sint x) 0, Suc i)
         | Some None \<Rightarrow>
             if r_getreg c (av ! i) \<noteq> None then if datasz \<noteq> 0 then Some (D_error, i) else Some (D_register (av ! i), Suc i)
             else Some (D_error, i))
      else Some (D_lines (int (unat (moresz (r_env c)))) (int (unat (moresz (r_env c)))), i))"

definition d_string :: "mem \<Rightarrow> u32 \<Rightarrow> cstr" where
  "d_string m adr = map (\<lambda>x. if isprint x then x else CHR ''.'') (cstr_of (map char_of_byte (load_bytes m adr 70)))"

text \<open>The display of memory as a register is part of the debugger and a parameter here. The static variable
  \<open>last_adr\<close> is given and returned.\<close>

definition cmd_dump :: "(mem \<Rightarrow> u32 \<Rightarrow> cstr \<Rightarrow> bool) \<Rightarrow> bool \<Rightarrow> u32 \<Rightarrow> cstr list \<Rightarrow> pager \<Rightarrow> 'n rsa_ctx \<Rightarrow> (int \<times> u32 \<times> pager) option" where
  "cmd_dump disp_as_reg repeating last_adr av g c = do {
     (os, i) \<leftarrow> cmd_getopt av ''dwhbsxr:'';
     case d_options os (0, False, []) of
       None \<Rightarrow> Some (- 1, last_adr, g)
     | Some (datasz, reverse, reg) \<Rightarrow>
         if datasz AND (datasz - 1) \<noteq> 0 then Some (- 1, last_adr, g)
         else if i \<ge> length av then Some (- 1, last_adr, g)
         else case get_rsa c (av ! i) of
           None \<Rightarrow> None
         | Some None \<Rightarrow> Some (- 1, last_adr, g)
         | Some (Some adr0) \<Rightarrow> do {
             (amount, j) \<leftarrow> d_operand c av (Suc i) datasz;
             let adr = (if repeating then last_adr else adr0);
             if amount = D_error \<or> j \<noteq> length av then Some (- 1, last_adr, g)
             else if datasz = 16 then Some (0, last_adr, g\<lparr>pg_out := pg_out g @ [d_string (r_mem c) adr]\<rparr>)
             else (case amount of
               D_register r \<Rightarrow> Some (if disp_as_reg (r_mem c) adr r then 0 else - 1, last_adr, g)
             | D_lines ln siz \<Rightarrow> do {
                 sz \<leftarrow> (if datasz = 0 then default_datasz c else Some datasz);
                 (last, g') \<leftarrow> dump_loop adr (unat sz) reverse siz (g\<lparr>pg_cnt := ln\<rparr>) (r_mem c);
                 Some (0, last, g') }
             | D_error \<Rightarrow> Some (- 1, last_adr, g)) } }"

section \<open>The command search\<close>

text \<open>The pattern is collected without a bound: a longer one than \<open>PATSZ\<close> overruns the stack and has no result.\<close>

fun search_pattern :: "'n rsa_ctx \<Rightarrow> u8 list \<Rightarrow> cstr list \<Rightarrow> (int + u8 list) option" where
  "search_pattern c d [] = Some (Inr d)"
| "search_pattern c d (a # as) =
     (if strcmp a ''-s'' = 0 then
        (case as of
           [] \<Rightarrow> Some (Inl (- 1))
         | s # as' \<Rightarrow> if length d + length s > PATSZ then None else search_pattern c (d @ map byte_of s) as')
      else case get_rsa c a of
        None \<Rightarrow> None
      | Some None \<Rightarrow> Some (Inl (- 1))
      | Some (Some w) \<Rightarrow> if length d \<ge> PATSZ then None else search_pattern c (d @ [ucast w]) as)"

fun pattern_at :: "u8 list \<Rightarrow> u32 \<Rightarrow> mem \<Rightarrow> bool" where
  "pattern_at [] adr m = True"
| "pattern_at (b # bs) adr m = (if b \<noteq> m adr then False else pattern_at bs (adr + 1) m)"

partial_function (option) search_loop :: "u32 \<Rightarrow> u32 \<Rightarrow> u8 list \<Rightarrow> int \<Rightarrow> pager \<Rightarrow> mem \<Rightarrow> pager option" where
  "search_loop from1 to1 pat siz g m =
     (if from1 \<le> to1 then
        if pattern_at pat from1 m then
          do { (stop, g1) \<leftarrow> more_page (dispmem from1 4 False m) siz g;
               if stop then Some g1 else search_loop (from1 + 1) to1 pat siz g1 m }
        else search_loop (from1 + 1) to1 pat siz g m
      else Some g)"

text \<open>A range of one byte is refused too, and the backward search behind the test is never reached.\<close>

definition cmd_search :: "cstr list \<Rightarrow> pager \<Rightarrow> 'n rsa_ctx \<Rightarrow> (int \<times> pager) option" where
  "cmd_search av g c =
     (let siz = int (unat (moresz (r_env c))) in
      case get_two c (av ! 1) (av ! 2) of
        None \<Rightarrow> None
      | Some None \<Rightarrow> Some (- 1, g)
      | Some (Some (from1, to1)) \<Rightarrow>
          (case search_pattern c [] (drop 3 av) of
             None \<Rightarrow> None
           | Some (Inl r) \<Rightarrow> Some (r, g)
           | Some (Inr pat) \<Rightarrow>
               if to1 \<le> from1 then Some (1, g)
               else map_option (\<lambda>g'. (0, g')) (search_loop from1 (to1 - (of_nat (length pat) - 1)) pat siz (g\<lparr>pg_cnt := siz\<rparr>) (r_mem c))))"

end
