(* ===== verification/Memops.thy ===== *)
theory Memops
  imports Memcmds
begin

section \<open>Copying\<close>

lemma store_bytes_upd:
  assumes "\<forall>i < length bs. x \<noteq> a + of_nat i"
  shows "store_bytes (m(x := b)) a bs = (store_bytes m a bs)(x := b)"
  using assms
proof (induction bs arbitrary: a m)
  case (Cons c bs)
  have "x \<noteq> a" using Cons.prems by force
  moreover have "x \<noteq> a + 1 + of_nat i" if "i < length bs" for i
    using Cons.prems that by (metis Suc_less_eq length_Cons of_nat_Suc add.assoc)
  ultimately have "store_bytes ((m(a := c))(x := b)) (a + 1) bs = (store_bytes (m(a := c)) (a + 1) bs)(x := b)"
    by (intro Cons.IH) simp
  then show ?case by (simp only: store_bytes.simps fun_upd_twist [OF \<open>x \<noteq> a\<close>])
qed simp

lemma store_bytes_snoc: "store_bytes m a (xs @ [x]) = (store_bytes m a xs)(a + of_nat (length xs) := x)"
  by (simp add: store_bytes_append)

lemma load_bytes_upd:
  assumes "\<forall>i < n. x \<noteq> a + of_nat i"
  shows "load_bytes (m(x := b)) a n = load_bytes m a n"
proof (rule nth_equalityI)
  fix i assume "i < length (load_bytes (m(x := b)) a n)"
  with assms show "load_bytes (m(x := b)) a n ! i = load_bytes m a n ! i" by (auto simp: load_bytes_nth)
qed simp

lemma load_bytes_snoc: "load_bytes m a (Suc n) = load_bytes m a n @ [m (a + of_nat n)]"
proof (induction n arbitrary: a)
  case (Suc n)
  have "load_bytes m a (Suc (Suc n)) = m a # load_bytes m (a + 1) (Suc n)" by (simp only: load_bytes.simps)
  also have "\<dots> = m a # load_bytes m (a + 1) n @ [m (a + of_nat (Suc n))]" unfolding Suc.IH by (simp add: algebra_simps)
  finally show ?case by simp
qed simp

lemma unat_addr: "unat (a :: u32) < 2 ^ 32"
  using unsigned_less [of a] by simp

lemma unat_plus_nat:
  fixes a :: u32
  assumes "unat a + n < 2 ^ 32"
  shows "unat (a + of_nat n) = unat a + n"
proof -
  have "unat (of_nat (unat a + n) :: u32) = unat a + n" using assms by (intro unat_of_nat_less) simp
  then show ?thesis by simp
qed

lemma copy_up_moves:
  assumes "unat t \<le> unat f" "unat f + n \<le> 2 ^ 32"
  shows "copy_up t f n m = store_bytes m t (load_bytes m f n)"
  using assms
proof (induction n arbitrary: t f m)
  case (Suc n)
  show ?case
  proof (cases "n = 0")
    case False
    with Suc.prems have f1: "unat (f + 1) = unat f + 1" "unat (t + 1) = unat t + 1"
      using unat_plus_nat [of f 1] unat_plus_nat [of t 1] by simp_all
    have "t \<noteq> f + 1 + of_nat i" if "i < n" for i
    proof
      assume "t = f + 1 + of_nat i"
      with f1 unat_plus_nat [of "f + 1" i] Suc.prems that show False by simp
    qed
    then have "load_bytes (m(t := m f)) (f + 1) n = load_bytes m (f + 1) n" by (intro load_bytes_upd) blast
    moreover have "copy_up (t + 1) (f + 1) n (m(t := m f)) = store_bytes (m(t := m f)) (t + 1) (load_bytes (m(t := m f)) (f + 1) n)"
      using Suc.prems f1 by (intro Suc.IH) simp_all
    ultimately show ?thesis by (simp only: copy_up.simps store_bytes.simps load_bytes.simps)
  qed simp
qed simp

lemma copy_down_moves:
  assumes "unat f \<le> unat t" "unat t + n \<le> 2 ^ 32"
  shows "copy_down (t + of_nat n) (f + of_nat n) n m = store_bytes m t (load_bytes m f n)"
  using assms
proof (induction n arbitrary: m)
  case (Suc n)
  let ?m = "m(t + of_nat n := m (f + of_nat n))"
  have tn: "unat (t + of_nat n) = unat t + n" using Suc.prems by (intro unat_plus_nat) simp
  have ne: "t + of_nat n \<noteq> f + of_nat i \<and> t + of_nat n \<noteq> t + of_nat i" if "i < n" for i
    using that Suc.prems tn unat_plus_nat [of f i] unat_plus_nat [of t i] by auto
  have "copy_down (t + of_nat n) (f + of_nat n) n ?m = store_bytes ?m t (load_bytes ?m f n)"
    using Suc.prems by (intro Suc.IH) simp_all
  also have "load_bytes ?m f n = load_bytes m f n" using ne by (intro load_bytes_upd) blast
  also have "store_bytes ?m t (load_bytes m f n) = (store_bytes m t (load_bytes m f n))(t + of_nat n := m (f + of_nat n))"
    using ne by (intro store_bytes_upd) simp
  also have "\<dots> = store_bytes m t (load_bytes m f (Suc n))" by (simp only: load_bytes_snoc store_bytes_snoc length_load_bytes)
  finally have "copy_down (t + of_nat n) (f + of_nat n) n ?m = store_bytes m t (load_bytes m f (Suc n))" .
  moreover have "t + of_nat (Suc n) - 1 = t + of_nat n" "f + of_nat (Suc n) - 1 = f + of_nat n" by simp_all
  ultimately show ?case by (simp only: copy_down.simps)
qed simp

lemma bcopy_moves:
  assumes "unat src + unat n \<le> 2 ^ 32" "unat dst + unat n \<le> 2 ^ 32"
  shows "bcopy src dst n m = store_bytes m dst (load_bytes m src (unat n))"
  using copy_down_moves [of src dst "unat n" m] copy_up_moves [of dst src "unat n" m] assms
  by (auto simp: bcopy_def memcpy_def word_le_nat_alt word_less_nat_alt)

text \<open>C19. The command \<open>copy\<close> moves a range of memory as it was before the command, also when the ranges
  overlap on either side, and changes nothing else.\<close>

theorem copy_overlap:
  assumes "get_rsa c (av ! 1) = Some (Some from1)" "get_rsa c (av ! 2) = Some (Some to1)" "get_rsa c (av ! 3) = Some (Some n)"
    and "unat from1 + unat n \<le> 2 ^ 32" "unat to1 + unat n \<le> 2 ^ 32"
  shows "\<exists>m'. cmd_copy av c = Some (0, c\<lparr>r_mem := m'\<rparr>) \<and> load_bytes m' to1 (unat n) = load_bytes (r_mem c) from1 (unat n) \<and>
    (\<forall>x. (\<forall>i < unat n. x \<noteq> to1 + of_nat i) \<longrightarrow> m' x = r_mem c x)"
proof -
  let ?bs = "load_bytes (r_mem c) from1 (unat n)"
  let ?m = "store_bytes (r_mem c) to1 ?bs"
  have "cmd_copy av c = Some (0, c\<lparr>r_mem := ?m\<rparr>)" using assms by (simp add: cmd_copy_def get_three_def get_two_def bcopy_moves)
  moreover have "length ?bs \<le> 2 ^ 32" using assms(4) by simp
  from load_bytes_store_bytes [OF this, of "r_mem c" to1] have "load_bytes ?m to1 (unat n) = ?bs" by simp
  moreover have "?m x = r_mem c x" if "\<forall>i < unat n. x \<noteq> to1 + of_nat i" for x
    using that by (intro store_bytes_outside) simp
  ultimately show ?thesis by blast
qed

lemma plain_words: "get_rsa plain_ctx ''2'' = Some (Some 2)" "get_rsa plain_ctx ''3'' = Some (Some 3)" "get_rsa plain_ctx ''12'' = Some (Some 12)"
  by code_simp+

theorem copy_overlap_witness:
  "\<exists>m'. cmd_copy [''copy'', ''2'', ''3'', ''12''] (plain_ctx\<lparr>r_mem := ucast\<rparr>) = Some (0, plain_ctx\<lparr>r_mem := m'\<rparr>) \<and> load_bytes m' 3 12 = [2, 3, 4, 5, 6, 7, 8, 9, 10, 11, 12, 13]"
proof -
  let ?c = "plain_ctx\<lparr>r_mem := ucast\<rparr>" and ?av = "[''copy'', ''2'', ''3'', ''12'']"
  have h: "get_rsa ?c (?av ! 1) = Some (Some 2)" "get_rsa ?c (?av ! 2) = Some (Some 3)" "get_rsa ?c (?av ! 3) = Some (Some 12)" by code_simp+
  obtain m' where "cmd_copy ?av ?c = Some (0, plain_ctx\<lparr>r_mem := m'\<rparr>)" "load_bytes m' 3 12 = load_bytes ucast 2 12"
    using copy_overlap [OF h] by auto
  moreover have "load_bytes ucast 2 12 = [2, 3, 4, 5, 6, 7, 8, 9, 10, 11, 12, 13]" by code_simp
  ultimately show ?thesis by (intro exI [of _ m']) (simp only: simp_thms)
qed

section \<open>Filling\<close>

text \<open>The first \<open>n\<close> bytes of the pattern repeated for ever.\<close>

definition pattern_run :: "u8 list \<Rightarrow> nat \<Rightarrow> u8 list" where
  "pattern_run p n = map (\<lambda>i. p ! (i mod length p)) [0..<n]"

lemma length_pattern_run [simp]: "length (pattern_run p n) = n"
  by (simp add: pattern_run_def)

lemma pattern_run_0: "pattern_run p 0 = []"
  by (simp add: pattern_run_def)

lemma pattern_run_Suc: "pattern_run p (Suc n) = pattern_run p n @ [p ! (n mod length p)]"
  by (simp add: pattern_run_def)

lemma fill_bytes_run:
  assumes "p \<noteq> []" "unat from1 + (k + n) = unat to1"
  shows "fill_bytes (from1 + of_nat k) to1 (k mod length p) p (store_bytes m from1 (pattern_run p k)) =
    Some (store_bytes m from1 (pattern_run p (k + n)))"
  using assms(2)
proof (induction n arbitrary: k)
  case 0
  have "unat (from1 + of_nat k) = unat from1 + k" using 0 unat_addr [of to1] by (intro unat_plus_nat) simp
  with 0 have "\<not> from1 + of_nat k < to1" by (simp add: word_less_nat_alt)
  then show ?case by (subst fill_bytes.simps) simp
next
  case (Suc n)
  have u: "unat (from1 + of_nat k) = unat from1 + k" using Suc.prems unat_addr [of to1] by (intro unat_plus_nat) simp
  with Suc.prems have lt: "from1 + of_nat k < to1" by (simp add: word_less_nat_alt)
  have i: "k mod length p < length p" using assms(1) by simp
  have next_i: "(if Suc (k mod length p) \<ge> length p then 0 else Suc (k mod length p)) = Suc k mod length p"
    using i by (simp add: mod_Suc le_less Suc_le_eq not_less)
  have st: "(store_bytes m from1 (pattern_run p k))(from1 + of_nat k := p ! (k mod length p)) = store_bytes m from1 (pattern_run p (Suc k))"
    by (simp add: pattern_run_Suc store_bytes_snoc)
  have a: "from1 + of_nat k + 1 = from1 + of_nat (Suc k)" by simp
  have "fill_bytes (from1 + of_nat (Suc k)) to1 (Suc k mod length p) p (store_bytes m from1 (pattern_run p (Suc k))) =
      Some (store_bytes m from1 (pattern_run p (Suc k + n)))"
    using Suc.prems by (intro Suc.IH) simp
  with lt i show ?case
    by (subst fill_bytes.simps) (simp only: if_True next_i st a add_Suc add_Suc_right)
qed

lemma bit_le_value: "bit (le_value bs) k \<longleftrightarrow> k < 64 \<and> k div 8 < length bs \<and> bit (bs ! (k div 8)) (k mod 8)"
proof (induction bs arbitrary: k)
  case (Cons b bs)
  have u: "bit (ucast b :: u64) k \<longleftrightarrow> k < 8 \<and> bit b k"
    using bit_imp_le_length [of b k] by (auto simp: bit_ucast_iff)
  have "bit (le_value (b # bs)) k \<longleftrightarrow> k < 8 \<and> bit b k \<or> 8 \<le> k \<and> k < 64 \<and> bit (le_value bs) (k - 8)"
    by (auto simp: bit_or_iff bit_push_bit_iff u)
  also have "\<dots> \<longleftrightarrow> k < 64 \<and> k div 8 < length (b # bs) \<and> bit ((b # bs) ! (k div 8)) (k mod 8)"
  proof (cases "k < 8")
    case False
    then have "(k - 8) div 8 = k div 8 - 1" "(k - 8) mod 8 = k mod 8" "0 < k div 8"
      by (simp_all add: le_div_geq le_mod_geq not_less)
    moreover then obtain j where "k div 8 = Suc j" by (metis gr0_implies_Suc)
    ultimately show ?thesis using False Cons.IH [of "k - 8"] by auto
  qed simp
  finally show ?case .
qed simp

lemma le_bytes_value:
  assumes "length bs = n" "n \<le> 8"
  shows "le_bytes n (le_value bs) = bs"
proof (rule nth_equalityI)
  fix i assume "i < length (le_bytes n (le_value bs))"
  then have i: "i < n" by (simp add: le_bytes_def)
  have "ucast (drop_bit (8 * i) (le_value bs)) = bs ! i"
  proof (rule bit_word_eqI)
    fix k assume "k < LENGTH(8)"
    then have "(8 * i + k) div 8 = i" "(8 * i + k) mod 8 = k" "k < 8" by simp_all
    with i assms show "bit (ucast (drop_bit (8 * i) (le_value bs)) :: u8) k = bit (bs ! i) k"
      by (simp add: bit_ucast_iff bit_drop_bit_eq bit_le_value)
  qed
  with i show "le_bytes n (le_value bs) ! i = bs ! i" by (simp add: le_bytes_def)
qed (use assms in \<open>simp add: le_bytes_def\<close>)

lemma le_bytes_nth:
  "length (le_bytes n v) = n" "i < n \<Longrightarrow> le_bytes n v ! i = ucast (drop_bit (8 * i) v)"
  by (simp_all add: le_bytes_def)

lemma le_bytes_eqI:
  assumes "length bs = 4" "\<And>i r. i < 4 \<Longrightarrow> r < 8 \<Longrightarrow> bit (w :: u32) (8 * i + r) = bit (bs ! i) r"
  shows "le_bytes 4 (ucast w) = bs"
proof (rule nth_equalityI)
  fix i assume "i < length (le_bytes 4 (ucast w))"
  then have i: "i < 4" by (simp add: le_bytes_nth)
  have "ucast (drop_bit (8 * i) (ucast w :: u64)) = bs ! i"
  proof (rule bit_word_eqI)
    fix r assume "r < LENGTH(8)"
    then have r: "r < 8" by simp
    then have "8 * i + r < 32" using i by simp
    with r assms(2) [OF i r] show "bit (ucast (drop_bit (8 * i) (ucast w :: u64)) :: u8) r = bit (bs ! i) r"
      by (simp add: bit_ucast_iff bit_drop_bit_eq)
  qed
  with i show "le_bytes 4 (ucast w) ! i = bs ! i" by (simp add: le_bytes_nth)
qed (use assms(1) in \<open>simp add: le_bytes_nth\<close>)

lemma less_4_cases: "(i :: nat) < 4 \<Longrightarrow> i = 0 \<or> i = 1 \<or> i = 2 \<or> i = 3"
  by linarith

lemma bit_u8_u32: "bit (ucast (b :: u8) :: u32) k \<longleftrightarrow> k < 8 \<and> bit b k"
  using bit_imp_le_length [of b k] by (auto simp: bit_ucast_iff)

lemma fill_word_bytes:
  assumes "fill_word p = Some w"
  shows "le_bytes 4 (ucast w) = pattern_run p 4"
proof (rule le_bytes_eqI)
  fix i r :: nat
  assume i: "i < 4" and r: "r < 8"
  consider "length p = 1" | "length p = 2" | "length p = 4" using assms by (auto simp: fill_word_def split: if_splits)
  then show "bit w (8 * i + r) = bit (pattern_run p 4 ! i) r"
  proof cases
    case 1
    with assms have "w = (ucast (p ! 0) OR push_bit 8 (ucast (p ! 0))) OR push_bit 16 (ucast (p ! 0) OR push_bit 8 (ucast (p ! 0)))"
      by (simp add: fill_word_def Let_def)
    with 1 i r less_4_cases [OF i] show ?thesis
      by (auto simp: pattern_run_def bit_or_iff bit_push_bit_iff bit_u8_u32)
  next
    case 2
    with assms have w: "w = ucast (le_value p) OR push_bit 16 (ucast (le_value p))"
      by (simp add: fill_word_def Let_def)
    have h: "bit (ucast (le_value p) :: u32) k \<longleftrightarrow> k < 16 \<and> bit (p ! (k div 8)) (k mod 8)" for k
      using 2 by (auto simp: bit_ucast_iff bit_le_value)
    have "(8 + r) div 8 = Suc 0" using r by (simp add: le_div_geq)
    with 2 i r less_4_cases [OF i] show ?thesis
      unfolding w by (auto simp: pattern_run_def bit_or_iff bit_push_bit_iff h)
  next
    case 3
    with assms have w: "w = ucast (le_value p)" by (simp add: fill_word_def)
    from 3 i r show ?thesis unfolding w by (simp add: pattern_run_def bit_ucast_iff bit_le_value)
  qed
qed simp

lemma pattern_run_word:
  assumes "length p \<in> {1, 2, 4}"
  shows "pattern_run p (4 * k) @ pattern_run p 4 = pattern_run p (4 * Suc k)"
proof -
  have "length p dvd 4 * k" using assms by auto
  then have "(4 * k + i) mod length p = i mod length p" for i by (metis dvd_imp_mod_0 mod_add_left_eq add_0)
  then have "map (\<lambda>i. p ! (i mod length p)) (map (\<lambda>i. i + 4 * k) [0..<4]) = pattern_run p 4"
    by (simp add: pattern_run_def add.commute)
  moreover have "[0..<4 * Suc k] = [0..<4 * k] @ map (\<lambda>i. i + 4 * k) [0..<4]"
    using upt_add_eq_append [of 0 "4 * k" 4] map_add_upt [of "4 * k" 4] by (simp add: add.commute)
  ultimately show ?thesis by (simp add: pattern_run_def)
qed

lemma fill_words_run:
  assumes "fill_word p = Some w" "length p \<in> {1, 2, 4}" "unat from1 + 4 * (k + n) = unat to1"
  shows "fill_words (from1 + of_nat (4 * k)) to1 w (store_bytes m from1 (pattern_run p (4 * k))) =
    Some (store_bytes m from1 (pattern_run p (4 * (k + n))))"
  using assms(3)
proof (induction n arbitrary: k)
  case 0
  have "unat (from1 + of_nat (4 * k)) = unat from1 + 4 * k" using 0 unat_addr [of to1] by (intro unat_plus_nat) simp
  with 0 have "\<not> from1 + of_nat (4 * k) < to1" by (simp add: word_less_nat_alt)
  then show ?case by (subst fill_words.simps) simp
next
  case (Suc n)
  have "unat (from1 + of_nat (4 * k)) = unat from1 + 4 * k" using Suc.prems unat_addr [of to1] by (intro unat_plus_nat) simp
  with Suc.prems have lt: "from1 + of_nat (4 * k) < to1" by (simp add: word_less_nat_alt)
  have st: "store_bytes (store_bytes m from1 (pattern_run p (4 * k))) (from1 + of_nat (4 * k)) (le_bytes 4 (ucast w)) =
      store_bytes m from1 (pattern_run p (4 * Suc k))"
    using store_bytes_append [of m from1 "pattern_run p (4 * k)" "pattern_run p 4"]
    by (simp only: fill_word_bytes [OF assms(1)] pattern_run_word [OF assms(2)] length_pattern_run)
  have a: "from1 + of_nat (4 * k) + 4 = from1 + of_nat (4 * Suc k)" by simp
  have "fill_words (from1 + of_nat (4 * Suc k)) to1 w (store_bytes m from1 (pattern_run p (4 * Suc k))) =
      Some (store_bytes m from1 (pattern_run p (4 * (Suc k + n))))"
    using Suc.prems by (intro Suc.IH) simp
  with lt show ?case by (subst fill_words.simps) (simp only: if_True st a add_Suc add_Suc_right)
qed

lemma fill_word_Some: "length p \<in> {1, 2, 4} \<Longrightarrow> \<exists>w. fill_word p = Some w"
  by (auto simp: fill_word_def Let_def)

lemma fill_pattern_bound: "fill_pattern c d as = Some (Inr p) \<Longrightarrow> length d \<le> PATSZ \<Longrightarrow> length p \<le> PATSZ"
  by (induction c d as rule: fill_pattern.induct) (auto split: if_splits list.splits option.splits)

lemma small_powers:
  assumes "0 < n" "n \<le> 80" "(of_nat n :: u32) < 5" "(of_nat n :: u32) AND (of_nat n - 1) = 0"
  shows "n \<in> {1, 2, 4}"
proof -
  have "unat (of_nat n :: u32) = n" using assms(2) by (intro unat_of_nat_less) simp
  with assms(3) have "n < 5" by (simp add: word_less_nat_alt)
  with assms(1) have "n = 1 \<or> n = 2 \<or> n = 3 \<or> n = 4" by linarith
  with assms(4) show ?thesis by auto
qed

lemma and_3_dvd:
  assumes "(x :: u32) AND 3 = 0"
  shows "4 dvd unat x"
proof -
  have "(3 :: u32) = mask 2" by (simp add: mask_eq_exp_minus_1)
  with assms have "take_bit 2 x = 0" by (simp add: take_bit_eq_mask)
  then have "unat (take_bit 2 x) = 0" by simp
  then have "take_bit 2 (unat x) = 0" by (simp only: unsigned_take_bit_eq)
  then show ?thesis by (simp add: take_bit_eq_mod dvd_eq_mod_eq_0)
qed

lemma fill_aligned_facts:
  assumes "fill_aligned (of_nat n) from1 to1" "0 < n" "n \<le> 80"
  shows "n \<in> {1, 2, 4}" "4 dvd unat from1" "4 dvd unat to1"
proof -
  have "(to1 OR from1) AND 3 = (to1 AND 3) OR (from1 AND 3)" by (rule bit.conj_disj_distrib2)
  with assms(1) have "(to1 AND 3) OR (from1 AND 3) = 0" by (simp add: fill_aligned_def)
  then have "to1 AND 3 = 0" "from1 AND 3 = 0" by (simp_all add: or_eq_0_iff)
  then show "4 dvd unat from1" "4 dvd unat to1" by (simp_all add: and_3_dvd)
  show "n \<in> {1, 2, 4}" using assms by (intro small_powers) (simp_all add: fill_aligned_def)
qed

lemma unat_next:
  assumes "(a :: u32) \<noteq> - 1"
  shows "unat (a + 1) = unat a + 1"
proof -
  have "unat (- 1 :: u32) = 2 ^ 32 - 1" by (simp add: unsigned_minus_1_eq_mask mask_eq_exp_minus_1)
  with assms have "unat a \<noteq> 2 ^ 32 - 1" by (metis word_unat_eq_iff)
  with unat_addr [of a] unat_plus_nat [of a 1] show ?thesis by simp
qed

text \<open>C15. The command \<open>fill\<close> writes its pattern over and over from the first address to the last one, included.
  The word writes of the special case for patterns of one, two or four bytes on aligned addresses store the same
  bytes as the byte writes.\<close>

theorem fill_repeats_pattern:
  assumes "get_rsa c (av ! 1) = Some (Some from1)" "get_rsa c (av ! 2) = Some (Some to1)" "from1 \<le> to1" "to1 \<noteq> - 1"
    and "fill_pattern c [] (drop 3 av) = Some (Inr p)" "p \<noteq> []"
  shows "\<exists>m'. cmd_fill av c = Some (0, c\<lparr>r_mem := m'\<rparr>) \<and>
    load_bytes m' from1 (unat to1 - unat from1 + 1) = pattern_run p (unat to1 - unat from1 + 1) \<and>
    (\<forall>x. (\<forall>i \<le> unat to1 - unat from1. x \<noteq> from1 + of_nat i) \<longrightarrow> m' x = r_mem c x)"
proof -
  let ?n = "unat to1 - unat from1 + 1" and ?len = "of_nat (length p) :: u32"
  have u: "unat (to1 + 1) = unat to1 + 1" by (rule unat_next [OF assms(4)])
  have le: "unat from1 \<le> unat to1" using assms(3) by (simp add: word_le_nat_alt)
  have run: "cmd_fill av c = Some (0, c\<lparr>r_mem := store_bytes (r_mem c) from1 (pattern_run p ?n)\<rparr>)"
  proof (cases "fill_aligned ?len from1 (to1 + 1)")
    case True
    have al: "length p \<in> {1, 2, 4}" "4 dvd unat from1" "4 dvd unat (to1 + 1)"
      using fill_aligned_facts [OF True] assms(6) fill_pattern_bound [OF assms(5)] by (simp_all add: PATSZ_def)
    then obtain w where w: "fill_word p = Some w" using fill_word_Some by blast
    from al(2,3) obtain j k where "unat from1 = 4 * j" "unat (to1 + 1) = 4 * k" by (meson dvdE)
    with u le have "unat from1 + 4 * (0 + (k - j)) = unat (to1 + 1)" "4 * (0 + (k - j)) = ?n" by simp_all
    with fill_words_run [OF w al(1) this(1), of "r_mem c"]
    have "fill_words from1 (to1 + 1) w (r_mem c) = Some (store_bytes (r_mem c) from1 (pattern_run p ?n))"
      by (simp only: mult_0_right pattern_run_0) simp
    with True w assms show ?thesis by (simp add: cmd_fill_def get_two_def Let_def not_less)
  next
    case False
    have "unat from1 + (0 + ?n) = unat (to1 + 1)" using u le by simp
    from fill_bytes_run [OF assms(6) this, of "r_mem c"]
    have "fill_bytes from1 (to1 + 1) 0 p (r_mem c) = Some (store_bytes (r_mem c) from1 (pattern_run p ?n))"
      by (simp only: pattern_run_0) simp
    with False assms show ?thesis by (simp add: cmd_fill_def get_two_def Let_def not_less)
  qed
  let ?m = "store_bytes (r_mem c) from1 (pattern_run p ?n)"
  have "load_bytes ?m from1 ?n = pattern_run p ?n"
    using load_bytes_store_bytes [of "pattern_run p ?n" "r_mem c" from1] u le unat_addr [of "to1 + 1"] by simp
  moreover have "?m x = r_mem c x" if "\<forall>i \<le> unat to1 - unat from1. x \<noteq> from1 + of_nat i" for x
    using that by (intro store_bytes_outside) (simp add: less_Suc_eq_le)
  ultimately show ?thesis using run by blast
qed

theorem fill_repeats_pattern_witness:
  "\<exists>m'. cmd_fill [''fill'', ''2'', ''12'', ''-s'', ''ab''] plain_ctx = Some (0, plain_ctx\<lparr>r_mem := m'\<rparr>) \<and>
    load_bytes m' 2 11 = [97, 98, 97, 98, 97, 98, 97, 98, 97, 98, 97]"
proof -
  have "fill_pattern plain_ctx [] (drop 3 [''fill'', ''2'', ''12'', ''-s'', ''ab'']) = Some (Inr [97, 98])" by code_simp
  from fill_repeats_pattern [OF _ _ _ _ this, of 2 12] obtain m' where
    "cmd_fill [''fill'', ''2'', ''12'', ''-s'', ''ab''] plain_ctx = Some (0, plain_ctx\<lparr>r_mem := m'\<rparr>)"
    "load_bytes m' 2 11 = pattern_run [97, 98] 11" by (auto simp: plain_words)
  moreover have "pattern_run [97, 98] 11 = [97, 98, 97, 98, 97, 98, 97, 98, 97, 98, 97]" by code_simp
  ultimately show ?thesis by (intro exI [of _ m']) (simp only: simp_thms)
qed

text \<open>A fill up to the last byte of memory stores nothing: the end wraps to 0.\<close>

lemma fill_to_the_top:
  assumes "get_rsa c (av ! 1) = Some (Some from1)" "get_rsa c (av ! 2) = Some (Some (- 1))" "fill_pattern c [] (drop 3 av) = Some (Inr [b])"
  shows "cmd_fill av c = Some (0, c)"
  using assms by (simp add: cmd_fill_def get_two_def Let_def fill_word_def fill_words.simps [of from1 0] fill_bytes.simps [of from1 0])

section \<open>Comparing\<close>

definition differences :: "u32 \<Rightarrow> u32 \<Rightarrow> nat list \<Rightarrow> mem \<Rightarrow> cstr list" where
  "differences from1 with1 is m =
     map (\<lambda>i. compare_line (from1 + of_nat i) (m (from1 + of_nat i)) (m (with1 + of_nat i)))
       (filter (\<lambda>i. m (from1 + of_nat i) \<noteq> m (with1 + of_nat i)) is)"

lemma compare_loop_run:
  assumes "unat from1 + (k + n) = unat to1 + 1" "to1 \<noteq> - 1"
  shows "compare_loop (from1 + of_nat k) to1 (with1 + of_nat k) out m = Some (out @ differences from1 with1 [k..<k + n] m)"
  using assms(1)
proof (induction n arbitrary: k out)
  case 0
  then have "from1 + of_nat k = to1 + 1"
    using unat_next [OF assms(2)] by (metis add_0_right of_nat_add of_nat_unat ucast_id)
  moreover have "\<not> to1 + 1 \<le> to1" using unat_next [OF assms(2)] by (simp add: word_le_nat_alt)
  ultimately show ?case by (subst compare_loop.simps) (simp add: differences_def)
next
  case (Suc n)
  have u: "unat (from1 + of_nat k) = unat from1 + k"
    using Suc.prems unat_next [OF assms(2)] unat_addr [of "to1 + 1"] by (intro unat_plus_nat) simp
  with Suc.prems have le: "from1 + of_nat k \<le> to1" by (simp add: word_le_nat_alt)
  have a: "from1 + of_nat k + 1 = from1 + of_nat (Suc k)" "with1 + of_nat k + 1 = with1 + of_nat (Suc k)" by simp_all
  have "[k..<k + Suc n] = k # [Suc k..<Suc k + n]" by (simp add: upt_conv_Cons)
  moreover have "compare_loop (from1 + of_nat (Suc k)) to1 (with1 + of_nat (Suc k)) out' m = Some (out' @ differences from1 with1 [Suc k..<Suc k + n] m)" for out'
    using Suc.prems by (intro Suc.IH) simp
  ultimately show ?case
    using le by (subst compare_loop.simps) (simp only: if_True a, simp add: differences_def)
qed

text \<open>The command \<open>compare\<close> prints a line for every address of its range whose byte differs from the one at the
  same distance in the other range, in the order of the addresses, and no other line.\<close>

theorem compare_reports:
  assumes "get_rsa c (av ! 1) = Some (Some from1)" "get_rsa c (av ! 2) = Some (Some to1)" "get_rsa c (av ! 3) = Some (Some with1)"
    and "from1 \<le> to1" "to1 \<noteq> - 1"
  shows "cmd_compare av c = Some (0, differences from1 with1 [0..<unat to1 - unat from1 + 1] (r_mem c))"
proof -
  have "unat from1 + (0 + (unat to1 - unat from1 + 1)) = unat to1 + 1" using assms(4) by (simp add: word_le_nat_alt)
  from compare_loop_run [OF this assms(5), of with1 "[]" "r_mem c"] assms show ?thesis by (simp add: cmd_compare_def get_three_def get_two_def)
qed

theorem compare_reports_witness:
  "cmd_compare [''compare'', ''2'', ''3'', ''12''] (plain_ctx\<lparr>r_mem := (\<lambda>_. 0)(3 := 1)\<rparr>) = Some (0, [''00000003: 01 != 00 (01)\<newline>''])"
proof -
  let ?c = "plain_ctx\<lparr>r_mem := (\<lambda>_. 0)(3 := 1)\<rparr>"
  have "get_rsa ?c ''2'' = Some (Some 2)" "get_rsa ?c ''3'' = Some (Some 3)" "get_rsa ?c ''12'' = Some (Some 12)" by code_simp+
  then have "cmd_compare [''compare'', ''2'', ''3'', ''12''] ?c = Some (0, differences 2 12 [0, Suc 0] ((\<lambda>_. 0)(3 := 1)))"
    using compare_reports [of ?c "[''compare'', ''2'', ''3'', ''12'']" 2 3 12] by simp
  also have "differences 2 12 [0, Suc 0] ((\<lambda>_. 0)(3 := 1)) = [''00000003: 01 != 00 (01)\<newline>'']" by code_simp
  finally show ?thesis .
qed

text \<open>A range that ends with the last byte of memory is compared for ever.\<close>

lemma compare_loop_ends:
  assumes "compare_loop from1 to1 with1 out m = Some r"
  shows "to1 \<noteq> - 1"
proof -
  define P where "P = (\<lambda>(from1 :: u32) (to1 :: u32) (with1 :: u32) (out :: cstr list) (m :: mem) (r :: cstr list). to1 \<noteq> - 1)"
  have "P from1 to1 with1 out m r"
  proof (rule compare_loop.raw_induct [of P, OF _ assms], goal_cases)
    case (1 f from1 to1 with1 out m r)
    show ?case
    proof (cases "from1 \<le> to1")
      case True
      with 1(2) have "f (from1 + 1) to1 (with1 + 1) (if m from1 \<noteq> m with1 then out @ [compare_line from1 (m from1) (m with1)] else out) m = Some r"
        by simp
      from 1(1) [OF this] show ?thesis by (simp add: P_def)
    next
      case False
      then show ?thesis by (auto simp: P_def)
    qed
  qed
  then show ?thesis by (simp add: P_def)
qed

lemma compare_forever: "compare_loop from1 (- 1) with1 out m = None"
  using compare_loop_ends [of from1 "- 1" with1 out m] by (cases "compare_loop from1 (- 1) with1 out m") auto

section \<open>Searching\<close>

lemma pattern_at_load: "pattern_at pat a m \<longleftrightarrow> load_bytes m a (length pat) = pat"
  by (induction pat arbitrary: a) auto

text \<open>A pager that is not searching shows each line; with spaces typed it goes on.\<close>

lemma more_page_spaces:
  assumes "0 \<le> pg_cnt g" "0 < size1" "pg_keys g = replicate (Suc k) CHR '' ''"
  shows "\<exists>g'. more_page p size1 g = Some (False, g') \<and> 0 \<le> pg_cnt g' \<and> pg_out g' = pg_out g @ [p] \<and>
    (pg_keys g' = replicate (Suc k) CHR '' '' \<or> pg_keys g' = replicate k CHR '' '')"
  using assms by (auto simp: more_page_def Let_def getinp.simps [of size1 "CHR '' '' # _"])

definition hits :: "u8 list \<Rightarrow> u32 \<Rightarrow> nat list \<Rightarrow> mem \<Rightarrow> u32 list" where
  "hits pat from1 is m = filter (\<lambda>a. load_bytes m a (length pat) = pat) (map (\<lambda>i. from1 + of_nat i) is)"

lemma search_loop_run:
  assumes "unat from1 + (k + n) = unat to1 + 1" "to1 \<noteq> - 1" "0 < siz"
    and "0 \<le> pg_cnt g" "pg_keys g = replicate j CHR '' ''" "n \<le> j"
  shows "\<exists>g'. search_loop (from1 + of_nat k) to1 pat siz g m = Some g' \<and>
    pg_out g' = pg_out g @ map (\<lambda>a. dispmem a 4 False m) (hits pat from1 [k..<k + n] m)"
  using assms(1,4-)
proof (induction n arbitrary: k g j)
  case 0
  then have "from1 + of_nat k = to1 + 1"
    using unat_next [OF assms(2)] by (metis add_0_right of_nat_add of_nat_unat ucast_id)
  moreover have "\<not> to1 + 1 \<le> to1" using unat_next [OF assms(2)] by (simp add: word_le_nat_alt)
  ultimately show ?case by (subst search_loop.simps) (simp add: hits_def)
next
  case (Suc n)
  let ?a = "from1 + of_nat k"
  have u: "unat ?a = unat from1 + k"
    using Suc.prems unat_next [OF assms(2)] unat_addr [of "to1 + 1"] by (intro unat_plus_nat) simp
  with Suc.prems have le: "?a \<le> to1" by (simp add: word_le_nat_alt)
  have a: "?a + 1 = from1 + of_nat (Suc k)" by simp
  have sum: "unat from1 + (Suc k + n) = unat to1 + 1" using Suc.prems(1) by simp
  have upt: "[k..<k + Suc n] = k # [Suc k..<Suc k + n]" by (simp add: upt_conv_Cons)
  obtain i where j: "j = Suc i" "n \<le> i" using Suc.prems(4) by (cases j) auto
  show ?case
  proof (cases "pattern_at pat ?a m")
    case True
    obtain g1 j1 where g1: "more_page (dispmem ?a 4 False m) siz g = Some (False, g1)" "0 \<le> pg_cnt g1"
      "pg_out g1 = pg_out g @ [dispmem ?a 4 False m]" "pg_keys g1 = replicate j1 CHR '' ''" "n \<le> j1"
      using more_page_spaces [OF Suc.prems(2) assms(3) Suc.prems(3) [unfolded j(1)]] j(2) by (metis le_Suc_eq)
    obtain g' where "search_loop (from1 + of_nat (Suc k)) to1 pat siz g1 m = Some g'"
      "pg_out g' = pg_out g1 @ map (\<lambda>a. dispmem a 4 False m) (hits pat from1 [Suc k..<Suc k + n] m)"
      using Suc.IH [OF sum g1(2,4,5)] by blast
    moreover have "hits pat from1 [k..<k + Suc n] m = ?a # hits pat from1 [Suc k..<Suc k + n] m"
      unfolding upt using True by (simp add: hits_def pattern_at_load)
    ultimately show ?thesis
      using g1(1,3) le True by (subst search_loop.simps) (simp add: a del: of_nat_Suc upt_Suc add_Suc add_Suc_right)
  next
    case False
    from Suc.prems(4) have "n \<le> j" by simp
    have "hits pat from1 [k..<k + Suc n] m = hits pat from1 [Suc k..<Suc k + n] m"
      unfolding upt using False by (simp add: hits_def pattern_at_load)
    with Suc.IH [OF sum Suc.prems(2,3) \<open>n \<le> j\<close>] le False show ?thesis
      by (subst search_loop.simps) (simp add: a del: of_nat_Suc upt_Suc add_Suc add_Suc_right)
  qed
qed

lemma search_pattern_bound: "search_pattern c d as = Some (Inr p) \<Longrightarrow> length d \<le> PATSZ \<Longrightarrow> length p \<le> PATSZ"
  by (induction c d as rule: search_pattern.induct) (auto split: if_splits list.splits option.splits)

text \<open>C18. The command \<open>search\<close> lists exactly the places of its range where the pattern is in memory, whole within
  the range, in the order of the addresses, and then ends. (The pager goes on with every key.)\<close>

theorem search_finds:
  assumes "get_rsa c (av ! 1) = Some (Some from1)" "get_rsa c (av ! 2) = Some (Some to1)" "from1 < to1" "to1 \<noteq> - 1"
    and "search_pattern c [] (drop 3 av) = Some (Inr pat)" "pat \<noteq> []" "length pat \<le> unat to1 - unat from1 + 1"
    and "0 < moresz (r_env c)" "pg_keys g = replicate (unat to1 - unat from1 + 1) CHR '' ''"
  shows "\<exists>g'. cmd_search av g c = Some (0, g') \<and>
    pg_out g' = pg_out g @ map (\<lambda>a. dispmem a 4 False (r_mem c))
      (hits pat from1 [0..<unat to1 - unat from1 + 2 - length pat] (r_mem c))"
proof -
  let ?l = "of_nat (length pat) :: u32" and ?siz = "int (unat (moresz (r_env c)))"
  let ?to = "to1 - (?l - 1)" and ?n = "unat to1 - unat from1 + 2 - length pat"
  have lt: "unat from1 < unat to1" using assms(3) by (simp add: word_less_nat_alt)
  have "unat ?l = length pat" using search_pattern_bound [OF assms(5)] by (intro unat_of_nat_less) (simp add: PATSZ_def)
  moreover have "0 < length pat" using assms(6) by simp
  ultimately have l: "unat (?l - 1) = length pat - 1" by (subst unat_minus_one) auto
  then have "?l - 1 \<le> to1" using assms(7) lt by (simp add: word_le_nat_alt)
  then have to: "unat ?to = unat to1 - (length pat - 1)" using l by (simp add: unat_sub)
  have ne: "?to \<noteq> - 1"
  proof
    assume "?to = - 1"
    then have "unat ?to = unat (- 1 :: u32)" by (simp only:)
    also have "\<dots> = 2 ^ 32 - 1" by (simp add: unsigned_minus_1_eq_mask mask_eq_exp_minus_1)
    finally have "unat ?to = 2 ^ 32 - 1" .
    with to unat_next [OF assms(4)] unat_addr [of "to1 + 1"] show False by simp
  qed
  have "unat from1 + (0 + ?n) = unat ?to + 1" using to lt assms(7) \<open>0 < length pat\<close> by simp
  moreover have "0 < unat (moresz (r_env c))" using assms(8) by (simp add: word_less_nat_alt)
  then have "0 < ?siz" by (simp only: of_nat_0_less_iff)
  moreover have "?n \<le> unat to1 - unat from1 + 1" using \<open>0 < length pat\<close> by linarith
  ultimately have "\<exists>g'. search_loop (from1 + of_nat 0) ?to pat ?siz (g\<lparr>pg_cnt := ?siz\<rparr>) (r_mem c) = Some g' \<and>
      pg_out g' = pg_out (g\<lparr>pg_cnt := ?siz\<rparr>) @ map (\<lambda>a. dispmem a 4 False (r_mem c)) (hits pat from1 [0..<0 + ?n] (r_mem c))"
    using assms(9) ne by (intro search_loop_run) simp_all
  then show ?thesis using assms by (auto simp: cmd_search_def get_two_def Let_def not_le not_less)
qed

theorem search_finds_witness:
  "\<exists>g'. cmd_search [''search'', ''2'', ''12'', ''-s'', ''ab''] \<lparr>pg_cnt = 0, pg_pat = [], pg_keys = replicate 11 CHR '' '', pg_out = []\<rparr>
      (plain_ctx\<lparr>r_mem := (\<lambda>_. 0)(5 := 97, 6 := 98, 12 := 97, 13 := 98)\<rparr>) = Some (0, g') \<and>
    pg_out g' = [dispmem 5 4 False ((\<lambda>_. 0)(5 := 97, 6 := 98, 12 := 97, 13 := 98))]"
proof -
  let ?m = "(\<lambda>_. 0)(5 := 97, 6 := 98, 12 := 97, 13 := 98) :: mem"
  let ?c = "plain_ctx\<lparr>r_mem := ?m\<rparr>" and ?av = "[''search'', ''2'', ''12'', ''-s'', ''ab'']"
  let ?g = "\<lparr>pg_cnt = 0, pg_pat = [], pg_keys = replicate 11 CHR '' '', pg_out = []\<rparr>"
  have h: "get_rsa ?c (?av ! 1) = Some (Some 2)" "get_rsa ?c (?av ! 2) = Some (Some 12)" "search_pattern ?c [] (drop 3 ?av) = Some (Inr [97, 98])"
    "0 < moresz (r_env ?c)" by code_simp+
  have r: "[97, 98] \<noteq> ([] :: u8 list)" "length [97 :: u8, 98] \<le> unat (12 :: u32) - unat (2 :: u32) + 1"
    "(2 :: u32) < 12" "(12 :: u32) \<noteq> - 1" "pg_keys ?g = replicate (unat (12 :: u32) - unat (2 :: u32) + 1) CHR '' ''"
    by simp_all
  have "hits [97, 98] 2 [0..<unat (12 :: u32) - unat (2 :: u32) + 2 - length [97 :: u8, 98]] (r_mem ?c) = [5]" by code_simp
  with search_finds [OF h(1,2) r(3,4) h(3) r(1,2) h(4) r(5)] show ?thesis by simp
qed

section \<open>Displaying\<close>

lemma dump_loop_lines:
  assumes "pg_cnt g = int n"
  shows "\<exists>g'. dump_loop adr siz reverse 0 g m = Some (adr + of_nat (16 * n), g') \<and>
    pg_out g' = pg_out g @ map (\<lambda>i. dispmem (adr + of_nat (16 * i)) siz reverse m) [0..<n]"
  using assms
proof (induction n arbitrary: adr g)
  case 0
  then show ?case by (subst dump_loop.simps) (simp add: more_page_def)
next
  case (Suc n)
  let ?g = "g\<lparr>pg_out := pg_out g @ [dispmem adr siz reverse m], pg_cnt := int n\<rparr>"
  have "more_page (dispmem adr siz reverse m) 0 g = Some (False, ?g)"
    using Suc.prems by (simp add: more_page_def Let_def)
  moreover obtain g' where g': "dump_loop (adr + 16) siz reverse 0 ?g m = Some (adr + 16 + of_nat (16 * n), g')"
      "pg_out g' = pg_out ?g @ map (\<lambda>i. dispmem (adr + 16 + of_nat (16 * i)) siz reverse m) [0..<n]"
    using Suc.IH [of ?g "adr + 16"] by auto
  moreover have "[0..<Suc n] = 0 # map Suc [0..<n]" by (simp add: upt_conv_Cons map_Suc_upt)
  then have "map (\<lambda>i. dispmem (adr + of_nat (16 * i)) siz reverse m) [0..<Suc n] =
      dispmem adr siz reverse m # map (\<lambda>i. dispmem (adr + 16 + of_nat (16 * i)) siz reverse m) [0..<n]"
    by (simp add: algebra_simps)
  ultimately show ?case by (subst dump_loop.simps) (simp add: algebra_simps del: upt_Suc)
qed

text \<open>C35. The command \<open>d\<close> with a number of lines prints exactly that many, one for each sixteen bytes from the address
  on, and remembers where to go on.\<close>

theorem dump_prints_lines:
  assumes "get_rsa c a = Some (Some adr)" "get_rsa c b = Some (Some n)" "unat n < 2 ^ 31" "default_datasz c = Some sz"
    and "char_at a 0 \<noteq> CHR ''-''"
  shows "\<exists>g'. cmd_dump disp False last_adr [''d'', a, b] g c = Some (0, adr + 16 * n, g') \<and>
    pg_out g' = pg_out g @ map (\<lambda>i. dispmem (adr + of_nat (16 * i)) (unat sz) False (r_mem c)) [0..<unat n]"
proof -
  have "cmd_getopt [''d'', a, b] ''dwhbsxr:'' = Some ([], 1)"
    using assms(5) by (simp add: cmd_getopt_def getopt_def getopt_state.defs Let_def)
  moreover have "sint n = int (unat n)" 
  proof -
    have "of_nat (unat n) = n" by simp
    with sint_count [OF assms(3)] show ?thesis by (simp only:)
  qed
  moreover have "of_nat (16 * unat n) = 16 * n" by simp
  ultimately show ?thesis
    using dump_loop_lines [of "g\<lparr>pg_cnt := int (unat n)\<rparr>" "unat n" adr "unat sz" False "r_mem c"] assms
    by (auto simp: cmd_dump_def d_operand_def Let_def)
qed

theorem dump_prints_lines_witness:
  "\<exists>g'. cmd_dump (\<lambda>_ _ _. True) False 0 [''d'', ''12'', ''2'']
      \<lparr>pg_cnt = 0, pg_pat = [], pg_keys = [], pg_out = []\<rparr>
      (plain_ctx\<lparr>r_env := set_slot 2 \<lparr>ep_name = Some ''datasize'', ep_value = Some ''-w''\<rparr> (r_env plain_ctx)\<rparr>) = Some (0, 44, g') \<and>
    pg_out g' = [dispmem 12 4 False (\<lambda>_. 0), dispmem 28 4 False (\<lambda>_. 0)]"
proof -
  let ?c = "plain_ctx\<lparr>r_env := set_slot 2 \<lparr>ep_name = Some ''datasize'', ep_value = Some ''-w''\<rparr> (r_env plain_ctx)\<rparr>"
  have "get_rsa ?c ''12'' = Some (Some 12)" "get_rsa ?c ''2'' = Some (Some 2)" "default_datasz ?c = Some 4" by code_simp+
  moreover have "r_mem ?c = (\<lambda>_. 0)" by (simp add: plain_ctx_def)
  moreover have "[0..<unat (2 :: u32)] = [0, 1]" by code_simp
  ultimately show ?thesis
    using dump_prints_lines [of ?c "''12''" 12 "''2''" 2 4 "\<lambda>_ _ _. True" 0 "\<lparr>pg_cnt = 0, pg_pat = [], pg_keys = [], pg_out = []\<rparr>"]
    by (simp add: char_at_def)
qed

text \<open>The option that asks for a register sets every bit of the size, which the test for several sizes refuses.\<close>

lemma dump_register_refused:
  "d_options [(CHR ''r'', a)] (0, False, []) = Some (- 1, False, case a of None \<Rightarrow> [] | Some r \<Rightarrow> r) \<and> (- 1 :: u32) AND (- 1 - 1) \<noteq> 0"
  by simp

section \<open>Modifying\<close>

lemma bit_u8_u64: "bit (ucast (b :: u8) :: u64) k \<longleftrightarrow> k < 8 \<and> bit b k"
  using bit_imp_le_length [of b k] by (auto simp: bit_ucast_iff)

lemma le_value_bytes:
  assumes "n \<le> 8"
  shows "le_value (le_bytes n v) = take_bit (8 * n) v"
proof (rule bit_word_eqI)
  fix k assume "k < LENGTH(64)"
  then have k: "k < 64" by simp
  have "k div 8 < n \<longleftrightarrow> k < 8 * n" by (simp add: div_less_iff_less_mult mult.commute)
  moreover have "8 * (k div 8) + k mod 8 = k" by simp
  ultimately show "bit (le_value (le_bytes n v)) k = bit (take_bit (8 * n) v) k"
    using k by (auto simp: bit_le_value le_bytes_nth bit_take_bit_iff bit_ucast_iff bit_drop_bit_eq)
qed

lemma bit_byte_const:
  "bit (x AND 0xff :: u16) k \<longleftrightarrow> bit x k \<and> k < 8" "bit (x AND 0xff00 :: u16) k \<longleftrightarrow> bit x k \<and> 8 \<le> k \<and> k < 16"
proof -
  have c: "(0xff :: u16) = mask 8" "(0xff00 :: u16) = push_bit 8 (mask 8)" by (simp_all add: mask_eq_exp_minus_1 push_bit_eq_mult)
  show "bit (x AND 0xff :: u16) k \<longleftrightarrow> bit x k \<and> k < 8" "bit (x AND 0xff00 :: u16) k \<longleftrightarrow> bit x k \<and> 8 \<le> k \<and> k < 16"
    unfolding c bit_and_iff bit_push_bit_iff bit_mask_iff using bit_imp_le_length [of x k] by auto
qed

lemma bit_swap16: "bit (swap16 x) k \<longleftrightarrow> k < 16 \<and> bit x (if k < 8 then k + 8 else k - 8)"
  using bit_imp_le_length [of x "k + 8"]
  unfolding swap16_def bit_or_iff bit_push_bit_iff bit_drop_bit_eq comp_def bit_byte_const by (auto simp: add.commute)

lemma swap16_twice: "swap16 (swap16 x) = x"
  by (rule bit_word_eqI) (auto simp: bit_swap16)

lemma bit_byte_const32:
  "bit (x AND 0xff :: u32) k \<longleftrightarrow> bit x k \<and> k < 8" "bit (x AND 0xff00 :: u32) k \<longleftrightarrow> bit x k \<and> 8 \<le> k \<and> k < 16"
  "bit (x AND 0xff0000 :: u32) k \<longleftrightarrow> bit x k \<and> 16 \<le> k \<and> k < 24" "bit (x AND 0xff000000 :: u32) k \<longleftrightarrow> bit x k \<and> 24 \<le> k \<and> k < 32"
proof -
  have c: "(0xff :: u32) = mask 8" "(0xff00 :: u32) = push_bit 8 (mask 8)" "(0xff0000 :: u32) = push_bit 16 (mask 8)"
    "(0xff000000 :: u32) = push_bit 24 (mask 8)" by (simp_all add: mask_eq_exp_minus_1 push_bit_eq_mult)
  show "bit (x AND 0xff :: u32) k \<longleftrightarrow> bit x k \<and> k < 8" "bit (x AND 0xff00 :: u32) k \<longleftrightarrow> bit x k \<and> 8 \<le> k \<and> k < 16"
    "bit (x AND 0xff0000 :: u32) k \<longleftrightarrow> bit x k \<and> 16 \<le> k \<and> k < 24" "bit (x AND 0xff000000 :: u32) k \<longleftrightarrow> bit x k \<and> 24 \<le> k \<and> k < 32"
    unfolding c bit_and_iff bit_push_bit_iff bit_mask_iff using bit_imp_le_length [of x k] by auto
qed

lemma bit_swap32: "bit (swap32 x) k \<longleftrightarrow> k < 32 \<and>
    bit x (if k < 8 then k + 24 else if k < 16 then k + 8 else if k < 24 then k - 8 else k - 24)"
  using bit_imp_le_length [of x "k + 24"] bit_imp_le_length [of x "k + 8"]
  unfolding swap32_def bit_or_iff bit_push_bit_iff bit_drop_bit_eq comp_def bit_byte_const32 by (auto simp: add.commute)

lemma swap32_twice: "swap32 (swap32 x) = x"
  by (rule bit_word_eqI) (auto simp: bit_swap32)

lemma narrow_casts:
  "(ucast (take_bit 16 (ucast (y :: u16) :: u64)) :: u16) = y" "(ucast (ucast (v :: u64) :: u16) :: u64) = take_bit 16 v"
  "(ucast (take_bit 32 (ucast (z :: u32) :: u64)) :: u32) = z" "(ucast (ucast (v :: u64) :: u32) :: u64) = take_bit 32 v"
  by (rule bit_word_eqI; auto simp: bit_ucast_iff bit_take_bit_iff)+

text \<open>A value stored by the command \<open>m\<close> is shown again when its address is read with the same size, also with
  bytes swapped.\<close>

theorem modify_read_back:
  assumes "datasz \<in> {1, 2, 4, 8}"
  shows "read_value datasz reverse adr v0 (store_value datasz reverse adr v m) = take_bit (8 * unat datasz) v"
proof -
  let ?bs = "le_bytes (unat datasz) (swap_value datasz reverse v)"
  have n: "unat datasz \<le> 8" using assms by auto
  have "load_bytes (store_bytes m adr ?bs) adr (length ?bs) = ?bs" using n by (intro load_bytes_store_bytes) (simp add: le_bytes_nth)
  then have "le_value (load_bytes (store_bytes m adr ?bs) adr (unat datasz)) = take_bit (8 * unat datasz) (swap_value datasz reverse v)"
    by (simp add: le_bytes_nth le_value_bytes [OF n])
  then show ?thesis
    using assms by (auto simp: read_value_def store_value_def swap_value_def swap16_twice swap32_twice narrow_casts)
qed

theorem modify_read_back_witness:
  "read_value 2 True 12 0 (store_value 2 True 12 0x11234 (\<lambda>_. 0)) = 0x1234"
  using modify_read_back [where datasz = 2 and reverse = True and adr = 12 and v = "0x11234" and m = "\<lambda>_. 0"] by (simp add: take_bit_eq_mod)

end
