(* ===== verification/Blocks.thy ===== *)
theory Blocks
  imports Prelude
begin

text \<open>
  Two abstractions for the heap: a list of blocks that tile an address range, and a ring of
  addresses given by a function to the next one. The lemmas are about lists only; \<open>Malloc_Inv\<close>
  relates them to the memory.
\<close>

section \<open>The heap as a list of blocks\<close>

text \<open>A block is its address, its size in units and whether it is free. The blocks of a heap tile
  it from the break to its top.\<close>

type_synonym block = "nat \<times> nat \<times> bool"

fun tiles :: "nat \<Rightarrow> block list \<Rightarrow> nat \<Rightarrow> bool" where
  "tiles lo [] hi \<longleftrightarrow> lo = hi"
| "tiles lo ((a, n, f) # bl) hi \<longleftrightarrow> a = lo \<and> 0 < n \<and> tiles (a + 8 * n) bl hi"

fun coalesced :: "block list \<Rightarrow> bool" where
  "coalesced ((a, n, f) # (c, k, g) # bl) \<longleftrightarrow> \<not> (f \<and> g) \<and> coalesced ((c, k, g) # bl)"
| "coalesced bl \<longleftrightarrow> True"

definition is_free :: "block \<Rightarrow> bool" where
  "is_free x = snd (snd x)"

definition frees :: "block list \<Rightarrow> nat list" where
  "frees bl = map fst (filter is_free bl)"

definition in_use :: "block list \<Rightarrow> (nat \<times> nat) set" where
  "in_use bl = {(a, n). (a, n, False) \<in> set bl}"

lemma is_free_simp [simp]: "is_free (a, n, f) = f"
  by (simp add: is_free_def)

lemma frees_simps [simp]: "frees [] = []" "frees (x # bl) = (if is_free x then [fst x] else []) @ frees bl"
  "frees (xs @ ys) = frees xs @ frees ys"
  by (simp_all add: frees_def)

lemma in_use_simps [simp]: "in_use [] = {}" "in_use ((a, n, True) # bl) = in_use bl"
  "in_use ((a, n, False) # bl) = insert (a, n) (in_use bl)" "in_use (xs @ ys) = in_use xs \<union> in_use ys"
  by (auto simp: in_use_def)

lemma tiles_le: "tiles lo bl hi \<Longrightarrow> lo \<le> hi"
  by (induction lo bl hi rule: tiles.induct) auto

lemma tiles_append: "tiles lo (xs @ ys) hi \<longleftrightarrow> (\<exists>mid. tiles lo xs mid \<and> tiles mid ys hi)"
  by (induction lo xs hi arbitrary: hi rule: tiles.induct) auto

lemma tiles_mem: "tiles lo bl hi \<Longrightarrow> (a, n, f) \<in> set bl \<Longrightarrow> lo \<le> a \<and> 0 < n \<and> a + 8 * n \<le> hi"
  by (induction lo bl hi rule: tiles.induct) (force dest: tiles_le)+

lemma tiles_mod: "tiles lo bl hi \<Longrightarrow> lo mod 8 = 0 \<Longrightarrow> (a, n, f) \<in> set bl \<Longrightarrow> a mod 8 = 0"
proof (induction lo bl hi rule: tiles.induct)
  case (2 lo a' n' f' bl hi)
  then have "(a' + 8 * n') mod 8 = 0" by simp
  with 2 show ?case by auto
qed simp

lemma tiles_frees: "tiles lo bl hi \<Longrightarrow> a \<in> set (frees bl) \<Longrightarrow> lo \<le> a \<and> a + 8 \<le> hi"
  using tiles_mem by (fastforce simp: frees_def is_free_def)

lemma tiles_sorted: "tiles lo bl hi \<Longrightarrow> sorted_wrt (<) (frees bl)"
  by (induction lo bl hi rule: tiles.induct) (auto dest: tiles_frees)

text \<open>Blocks do not overlap.\<close>

lemma tiles_apart:
  "tiles lo bl hi \<Longrightarrow> (a, n, f) \<in> set bl \<Longrightarrow> (c, k, g) \<in> set bl \<Longrightarrow>
   (a, n, f) = (c, k, g) \<or> a + 8 * n \<le> c \<or> c + 8 * k \<le> a"
  by (induction lo bl hi rule: tiles.induct) (force dest: tiles_mem)+

lemma coalesced_Cons: "coalesced (x # bl) \<longleftrightarrow> \<not> (is_free x \<and> bl \<noteq> [] \<and> is_free (hd bl)) \<and> coalesced bl"
  by (cases x; cases bl) auto

lemma coalesced_append:
  "coalesced (xs @ ys) \<longleftrightarrow>
   coalesced xs \<and> coalesced ys \<and> \<not> (xs \<noteq> [] \<and> ys \<noteq> [] \<and> is_free (last xs) \<and> is_free (hd ys))"
  by (induction xs) (auto simp: coalesced_Cons)

section \<open>The ring of free blocks\<close>

text \<open>The pointers go through the list and back to its first element.\<close>

definition ring :: "(nat \<Rightarrow> nat) \<Rightarrow> nat \<Rightarrow> nat list \<Rightarrow> bool" where
  "ring f b fs \<longleftrightarrow> map f (b # fs) = fs @ [b]"

lemma ring_split:
  assumes "b # fs1 = pre @ [q]"
  shows "ring f b (fs1 @ fs2) \<longleftrightarrow> map f pre = fs1 \<and> map f (q # fs2) = fs2 @ [b]"
proof -
  have l: "length (map f pre) = length fs1" using arg_cong [OF assms, of length] by simp
  have "map f (b # fs1 @ fs2) = map f pre @ map f (q # fs2)"
    using arg_cong [OF assms, of "\<lambda>l. map f (l @ fs2)"] by simp
  then have "ring f b (fs1 @ fs2) \<longleftrightarrow> map f pre @ map f (q # fs2) = fs1 @ (fs2 @ [b])"
    by (simp only: ring_def append_assoc)
  also have "\<dots> \<longleftrightarrow> map f pre = fs1 \<and> map f (q # fs2) = fs2 @ [b]"
    by (rule append_eq_append_conv) (use l in blast)
  finally show ?thesis .
qed

text \<open>Seen from any of its elements it is a ring too.\<close>

lemma ring_from:
  assumes "ring f b fs" "b # fs = us @ q # vs"
  shows "map f (q # vs @ us) = vs @ us @ [q]"
proof (cases us)
  case Nil
  then show ?thesis using assms by (simp add: ring_def)
next
  case (Cons u us')
  then have fs: "fs = us' @ q # vs" "u = b" using assms(2) by auto
  have "map f (b # us' @ q # vs) = (us' @ [q]) @ (vs @ [b])" using assms(1) by (simp add: ring_def fs)
  then have "map f (b # us') @ map f (q # vs) = (us' @ [q]) @ (vs @ [b])" by simp
  then have "map f (b # us') = us' @ [q] \<and> map f (q # vs) = vs @ [b]" by (subst (asm) append_eq_append_conv) auto
  then show ?thesis using Cons fs by simp
qed

lemma ring_range: "ring f b fs \<Longrightarrow> x \<in> set (b # fs) \<Longrightarrow> f x \<in> set (b # fs)"
proof -
  assume "ring f b fs" "x \<in> set (b # fs)"
  then have "f x \<in> set (map f (b # fs))" by auto
  also have "set (map f (b # fs)) = set (fs @ [b])" using \<open>ring f b fs\<close> by (simp only: ring_def)
  finally show ?thesis by auto
qed

lemma ring_nth:
  assumes "ring f b fs" "i < length (b # fs)"
  shows "f ((b # fs) ! i) = (if Suc i < length (b # fs) then (b # fs) ! Suc i else b)"
proof -
  have "f ((b # fs) ! i) = (fs @ [b]) ! i"
    using assms by (metis ring_def nth_map)
  then show ?thesis using assms(2) by (auto simp: nth_append)
qed

lemma ring_inj: "ring f b fs \<Longrightarrow> distinct (b # fs) \<Longrightarrow> inj_on f (set (b # fs))"
proof -
  assume "ring f b fs" "distinct (b # fs)"
  then have "distinct (map f (b # fs))" by (auto simp: ring_def)
  then show ?thesis by (simp only: distinct_map)
qed

text \<open>The element before a given one is the only one that points to it.\<close>

lemma ring_pred:
  assumes "ring f b (fs1 @ a # fs2)" "distinct (b # fs1 @ a # fs2)" "q \<in> set (b # fs1 @ a # fs2)" "f q = a"
  shows "q = last (b # fs1)"
proof -
  let ?q = "last (b # fs1)"
  have "b # fs1 = butlast (b # fs1) @ [?q]" by simp
  from ring_split [OF this, of f "a # fs2"] assms(1) have "f ?q = a" by simp
  then have "f q = f ?q" using assms(4) by simp
  moreover have "?q \<in> set (b # fs1)" by (rule last_in_set) simp
  then have "?q \<in> set (b # fs1 @ a # fs2)" by simp
  ultimately show ?thesis by (rule inj_onD [OF ring_inj [OF assms(1,2)] _ assms(3)])
qed

end
