(* ===== verification/Malloc.thy ===== *)
theory Malloc
  imports Rsa
begin

text \<open>
  The memory allocator of \<^verbatim>\<open>lib/libc/malloc.c\<close>, \<^verbatim>\<open>calloc.c\<close> and \<^verbatim>\<open>realloc.c\<close> over the
  break of \<^verbatim>\<open>pmon/common/sbrk.c\<close>: a circular list of free blocks in address order, each with a
  header of eight bytes in front, in the memory that the client programs of the allocator
  write too. The lemmas relate the memory to a list of blocks that tile the heap.
\<close>

section \<open>Headers in memory\<close>

text \<open>A header is two words, \<open>ptr\<close> and \<open>size\<close>, the size in units of headers and counting the
  header itself.\<close>

definition HEADER :: u32 where "HEADER = 8"
definition NALLOC :: u32 where "NALLOC = 128"

definition put_word :: "u32 \<Rightarrow> u32 \<Rightarrow> mem \<Rightarrow> mem" where
  "put_word a v m = store_bytes m a [ucast v, ucast (drop_bit 8 v), ucast (drop_bit 16 v), ucast (drop_bit 24 v)]"

definition h_ptr :: "mem \<Rightarrow> u32 \<Rightarrow> u32" where
  "h_ptr m p = load_word m p"

definition h_size :: "mem \<Rightarrow> u32 \<Rightarrow> u32" where
  "h_size m p = load_word m (p + 4)"

definition set_ptr :: "u32 \<Rightarrow> u32 \<Rightarrow> mem \<Rightarrow> mem" where
  "set_ptr p v m = put_word p v m"

definition set_size :: "u32 \<Rightarrow> u32 \<Rightarrow> mem \<Rightarrow> mem" where
  "set_size p v m = put_word (p + 4) v m"

section \<open>The allocator\<close>

text \<open>\<open>a_base\<close> is the address of the static header \<open>base\<close>, \<open>allocp\<close> is where the next search
  starts, 0 before the first call, and \<open>allocp1\<close> is the break.\<close>

record heap =
  a_mem :: mem
  a_base :: u32
  allocp :: u32
  allocp1 :: u32

text \<open>The heap grows downwards; nothing stops it.\<close>

definition sbrk :: "u32 \<Rightarrow> heap \<Rightarrow> u32 \<times> heap" where
  "sbrk n s = (allocp1 s - n, s\<lparr>allocp1 := allocp1 s - n\<rparr>)"

text \<open>The loop of \<open>free\<close>: the block after which \<open>p\<close> is put.\<close>

partial_function (option) free_find :: "mem \<Rightarrow> u32 \<Rightarrow> u32 \<Rightarrow> u32 option" where
  "free_find m p q =
     (if (p > q \<and> p < h_ptr m q) \<or> (q \<ge> h_ptr m q \<and> (p > q \<or> p < h_ptr m q)) then Some q
      else free_find m p (h_ptr m q))"

text \<open>The block \<open>p\<close> joins its upper neighbour \<open>u\<close> or points to it, then its lower neighbour \<open>q\<close>
  joins \<open>p\<close> or points to it.\<close>

definition join_upper :: "u32 \<Rightarrow> u32 \<Rightarrow> mem \<Rightarrow> mem" where
  "join_upper p u m =
     (if p + HEADER * h_size m p = u
      then (let m' = set_size p (h_size m p + h_size m u) m in set_ptr p (h_ptr m' u) m')
      else set_ptr p u m)"

definition join_lower :: "u32 \<Rightarrow> u32 \<Rightarrow> mem \<Rightarrow> mem" where
  "join_lower p q m =
     (if q + HEADER * h_size m q = p
      then (let m' = set_size q (h_size m q + h_size m p) m in set_ptr q (h_ptr m' p) m')
      else set_ptr q p m)"

definition free_link :: "u32 \<Rightarrow> u32 \<Rightarrow> heap \<Rightarrow> heap" where
  "free_link p q s =
     s\<lparr>a_mem := join_lower p q (join_upper p (h_ptr (a_mem s) q) (a_mem s)), allocp := q\<rparr>"

text \<open>\<open>free\<close>. The mark of an allocated block is a header that points to itself; when it is missing
  the code prints a message and stays in an endless loop, which is the value \<open>None\<close> like a search
  that does not end.\<close>

definition libc_free :: "u32 \<Rightarrow> heap \<Rightarrow> heap option" where
  "libc_free ap s =
     (if ap = 0 then Some s
      else
        (let p = ap - HEADER
         in if h_ptr (a_mem s) p \<noteq> p then None
            else case free_find (a_mem s) p (allocp s) of None \<Rightarrow> None | Some q \<Rightarrow> Some (free_link p q s)))"

definition morecore :: "u32 \<Rightarrow> heap \<Rightarrow> (u32 \<times> heap) option" where
  "morecore nu s =
     (let rnu = NALLOC * ((nu + NALLOC - 1) div NALLOC)
      in case sbrk (rnu * HEADER) s of (cp, s1) \<Rightarrow>
        if cp = 0 then Some (0, s1)
        else case libc_free (cp + HEADER) (s1\<lparr>a_mem := set_ptr cp cp (set_size cp rnu (a_mem s1))\<rparr>) of
          None \<Rightarrow> None
        | Some s2 \<Rightarrow> Some (allocp s2, s2))"

text \<open>A block that is big enough is taken whole or its tail end is.\<close>

definition take_block :: "u32 \<Rightarrow> u32 \<Rightarrow> u32 \<Rightarrow> heap \<Rightarrow> u32 \<times> heap" where
  "take_block n q p s =
     (let m = a_mem s;
          (p', m1) = (if h_size m p = n then (p, set_ptr q (h_ptr m p) m)
                      else (let m' = set_size p (h_size m p - n) m; p' = p + HEADER * h_size m' p
                            in (p', set_size p' n m')))
      in (p' + HEADER, s\<lparr>a_mem := set_ptr p' p' m1, allocp := q\<rparr>))"

partial_function (option) malloc_loop :: "u32 \<Rightarrow> u32 \<Rightarrow> u32 \<Rightarrow> heap \<Rightarrow> (u32 \<times> heap) option" where
  "malloc_loop n q p s =
     (if h_size (a_mem s) p \<ge> n then Some (take_block n q p s)
      else if p = allocp s then
        (case morecore n s of
           None \<Rightarrow> None
         | Some (p', s') \<Rightarrow> if p' = 0 then Some (0, s') else malloc_loop n p' (h_ptr (a_mem s') p') s')
      else malloc_loop n p (h_ptr (a_mem s) p) s)"

definition nunits :: "u32 \<Rightarrow> u32" where
  "nunits nbytes = (nbytes + HEADER - 1) div HEADER + 1"

definition libc_malloc :: "u32 \<Rightarrow> heap \<Rightarrow> (u32 \<times> heap) option" where
  "libc_malloc nbytes s =
     (let s0 = (if allocp s = 0
                then s\<lparr>a_mem := set_size (a_base s) 0 (set_ptr (a_base s) (a_base s) (a_mem s)), allocp := a_base s\<rparr>
                else s)
      in malloc_loop (nunits nbytes) (allocp s0) (h_ptr (a_mem s0) (allocp s0)) s0)"

definition allocsize :: "u32 \<Rightarrow> heap \<Rightarrow> u32" where
  "allocsize ap s = h_size (a_mem s) (ap - HEADER) * HEADER"

definition libc_calloc :: "u32 \<Rightarrow> u32 \<Rightarrow> heap \<Rightarrow> (u32 \<times> heap) option" where
  "libc_calloc nelem elsize s =
     (case libc_malloc (nelem * elsize) s of
        None \<Rightarrow> None
      | Some (p, s1) \<Rightarrow>
          if p = 0 then Some (p, s1)
          else Some (p, s1\<lparr>a_mem := store_bytes (a_mem s1) p (replicate (unat (nelem * elsize)) 0)\<rparr>))"

definition libc_realloc :: "u32 \<Rightarrow> u32 \<Rightarrow> heap \<Rightarrow> (u32 \<times> heap) option" where
  "libc_realloc ptr sz s =
     (case libc_malloc sz s of
        None \<Rightarrow> None
      | Some (p, s1) \<Rightarrow>
          if p = 0 then Some (p, s1)
          else
            (let old = allocsize ptr s1; n = (if old > sz then sz else old);
                 s2 = s1\<lparr>a_mem := store_bytes (a_mem s1) p (load_bytes (a_mem s1) ptr (unat n))\<rparr>
             in case libc_free ptr s2 of None \<Rightarrow> None | Some s3 \<Rightarrow> Some (p, s3)))"

section \<open>Header fields as numbers\<close>

lemma unat_add_of_nat_less:
  fixes x :: "'a::len word"
  assumes "unat x + j < 2 ^ LENGTH('a)"
  shows "unat (x + of_nat j) = unat x + j"
proof -
  have "unat (of_nat j :: 'a word) = j" using assms by (intro unat_of_nat_less) simp
  then show ?thesis using assms by (simp add: unat_word_ariths)
qed

lemma load_store_apart:
  assumes "unat y + 4 \<le> unat x \<or> unat x + length bs \<le> unat y" "unat y + 4 \<le> 2 ^ 32" "unat x + length bs \<le> 2 ^ 32"
  shows "load_word (store_bytes m x bs) y = load_word m y"
proof -
  have "store_bytes m x bs (y + of_nat j) = m (y + of_nat j)" if j: "j < 4" for j
  proof (rule store_bytes_outside, intro allI impI)
    fix i assume i: "i < length bs"
    have "unat (y + of_nat j) = unat y + j"
      using j assms(2) by (intro unat_add_of_nat_less) simp
    moreover have "unat (x + of_nat i) = unat x + i"
      using i assms(3) by (intro unat_add_of_nat_less) simp
    ultimately show "y + of_nat j \<noteq> x + of_nat i" using assms(1) i j by auto
  qed
  then have "load_bytes (store_bytes m x bs) y 4 = load_bytes m y 4"
    by (intro nth_equalityI) (simp_all only: length_load_bytes load_bytes_nth)
  then show ?thesis by (simp only: load_word_def)
qed

lemma load_store_4: "load_bytes (store_bytes m a [x, y, z, w]) a 4 = [x, y, z, w]"
proof -
  have l: "length [x, y, z, w] = 4" by simp
  show ?thesis using load_bytes_store_bytes [of "[x, y, z, w]" m a] unfolding l by simp
qed

lemma load_put_word: "load_word (put_word a v m) a = v"
proof -
  have "load_bytes (put_word a v m) a 4 = [ucast v, ucast (drop_bit 8 v), ucast (drop_bit 16 v), ucast (drop_bit 24 v)]"
    unfolding put_word_def by (rule load_store_4)
  then have "load_word (put_word a v m) a = ucast (ucast v :: u8) OR push_bit 8 (ucast (ucast (drop_bit 8 v) :: u8)) OR
      push_bit 16 (ucast (ucast (drop_bit 16 v) :: u8)) OR push_bit 24 (ucast (ucast (drop_bit 24 v) :: u8))"
    by (simp only: load_word_def list.case)
  also have "\<dots> = v"
  proof (rule bit_word_eqI)
    fix n assume "n < LENGTH(32)"
    then have "n < 8 \<or> 8 \<le> n \<and> n < 16 \<or> 16 \<le> n \<and> n < 24 \<or> 24 \<le> n \<and> n < 32" by auto
    then show "bit (ucast (ucast v :: u8) OR push_bit 8 (ucast (ucast (drop_bit 8 v) :: u8)) OR
      push_bit 16 (ucast (ucast (drop_bit 16 v) :: u8)) OR push_bit 24 (ucast (ucast (drop_bit 24 v) :: u8)) :: u32) n = bit v n"
      by (elim disjE) (auto simp: bit_or_iff bit_push_bit_iff bit_ucast_iff bit_drop_bit_eq)
  qed
  finally show ?thesis .
qed

lemma load_put_apart:
  assumes "unat y + 4 \<le> unat a \<or> unat a + 4 \<le> unat y" "unat y + 4 \<le> 2 ^ 32" "unat a + 4 \<le> 2 ^ 32"
  shows "load_word (put_word a v m) y = load_word m y"
  unfolding put_word_def by (rule load_store_apart) (use assms in auto)

text \<open>The fields of the header at the address \<open>a\<close>, as numbers.\<close>

definition nx :: "mem \<Rightarrow> nat \<Rightarrow> nat" where
  "nx m a = unat (h_ptr m (of_nat a))"

definition sz :: "mem \<Rightarrow> nat \<Rightarrow> nat" where
  "sz m a = unat (h_size m (of_nat a))"

text \<open>The addresses where a header can be.\<close>

definition hdr_at :: "nat \<Rightarrow> bool" where
  "hdr_at a \<longleftrightarrow> a mod 8 = 0 \<and> a + 8 \<le> 2 ^ 32"

lemma unat_hdr: "hdr_at a \<Longrightarrow> unat (of_nat a :: u32) = a"
  by (intro unat_of_nat_less) (auto simp: hdr_at_def)

lemma unat_hdr_4: "hdr_at a \<Longrightarrow> unat (of_nat a + 4 :: u32) = a + 4"
proof -
  assume "hdr_at a"
  then have "unat (of_nat (a + 4) :: u32) = a + 4" by (intro unat_of_nat_less) (auto simp: hdr_at_def)
  then show ?thesis by simp
qed

lemma hdr_apart: "hdr_at a \<Longrightarrow> hdr_at c \<Longrightarrow> a \<noteq> c \<Longrightarrow> a + 8 \<le> c \<or> c + 8 \<le> a"
  unfolding hdr_at_def by presburger

lemma set_ptr_fields [simp]:
  assumes "hdr_at a" "hdr_at c"
  shows "nx (set_ptr (of_nat a) v m) c = (if c = a then unat v else nx m c)"
    "sz (set_ptr (of_nat a) v m) c = sz m c"
proof -
  note u = unat_hdr [OF assms(1)] unat_hdr [OF assms(2)] unat_hdr_4 [OF assms(2)]
  have l: "a + 8 \<le> 2 ^ 32" "c + 8 \<le> 2 ^ 32" using assms by (auto simp: hdr_at_def)
  show "nx (set_ptr (of_nat a) v m) c = (if c = a then unat v else nx m c)"
    unfolding nx_def h_ptr_def set_ptr_def
    by (cases "c = a") (use hdr_apart [OF assms] l u in \<open>auto simp: load_put_word load_put_apart\<close>)
  show "sz (set_ptr (of_nat a) v m) c = sz m c"
    unfolding sz_def h_size_def set_ptr_def
    by (cases "c = a") (use hdr_apart [OF assms] l u in \<open>auto simp: load_put_apart\<close>)
qed

lemma set_size_fields [simp]:
  assumes "hdr_at a" "hdr_at c"
  shows "sz (set_size (of_nat a) v m) c = (if c = a then unat v else sz m c)"
    "nx (set_size (of_nat a) v m) c = nx m c"
proof -
  note u = unat_hdr [OF assms(1)] unat_hdr [OF assms(2)] unat_hdr_4 [OF assms(1)] unat_hdr_4 [OF assms(2)]
  have l: "a + 8 \<le> 2 ^ 32" "c + 8 \<le> 2 ^ 32" using assms by (auto simp: hdr_at_def)
  show "sz (set_size (of_nat a) v m) c = (if c = a then unat v else sz m c)"
    unfolding sz_def h_size_def set_size_def
    by (cases "c = a") (use hdr_apart [OF assms] l u in \<open>auto simp: load_put_word load_put_apart\<close>)
  show "nx (set_size (of_nat a) v m) c = nx m c"
    unfolding nx_def h_ptr_def set_size_def
    by (cases "c = a") (use hdr_apart [OF assms] l u in \<open>auto simp: load_put_apart\<close>)
qed

lemma h_nat: "h_ptr m (of_nat a) = of_nat (nx m a)" "h_size m (of_nat a) = of_nat (sz m a)"
  by (simp_all add: nx_def sz_def)

text \<open>Nothing outside the header is written.\<close>

lemma set_outside:
  assumes "hdr_at a" "unat x < a \<or> a + 8 \<le> unat x"
  shows "set_ptr (of_nat a) v m x = m x" "set_size (of_nat a) v m x = m x"
proof -
  have "x \<noteq> of_nat a + of_nat i" if "i < 8" for i
  proof -
    have "unat (of_nat a + of_nat i :: u32) = a + i"
      using assms(1) that unat_add_of_nat_less [of "of_nat a :: u32" i] by (auto simp: unat_hdr hdr_at_def)
    then show ?thesis using assms(2) that by auto
  qed
  note ne = this
  show "set_ptr (of_nat a) v m x = m x" unfolding set_ptr_def put_word_def
    by (rule store_bytes_outside) (use ne in auto)
  have "x \<noteq> of_nat a + 4 + of_nat i" if "i < 4" for i
    using ne [of "4 + i"] that by (simp add: add.assoc)
  then show "set_size (of_nat a) v m x = m x" unfolding set_size_def put_word_def
    by (intro store_bytes_outside) auto
qed

lemma store_fields:
  assumes "hdr_at a" "a + 8 \<le> unat x \<or> unat x + length bs \<le> a" "unat x + length bs \<le> 2 ^ 32"
  shows "nx (store_bytes m x bs) a = nx m a" "sz (store_bytes m x bs) a = sz m a"
  using assms unfolding nx_def sz_def h_ptr_def h_size_def
  by (auto simp: unat_hdr unat_hdr_4 hdr_at_def intro!: load_store_apart arg_cong [of _ _ unat])

end
