(* ===== verification/Malloc_Inv.thy ===== *)
theory Malloc_Inv
  imports Malloc Blocks
begin

text \<open>
  The invariant of the allocator and what each of its operations does to the blocks: the search of
  \<open>free\<close> ends at the place of the block, linking joins it with its neighbours, the search of
  \<open>malloc\<close> ends with a block that is big enough or with more memory, and taking a block
  cuts it.
\<close>

lemma tiles_end_mod: "tiles lo bl hi \<Longrightarrow> lo mod 8 = hi mod 8"
  by (induction lo bl hi rule: tiles.induct) auto

lemma tiles_sum: "tiles lo bl hi \<Longrightarrow> lo + 8 * sum_list (map (fst \<circ> snd) bl) = hi"
  by (induction lo bl hi rule: tiles.induct) auto

section \<open>The search of \<open>free\<close>\<close>

lemma of_nat_u32_cmp:
  assumes "x < 2 ^ 32" "y < 2 ^ 32"
  shows "(of_nat x :: u32) < of_nat y \<longleftrightarrow> x < y" "(of_nat x :: u32) \<le> of_nat y \<longleftrightarrow> x \<le> y"
    "(of_nat x :: u32) = of_nat y \<longleftrightarrow> x = y"
proof -
  have u: "unat (of_nat x :: u32) = x" "unat (of_nat y :: u32) = y" using assms by (intro unat_of_nat_less; simp)+
  show "(of_nat x :: u32) < of_nat y \<longleftrightarrow> x < y" "(of_nat x :: u32) \<le> of_nat y \<longleftrightarrow> x \<le> y"
    by (simp_all only: word_less_nat_alt word_le_nat_alt u)
  show "(of_nat x :: u32) = of_nat y \<longleftrightarrow> x = y" by (metis u)
qed

definition here :: "(nat \<Rightarrow> nat) \<Rightarrow> nat \<Rightarrow> nat \<Rightarrow> bool" where
  "here f p x \<longleftrightarrow> (p > x \<and> p < f x) \<or> (x \<ge> f x \<and> (p > x \<or> p < f x))"

lemma nx_less: "nx m x < 2 ^ 32"
  using unsigned_less [of "h_ptr m (of_nat x)"] by (simp add: nx_def)

lemma free_find_step:
  assumes "p < 2 ^ 32" "x < 2 ^ 32"
  shows "free_find m (of_nat p) (of_nat x) =
    (if here (nx m) p x then Some (of_nat x) else free_find m (of_nat p) (of_nat (nx m x)))"
proof -
  have n: "nx m x < 2 ^ 32" by (rule nx_less)
  show ?thesis
    by (subst free_find.simps) (simp only: h_nat of_nat_u32_cmp [OF assms(1) n] of_nat_u32_cmp [OF assms(2,1)]
      of_nat_u32_cmp [OF n assms(2)] here_def)
qed

lemma here_iff:
  assumes "ring f b (fs1 @ fs2)" "sorted_wrt (<) (b # fs1 @ fs2)" "\<forall>x \<in> set (b # fs1). x < p" "\<forall>x \<in> set fs2. p < x"
    "x \<in> set (b # fs1 @ fs2)"
  shows "here f p x \<longleftrightarrow> x = last (b # fs1)"
proof -
  let ?zs = "b # fs1 @ fs2" and ?k = "length fs1"
  obtain i where i: "i < length ?zs" "x = ?zs ! i" using assms(5) unfolding in_set_conv_nth [of x] by blast
  have k: "last (b # fs1) = ?zs ! ?k" by (simp add: last_conv_nth nth_append nth_Cons')
  have lt: "?zs ! i' < ?zs ! j \<longleftrightarrow> i' < j" if "i' < length ?zs" "j < length ?zs" for i' j
    using assms(2) that by (metis linorder_neqE_nat not_less_iff_gr_or_eq sorted_wrt_iff_nth_less)
  have below: "?zs ! i' < p \<longleftrightarrow> i' \<le> ?k" "p < ?zs ! i' \<longleftrightarrow> ?k < i'" if "i' < length ?zs" for i'
  proof -
    have "?zs ! i' \<in> set (b # fs1)" if "i' \<le> ?k" using that by (auto simp: nth_Cons' nth_append)
    moreover have "?zs ! i' \<in> set fs2" if "?k < i'" using that \<open>i' < length ?zs\<close>
      by (cases i') (auto simp: nth_append)
    ultimately show "?zs ! i' < p \<longleftrightarrow> i' \<le> ?k" "p < ?zs ! i' \<longleftrightarrow> ?k < i'"
      using assms(3,4) by (meson leI less_asym)+
  qed
  have fx: "f x = (if Suc i < length ?zs then ?zs ! Suc i else ?zs ! 0)"
    using ring_nth [OF assms(1) i(1)] i(2) by simp
  have e: "x = last (b # fs1) \<longleftrightarrow> i = ?k"
  proof
    assume "x = last (b # fs1)"
    then have "?zs ! i = ?zs ! ?k" by (simp only: i(2) k)
    then have "\<not> i < ?k \<and> \<not> ?k < i" using lt [of i ?k] lt [of ?k i] i(1) by simp
    then show "i = ?k" by linarith
  qed (simp only: i(2) k)
  show ?thesis
  proof (cases "Suc i < length ?zs")
    case True
    have "f x > x" using lt [OF i(1) True] i(2) fx True by simp
    then have "here f p x \<longleftrightarrow> x < p \<and> p < f x" by (auto simp: here_def)
    also have "\<dots> \<longleftrightarrow> i \<le> ?k \<and> ?k < Suc i" using below [OF i(1)] below [OF True] fx True i(2) by simp
    finally show ?thesis using e by linarith
  next
    case False
    have "f x = b" using fx False by simp
    moreover have "b \<le> x" using assms(2,5) by (auto intro: less_imp_le)
    moreover have "\<not> p < b" using assms(3) by simp
    ultimately have "here f p x \<longleftrightarrow> x < p" by (auto simp: here_def)
    also have "\<dots> \<longleftrightarrow> i \<le> ?k" using below [OF i(1)] i(2) by simp
    finally show ?thesis using e False i(1) by auto
  qed
qed

lemma free_find_walk:
  "map (nx m) (q # ws) = ws @ [a] \<Longrightarrow> \<forall>x \<in> set (q # ws). x < 2 ^ 32 \<and> (here (nx m) p x \<longleftrightarrow> x = r) \<Longrightarrow>
   r \<in> set (q # ws) \<Longrightarrow> p < 2 ^ 32 \<Longrightarrow> free_find m (of_nat p) (of_nat q) = Some (of_nat r)"
proof (induction ws arbitrary: q)
  case Nil
  then show ?case using free_find_step [of p q m] by simp
next
  case (Cons w ws)
  show ?case
  proof (cases "q = r")
    case True
    then show ?thesis using Cons.prems free_find_step [of p q m] by simp
  next
    case False
    have "free_find m (of_nat p) (of_nat w) = Some (of_nat r)"
      using Cons.prems False by (intro Cons.IH) auto
    then show ?thesis using Cons.prems False free_find_step [of p q m] by simp
  qed
qed

lemma free_find_ring:
  assumes "ring (nx m) b (fs1 @ fs2)" "sorted_wrt (<) (b # fs1 @ fs2)" "\<forall>x \<in> set (b # fs1). x < p" "\<forall>x \<in> set fs2. p < x"
    "\<forall>x \<in> set (b # fs1 @ fs2). x < 2 ^ 32" "p < 2 ^ 32" "q \<in> set (b # fs1 @ fs2)"
  shows "free_find m (of_nat p) (of_nat q) = Some (of_nat (last (b # fs1)))"
proof -
  obtain us vs where z: "b # fs1 @ fs2 = us @ q # vs" using assms(7) by (meson split_list)
  have s: "set (q # vs @ us) = set (b # fs1 @ fs2)" by (subst z) auto
  have "map (nx m) (q # vs @ us) = (vs @ us) @ [q]" using ring_from [OF assms(1) z] by simp
  then show ?thesis
  proof (rule free_find_walk)
    show "\<forall>x \<in> set (q # vs @ us). x < 2 ^ 32 \<and> (here (nx m) p x \<longleftrightarrow> x = last (b # fs1))"
      using here_iff [OF assms(1-4)] assms(5) unfolding s by blast
    have "last (b # fs1) \<in> set (b # fs1)" by (rule last_in_set) simp
    then show "last (b # fs1) \<in> set (q # vs @ us)" unfolding s by simp
  qed (rule assms(6))
qed

section \<open>The invariant\<close>

definition links :: "mem \<Rightarrow> nat \<Rightarrow> block list \<Rightarrow> bool" where
  "links m b bl \<longleftrightarrow>
     ring (nx m) b (frees bl) \<and> sz m b = 0 \<and>
     (\<forall>(a, n, f) \<in> set bl. sz m a = n \<and> (\<not> f \<longrightarrow> nx m a = a))"

definition geometry :: "heap \<Rightarrow> nat \<Rightarrow> block list \<Rightarrow> bool" where
  "geometry s hi bl \<longleftrightarrow>
     tiles (unat (allocp1 s)) bl hi \<and> hi mod 8 = 0 \<and> hi < 2 ^ 32 \<and> coalesced bl \<and>
     unat (a_base s) mod 8 = 0 \<and> 0 < unat (a_base s) \<and> unat (a_base s) + 8 \<le> unat (allocp1 s)"

definition linked :: "heap \<Rightarrow> block list \<Rightarrow> bool" where
  "linked s bl \<longleftrightarrow>
     unat (allocp s) \<in> set (unat (a_base s) # frees bl) \<and> links (a_mem s) (unat (a_base s)) bl"

text \<open>Before the first call there are no blocks and no links.\<close>

definition heap_ok :: "heap \<Rightarrow> nat \<Rightarrow> block list \<Rightarrow> bool" where
  "heap_ok s hi bl \<longleftrightarrow> geometry s hi bl \<and> (if allocp s = 0 then bl = [] else linked s bl)"

lemma geometry_block:
  assumes "geometry s hi bl" "(a, n, f) \<in> set bl"
  shows "hdr_at a" "unat (a_base s) + 8 \<le> a" "0 < n" "a + 8 * n \<le> hi"
proof -
  have t: "tiles (unat (allocp1 s)) bl hi" and g: "hi mod 8 = 0" "hi < 2 ^ 32" "unat (a_base s) + 8 \<le> unat (allocp1 s)"
    using assms(1) by (auto simp: geometry_def)
  note m = tiles_mem [OF t assms(2)]
  have "a mod 8 = 0" using tiles_mod [OF t _ assms(2)] tiles_end_mod [OF t] g(1) by simp
  then show "hdr_at a" "unat (a_base s) + 8 \<le> a" "0 < n" "a + 8 * n \<le> hi"
    using m g by (auto simp: hdr_at_def)
qed

lemma geometry_base: "geometry s hi bl \<Longrightarrow> hdr_at (unat (a_base s))"
proof -
  assume g: "geometry s hi bl"
  then have "unat (allocp1 s) \<le> hi" by (auto simp: geometry_def dest: tiles_le)
  with g show ?thesis by (auto simp: geometry_def hdr_at_def)
qed

lemma frees_mem: "a \<in> set (frees bl) \<longleftrightarrow> (\<exists>n. (a, n, True) \<in> set bl)"
  by (force simp: frees_def is_free_def)

lemma geometry_frees:
  assumes "geometry s hi bl"
  shows "\<forall>a \<in> set (unat (a_base s) # frees bl). hdr_at a" "sorted_wrt (<) (unat (a_base s) # frees bl)"
proof -
  show "\<forall>a \<in> set (unat (a_base s) # frees bl). hdr_at a"
    using geometry_block [OF assms] geometry_base [OF assms] by (auto simp: frees_mem)
  have "sorted_wrt (<) (frees bl)" using assms by (auto simp: geometry_def dest: tiles_sorted)
  moreover have "\<forall>a \<in> set (frees bl). unat (a_base s) < a"
    using geometry_block(2) [OF assms] by (fastforce simp: frees_mem)
  ultimately show "sorted_wrt (<) (unat (a_base s) # frees bl)" by simp
qed

lemma hdr_less: "hdr_at a \<Longrightarrow> a < 2 ^ 32"
  by (simp add: hdr_at_def)

section \<open>Linking a block into the list\<close>

lemma of_nat_adjacent:
  assumes "a + 8 * n < 2 ^ 32" "c < 2 ^ 32"
  shows "(of_nat a + HEADER * of_nat n = (of_nat c :: u32)) \<longleftrightarrow> a + 8 * n = c"
  using of_nat_u32_cmp(3) [OF assms] by (simp add: HEADER_def)

lemma unat_u32: "n < 2 ^ 32 \<Longrightarrow> unat (of_nat n :: u32) = n"
  by (intro unat_of_nat_less) simp

lemma join_upper_fields:
  assumes h: "hdr_at p" "hdr_at u" and b: "p + 8 * sz m p < 2 ^ 32" "p + 8 * sz m p = u \<longrightarrow> sz m p + sz m u < 2 ^ 32"
    and x: "hdr_at x"
  defines "m' \<equiv> join_upper (of_nat p) (of_nat u) m" and "R \<equiv> p + 8 * sz m p = u"
  shows "nx m' x = (if x = p then if R then nx m u else u else nx m x)"
    "sz m' x = (if x = p \<and> R then sz m p + sz m u else sz m x)"
proof -
  have c: "(of_nat p + HEADER * of_nat (sz m p) = (of_nat u :: u32)) = R"
    unfolding R_def by (rule of_nat_adjacent [OF b(1) hdr_less [OF h(2)]])
  have m': "m' = (if R then set_ptr (of_nat p) (of_nat (nx m u)) (set_size (of_nat p) (of_nat (sz m p + sz m u)) m)
    else set_ptr (of_nat p) (of_nat u) m)"
    using set_size_fields(2) [OF h] by (simp add: m'_def join_upper_def h_nat c Let_def)
  note u = unat_u32 [OF nx_less] unat_u32 [OF hdr_less [OF h(2)]]
  show "nx m' x = (if x = p then if R then nx m u else u else nx m x)"
    using h x u by (simp add: m' del: of_nat_add)
  show "sz m' x = (if x = p \<and> R then sz m p + sz m u else sz m x)"
    using h x unat_u32 [of "sz m p + sz m u"] b(2) by (simp add: m' R_def del: of_nat_add)
qed

lemma join_lower_fields:
  assumes h: "hdr_at p" "hdr_at q" and b: "q + 8 * sz m q < 2 ^ 32" "q + 8 * sz m q = p \<longrightarrow> sz m q + sz m p < 2 ^ 32"
    and x: "hdr_at x"
  defines "m' \<equiv> join_lower (of_nat p) (of_nat q) m" and "L \<equiv> q + 8 * sz m q = p"
  shows "nx m' x = (if x = q then if L then nx m p else p else nx m x)"
    "sz m' x = (if x = q \<and> L then sz m q + sz m p else sz m x)"
proof -
  have c: "(of_nat q + HEADER * of_nat (sz m q) = (of_nat p :: u32)) = L"
    unfolding L_def by (rule of_nat_adjacent [OF b(1) hdr_less [OF h(1)]])
  have m': "m' = (if L then set_ptr (of_nat q) (of_nat (nx m p)) (set_size (of_nat q) (of_nat (sz m q + sz m p)) m)
    else set_ptr (of_nat q) (of_nat p) m)"
    using set_size_fields(2) [OF h(2,1)] by (simp add: m'_def join_lower_def h_nat c Let_def)
  note u = unat_u32 [OF nx_less] unat_u32 [OF hdr_less [OF h(1)]]
  show "nx m' x = (if x = q then if L then nx m p else p else nx m x)"
    using h x u by (simp add: m' del: of_nat_add)
  show "sz m' x = (if x = q \<and> L then sz m q + sz m p else sz m x)"
    using h x unat_u32 [of "sz m q + sz m p"] b(2) by (simp add: m' L_def del: of_nat_add)
qed

lemma join_outside:
  assumes "hdr_at p" "unat y < p \<or> p + 8 \<le> unat y"
  shows "join_upper (of_nat p) u m y = m y" "join_lower u (of_nat p) m y = m y"
  using set_outside [OF assms] by (simp_all add: join_upper_def join_lower_def Let_def)

section \<open>Freeing a block\<close>

text \<open>What becomes of the blocks around a block of \<open>n\<close> units at \<open>p\<close> when it is freed.\<close>

definition upper_joins :: "block list \<Rightarrow> bool" where
  "upper_joins post \<longleftrightarrow> post \<noteq> [] \<and> is_free (hd post)"

definition lower_joins :: "block list \<Rightarrow> bool" where
  "lower_joins pre \<longleftrightarrow> pre \<noteq> [] \<and> is_free (last pre)"

definition freed_units :: "nat \<Rightarrow> block list \<Rightarrow> nat" where
  "freed_units n post = (if upper_joins post then n + fst (snd (hd post)) else n)"

definition freed_post :: "block list \<Rightarrow> block list" where
  "freed_post post = (if upper_joins post then tl post else post)"

definition freed :: "block list \<Rightarrow> nat \<Rightarrow> nat \<Rightarrow> block list \<Rightarrow> block list" where
  "freed pre p n post =
     (if lower_joins pre
      then butlast pre @ (fst (last pre), fst (snd (last pre)) + freed_units n post, True) # freed_post post
      else pre @ (p, freed_units n post, True) # freed_post post)"

lemma joins_cases:
  "upper_joins post \<longleftrightarrow> (\<exists>c k ps. post = (c, k, True) # ps)" "lower_joins pre \<longleftrightarrow> (\<exists>d j ps. pre = ps @ [(d, j, True)])"
proof -
  show "upper_joins post \<longleftrightarrow> (\<exists>c k ps. post = (c, k, True) # ps)"
    by (cases post) (auto simp: upper_joins_def is_free_def)
  show "lower_joins pre \<longleftrightarrow> (\<exists>d j ps. pre = ps @ [(d, j, True)])"
    by (cases pre rule: rev_cases) (auto simp: lower_joins_def is_free_def)
qed

lemma upper_tiles:
  assumes "tiles (p + 8 * n) post hi" "0 < n"
  shows "tiles (p + 8 * freed_units n post) (freed_post post) hi" "0 < freed_units n post"
  using assms by (cases post; auto simp: freed_units_def freed_post_def upper_joins_def add_mult_distrib2 add.assoc)+

lemma freed_tiles:
  assumes "tiles lo (pre @ (p, n, False) # post) hi"
  shows "tiles lo (freed pre p n post) hi"
proof -
  obtain mid where m: "tiles lo pre mid" "mid = p" "0 < n" "tiles (p + 8 * n) post hi"
    using assms by (auto simp: tiles_append)
  note u = upper_tiles [OF m(4,3)]
  show ?thesis
  proof (cases "lower_joins pre")
    case True
    then obtain d j ps where p: "pre = ps @ [(d, j, True)]" by (auto simp: joins_cases)
    then have "tiles lo ps d" "d + 8 * j = p" "0 < j" using m by (auto simp: tiles_append)
    then show ?thesis using u True p by (auto simp: freed_def tiles_append add_mult_distrib2 simp flip: add.assoc)
  next
    case False
    then show ?thesis using u m by (auto simp: freed_def tiles_append)
  qed
qed

lemma freed_coalesced:
  assumes "coalesced (pre @ (p, n, False) # post)"
  shows "coalesced (freed pre p n post)"
proof -
  have c: "coalesced pre" "coalesced post" using assms by (auto simp: coalesced_append coalesced_Cons)
  have p: "coalesced (freed_post post)" "freed_post post \<noteq> [] \<Longrightarrow> \<not> is_free (hd (freed_post post))"
    using c(2) by (cases post; auto simp: freed_post_def upper_joins_def coalesced_Cons)+
  show ?thesis
  proof (cases "lower_joins pre")
    case True
    then obtain d j ps where e: "pre = ps @ [(d, j, True)]" by (auto simp: joins_cases)
    then show ?thesis using c(1) p True by (auto simp: freed_def coalesced_append coalesced_Cons)
  next
    case False
    then show ?thesis using c(1) p by (auto simp: freed_def coalesced_append coalesced_Cons lower_joins_def)
  qed
qed

lemma freed_used: "in_use (freed pre p n post) = in_use pre \<union> in_use post"
proof -
  have "in_use (freed_post post) = in_use post" by (auto simp: freed_post_def joins_cases)
  moreover have "lower_joins pre \<Longrightarrow> in_use (butlast pre) = in_use pre" by (auto simp: joins_cases)
  ultimately show ?thesis by (auto simp: freed_def)
qed

lemma freed_frees:
  "frees (freed pre p n post) = frees pre @ (if lower_joins pre then [] else [p]) @ frees (freed_post post)"
  "frees (freed_post post) = (if upper_joins post then tl (frees post) else frees post)"
  by (auto simp: freed_def freed_post_def joins_cases)

section \<open>What \<open>free\<close> finds\<close>

text \<open>\<open>q\<close> is the free block or the base below \<open>p\<close>, \<open>t\<close> the one above it.\<close>

lemma joins_adjacent:
  assumes g: "geometry s hi bl" and bl: "bl = pre @ (p, n, False) # post" and l: "links m b bl" and b: "b = unat (a_base s)"
  defines "q \<equiv> last (b # frees pre)" and "t \<equiv> hd (frees post @ [b])"
  shows "p + 8 * n = t \<longleftrightarrow> upper_joins post" "q + 8 * sz m q = p \<longleftrightarrow> lower_joins pre"
proof -
  have tl: "tiles (unat (allocp1 s)) bl hi" and lo: "b + 8 \<le> unat (allocp1 s)" using g by (auto simp: geometry_def b)
  then have tp: "tiles (unat (allocp1 s)) pre p" and tq: "tiles (p + 8 * n) post hi" and n: "0 < n"
    by (auto simp: bl tiles_append)
  have bp: "b + 8 \<le> p" using tiles_le [OF tp] lo by simp
  show "p + 8 * n = t \<longleftrightarrow> upper_joins post"
  proof (cases "upper_joins post")
    case True
    then obtain c k ps where "post = (c, k, True) # ps" by (auto simp: joins_cases)
    then show ?thesis using True tq by (simp add: t_def)
  next
    case False
    have "t \<in> set (b # frees post)" by (cases "frees post") (auto simp: t_def)
    moreover have "p + 8 * n \<noteq> b" using bp by simp
    moreover have "p + 8 * n \<notin> set (frees post)"
    proof (cases post)
      case (Cons x ps)
      then obtain c k where x: "x = (c, k, False)" using False by (cases x) (auto simp: upper_joins_def)
      then have "c = p + 8 * n" "0 < k" "tiles (c + 8 * k) ps hi" using tq Cons by auto
      then show ?thesis using Cons x tiles_frees by fastforce
    qed simp
    ultimately show ?thesis using False by auto
  qed
  have sizes: "(a, k, f) \<in> set bl \<Longrightarrow> sz m a = k" for a k f using l by (auto simp: links_def)
  show "q + 8 * sz m q = p \<longleftrightarrow> lower_joins pre"
  proof (cases "lower_joins pre")
    case True
    then obtain d j ps where e: "pre = ps @ [(d, j, True)]" by (auto simp: joins_cases)
    then have "q = d" "sz m d = j" using sizes [of d j True] by (auto simp: q_def bl)
    then show ?thesis using True e tp by (simp add: tiles_append)
  next
    case False
    have "q + 8 * sz m q \<noteq> p"
    proof (cases pre rule: rev_cases)
      case Nil
      then show ?thesis using l bp by (simp add: q_def links_def)
    next
      case (snoc ps x)
      then obtain d j where x: "x = (d, j, False)" using False by (cases x) (auto simp: lower_joins_def)
      then have t: "tiles (unat (allocp1 s)) ps d" "d + 8 * j = p" "0 < j" using tp snoc by (auto simp: tiles_append)
      have "q = last (b # frees ps)" using snoc x by (simp add: q_def)
      then consider "q = b" | "q \<in> set (frees ps)" by (cases "frees ps") auto
      then show ?thesis
      proof cases
        case 1
        then show ?thesis using l bp by (simp add: links_def)
      next
        case 2
        then obtain k where k: "(q, k, True) \<in> set ps" by (auto simp: frees_mem)
        then have "q + 8 * k \<le> d" using tiles_mem [OF t(1)] by auto
        moreover have "sz m q = k" using k sizes [of q k True] snoc by (auto simp: bl)
        ultimately show ?thesis using t(2,3) by simp
      qed
    qed
    then show ?thesis using False by simp
  qed
qed

lemma freed_mem:
  "(a, k, f) \<in> set (freed pre p n post) \<Longrightarrow>
   (a, k, f) \<in> set (if lower_joins pre then butlast pre else pre) \<or> (a, k, f) \<in> set (freed_post post) \<or>
   f \<and> (if lower_joins pre then a = fst (last pre) \<and> k = fst (snd (last pre)) + freed_units n post
        else a = p \<and> k = freed_units n post)"
  by (auto simp: freed_def split: if_splits)

text \<open>The memory after linking, field by field.\<close>

lemma free_link_fields:
  fixes s :: heap and b p n :: nat
  assumes g: "geometry s hi bl" and bl: "bl = pre @ (p, n, False) # post" and b: "b = unat (a_base s)"
    and l: "links (a_mem s) b bl"
  defines "m \<equiv> a_mem s" and "q \<equiv> last (b # frees pre)" and "t \<equiv> hd (frees post @ [b])"
  defines "m' \<equiv> a_mem (free_link (of_nat p) (of_nat q) s)"
    and "t' \<equiv> (if upper_joins post then nx m t else t)"
  shows "hdr_at x \<Longrightarrow> nx m' x = (if x = q then if lower_joins pre then t' else p else if x = p then t' else nx m x)"
    "hdr_at x \<Longrightarrow> x \<noteq> p \<Longrightarrow> sz m' x = (if x = q \<and> lower_joins pre then sz m q + freed_units n post else sz m x)"
    "\<not> lower_joins pre \<Longrightarrow> sz m' p = freed_units n post"
    "hdr_at q" "hdr_at t" "nx m q = t" "hdr_at p" "q < p"
    "(unat y < p \<or> p + 8 \<le> unat y) \<and> (unat y < q \<or> q + 8 \<le> unat y) \<Longrightarrow> m' y = m y"
proof -
  have hi: "hi < 2 ^ 32" and lo: "b + 8 \<le> unat (allocp1 s)" and tl: "tiles (unat (allocp1 s)) bl hi"
    using g by (auto simp: geometry_def b)
  have tp: "tiles (unat (allocp1 s)) pre p" using tl by (auto simp: bl tiles_append)
  note h = geometry_frees(1) [OF g, folded b]
  have qin: "q \<in> set (b # frees pre)" unfolding q_def by (rule last_in_set) simp
  have tin: "t \<in> set (b # frees post)" by (cases "frees post") (auto simp: t_def)
  show hq: "hdr_at q" using h qin by (auto simp: bl)
  show ht: "hdr_at t" using h tin by (auto simp: bl)
  show hp: "hdr_at p" using geometry_block(1) [OF g, of p n False] by (simp add: bl)
  have bp: "b + 8 \<le> p" using tiles_le [OF tp] lo by simp
  show qp: "q < p" using qin bp tiles_frees [OF tp] by fastforce
  have split: "b # frees pre = butlast (b # frees pre) @ [q]" by (simp add: q_def)
  have "ring (nx m) b (frees pre @ frees post)" using l by (simp add: links_def bl m_def)
  then have "map (nx m) (q # frees post) = frees post @ [b]" using ring_split [OF split] by blast
  then show nq: "nx m q = t" by (cases "frees post") (auto simp: t_def)
  note adj = joins_adjacent [OF g bl l b, folded m_def q_def t_def]
  have sizes: "(a, k, f) \<in> set bl \<Longrightarrow> sz m a = k \<and> a + 8 * k < 2 ^ 32" for a k f
    using l geometry_block(4) [OF g] hi by (fastforce simp: links_def m_def)
  have sp: "sz m p = n" "p + 8 * n < 2 ^ 32" using sizes [of p n False] by (auto simp: bl)
  have sq: "q + 8 * sz m q < 2 ^ 32"
  proof (cases "q = b")
    case True
    then show ?thesis using l hdr_less [OF hq] by (simp add: links_def m_def)
  next
    case False
    then obtain k where "(q, k, True) \<in> set bl" using qin by (auto simp: frees_mem bl)
    then show ?thesis using sizes by blast
  qed
  have st: "upper_joins post \<Longrightarrow> sz m t = fst (snd (hd post)) \<and> t + 8 * sz m t < 2 ^ 32 \<and> t = p + 8 * n"
  proof -
    assume u: "upper_joins post"
    then obtain c k ps where e: "post = (c, k, True) # ps" by (auto simp: joins_cases)
    then have "t = c" by (simp add: t_def)
    then show ?thesis using sizes [of c k True] e adj(1) sp u by (simp add: bl)
  qed
  define m1 where "m1 = join_upper (of_nat p) (of_nat t) m"
  have f1: "hdr_at x \<Longrightarrow> nx m1 x = (if x = p then t' else nx m x)"
    "hdr_at x \<Longrightarrow> sz m1 x = (if x = p then freed_units n post else sz m x)" for x
  proof -
    have bd: "p + 8 * sz m p < 2 ^ 32" "p + 8 * sz m p = t \<longrightarrow> sz m p + sz m t < 2 ^ 32"
      using sp st adj(1) by auto
    assume x: "hdr_at x"
    show "nx m1 x = (if x = p then t' else nx m x)" "sz m1 x = (if x = p then freed_units n post else sz m x)"
      using join_upper_fields [OF hp ht bd x] st adj(1) sp by (auto simp: m1_def t'_def freed_units_def)
  qed
  have m': "m' = join_lower (of_nat p) (of_nat q) m1"
    by (simp add: m'_def free_link_def m1_def h_nat nq flip: m_def)
  have bd: "q + 8 * sz m1 q < 2 ^ 32" "q + 8 * sz m1 q = p \<longrightarrow> sz m1 q + sz m1 p < 2 ^ 32"
    using sq qp f1(2) [OF hq] f1(2) [OF hp] sp st by (auto simp: freed_units_def)
  note f2 = join_lower_fields [OF hp hq bd, folded m']
  have L: "q + 8 * sz m1 q = p \<longleftrightarrow> lower_joins pre" using adj(2) f1(2) [OF hq] qp by simp
  show "hdr_at x \<Longrightarrow> nx m' x = (if x = q then if lower_joins pre then t' else p else if x = p then t' else nx m x)"
    using f2(1) [of x] f1(1) [of x] f1(1) [OF hp] L by auto
  show "hdr_at x \<Longrightarrow> x \<noteq> p \<Longrightarrow> sz m' x = (if x = q \<and> lower_joins pre then sz m q + freed_units n post else sz m x)"
    using f2(2) [of x] f1(2) [of x] f1(2) [OF hp] f1(2) [OF hq] L qp by auto
  show "\<not> lower_joins pre \<Longrightarrow> sz m' p = freed_units n post"
    using f2(2) [OF hp] f1(2) [OF hp] L qp by auto
  show "(unat y < p \<or> p + 8 \<le> unat y) \<and> (unat y < q \<or> q + 8 \<le> unat y) \<Longrightarrow> m' y = m y"
    using join_outside [OF hp, of y] join_outside [OF hq, of y] by (simp add: m' m1_def)
qed

lemma free_link_links:
  fixes s :: heap and b p n :: nat
  assumes g: "geometry s hi bl" and bl: "bl = pre @ (p, n, False) # post" and b: "b = unat (a_base s)"
    and l: "links (a_mem s) b bl"
  defines "q \<equiv> last (b # frees pre)"
  shows "links (a_mem (free_link (of_nat p) (of_nat q) s)) b (freed pre p n post)"
proof -
  define m m' t where "m = a_mem s" and "m' = a_mem (free_link (of_nat p) (of_nat q) s)" and "t = hd (frees post @ [b])"
  define t' where "t' = (if upper_joins post then nx m t else t)"
  note f = free_link_fields [OF g bl b l, folded q_def m_def t_def, folded m'_def t'_def]
  have tl: "tiles (unat (allocp1 s)) bl hi" and lo: "b + 8 \<le> unat (allocp1 s)" using g by (auto simp: geometry_def b)
  then have tp: "tiles (unat (allocp1 s)) pre p" and tq: "tiles (p + 8 * n) post hi" and n: "0 < n" by (auto simp: bl tiles_append)
  note h = geometry_frees(1) [OF g, folded b]
  have bp: "b + 8 \<le> p" using tiles_le [OF tp] lo by simp
  have split: "b # frees pre = butlast (b # frees pre) @ [q]" by (simp add: q_def)
  have "ring (nx m) b (frees pre @ frees post)" using l by (simp add: links_def bl m_def)
  then have r: "map (nx m) (butlast (b # frees pre)) = frees pre" "map (nx m) (q # frees post) = frees post @ [b]"
    using ring_split [OF split] by blast+
  have d: "distinct (b # frees pre)" using geometry_frees(2) [OF g, folded b] by (auto simp: bl sorted_wrt_append strict_sorted_iff)
  have below: "\<forall>x \<in> set (b # frees pre). x < p" using bp tiles_frees [OF tp] by fastforce
  have above: "\<forall>x \<in> set (frees post). p < x" using tiles_frees [OF tq] n by fastforce
  let ?fs = "frees (freed_post post)"
  have "set ?fs \<subseteq> set (frees post)" using freed_frees(2) [of post] by (cases "frees post") auto
  then have hfs: "\<forall>x \<in> set ?fs. hdr_at x \<and> x \<noteq> p \<and> x \<noteq> q"
    using h above f(8) by (auto simp: bl dest!: subsetD bspec [of "set (frees post)"])
  then have m1: "map (nx m') ?fs = map (nx m) ?fs" using f(1) by auto
  have "map (nx m') (butlast (b # frees pre)) = map (nx m) (butlast (b # frees pre))"
  proof (rule map_cong)
    fix x assume x: "x \<in> set (butlast (b # frees pre))"
    then have "x \<in> set (b # frees pre)" by (rule in_set_butlastD)
    moreover have "x \<noteq> q" using d x split by (metis distinct_append disjoint_iff list.set_intros(1))
    ultimately show "nx m' x = nx m x" using f(1) [of x] h below by (auto simp: bl)
  qed simp
  then have m2: "map (nx m') (butlast (b # frees pre)) = frees pre" by (simp only: r(1))
  have m3: "t' # map (nx m) ?fs = ?fs @ [b]"
  proof (cases "upper_joins post")
    case True
    then obtain c k ps where "post = (c, k, True) # ps" by (auto simp: joins_cases)
    then show ?thesis using r(2) True by (simp add: t'_def t_def freed_frees(2))
  next
    case False
    then show ?thesis using r(2) f(6) by (simp add: t'_def freed_frees(2))
  qed
  have "ring (nx m') b (frees (freed pre p n post))"
  proof (cases "lower_joins pre")
    case True
    then have "frees (freed pre p n post) = frees pre @ ?fs" by (simp add: freed_frees(1))
    moreover have "map (nx m') (q # ?fs) = ?fs @ [b]" using f(1) [OF f(4)] True by (simp only: list.map m1 m3 if_True refl)
    ultimately show ?thesis using ring_split [OF split, of "nx m'" ?fs] m2 by simp
  next
    case False
    then have "frees (freed pre p n post) = frees pre @ p # ?fs" by (simp add: freed_frees(1))
    moreover have "map (nx m') (q # p # ?fs) = (p # ?fs) @ [b]"
      using f(1) [OF f(4)] f(1) [OF f(7)] f(8) False
      by (simp only: list.map m1 if_True if_False refl less_imp_neq [THEN not_sym] append_Cons m3)
    ultimately show ?thesis using ring_split [OF split, of "nx m'" "p # ?fs"] m2 by simp
  qed
  moreover have "sz m' b = 0"
  proof -
    have "q + 8 * sz m q = p \<longleftrightarrow> lower_joins pre"
      using joins_adjacent(2) [OF g bl l b] by (simp only: q_def m_def)
    moreover have "sz m b = 0" using l by (simp add: links_def m_def)
    ultimately have "b = q \<Longrightarrow> \<not> lower_joins pre" using bp by auto
    then show ?thesis using f(2) [of b] h bp l by (auto simp: links_def m_def)
  qed
  moreover have "sz m' a = k \<and> (\<not> e \<longrightarrow> nx m' a = a)" if x: "(a, k, e) \<in> set (freed pre p n post)" for a k e
  proof -
    have old: "sz m a' = k'" "\<not> e' \<Longrightarrow> nx m a' = a'" "hdr_at a'" if "(a', k', e') \<in> set bl" for a' k' e'
      using that l geometry_block(1) [OF g that] by (auto simp: links_def m_def)
    have keep: ?thesis if "(a, k, e) \<in> set bl" "a \<noteq> p" "a \<noteq> q"
      using f(1) [of a] f(2) [of a] old [OF that(1)] that(2,3) by auto
    consider "(a, k, e) \<in> set pre" "\<not> lower_joins pre" | "(a, k, e) \<in> set (butlast pre)" "lower_joins pre"
      | "(a, k, e) \<in> set (freed_post post)" | "lower_joins pre" "a = fst (last pre)" "k = fst (snd (last pre)) + freed_units n post" "e"
      | "\<not> lower_joins pre" "a = p" "k = freed_units n post" "e"
      using freed_mem [OF x] by (auto split: if_splits)
    then show ?thesis
    proof cases
      case 1
      then have ap: "a < p" "(a, k, e) \<in> set bl" using tiles_mem [OF tp 1(1)] by (auto simp: bl)
      have "\<not> e \<Longrightarrow> a \<noteq> q"
      proof
        assume "\<not> e" "a = q"
        moreover have "q \<noteq> b" using geometry_block(2) [OF g ap(2)] \<open>a = q\<close> by (simp add: b)
        then have "q \<in> set (frees pre)" using split by (metis in_set_conv_decomp set_ConsD)
        then obtain k' where "(q, k', True) \<in> set bl" by (auto simp: frees_mem bl)
        ultimately show False using tiles_apart [OF tl ap(2)] geometry_block(3) [OF g] ap(2) by fastforce
      qed
      then show ?thesis using f(1) [of a] f(2) [of a] old [OF ap(2)] ap(1) 1(2) by auto
    next
      case 2
      then obtain c j ps where e: "pre = ps @ [(c, j, True)]" by (auto simp: joins_cases)
      then have "tiles (unat (allocp1 s)) ps c" "q = c" "(a, k, e) \<in> set ps" using tp 2 by (auto simp: tiles_append q_def)
      then have "a < q" "(a, k, e) \<in> set bl" using tiles_mem e by (fastforce simp: bl)+
      then show ?thesis using keep f(8) by simp
    next
      case 3
      then have i: "(a, k, e) \<in> set post" by (cases post) (auto simp: freed_post_def split: if_splits)
      then show ?thesis using keep f(8) n tiles_mem [OF tq i] by (simp add: bl)
    next
      case 4
      then obtain c j ps where e: "pre = ps @ [(c, j, True)]" by (auto simp: joins_cases)
      then have "q = c" "a = c" "k = j + freed_units n post" using 4 by (auto simp: q_def)
      then show ?thesis using f(2) [OF f(4)] f(8) old [of c j True] e 4 by (simp add: bl)
    next
      case 5
      then show ?thesis using f(3) by simp
    qed
  qed
  ultimately show ?thesis by (auto simp: links_def m'_def)
qed

text \<open>The address range of the user's part of a block of \<open>n\<close> units at \<open>a\<close>.\<close>

definition user_area :: "nat \<Rightarrow> nat \<Rightarrow> u32 set" where
  "user_area a n = {y. a + 8 \<le> unat y \<and> unat y < a + 8 * n}"

text \<open>Between two states the user's part of every block in use is left alone.\<close>

definition kept :: "block list \<Rightarrow> mem \<Rightarrow> mem \<Rightarrow> bool" where
  "kept bl m m' \<longleftrightarrow> (\<forall>(a, i) \<in> in_use bl. \<forall>y \<in> user_area a i. m' y = m y)"

lemma keptI: "(\<And>a i y. (a, i) \<in> in_use bl \<Longrightarrow> y \<in> user_area a i \<Longrightarrow> m' y = m y) \<Longrightarrow> kept bl m m'"
  by (auto simp: kept_def)

lemma kept_trans: "kept bl m m1 \<Longrightarrow> kept bl' m1 m2 \<Longrightarrow> in_use bl \<subseteq> in_use bl' \<Longrightarrow> kept bl m m2"
  by (force simp: kept_def)

text \<open>\<open>free\<close> on a block in use.\<close>

lemma libc_free_linked:
  assumes g: "geometry s hi bl" and k: "linked s bl" and bl: "bl = pre @ (p, n, False) # post"
  obtains s' where "libc_free (of_nat p + HEADER) s = Some s'" "geometry s' hi (freed pre p n post)"
    "linked s' (freed pre p n post)" "a_base s' = a_base s" "allocp1 s' = allocp1 s"
    "unat (allocp s') = last (unat (a_base s) # frees pre)"
    "kept bl (a_mem s) (a_mem s')"
proof -
  define b where "b = unat (a_base s)"
  define q where "q = last (b # frees pre)"
  have l: "links (a_mem s) b bl" and a: "unat (allocp s) \<in> set (b # frees bl)"
    using k by (auto simp: linked_def b_def)
  have tl: "tiles (unat (allocp1 s)) bl hi" and lo: "b + 8 \<le> unat (allocp1 s)" using g by (auto simp: geometry_def b_def)
  then have tp: "tiles (unat (allocp1 s)) pre p" and tq: "tiles (p + 8 * n) post hi" and n: "0 < n" by (auto simp: bl tiles_append)
  note f = free_link_fields [OF g bl b_def l, folded q_def]
  note h = geometry_frees [OF g, folded b_def]
  have bp: "b + 8 \<le> p" using tiles_le [OF tp] lo by simp
  have "nx (a_mem s) p = p" using l by (auto simp: links_def bl)
  then have mark: "h_ptr (a_mem s) (of_nat p) = of_nat p" by (simp add: h_nat)
  have fnd: "free_find (a_mem s) (of_nat p) (of_nat (unat (allocp s))) = Some (of_nat q)"
    unfolding q_def
  proof (rule free_find_ring)
    show "ring (nx (a_mem s)) b (frees pre @ frees post)" using l by (simp add: links_def bl)
    show "sorted_wrt (<) (b # frees pre @ frees post)" using h(2) by (simp add: bl)
    show "\<forall>x \<in> set (b # frees pre). x < p" using bp tiles_frees [OF tp] by fastforce
    show "\<forall>x \<in> set (frees post). p < x" using tiles_frees [OF tq] n by fastforce
    show "\<forall>x \<in> set (b # frees pre @ frees post). x < 2 ^ 32" using h(1) hdr_less by (auto simp: bl)
    show "p < 2 ^ 32" using f(7) by (rule hdr_less)
    show "unat (allocp s) \<in> set (b # frees pre @ frees post)" using a by (simp add: bl)
  qed
  let ?s = "free_link (of_nat p) (of_nat q) s"
  have "of_nat p + HEADER = of_nat (p + 8)" by (simp add: HEADER_def)
  moreover have "unat (of_nat (p + 8) :: u32) = p + 8"
  proof (rule unat_u32)
    have "2 ^ 32 mod (8 :: nat) = 0" by simp
    show "p + 8 < 2 ^ 32"
      using geometry_block(4) [OF g, of p n False] n g by (auto simp: bl geometry_def)
  qed
  ultimately have ne: "of_nat p + HEADER \<noteq> 0" by (metis unat_0 add_is_0 zero_neq_numeral)
  have r: "libc_free (of_nat p + HEADER) s = Some ?s"
    using ne fnd by (simp add: libc_free_def mark)
  have base: "a_base ?s = a_base s" "allocp1 ?s = allocp1 s" "allocp ?s = of_nat q" by (simp_all add: free_link_def)
  have g': "geometry ?s hi (freed pre p n post)"
    using g freed_tiles [of _ pre p n post hi] freed_coalesced [of pre p n post] by (simp add: geometry_def base bl)
  have uq: "unat (allocp ?s) = q" using f(4) by (simp add: base unat_hdr)
  have "q \<in> set (b # frees pre)" unfolding q_def by (rule last_in_set) simp
  then have "linked ?s (freed pre p n post)"
    using free_link_links [OF g bl b_def l, folded q_def] uq by (auto simp: linked_def base b_def freed_frees(1))
  moreover have "kept bl (a_mem s) (a_mem ?s)"
  proof (rule keptI)
    fix c j y assume u: "(c, j) \<in> in_use bl" "y \<in> user_area c j"
    have cj: "(c, j, False) \<in> set bl" using u(1) by (simp add: in_use_def)
    have hc: "hdr_at c" using geometry_block(1) [OF g cj] .
    have "unat y < x \<or> x + 8 \<le> unat y" if "(x, k, e) \<in> set bl" for x k e
      using tiles_apart [OF tl that cj] u(2) geometry_block(3) [OF g that] by (auto simp: user_area_def)
    note blk = this
    have "unat y < p \<or> p + 8 \<le> unat y" using blk [of p n False] by (simp add: bl)
    moreover have "unat y < q \<or> q + 8 \<le> unat y"
    proof (cases "q = b")
      case True
      then show ?thesis using geometry_block(2) [OF g cj] u(2) by (auto simp: user_area_def b_def)
    next
      case False
      then obtain k where "(q, k, True) \<in> set bl" using \<open>q \<in> set (b # frees pre)\<close> by (auto simp: frees_mem bl)
      then show ?thesis by (rule blk)
    qed
    ultimately show "a_mem ?s y = a_mem s y" by (intro f(9)) auto
  qed
  ultimately show ?thesis using that [OF r g'] base uq by (auto simp: q_def b_def)
qed

section \<open>Growing the heap\<close>

lemma word_nat_cast: "of_nat (unat w) = (w :: u32)"
  by simp

lemma tiles_coalesced_used: "coalesced ((a, n, False) # bl) \<longleftrightarrow> coalesced bl"
  by (simp add: coalesced_Cons)

definition room :: "u32 \<Rightarrow> nat" where
  "room nu = 128 * ((unat nu + 127) div 128)"

lemma room_bound: "unat nu \<le> room nu" "room nu < unat nu + 128"
  unfolding room_def
  using div_mult_mod_eq [of "unat nu + 127" 128] mod_less_divisor [of 128 "unat nu + 127"] by linarith+

lemma morecore_linked:
  assumes g: "geometry s hi bl" and k: "linked s bl" and fits: "unat (a_base s) + 8 + 8 * room nu \<le> unat (allocp1 s)"
    and nu: "0 < unat nu"
  obtains s' where "morecore nu s = Some (a_base s, s')" 
    "geometry s' hi (freed [] (unat (allocp1 s) - 8 * room nu) (room nu) bl)"
    "linked s' (freed [] (unat (allocp1 s) - 8 * room nu) (room nu) bl)" "a_base s' = a_base s" "allocp s' = a_base s"
    "kept bl (a_mem s) (a_mem s')"
proof -
  define b lo c where "b = unat (a_base s)" and "lo = unat (allocp1 s)" and "c = lo - 8 * room nu"
  have lo: "lo < 2 ^ 32" unfolding lo_def using unsigned_less [of "allocp1 s"] by simp
  have c: "c + 8 * room nu = lo" "b + 8 \<le> c" using fits by (auto simp: c_def b_def lo_def)
  have rn: "0 < room nu" "room nu < 2 ^ 29" using room_bound(1) [of nu] nu c lo by auto
  have nub: "unat nu + 127 < 2 ^ 32" using room_bound(1) [of nu] rn by simp
  have w1: "NALLOC * ((nu + NALLOC - 1) div NALLOC) = of_nat (room nu)"
  proof -
    have e: "nu + NALLOC - 1 = nu + of_nat 127" by (simp add: NALLOC_def)
    have "unat (nu + NALLOC - 1) = unat nu + 127"
      unfolding e by (rule unat_add_of_nat_less) (use nub in simp)
    then have "unat ((nu + NALLOC - 1) div NALLOC) = (unat nu + 127) div 128"
      by (simp add: unat_div NALLOC_def)
    then have "(nu + NALLOC - 1) div NALLOC = of_nat ((unat nu + 127) div 128)" by (metis word_nat_cast)
    then show ?thesis by (simp add: NALLOC_def room_def)
  qed
  have w2: "allocp1 s - of_nat (room nu) * HEADER = of_nat c"
  proof -
    have "allocp1 s = of_nat (c + 8 * room nu)" by (simp add: c(1) lo_def)
    then show ?thesis by (simp add: HEADER_def)
  qed
  have tl: "tiles lo bl hi" and gm: "hi mod 8 = 0" "hi < 2 ^ 32" "coalesced bl" "b mod 8 = 0" "0 < b"
    using g by (auto simp: geometry_def b_def lo_def)
  have c8: "c mod 8 = 0"
  proof -
    have "(c + 8 * room nu) mod 8 = 0" using tiles_end_mod [OF tl] gm(1) c(1) by simp
    then show ?thesis by simp
  qed
  have hc: "hdr_at c" using c8 c lo rn by (auto simp: hdr_at_def)
  have uc: "unat (of_nat c :: u32) = c" using hc by (rule unat_hdr)
  define s1 where "s1 = s\<lparr>allocp1 := of_nat c, a_mem := set_ptr (of_nat c) (of_nat c) (set_size (of_nat c) (of_nat (room nu)) (a_mem s))\<rparr>"
  have g1: "geometry s1 hi ([] @ (c, room nu, False) # bl)"
    using tl gm c rn by (simp add: geometry_def s1_def uc tiles_coalesced_used flip: b_def)
  have ur: "unat (of_nat (room nu) :: u32) = room nu" using rn by (intro unat_u32) simp
  have fl: "hdr_at x \<Longrightarrow> nx (a_mem s1) x = (if x = c then c else nx (a_mem s) x)"
    "hdr_at x \<Longrightarrow> sz (a_mem s1) x = (if x = c then room nu else sz (a_mem s) x)" for x
    using hc by (simp_all add: s1_def uc ur)
  have ne: "x \<noteq> c" if "x \<in> set (b # frees bl)" for x using that tiles_frees [OF tl] c rn by fastforce
  have k1: "linked s1 ([] @ (c, room nu, False) # bl)"
  proof -
    have l: "ring (nx (a_mem s)) b (frees bl)" "sz (a_mem s) b = 0" "unat (allocp s) \<in> set (b # frees bl)"
      "\<forall>(a, n, f) \<in> set bl. sz (a_mem s) a = n \<and> (\<not> f \<longrightarrow> nx (a_mem s) a = a)"
      using k by (auto simp: linked_def links_def b_def)
    have "map (nx (a_mem s1)) (b # frees bl) = map (nx (a_mem s)) (b # frees bl)"
      using geometry_frees(1) [OF g, folded b_def] fl ne by auto
    then have r: "ring (nx (a_mem s1)) b (frees bl)" using l(1) by (simp only: ring_def)
    have hb: "hdr_at b" using geometry_base [OF g] by (simp add: b_def)
    have "sz (a_mem s1) b = 0" using fl(2) [OF hb] ne [of b] l(2) by simp
    moreover have "sz (a_mem s1) a = n \<and> (\<not> f \<longrightarrow> nx (a_mem s1) a = a)" if "(a, n, f) \<in> set bl" for a n f
    proof -
      have "a \<noteq> c" using tiles_mem [OF tl that] c rn by auto
      then show ?thesis using fl [OF geometry_block(1) [OF g that]] l(4) that by auto
    qed
    moreover have "sz (a_mem s1) c = room nu" "nx (a_mem s1) c = c" using fl [OF hc] by simp_all
    moreover have "a_base s1 = a_base s" "allocp s1 = allocp s" by (simp_all add: s1_def)
    ultimately show ?thesis using r l(3) by (auto simp: linked_def links_def b_def)
  qed
  obtain s' where s': "libc_free (of_nat c + HEADER) s1 = Some s'" "geometry s' hi (freed [] c (room nu) bl)"
    "linked s' (freed [] c (room nu) bl)" "a_base s' = a_base s1" "unat (allocp s') = last (unat (a_base s1) # frees [])"
    "kept ([] @ (c, room nu, False) # bl) (a_mem s1) (a_mem s')"
    by (rule libc_free_linked [OF g1 k1 refl])
  have ap: "allocp s' = a_base s" using s'(5) by (intro word_unat_eq_iff [THEN iffD2]) (simp add: s1_def)
  have cn: "(of_nat c :: u32) \<noteq> 0"
  proof
    assume "(of_nat c :: u32) = 0"
    then have "c = 0" using uc by simp
    then show False using c(2) by simp
  qed
  have "morecore nu s = Some (allocp s', s')"
    using s'(1) cn unfolding morecore_def sbrk_def Let_def w1 prod.case s1_def by (simp add: w2)
  moreover have "kept bl (a_mem s) (a_mem s')"
  proof (rule kept_trans)
    show "kept bl (a_mem s) (a_mem s1)"
    proof (rule keptI)
      fix a j y assume u: "(a, j) \<in> in_use bl" "y \<in> user_area a j"
      then have "(a, j, False) \<in> set bl" by (simp add: in_use_def)
      from tiles_mem [OF tl this] have "c + 8 \<le> unat y" using u(2) c rn by (auto simp: user_area_def)
      then show "a_mem s1 y = a_mem s y" using set_outside [OF hc, of y] by (simp add: s1_def)
    qed
  qed (rule s'(6), auto)
  ultimately show ?thesis
    using that [of s'] s'(2-4) ap by (simp add: s1_def c_def lo_def)
qed

section \<open>Taking a block\<close>

definition taken :: "block list \<Rightarrow> nat \<Rightarrow> nat \<Rightarrow> nat \<Rightarrow> block list \<Rightarrow> block list" where
  "taken pre c j n post =
     (if j = n then pre @ (c, n, False) # post
      else pre @ (c, j - n, True) # (c + 8 * (j - n), n, False) # post)"

lemma taken_tiles:
  "tiles lo (pre @ (c, j, True) # post) hi \<Longrightarrow> 0 < n \<Longrightarrow> n \<le> j \<Longrightarrow> tiles lo (taken pre c j n post) hi"
  by (auto simp: taken_def tiles_append diff_mult_distrib2)

lemma taken_coalesced: "coalesced (pre @ (c, j, True) # post) \<Longrightarrow> coalesced (taken pre c j n post)"
  by (auto simp: taken_def coalesced_append coalesced_Cons)

lemma taken_used: "in_use (taken pre c j n post) = insert (c + 8 * (j - n), n) (in_use (pre @ (c, j, True) # post))"
  by (auto simp: taken_def)

lemma taken_frees: "frees (taken pre c j n post) = frees pre @ (if j = n then [] else [c]) @ frees post"
  by (simp add: taken_def)

lemma take_block_linked:
  assumes g: "geometry s hi bl" and k: "linked s bl" and bl: "bl = pre @ (c, j, True) # post"
    and n: "0 < unat n" "unat n \<le> j" and q: "q \<in> set (unat (a_base s) # frees bl)" "nx (a_mem s) q = c"
  defines "d \<equiv> c + 8 * (j - unat n)" and "bl' \<equiv> taken pre c j (unat n) post"
  obtains s' where "take_block n (of_nat q) (of_nat c) s = (of_nat d + HEADER, s')" "geometry s' hi bl'" "linked s' bl'"
    "a_base s' = a_base s" "allocp1 s' = allocp1 s" "allocp s' = of_nat q"
    "kept bl (a_mem s) (a_mem s')"
proof -
  define b m N where "b = unat (a_base s)" and "m = a_mem s" and "N = unat n"
  have l: "links m b bl" using k by (simp add: linked_def b_def m_def)
  note h = geometry_frees [OF g, folded b_def]
  have tl: "tiles (unat (allocp1 s)) bl hi" and hi: "hi < 2 ^ 32" "coalesced bl" using g by (auto simp: geometry_def)
  note cb = geometry_block [OF g, of c j True, folded b_def]
  have cin: "(c, j, True) \<in> set bl" by (simp add: bl)
  have hc: "hdr_at c" and bc: "b + 8 \<le> c" and jh: "c + 8 * j \<le> hi" using cb cin by auto
  have hd: "hdr_at d" using hc jh hi n by (auto simp: hdr_at_def d_def)
  have hq: "hdr_at q" using h(1) q(1) by (auto simp: b_def)
  have sc: "sz m c = j" and j32: "j < 2 ^ 32" using l jh hi by (auto simp: links_def bl)
  have ur: "ring (nx m) b (frees pre @ c # frees post)" using l by (simp add: links_def bl)
  have dist: "distinct (b # frees pre @ c # frees post)" using h(2) unfolding strict_sorted_iff by (simp add: bl)
  have ql: "q = last (b # frees pre)"
    using ring_pred [OF ur dist] q by (simp add: bl b_def m_def)
  have split: "b # frees pre = butlast (b # frees pre) @ [q]" by (simp add: ql)
  have r: "map (nx m) (butlast (b # frees pre)) = frees pre" "map (nx m) (q # c # frees post) = (c # frees post) @ [b]"
    using ring_split [OF split, of "nx m" "c # frees post"] ur by blast+
  have qc: "q \<noteq> c" using dist split by (metis Un_iff append_is_Nil_conv distinct_append disjoint_iff last_in_set list.distinct(1) list.set_intros(1) ql append_Cons)
  define m1 where "m1 = (if j = N then set_ptr (of_nat q) (of_nat (nx m c)) m
    else set_size (of_nat d) n (set_size (of_nat c) (of_nat (j - N)) m))"
  define m' where "m' = set_ptr (of_nat d) (of_nat d) m1"
  have nj: "N \<le> j" "n = of_nat N" using n by (simp_all add: N_def)
  have hs: "h_size m (of_nat c) = n \<longleftrightarrow> j = N"
    using sc j32 unat_u32 [OF j32] by (simp only: h_nat) (metis N_def word_nat_cast)
  have tb: "take_block n (of_nat q) (of_nat c) s = (of_nat d + HEADER, s\<lparr>a_mem := m', allocp := of_nat q\<rparr>)"
  proof (cases "j = N")
    case True
    then have "d = c" by (simp add: d_def N_def)
    then show ?thesis using True hs by (simp add: take_block_def Let_def m'_def m1_def h_nat flip: m_def)
  next
    case False
    have e: "h_size m (of_nat c) - n = of_nat (j - N)" using nj sc by (simp add: h_nat of_nat_diff)
    have "sz (set_size (of_nat c) (of_nat (j - N)) m) c = j - N"
      using hc unat_u32 [of "j - N"] j32 by simp
    then have "of_nat c + HEADER * h_size (set_size (of_nat c) (of_nat (j - N)) m) (of_nat c) = of_nat d"
      by (simp add: h_nat d_def HEADER_def N_def)
    then show ?thesis using False hs by (simp add: take_block_def Let_def m'_def m1_def e flip: m_def)
  qed
  have ud: "unat (of_nat d :: u32) = d" using hd by (rule unat_hdr)
  have dc: "j = N \<longleftrightarrow> d = c" using nj(1) by (auto simp: d_def N_def)
  have f: "nx m' x = (if x = d then d else if x = q \<and> j = N then nx m c else nx m x)"
    "sz m' x = (if x = d then N else if x = c then j - N else sz m x)" if x: "hdr_at x" for x
    using x hd hc hq dc sc ud unat_u32 [OF nx_less [of m c]] unat_u32 [of "j - N"] j32
    by (auto simp: m'_def m1_def N_def)
  let ?s = "s\<lparr>a_mem := m', allocp := of_nat q\<rparr>"
  have g': "geometry ?s hi bl'"
    using g taken_tiles [of _ pre c j post hi N] taken_coalesced [of pre c j post N] n by (simp add: geometry_def bl'_def bl N_def)
  have dfar: "d \<noteq> x" if "x \<in> set (b # frees pre @ frees post)" for x
  proof (cases "x = b")
    case False
    then have "x \<in> set (frees bl)" "x \<noteq> c" using that dist by (auto simp: bl)
    then obtain i where i: "(x, i, True) \<in> set bl" "x \<noteq> c" by (auto simp: frees_mem)
    then show ?thesis using tiles_apart [OF tl i(1) cin] tiles_mem [OF tl i(1)] n by (auto simp: d_def)
  qed (use bc in \<open>simp add: d_def\<close>)
  have mp: "map (nx m') (butlast (b # frees pre)) = frees pre"
  proof -
    have "nx m' x = nx m x" if x: "x \<in> set (butlast (b # frees pre))" for x
    proof -
      have "x \<in> set (b # frees pre)" using x by (rule in_set_butlastD)
      moreover have "x \<noteq> q" using dist x split by (metis append_Cons disjoint_iff distinct_append list.set_intros(1))
      ultimately show ?thesis using f(1) [of x] h(1) dfar [of x] by (auto simp: bl)
    qed
    then show ?thesis using r(1) by (simp cong: map_cong)
  qed
  have mq: "map (nx m') (frees post) = map (nx m) (frees post)"
  proof (rule map_cong)
    fix x assume x: "x \<in> set (frees post)"
    have "q \<in> set (b # frees pre)" unfolding ql by (rule last_in_set) simp
    then have "x \<noteq> q" using dist x by auto
    then show "nx m' x = nx m x" using f(1) [of x] h(1) dfar [of x] x by (auto simp: bl)
  qed simp
  have qd: "d \<noteq> q" using dfar [of q] q(1) qc by (auto simp: bl b_def)
  have rg: "ring (nx m') b (frees bl')"
  proof (cases "j = N")
    case True
    then have "nx m' q = nx m c" using f(1) [OF hq] qd by simp
    then have "map (nx m') (q # frees post) = frees post @ [b]" using r(2) by (simp only: list.map mq append_Cons list.inject)
    then show ?thesis using True mp ring_split [OF split, of "nx m'" "frees post"] by (simp add: bl'_def taken_frees N_def)
  next
    case False
    then have "nx m' q = nx m q" "nx m' c = nx m c" using f(1) [OF hq] f(1) [OF hc] qd dc by simp_all
    then have "map (nx m') (q # c # frees post) = (c # frees post) @ [b]" using r(2) by (simp only: list.map mq)
    then show ?thesis using False mp ring_split [OF split, of "nx m'" "c # frees post"] by (simp add: bl'_def taken_frees N_def)
  qed
  have "links m' b bl'" unfolding links_def
  proof (intro conjI)
    have hb: "hdr_at b" using geometry_base [OF g] by (simp add: b_def)
    show "sz m' b = 0" using f(2) [OF hb] dfar [of b] bc l by (simp add: links_def)
    have "sz m' a = i \<and> (\<not> e \<longrightarrow> nx m' a = a)" if x: "(a, i, e) \<in> set bl'" for a i e
    proof -
      consider "a = d" "i = N" | "a = c" "i = j - N" "e" "j \<noteq> N" | "(a, i, e) \<in> set pre \<union> set post"
        using x by (auto simp: bl'_def taken_def d_def N_def split: if_splits)
      then show ?thesis
      proof cases
        case 1
        then show ?thesis using f [OF hd] by simp
      next
        case 2
        then show ?thesis using f(2) [OF hc] dc by auto
      next
        case 3
        then have i: "(a, i, e) \<in> set bl" by (auto simp: bl)
        have old: "sz m a = i" "\<not> e \<Longrightarrow> nx m a = a" using l i by (auto simp: links_def)
        have "(a, i, e) \<noteq> (c, j, True) \<or> i = 0"
          using tl 3 by (auto simp: bl tiles_append dest: tiles_mem)
        then have apart: "a + 8 * i \<le> c \<or> c + 8 * j \<le> a"
          using tiles_apart [OF tl i cin] geometry_block(3) [OF g i] by auto
        then have "a \<noteq> d" "a \<noteq> c" using n geometry_block(3) [OF g i] by (auto simp: d_def)
        moreover have "\<not> e \<Longrightarrow> a \<noteq> q"
        proof
          assume ne: "\<not> e" "a = q"
          have "q \<noteq> b" using geometry_block(2) [OF g i] ne(2) by (simp add: b_def)
          then obtain i' where "(q, i', True) \<in> set bl" using q(1) by (auto simp: frees_mem b_def)
          then show False using tiles_apart [OF tl i] geometry_block(3) [OF g] ne i by fastforce
        qed
        ultimately show ?thesis using f [OF geometry_block(1) [OF g i]] old by auto
      qed
    qed
    then show "\<forall>(a, i, e) \<in> set bl'. sz m' a = i \<and> (\<not> e \<longrightarrow> nx m' a = a)" by auto
  qed (rule rg)
  moreover have "q \<in> set (b # frees bl')"
    using q(1) qc by (auto simp: bl'_def taken_frees b_def bl)
  ultimately have k': "linked ?s bl'" using hq by (simp add: linked_def b_def unat_hdr)
  have "kept bl m m'"
  proof (rule keptI)
    fix a i y assume u: "(a, i) \<in> in_use bl" "y \<in> user_area a i"
    have ai: "(a, i, False) \<in> set bl" using u(1) by (simp add: in_use_def)
    have blk: "unat y < x \<or> x + 8 * z \<le> unat y" if "(x, z, True) \<in> set bl" for x z
      using tiles_apart [OF tl that ai] u(2) by (auto simp: user_area_def)
    have o: "unat y < c \<or> c + 8 * j \<le> unat y" using blk cin by blast
    have "unat y < q \<or> q + 8 \<le> unat y"
    proof (cases "q = b")
      case True
      then show ?thesis using geometry_block(2) [OF g ai] u(2) by (auto simp: user_area_def b_def)
    next
      case False
      then obtain z where z: "(q, z, True) \<in> set bl" using q(1) by (auto simp: frees_mem b_def)
      then show ?thesis using blk [OF z] geometry_block(3) [OF g z] by auto
    qed
    moreover have "unat y < d \<or> d + 8 \<le> unat y" "unat y < c \<or> c + 8 \<le> unat y"
      using o n by (auto simp: d_def)
    ultimately show "m' y = m y"
      using set_outside [OF hq, of y] set_outside [OF hd, of y] set_outside [OF hc, of y] by (simp add: m'_def m1_def)
  qed
  then show ?thesis using that [OF tb g' k'] by (simp add: m_def)
qed

section \<open>The search of \<open>malloc\<close>\<close>

definition after_core :: "u32 \<Rightarrow> heap \<Rightarrow> (u32 \<times> heap) option" where
  "after_core n s =
     (case morecore n s of
        None \<Rightarrow> None
      | Some (p', s') \<Rightarrow> if p' = 0 then Some (0, s') else malloc_loop n p' (h_ptr (a_mem s') p') s')"

lemma malloc_loop_step:
  "malloc_loop n q p s =
     (if h_size (a_mem s) p \<ge> n then Some (take_block n q p s)
      else if p = allocp s then after_core n s else malloc_loop n p (h_ptr (a_mem s) p) s)"
  by (subst malloc_loop.simps) (simp add: after_core_def)

text \<open>The loop takes the first block that is big enough, or asks for more when it is back.\<close>

lemma malloc_walk:
  "map (nx (a_mem s)) (q # ws) = ws @ [a] \<Longrightarrow> allocp s = of_nat a \<Longrightarrow> a < 2 ^ 32 \<Longrightarrow> \<forall>x \<in> set ws. x \<noteq> a \<and> x < 2 ^ 32 \<Longrightarrow>
   malloc_loop n (of_nat q) (of_nat (nx (a_mem s) q)) s = after_core n s \<or>
   (\<exists>q' c. q' \<in> set (q # ws) \<and> c \<in> set (ws @ [a]) \<and> nx (a_mem s) q' = c \<and> unat n \<le> sz (a_mem s) c \<and>
      malloc_loop n (of_nat q) (of_nat (nx (a_mem s) q)) s = Some (take_block n (of_nat q') (of_nat c) s))"
proof (induction ws arbitrary: q)
  case Nil
  then have w: "nx (a_mem s) q = a" by simp
  show ?case
  proof (cases "n \<le> h_size (a_mem s) (of_nat a)")
    case True
    then have "malloc_loop n (of_nat q) (of_nat a) s = Some (take_block n (of_nat q) (of_nat a) s)"
      by (subst malloc_loop_step) simp
    then show ?thesis using True w by (auto simp: word_le_nat_alt sz_def)
  next
    case False
    then have "malloc_loop n (of_nat q) (of_nat a) s = after_core n s"
      using Nil.prems(2) by (subst malloc_loop_step) simp
    then show ?thesis by (simp add: w)
  qed
next
  case (Cons w ws)
  then have w: "nx (a_mem s) q = w" "w \<noteq> a" "w < 2 ^ 32" by simp_all
  then have ne: "of_nat w \<noteq> allocp s" using Cons.prems(2,3) of_nat_u32_cmp(3) [of w a] by simp
  show ?case
  proof (cases "n \<le> h_size (a_mem s) (of_nat w)")
    case True
    then have "malloc_loop n (of_nat q) (of_nat w) s = Some (take_block n (of_nat q) (of_nat w) s)"
      by (subst malloc_loop_step) simp
    then show ?thesis using True w by (auto simp: word_le_nat_alt sz_def)
  next
    case False
    then have "malloc_loop n (of_nat q) (of_nat w) s = malloc_loop n (of_nat w) (of_nat (nx (a_mem s) w)) s"
      using ne by (subst malloc_loop_step) (simp add: h_nat)
    moreover have "malloc_loop n (of_nat w) (of_nat (nx (a_mem s) w)) s = after_core n s \<or>
       (\<exists>q' c. q' \<in> set (w # ws) \<and> c \<in> set (ws @ [a]) \<and> nx (a_mem s) q' = c \<and> unat n \<le> sz (a_mem s) c \<and>
          malloc_loop n (of_nat w) (of_nat (nx (a_mem s) w)) s = Some (take_block n (of_nat q') (of_nat c) s))"
      using Cons.prems by (intro Cons.IH) auto
    ultimately show ?thesis unfolding w(1) by (elim disjE exE conjE; intro disjI1 disjI2 exI conjI; (assumption | simp))
  qed
qed

text \<open>What a successful request gives: a block of \<open>n\<close> units at \<open>d\<close> that was not in use and overlaps no block
  in use.\<close>

definition gives :: "nat \<Rightarrow> nat \<Rightarrow> heap \<Rightarrow> block list \<Rightarrow> (u32 \<times> heap) option \<Rightarrow> bool" where
  "gives hi n s bl r \<longleftrightarrow>
     (\<exists>d s' bl'. r = Some (of_nat d + HEADER, s') \<and> geometry s' hi bl' \<and> linked s' bl' \<and> a_base s' = a_base s \<and>
        in_use bl' = insert (d, n) (in_use bl) \<and> (\<forall>(a, i) \<in> in_use bl. a + 8 * i \<le> d \<or> d + 8 * n \<le> a) \<and>
        kept bl (a_mem s) (a_mem s'))"

lemma take_gives:
  assumes g: "geometry s hi bl" and k: "linked s bl" and bl: "bl = pre @ (c, j, True) # post"
    and n: "0 < unat n" "unat n \<le> j" and q: "q \<in> set (unat (a_base s) # frees bl)" "nx (a_mem s) q = c"
  shows "gives hi (unat n) s bl (Some (take_block n (of_nat q) (of_nat c) s))"
proof -
  obtain s' where s': "take_block n (of_nat q) (of_nat c) s = (of_nat (c + 8 * (j - unat n)) + HEADER, s')"
    "geometry s' hi (taken pre c j (unat n) post)" "linked s' (taken pre c j (unat n) post)" "a_base s' = a_base s"
    "kept bl (a_mem s) (a_mem s')"
    by (rule take_block_linked [OF g k bl n q])
  let ?d = "c + 8 * (j - unat n)"
  have "a + 8 * i \<le> ?d \<or> ?d + 8 * unat n \<le> a" if "(a, i) \<in> in_use bl" for a i
  proof -
    have "(a, i, False) \<in> set bl" "(c, j, True) \<in> set bl" using that by (auto simp: in_use_def bl)
    moreover have "tiles (unat (allocp1 s)) bl hi" using g by (simp add: geometry_def)
    ultimately have "a + 8 * i \<le> c \<or> c + 8 * j \<le> a" using tiles_apart by fastforce
    then show ?thesis using n by auto
  qed
  then show ?thesis using s' taken_used [of pre c j "unat n" post]
    unfolding gives_def by (intro exI [of _ ?d] exI [of _ s'] exI [of _ "taken pre c j (unat n) post"]) (auto simp: bl)
qed

lemma freed_first:
  "upper_joins bl \<or> \<not> upper_joins bl \<Longrightarrow> \<exists>j post. freed [] p n bl = (p, j, True) # post \<and> n \<le> j"
  by (auto simp: freed_def lower_joins_def freed_units_def)

lemma after_core_gives:
  assumes g: "geometry s hi bl" and k: "linked s bl" and fits: "unat (a_base s) + 8 + 8 * room n \<le> unat (allocp1 s)"
    and n: "0 < unat n"
  shows "gives hi (unat n) s bl (after_core n s)"
proof -
  let ?c = "unat (allocp1 s) - 8 * room n"
  obtain s' where s': "morecore n s = Some (a_base s, s')" "geometry s' hi (freed [] ?c (room n) bl)"
    "linked s' (freed [] ?c (room n) bl)" "a_base s' = a_base s" "allocp s' = a_base s"
    "kept bl (a_mem s) (a_mem s')"
    by (rule morecore_linked [OF g k fits n])
  obtain j post where fr: "freed [] ?c (room n) bl = [] @ (?c, j, True) # post" "room n \<le> j"
    using freed_first [of bl ?c "room n"] by auto
  have nj: "unat n \<le> j" using room_bound(1) [of n] fr(2) by simp
  have l: "ring (nx (a_mem s')) (unat (a_base s)) (?c # frees post)" "sz (a_mem s') ?c = j"
    using s'(3) fr(1) s'(4) by (auto simp: linked_def links_def)
  have nxb: "nx (a_mem s') (unat (a_base s)) = ?c" using l(1) by (simp add: ring_def)
  have b0: "a_base s \<noteq> 0" using g by (auto simp: geometry_def)
  have p: "h_ptr (a_mem s') (a_base s) = of_nat ?c" using h_nat(1) [of "a_mem s'" "unat (a_base s)"] nxb by simp
  have "n \<le> h_size (a_mem s') (of_nat ?c)" using l(2) nj by (simp add: word_le_nat_alt sz_def)
  then have "malloc_loop n (a_base s) (h_ptr (a_mem s') (a_base s)) s' = Some (take_block n (a_base s) (of_nat ?c) s')"
    unfolding p by (subst malloc_loop_step) simp
  then have r: "after_core n s = Some (take_block n (of_nat (unat (a_base s))) (of_nat ?c) s')"
    by (simp add: after_core_def s'(1) b0)
  have "gives hi (unat n) s' (freed [] ?c (room n) bl) (after_core n s)"
    unfolding r by (rule take_gives [OF s'(2,3) fr(1) n nj]) (simp_all add: s'(4) nxb)
  moreover have "in_use (freed [] ?c (room n) bl) = in_use bl" by (simp add: freed_used)
  ultimately show ?thesis using s'(4) kept_trans [OF s'(6), of "freed [] ?c (room n) bl"] unfolding gives_def
    by (simp only: subset_refl) blast
qed

lemma malloc_loop_gives:
  assumes g: "geometry s hi bl" and k: "linked s bl" and n: "0 < unat n"
    and fits: "unat (a_base s) + 8 + 8 * room n \<le> unat (allocp1 s)"
  shows "gives hi (unat n) s bl (malloc_loop n (allocp s) (h_ptr (a_mem s) (allocp s)) s)"
proof -
  define b a m where "b = unat (a_base s)" and "a = unat (allocp s)" and "m = a_mem s"
  note h = geometry_frees [OF g, folded b_def]
  have l: "ring (nx m) b (frees bl)" "sz m b = 0" "a \<in> set (b # frees bl)" "\<forall>(c, j, f) \<in> set bl. sz m c = j"
    using k by (auto simp: linked_def links_def b_def a_def m_def)
  obtain us vs where z: "b # frees bl = us @ a # vs" using l(3) by (meson split_list)
  have r: "map (nx m) (a # vs @ us) = (vs @ us) @ [a]" using ring_from [OF l(1) z] by simp
  have s: "set (a # vs @ us) = set (b # frees bl)" by (subst z) auto
  have "distinct (b # frees bl)" using h(2) unfolding strict_sorted_iff by simp
  then have "distinct (us @ a # vs)" by (simp only: z)
  moreover have "\<forall>x \<in> set (a # vs @ us). x < 2 ^ 32" unfolding s using h(1) hdr_less by blast
  ultimately have o: "\<forall>x \<in> set (vs @ us). x \<noteq> a \<and> x < 2 ^ 32" by auto
  have a32: "a < 2 ^ 32" "allocp s = of_nat a" using h(1) l(3) hdr_less by (auto simp: a_def)
  have e: "malloc_loop n (allocp s) (h_ptr (a_mem s) (allocp s)) s = malloc_loop n (of_nat a) (of_nat (nx (a_mem s) a)) s"
    by (simp add: a32(2) h_nat)
  from malloc_walk [OF r [unfolded m_def] a32(2,1) o, of n]
  show ?thesis unfolding e
  proof (elim disjE exE conjE)
    assume "malloc_loop n (of_nat a) (of_nat (nx (a_mem s) a)) s = after_core n s"
    then show "gives hi (unat n) s bl (malloc_loop n (of_nat a) (of_nat (nx (a_mem s) a)) s)"
      using after_core_gives [OF g k fits n] by simp
  next
    fix q' c
    assume q': "q' \<in> set (a # vs @ us)" "nx (a_mem s) q' = c" and c: "c \<in> set ((vs @ us) @ [a])" "unat n \<le> sz (a_mem s) c"
      and r: "malloc_loop n (of_nat a) (of_nat (nx (a_mem s) a)) s = Some (take_block n (of_nat q') (of_nat c) s)"
    have "c \<in> set (b # frees bl)" using c(1) s by auto
    moreover have "c \<noteq> b" using c(2) l(2) n by (auto simp: m_def)
    ultimately obtain j where j: "(c, j, True) \<in> set bl" by (auto simp: frees_mem)
    then obtain pre post where bl: "bl = pre @ (c, j, True) # post" by (meson split_list)
    have "unat n \<le> j" using c(2) l(4) j by (auto simp: m_def)
    from take_gives [OF g k bl n this _ q'(2)] q'(1)
    show "gives hi (unat n) s bl (malloc_loop n (of_nat a) (of_nat (nx (a_mem s) a)) s)"
      unfolding r s b_def by simp
  qed
qed

lemma libc_malloc_gives:
  assumes ok: "heap_ok s hi bl" and n: "0 < unat (nunits nbytes)"
    and fits: "unat (a_base s) + 8 + 8 * room (nunits nbytes) \<le> unat (allocp1 s)"
  shows "gives hi (unat (nunits nbytes)) s bl (libc_malloc nbytes s)"
proof (cases "allocp s = 0")
  case False
  then have "geometry s hi bl" "linked s bl" using ok by (auto simp: heap_ok_def)
  from malloc_loop_gives [OF this n fits] False show ?thesis by (simp add: libc_malloc_def)
next
  case True
  define b where "b = unat (a_base s)"
  define s0 where "s0 = s\<lparr>a_mem := set_size (a_base s) 0 (set_ptr (a_base s) (a_base s) (a_mem s)), allocp := a_base s\<rparr>"
  have bl: "bl = []" and g: "geometry s hi []" using ok True by (auto simp: heap_ok_def)
  have hb: "hdr_at b" using geometry_base [OF g] by (simp add: b_def)
  have g0: "geometry s0 hi []" using g by (simp add: geometry_def s0_def)
  have ab: "a_base s = of_nat b" by (simp add: b_def)
  have "nx (a_mem s0) b = b" "sz (a_mem s0) b = 0" using hb by (simp_all add: s0_def ab unat_hdr)
  then have k0: "linked s0 []" by (simp add: linked_def links_def ring_def s0_def b_def)
  have fits0: "unat (a_base s0) + 8 + 8 * room (nunits nbytes) \<le> unat (allocp1 s0)" using fits by (simp add: s0_def)
  have "gives hi (unat (nunits nbytes)) s0 [] (libc_malloc nbytes s)"
    using malloc_loop_gives [OF g0 k0 n fits0] True by (simp add: libc_malloc_def s0_def)
  then show ?thesis by (simp add: gives_def bl s0_def kept_def)
qed

end
