(* ===== verification/Malloc_Client.thy ===== *)
theory Malloc_Client
  imports Malloc_Inv
begin

text \<open>
  The allocator as its clients see it: the interface of an allocator as a locale with the model
  as its interpretation, a client as a step relation with the invariant of its reachable
  states, and the properties.
\<close>

section \<open>Requests\<close>

lemma nunits_value:
  assumes "unat nbytes + 7 < 2 ^ 32"
  shows "unat (nunits nbytes) = (unat nbytes + 7) div 8 + 1"
proof -
  have e: "nbytes + HEADER - 1 = nbytes + of_nat 7" by (simp add: HEADER_def)
  have u: "unat (nbytes + HEADER - 1) = unat nbytes + 7"
    unfolding e by (rule unat_add_of_nat_less) (use assms in simp)
  have v: "unat ((nbytes + HEADER - 1) div HEADER) = (unat nbytes + 7) div 8"
    by (simp only: unat_div u) (simp add: HEADER_def)
  have "unat ((nbytes + HEADER - 1) div HEADER + of_nat 1) = unat ((nbytes + HEADER - 1) div HEADER) + 1"
    by (rule unat_add_of_nat_less) (use assms v in simp)
  then show ?thesis by (simp add: nunits_def v)
qed

lemma unat_u32_less: "unat (x :: u32) < 2 ^ 32"
  using unsigned_less [of x] by simp

lemma nunits_wraps:
  assumes "2 ^ 32 \<le> unat nbytes + 7"
  shows "nunits nbytes = 1"
proof -
  have "unat (nbytes + of_nat 7) = (unat nbytes + 7) mod 2 ^ 32" by (simp add: unat_word_ariths)
  moreover have "(unat nbytes + 7) mod 2 ^ 32 = unat nbytes + 7 - 2 ^ 32"
    using assms unat_u32_less [of nbytes] by (simp add: le_mod_geq)
  moreover have e: "nbytes + HEADER - 1 = nbytes + of_nat 7" by (simp add: HEADER_def)
  ultimately have "unat (nbytes + HEADER - 1) < 8" using unat_u32_less [of nbytes] unfolding e by linarith
  then have "unat ((nbytes + HEADER - 1) div HEADER) = 0" by (simp add: unat_div HEADER_def)
  then have "(nbytes + HEADER - 1) div HEADER = 0" by (intro word_unat_eq_iff [THEN iffD2]) simp
  then show ?thesis by (simp add: nunits_def)
qed

lemma linked_ok: "geometry s hi bl \<Longrightarrow> linked s bl \<Longrightarrow> heap_ok s hi bl"
proof -
  assume g: "geometry s hi bl" and k: "linked s bl"
  have "unat (allocp s) \<noteq> 0"
    using k g geometry_block(2) [OF g] by (fastforce simp: linked_def geometry_def frees_mem)
  then show ?thesis using g k by (auto simp: heap_ok_def)
qed

lemma ok_linked: "heap_ok s hi bl \<Longrightarrow> (d, n) \<in> in_use bl \<Longrightarrow> geometry s hi bl \<and> linked s bl"
  by (auto simp: heap_ok_def in_use_def split: if_splits)

text \<open>The address a client gets, and the room behind it.\<close>

definition user_ptr :: "nat \<Rightarrow> u32" where
  "user_ptr d = of_nat d + HEADER"

definition heap_fits :: "heap \<Rightarrow> u32 \<Rightarrow> bool" where
  "heap_fits s nbytes \<longleftrightarrow> unat (a_base s) + 8 + 8 * room (nunits nbytes) \<le> unat (allocp1 s)"

lemma libc_malloc_ok:
  assumes ok: "heap_ok s hi bl" and f: "heap_fits s nbytes" and n: "0 < unat (nunits nbytes)"
  obtains d s' bl' where "libc_malloc nbytes s = Some (user_ptr d, s')" "heap_ok s' hi bl'" "a_base s' = a_base s"
    "in_use bl' = insert (d, unat (nunits nbytes)) (in_use bl)"
    "\<forall>(a, i) \<in> in_use bl. a + 8 * i \<le> d \<or> d + 8 * unat (nunits nbytes) \<le> a"
    "kept bl (a_mem s) (a_mem s')"
proof -
  have "gives hi (unat (nunits nbytes)) s bl (libc_malloc nbytes s)"
    by (rule libc_malloc_gives [OF ok n]) (use f in \<open>simp add: heap_fits_def\<close>)
  then show ?thesis using that linked_ok unfolding gives_def user_ptr_def by blast
qed

lemma libc_free_ok:
  assumes ok: "heap_ok s hi bl" and u: "(d, n) \<in> in_use bl"
  obtains s' bl' where "libc_free (user_ptr d) s = Some s'" "heap_ok s' hi bl'" "a_base s' = a_base s" "allocp1 s' = allocp1 s"
    "in_use bl' = in_use bl - {(d, n)}" "kept bl (a_mem s) (a_mem s')"
proof -
  have g: "geometry s hi bl" and k: "linked s bl" using ok_linked [OF ok u] by auto
  obtain pre post where bl: "bl = pre @ (d, n, False) # post" using u unfolding in_use_def by (auto dest: split_list)
  obtain s' where s': "libc_free (of_nat d + HEADER) s = Some s'" "geometry s' hi (freed pre d n post)"
    "linked s' (freed pre d n post)" "a_base s' = a_base s" "allocp1 s' = allocp1 s" "kept bl (a_mem s) (a_mem s')"
    by (rule libc_free_linked [OF g k bl])
  have "(d, n, False) \<notin> set pre \<union> set post"
    using g by (auto simp: geometry_def bl tiles_append dest: tiles_mem)
  then have "in_use (freed pre d n post) = in_use bl - {(d, n)}" by (auto simp: freed_used bl) (auto simp: in_use_def)
  then show ?thesis using that s' linked_ok unfolding user_ptr_def by blast
qed

lemma user_ptr_nat:
  assumes "heap_ok s hi bl" "(d, n) \<in> in_use bl"
  shows "unat (user_ptr d) = d + 8" "d + 8 * n < 2 ^ 32" "0 < n" "hdr_at d" "unat (a_base s) + 8 \<le> d"
proof -
  have g: "geometry s hi bl" and m: "(d, n, False) \<in> set bl" using ok_linked [OF assms] assms(2) by (auto simp: in_use_def)
  note b = geometry_block [OF g m]
  show "d + 8 * n < 2 ^ 32" "0 < n" "hdr_at d" "unat (a_base s) + 8 \<le> d" using b g by (auto simp: geometry_def)
  then have "unat (of_nat d + of_nat 8 :: u32) = unat (of_nat d :: u32) + 8"
    by (intro unat_add_of_nat_less) (simp add: unat_hdr)
  then show "unat (user_ptr d) = d + 8" using \<open>hdr_at d\<close> by (simp add: user_ptr_def HEADER_def unat_hdr)
qed

lemma in_use_apart:
  "heap_ok s hi bl \<Longrightarrow> (d, n) \<in> in_use bl \<Longrightarrow> (c, k) \<in> in_use bl \<Longrightarrow> (d, n) = (c, k) \<or> d + 8 * n \<le> c \<or> c + 8 * k \<le> d"
  using tiles_apart [of "unat (allocp1 s)" bl hi d n False c k False] by (auto simp: heap_ok_def geometry_def in_use_def)

section \<open>A client of the allocator\<close>

text \<open>The client keeps a map from the pointers it owns to what it wrote there. Every request must
  leave the break above the base.\<close>

type_synonym owned = "u32 \<Rightarrow> u8 list option"

inductive heap_step :: "heap \<times> owned \<Rightarrow> heap \<times> owned \<Rightarrow> bool" where
  Alloc: "libc_malloc nbytes s = Some (p, s') \<Longrightarrow> heap_fits s nbytes \<Longrightarrow> unat nbytes + 7 < 2 ^ 32 \<Longrightarrow>
    heap_step (s, own) (s', own(p \<mapsto> load_bytes (a_mem s') p (unat nbytes)))"
| Release: "own p = Some bs \<Longrightarrow> libc_free p s = Some s' \<Longrightarrow> heap_step (s, own) (s', own(p := None))"
| Write: "own p = Some bs \<Longrightarrow> i < length bs \<Longrightarrow>
    heap_step (s, own) (s\<lparr>a_mem := (a_mem s)(p + of_nat i := v)\<rparr>, own(p \<mapsto> bs[i := v]))"

inductive_cases heap_stepE: "heap_step (s, own) t"

definition start_heap :: "heap \<Rightarrow> bool" where
  "start_heap s \<longleftrightarrow> allocp s = 0 \<and> unat (allocp1 s) mod 8 = 0 \<and> unat (a_base s) mod 8 = 0 \<and> a_base s \<noteq> 0 \<and>
     unat (a_base s) + 8 \<le> unat (allocp1 s)"

definition block_of :: "block list \<Rightarrow> u32 \<Rightarrow> nat \<Rightarrow> nat \<Rightarrow> bool" where
  "block_of bl p d n \<longleftrightarrow> (d, n) \<in> in_use bl \<and> p = user_ptr d"

definition client_inv :: "nat \<Rightarrow> heap \<times> owned \<Rightarrow> block list \<Rightarrow> bool" where
  "client_inv hi = (\<lambda>(s, own) bl.
     heap_ok s hi bl \<and> dom own = (\<lambda>(d, n). user_ptr d) ` in_use bl \<and>
     (\<forall>d n bs. (d, n) \<in> in_use bl \<longrightarrow> own (user_ptr d) = Some bs \<longrightarrow>
        length bs + 8 \<le> 8 * n \<and> load_bytes (a_mem s) (user_ptr d) (length bs) = bs))"

lemma load_bytes_cong: "(\<And>i. i < n \<Longrightarrow> m' (p + of_nat i) = m (p + of_nat i)) \<Longrightarrow> load_bytes m' p n = load_bytes m p n"
  by (intro nth_equalityI) (simp_all add: load_bytes_nth)

lemma user_area_mem:
  assumes "heap_ok s hi bl" "(d, n) \<in> in_use bl" "i + 8 < 8 * n"
  shows "user_ptr d + of_nat i \<in> user_area d n" "unat (user_ptr d + of_nat i) = d + 8 + i"
proof -
  have "unat (user_ptr d + of_nat i) = unat (user_ptr d) + i"
    by (rule unat_add_of_nat_less) (use user_ptr_nat(1,2) [OF assms(1,2)] assms(3) in simp)
  then show "unat (user_ptr d + of_nat i) = d + 8 + i" using user_ptr_nat(1) [OF assms(1,2)] by simp
  then show "user_ptr d + of_nat i \<in> user_area d n" using assms(3) by (simp add: user_area_def)
qed

lemma kept_load:
  assumes "kept bl (a_mem s) m'" "heap_ok s hi bl" "(d, n) \<in> in_use bl" "l + 8 \<le> 8 * n"
  shows "load_bytes m' (user_ptr d) l = load_bytes (a_mem s) (user_ptr d) l"
proof (rule load_bytes_cong)
  fix i assume "i < l"
  then have "user_ptr d + of_nat i \<in> user_area d n" using assms(4) by (intro user_area_mem(1) [OF assms(2,3)]) simp
  then show "m' (user_ptr d + of_nat i) = a_mem s (user_ptr d + of_nat i)" using assms(1,3) by (auto simp: kept_def)
qed

lemma user_ptr_inj:
  assumes "heap_ok s hi bl" "(d, n) \<in> in_use bl" "(c, k) \<in> in_use bl" "user_ptr d = user_ptr c"
  shows "d = c \<and> n = k"
proof -
  have "d + 8 = c + 8" using user_ptr_nat(1) [OF assms(1,2)] user_ptr_nat(1) [OF assms(1,3)] by (simp only: assms(4))
  then show ?thesis
    using in_use_apart [OF assms(1-3)] user_ptr_nat(3) [OF assms(1,2)] user_ptr_nat(3) [OF assms(1,3)] by auto
qed

lemma alloc_keeps:
  assumes i: "client_inv hi (s, own) bl" and m: "libc_malloc nbytes s = Some (p, s')" and f: "heap_fits s nbytes"
    and nb: "unat nbytes + 7 < 2 ^ 32"
  shows "\<exists>bl'. client_inv hi (s', own(p \<mapsto> load_bytes (a_mem s') p (unat nbytes))) bl'"
proof -
  have ok: "heap_ok s hi bl" using i by (simp add: client_inv_def)
  let ?n = "unat (nunits nbytes)"
  have n: "0 < ?n" "unat nbytes + 8 \<le> 8 * ?n" using nunits_value [OF nb] by simp_all
  obtain d s1 bl' where r: "libc_malloc nbytes s = Some (user_ptr d, s1)" "heap_ok s1 hi bl'"
    "in_use bl' = insert (d, ?n) (in_use bl)" "\<forall>(a, i) \<in> in_use bl. a + 8 * i \<le> d \<or> d + 8 * ?n \<le> a"
    "kept bl (a_mem s) (a_mem s1)"
    by (rule libc_malloc_ok [OF ok f n(1)])
  have e: "p = user_ptr d" "s1 = s'" using m r(1) by simp_all
  have new: "(d, ?n) \<in> in_use bl'" using r(3) by simp
  have "client_inv hi (s', own(p \<mapsto> load_bytes (a_mem s') p (unat nbytes))) bl'"
    unfolding client_inv_def prod.case
  proof (intro conjI allI impI)
    show "heap_ok s' hi bl'" using r(2) e by simp
    show "dom (own(p \<mapsto> load_bytes (a_mem s') p (unat nbytes))) = (\<lambda>(d, n). user_ptr d) ` in_use bl'"
      using i r(3) e by (simp add: client_inv_def)
    fix c k bs assume c: "(c, k) \<in> in_use bl'" "(own(p \<mapsto> load_bytes (a_mem s') p (unat nbytes))) (user_ptr c) = Some bs"
    show "length bs + 8 \<le> 8 * k" "load_bytes (a_mem s') (user_ptr c) (length bs) = bs"
    proof (atomize (full), cases "(c, k) = (d, ?n)")
      case True
      then show "length bs + 8 \<le> 8 * k \<and> load_bytes (a_mem s') (user_ptr c) (length bs) = bs" using c n e by auto
    next
      case False
      then have o: "(c, k) \<in> in_use bl" using c(1) r(3) by auto
      have "user_ptr c \<noteq> p" using user_ptr_inj [OF r(2) c(1) new] False e by auto
      then have "length bs + 8 \<le> 8 * k" "load_bytes (a_mem s) (user_ptr c) (length bs) = bs"
        using i o c(2) by (auto simp: client_inv_def)
      then show "length bs + 8 \<le> 8 * k \<and> load_bytes (a_mem s') (user_ptr c) (length bs) = bs"
        using kept_load [OF r(5) ok o, of "length bs"] e by simp
    qed
  qed
  then show ?thesis ..
qed

lemma release_keeps:
  assumes i: "client_inv hi (s, own) bl" and p: "own p = Some bs"
  shows "\<exists>s' bl'. libc_free p s = Some s' \<and> client_inv hi (s', own(p := None)) bl'"
proof -
  have ok: "heap_ok s hi bl" using i by (simp add: client_inv_def)
  have "p \<in> (\<lambda>(d, n). user_ptr d) ` in_use bl" using i p by (auto simp: client_inv_def)
  then obtain d n where d: "(d, n) \<in> in_use bl" "p = user_ptr d" by auto
  obtain s' bl' where r: "libc_free (user_ptr d) s = Some s'" "heap_ok s' hi bl'" "in_use bl' = in_use bl - {(d, n)}"
    "kept bl (a_mem s) (a_mem s')"
    by (rule libc_free_ok [OF ok d(1)])
  have "dom (own(p := None)) = (\<lambda>(d, n). user_ptr d) ` in_use bl'"
  proof -
    have "user_ptr c \<noteq> p" if "(c, k) \<in> in_use bl'" for c k
      using user_ptr_inj [OF ok _ d(1)] that r(3) d(2) by auto
    moreover have "dom own = insert p ((\<lambda>(d, n). user_ptr d) ` in_use bl')" using i d r(3) by (auto simp: client_inv_def)
    ultimately show ?thesis by auto
  qed
  moreover have "length b + 8 \<le> 8 * k \<and> load_bytes (a_mem s') (user_ptr c) (length b) = b"
    if c: "(c, k) \<in> in_use bl'" "(own(p := None)) (user_ptr c) = Some b" for c k b
  proof -
    have o: "(c, k) \<in> in_use bl" "own (user_ptr c) = Some b" using c r(3) by (auto split: if_splits)
    then have "length b + 8 \<le> 8 * k" "load_bytes (a_mem s) (user_ptr c) (length b) = b"
      using i by (auto simp: client_inv_def)
    then show ?thesis using kept_load [OF r(4) ok o(1), of "length b"] by simp
  qed
  ultimately have "client_inv hi (s', own(p := None)) bl'" using r(2) by (auto simp: client_inv_def)
  then show ?thesis using r(1) d(2) by blast
qed

text \<open>Writing inside a block in use does not touch the headers.\<close>

lemma heap_ok_write:
  assumes ok: "heap_ok s hi bl" and d: "(d, n) \<in> in_use bl" and j: "j + length vs + 8 \<le> 8 * n"
  shows "heap_ok (s\<lparr>a_mem := store_bytes (a_mem s) (user_ptr d + of_nat j) vs\<rparr>) hi bl"
proof (cases "vs = []")
  case False
  let ?p = "user_ptr d + of_nat j"
  let ?s = "s\<lparr>a_mem := store_bytes (a_mem s) ?p vs\<rparr>"
  have g: "geometry s hi bl" and k: "linked s bl" using ok_linked [OF ok d] by auto
  have ju: "unat ?p = d + 8 + j" using user_area_mem(2) [OF ok d, of j] j False by (cases vs) auto
  have tl: "tiles (unat (allocp1 s)) bl hi" using g by (simp add: geometry_def)
  have dm: "(d, n, False) \<in> set bl" using d by (simp add: in_use_def)
  have far: "x + 8 \<le> unat ?p \<or> unat ?p + length vs \<le> x" if "x = unat (a_base s) \<or> (\<exists>m f. (x, m, f) \<in> set bl)" for x
    using that
  proof (elim disjE exE)
    fix m f assume "(x, m, f) \<in> set bl"
    then show ?thesis using tiles_apart [OF tl _ dm] geometry_block(3) [OF g] j unfolding ju by fastforce
  qed (use geometry_block(2) [OF g dm] ju in simp)
  have fld: "nx (a_mem ?s) x = nx (a_mem s) x" "sz (a_mem ?s) x = sz (a_mem s) x"
    if x: "hdr_at x" "x = unat (a_base s) \<or> (\<exists>m f. (x, m, f) \<in> set bl)" for x
  proof -
    have "unat ?p + length vs \<le> 2 ^ 32" using user_ptr_nat(2) [OF ok d] j unfolding ju by linarith
    then show "nx (a_mem ?s) x = nx (a_mem s) x" "sz (a_mem ?s) x = sz (a_mem s) x"
      using store_fields [OF x(1), of ?p vs "a_mem s"] far [OF x(2)] by auto
  qed
  have "links (a_mem ?s) (unat (a_base s)) bl"
  proof -
    have l: "links (a_mem s) (unat (a_base s)) bl" using k by (simp add: linked_def)
    have "map (nx (a_mem ?s)) (unat (a_base s) # frees bl) = map (nx (a_mem s)) (unat (a_base s) # frees bl)"
    proof (rule map_cong)
      fix x assume "x \<in> set (unat (a_base s) # frees bl)"
      then show "nx (a_mem ?s) x = nx (a_mem s) x"
        using geometry_frees(1) [OF g] by (intro fld(1)) (auto simp: frees_mem)
    qed simp
    then have "ring (nx (a_mem ?s)) (unat (a_base s)) (frees bl)" using l by (simp only: links_def ring_def)
    moreover have "sz (a_mem ?s) (unat (a_base s)) = 0"
      using l fld(2) [OF geometry_base [OF g]] by (simp add: links_def)
    moreover have "sz (a_mem ?s) x = m \<and> (\<not> f \<longrightarrow> nx (a_mem ?s) x = x)" if "(x, m, f) \<in> set bl" for x m f
    proof -
      have "hdr_at x" "\<exists>m f. (x, m, f) \<in> set bl" using that geometry_block(1) [OF g that] by auto
      then show ?thesis using fld [of x] l that by (auto simp: links_def)
    qed
    ultimately show ?thesis by (auto simp: links_def)
  qed
  then have "linked ?s bl" using k by (simp add: linked_def)
  moreover have "geometry ?s hi bl" using g by (simp add: geometry_def)
  ultimately show ?thesis by (intro linked_ok)
qed (use ok in simp)

lemma write_keeps:
  assumes i: "client_inv hi (s, own) bl" and p: "own p = Some bs" and j: "j < length bs"
  shows "client_inv hi (s\<lparr>a_mem := (a_mem s)(p + of_nat j := v)\<rparr>, own(p \<mapsto> bs[j := v])) bl"
proof -
  let ?s = "s\<lparr>a_mem := (a_mem s)(p + of_nat j := v)\<rparr>"
  have ok: "heap_ok s hi bl" using i by (simp add: client_inv_def)
  have "p \<in> (\<lambda>(d, n). user_ptr d) ` in_use bl" using i p by (auto simp: client_inv_def)
  then obtain d n where d: "(d, n) \<in> in_use bl" "p = user_ptr d" by auto
  have b: "length bs + 8 \<le> 8 * n" "load_bytes (a_mem s) p (length bs) = bs" using i d p by (auto simp: client_inv_def)
  have ju: "unat (p + of_nat j) = d + 8 + j" using user_area_mem(2) [OF ok d(1), of j] b(1) j d(2) by simp
  have ok': "heap_ok ?s hi bl" using heap_ok_write [OF ok d(1), of j "[v]"] b(1) j d(2) by simp
  have "length b + 8 \<le> 8 * m \<and> load_bytes (a_mem ?s) (user_ptr c) (length b) = b"
    if c: "(c, m) \<in> in_use bl" "(own(p \<mapsto> bs[j := v])) (user_ptr c) = Some b" for c m b
  proof (cases "user_ptr c = p")
    case True
    then have "(c, m) = (d, n)" using user_ptr_inj [OF ok c(1) d(1)] d(2) by simp
    moreover have "load_bytes (a_mem ?s) p (length bs) = bs[j := v]"
    proof (rule nth_equalityI)
      fix l assume "l < length (load_bytes (a_mem ?s) p (length bs))"
      then have l: "l < length bs" by simp
      have lu: "unat (p + of_nat l) = d + 8 + l" using user_area_mem(2) [OF ok d(1), of l] b(1) d(2) l by simp
      have "a_mem s (p + of_nat l) = bs ! l" using arg_cong [OF b(2), of "\<lambda>x. x ! l"] load_bytes_nth [OF l] by simp
      moreover have "p + of_nat l \<noteq> p + of_nat j" if "l \<noteq> j"
      proof
        assume "p + of_nat l = p + of_nat j"
        then have "unat (p + of_nat l) = unat (p + of_nat j)" by (rule arg_cong)
        then show False using ju lu that by linarith
      qed
      ultimately show "load_bytes (a_mem ?s) p (length bs) ! l = bs[j := v] ! l"
        unfolding load_bytes_nth [OF l] using l j by (cases "l = j") (simp_all del: add_left_cancel)
    qed simp
    ultimately show ?thesis using c b True by auto
  next
    case False
    then have o: "own (user_ptr c) = Some b" using c(2) by simp
    then have "length b + 8 \<le> 8 * m" "load_bytes (a_mem s) (user_ptr c) (length b) = b" using i c(1) by (auto simp: client_inv_def)
    moreover have "load_bytes (a_mem ?s) (user_ptr c) (length b) = load_bytes (a_mem s) (user_ptr c) (length b)"
    proof (rule load_bytes_cong)
      fix l assume "l < length b"
      then have "unat (user_ptr c + of_nat l) = c + 8 + l" using user_area_mem(2) [OF ok c(1), of l] calculation(1) by simp
      moreover have "c \<noteq> d" using False d(2) by auto
      then have "c + 8 * m \<le> d \<or> d + 8 * n \<le> c" using in_use_apart [OF ok c(1) d(1)] by auto
      ultimately have "unat (user_ptr c + of_nat l) \<noteq> unat (p + of_nat j)"
        using ju \<open>l < length b\<close> \<open>length b + 8 \<le> 8 * m\<close> b(1) j by linarith
      then have "user_ptr c + of_nat l \<noteq> p + of_nat j" by metis
      then show "a_mem ?s (user_ptr c + of_nat l) = a_mem s (user_ptr c + of_nat l)" by simp
    qed
    ultimately show ?thesis by simp
  qed
  moreover have "dom (own(p \<mapsto> bs[j := v])) = (\<lambda>(d, n). user_ptr d) ` in_use bl"
  proof -
    have "p \<in> dom own" using p by blast
    then have "dom (own(p \<mapsto> bs[j := v])) = dom own" by (simp add: insert_absorb)
    then show ?thesis using i by (simp add: client_inv_def)
  qed
  ultimately show ?thesis using ok' unfolding client_inv_def prod.case by blast
qed

lemma heap_step_inv:
  assumes "client_inv hi st bl" "heap_step st st'"
  shows "\<exists>bl'. client_inv hi st' bl'"
  using assms(2,1)
proof cases
  case (Alloc nbytes s p s' own)
  then show ?thesis using assms(1) alloc_keeps by auto
next
  case (Release own p bs s s')
  then show ?thesis using assms(1) release_keeps [of hi s own bl p bs] by auto
next
  case (Write own p bs i s v)
  then show ?thesis using assms(1) write_keeps [of hi s own bl p bs i v] by auto
qed

lemma start_inv:
  "start_heap s \<Longrightarrow> client_inv (unat (allocp1 s)) (s, \<lambda>_. None) []"
  using unat_u32_less [of "allocp1 s"]
  by (auto simp: client_inv_def heap_ok_def geometry_def start_heap_def word_unat_eq_iff [of "a_base s"])

lemma heap_run_inv:
  assumes "heap_step\<^sup>*\<^sup>* (s0, \<lambda>_. None) st" "start_heap s0"
  shows "\<exists>bl. client_inv (unat (allocp1 s0)) st bl"
  using assms(1)
proof (induction rule: rtranclp_induct)
  case base
  then show ?case using start_inv [OF assms(2)] by blast
next
  case (step y z)
  then show ?case using heap_step_inv by blast
qed

section \<open>The interface\<close>

text \<open>Two memories agree on the areas of \<open>L\<close>, pairs of a pointer and a length.\<close>

definition same_on :: "(u32 \<times> nat) set \<Rightarrow> mem \<Rightarrow> mem \<Rightarrow> bool" where
  "same_on L m m' \<longleftrightarrow> (\<forall>(q, l) \<in> L. \<forall>i < l. m' (q + of_nat i) = m (q + of_nat i))"

lemma same_on_trans: "same_on L m m1 \<Longrightarrow> same_on L' m1 m2 \<Longrightarrow> L \<subseteq> L' \<Longrightarrow> same_on L m m2"
  by (force simp: same_on_def)

lemma same_on_mono: "same_on L m m' \<Longrightarrow> L' \<subseteq> L \<Longrightarrow> same_on L' m m'"
  by (auto simp: same_on_def)

lemma same_on_load: "same_on L m m' \<Longrightarrow> (q, l) \<in> L \<Longrightarrow> n \<le> l \<Longrightarrow> load_bytes m' q n = load_bytes m q n"
  by (intro load_bytes_cong) (force simp: same_on_def)

lemma take_load_bytes: "take j (load_bytes m p n) = load_bytes m p (min j n)"
  by (intro nth_equalityI) (simp_all add: load_bytes_nth)

text \<open>What the users of an allocator rely on: \<open>owns s L\<close> says that \<open>L\<close> are the areas handed out.\<close>

locale allocator =
  fixes alloc :: "u32 \<Rightarrow> 's \<Rightarrow> (u32 \<times> 's) option" and release :: "u32 \<Rightarrow> 's \<Rightarrow> 's option"
    and owns :: "'s \<Rightarrow> (u32 \<times> nat) set \<Rightarrow> bool" and get :: "'s \<Rightarrow> mem" and put :: "mem \<Rightarrow> 's \<Rightarrow> 's"
    and may :: "'s \<Rightarrow> u32 \<Rightarrow> bool"
  assumes get_put: "get (put m s) = m"
    and alloc_law: "owns s L \<Longrightarrow> may s n \<Longrightarrow>
      \<exists>p k s'. alloc n s = Some (p, s') \<and> p \<noteq> 0 \<and> unat n \<le> k \<and> p \<notin> fst ` L \<and> owns s' (insert (p, k) L) \<and> same_on L (get s) (get s')"
    and release_law: "owns s L \<Longrightarrow> (p, k) \<in> L \<Longrightarrow>
      \<exists>s'. release p s = Some s' \<and> owns s' (L - {(p, k)}) \<and> same_on L (get s) (get s')"
    and write_law: "owns s L \<Longrightarrow> (p, k) \<in> L \<Longrightarrow> length bs \<le> k \<Longrightarrow> owns (put (store_bytes (get s) p bs) s) L"
    and apart_law: "owns s L \<Longrightarrow> (p, k) \<in> L \<Longrightarrow> (q, l) \<in> L \<Longrightarrow> (p, k) \<noteq> (q, l) \<Longrightarrow> i < k \<Longrightarrow> j < l \<Longrightarrow>
      p + of_nat i \<noteq> q + of_nat j"
begin

lemma write_same:
  assumes "owns s L" "(p, k) \<in> L" "length bs \<le> k"
  shows "same_on (L - {(p, k)}) (get s) (store_bytes (get s) p bs)"
  unfolding same_on_def
proof (intro ballI, split prod.split, intro allI impI)
  fix x q l i assume x: "x \<in> L - {(p, k)}" "x = (q, l)" and i: "i < l"
  have "(p, k) \<noteq> (q, l)" "(q, l) \<in> L" using x by auto
  then show "store_bytes (get s) p bs (q + of_nat i) = get s (q + of_nat i)"
    using apart_law [OF assms(1) assms(2), of q l] assms(3) i by (intro store_bytes_outside) (metis order_less_le_trans)
qed

text \<open>Moving a block: allocate, copy \<open>c\<close> bytes, release.\<close>

lemma move_law:
  assumes o: "owns s L" and p: "(p, k) \<in> L" and n: "may s n" and c: "c \<le> unat n"
  shows "\<exists>q m s1 s2. alloc n s = Some (q, s1) \<and> q \<noteq> 0 \<and> unat n \<le> m \<and> same_on L (get s) (get s1) \<and>
    release p (put (store_bytes (get s1) q (load_bytes (get s1) p c)) s1) = Some s2 \<and>
    owns s2 (insert (q, m) (L - {(p, k)})) \<and> load_bytes (get s2) q (min c k) = load_bytes (get s) p (min c k) \<and>
    same_on (L - {(p, k)}) (get s) (get s2)"
proof -
  obtain q m s1 where a: "alloc n s = Some (q, s1)" "q \<noteq> 0" "unat n \<le> m" "q \<notin> fst ` L" "owns s1 (insert (q, m) L)"
    "same_on L (get s) (get s1)"
    using alloc_law [OF o n] by blast
  have ne: "(q, m) \<noteq> (p, k)" using a(4) p by force
  let ?bs = "load_bytes (get s1) p c"
  let ?m = "store_bytes (get s1) q ?bs"
  have len: "length ?bs \<le> m" using c a(3) by simp
  have w: "owns (put ?m s1) (insert (q, m) L)" by (rule write_law [OF a(5) _ len]) simp
  have "(p, k) \<in> insert (q, m) L" using p by simp
  from release_law [OF w this] obtain s2 where r: "release p (put ?m s1) = Some s2"
    "owns s2 (insert (q, m) L - {(p, k)})" "same_on (insert (q, m) L) ?m (get s2)"
    by (auto simp: get_put)
  have l: "insert (q, m) L - {(p, k)} = insert (q, m) (L - {(p, k)})" using ne by auto
  have "load_bytes (get s2) q (min c k) = load_bytes ?m q (min c k)"
    using len by (intro same_on_load [OF r(3), of q m]) simp_all
  also have "\<dots> = take k (load_bytes ?m q (length ?bs))" by (simp add: take_load_bytes min.commute)
  also have "\<dots> = take k ?bs"
    using c unat_u32_less [of n] by (subst load_bytes_store_bytes) simp_all
  also have "\<dots> = load_bytes (get s1) p (min c k)" by (simp add: take_load_bytes min.commute)
  also have "\<dots> = load_bytes (get s) p (min c k)" by (rule same_on_load [OF a(6) p]) simp
  finally have content: "load_bytes (get s2) q (min c k) = load_bytes (get s) p (min c k)" .
  have "(q, m) \<in> insert (q, m) L" by simp
  note ws = write_same [OF a(5) this len]
  have "L - {(p, k)} \<subseteq> insert (q, m) L - {(q, m)}" using a(4) by force
  with ws have "same_on (L - {(p, k)}) (get s1) ?m" by (rule same_on_mono)
  from same_on_trans [OF same_on_mono [OF a(6)] this subset_refl]
  have "same_on (L - {(p, k)}) (get s) ?m" by blast
  moreover have "same_on (L - {(p, k)}) ?m (get s2)" by (rule same_on_mono [OF r(3)]) blast
  ultimately have "same_on (L - {(p, k)}) (get s) (get s2)" by (rule same_on_trans) blast
  then show ?thesis using a r(1,2) content l by auto
qed

end

section \<open>The allocator provides it\<close>

definition areas :: "block list \<Rightarrow> (u32 \<times> nat) set" where
  "areas bl = (\<lambda>(d, n). (user_ptr d, 8 * n - 8)) ` in_use bl"

definition heap_owns :: "nat \<Rightarrow> heap \<Rightarrow> (u32 \<times> nat) set \<Rightarrow> bool" where
  "heap_owns hi s L \<longleftrightarrow> (\<exists>bl. heap_ok s hi bl \<and> L = areas bl)"

definition may_alloc :: "heap \<Rightarrow> u32 \<Rightarrow> bool" where
  "may_alloc s n \<longleftrightarrow> heap_fits s n \<and> unat n + 7 < 2 ^ 32"

lemma kept_same_on: "heap_ok s hi bl \<Longrightarrow> kept bl (a_mem s) m \<Longrightarrow> same_on (areas bl) (a_mem s) m"
  unfolding same_on_def areas_def using user_area_mem(1) by (fastforce simp: kept_def)

lemma areas_insert: "in_use bl' = insert (d, n) (in_use bl) \<Longrightarrow> areas bl' = insert (user_ptr d, 8 * n - 8) (areas bl)"
  by (simp add: areas_def)

lemma areas_remove:
  assumes "heap_ok s hi bl" "in_use bl' = in_use bl - {(d, n)}" "(d, n) \<in> in_use bl"
  shows "areas bl' = areas bl - {(user_ptr d, 8 * n - 8)}"
proof -
  have "inj_on (\<lambda>(d, n). (user_ptr d, 8 * n - 8)) (in_use bl)"
    using user_ptr_inj [OF assms(1)] by (auto simp: inj_on_def)
  then show ?thesis using assms(2,3) unfolding areas_def by (subst assms(2)) (simp add: inj_on_image_set_diff)
qed

lemma heap_alloc_law:
  assumes "heap_owns hi s L" "may_alloc s n"
  shows "\<exists>p k s'. libc_malloc n s = Some (p, s') \<and> p \<noteq> 0 \<and> unat n \<le> k \<and> p \<notin> fst ` L \<and> heap_owns hi s' (insert (p, k) L) \<and>
    same_on L (a_mem s) (a_mem s')"
proof -
  obtain bl where ok: "heap_ok s hi bl" "L = areas bl" using assms(1) by (auto simp: heap_owns_def)
  have f: "heap_fits s n" and nb: "unat n + 7 < 2 ^ 32" using assms(2) by (auto simp: may_alloc_def)
  let ?n = "unat (nunits n)"
  have nv: "0 < ?n" "unat n \<le> 8 * ?n - 8" using nunits_value [OF nb] by simp_all
  obtain d s' bl' where r: "libc_malloc n s = Some (user_ptr d, s')" "heap_ok s' hi bl'"
    "in_use bl' = insert (d, ?n) (in_use bl)" "\<forall>(a, i) \<in> in_use bl. a + 8 * i \<le> d \<or> d + 8 * ?n \<le> a"
    "kept bl (a_mem s) (a_mem s')"
    by (rule libc_malloc_ok [OF ok(1) f nv(1)])
  have di: "(d, ?n) \<in> in_use bl'" using r(3) by simp
  have "user_ptr d \<noteq> 0" using user_ptr_nat(1) [OF r(2) di] by auto
  moreover have "user_ptr d \<notin> fst ` L"
  proof
    assume "user_ptr d \<in> fst ` L"
    then obtain c k where c: "(c, k) \<in> in_use bl" "user_ptr d = user_ptr c" by (auto simp: ok(2) areas_def)
    then have "c = d \<and> k = ?n" using user_ptr_inj [OF r(2) di] r(3) by auto
    then show False using r(4) c(1) nv(1) by auto
  qed
  moreover have "heap_owns hi s' (insert (user_ptr d, 8 * ?n - 8) L)"
    using r(2) areas_insert [OF r(3)] ok(2) by (auto simp: heap_owns_def)
  moreover have "same_on L (a_mem s) (a_mem s')" using kept_same_on [OF ok(1) r(5)] ok(2) by simp
  ultimately show ?thesis using r(1) nv(2) by blast
qed

lemma heap_release_law:
  assumes "heap_owns hi s L" "(p, k) \<in> L"
  shows "\<exists>s'. libc_free p s = Some s' \<and> heap_owns hi s' (L - {(p, k)}) \<and> same_on L (a_mem s) (a_mem s')"
proof -
  obtain bl where ok: "heap_ok s hi bl" "L = areas bl" using assms(1) by (auto simp: heap_owns_def)
  obtain d n where d: "(d, n) \<in> in_use bl" "p = user_ptr d" "k = 8 * n - 8" using assms(2) by (auto simp: ok(2) areas_def)
  obtain s' bl' where r: "libc_free (user_ptr d) s = Some s'" "heap_ok s' hi bl'" "in_use bl' = in_use bl - {(d, n)}"
    "kept bl (a_mem s) (a_mem s')"
    by (rule libc_free_ok [OF ok(1) d(1)])
  then show ?thesis
    using areas_remove [OF ok(1) r(3) d(1)] kept_same_on [OF ok(1) r(4)] d(2,3) ok(2) by (auto simp: heap_owns_def)
qed

lemma heap_write_law:
  assumes "heap_owns hi s L" "(p, k) \<in> L" "length bs \<le> k"
  shows "heap_owns hi (s\<lparr>a_mem := store_bytes (a_mem s) p bs\<rparr>) L"
proof -
  obtain bl where ok: "heap_ok s hi bl" "L = areas bl" using assms(1) by (auto simp: heap_owns_def)
  obtain d n where d: "(d, n) \<in> in_use bl" "p = user_ptr d" "k = 8 * n - 8" using assms(2) by (auto simp: ok(2) areas_def)
  have "0 < n" using user_ptr_nat(3) [OF ok(1) d(1)] .
  then have "0 + length bs + 8 \<le> 8 * n" using assms(3) d(3) by simp
  from heap_ok_write [OF ok(1) d(1) this] show ?thesis using ok(2) d(2) by (auto simp: heap_owns_def)
qed

lemma heap_apart_law:
  assumes "heap_owns hi s L" "(p, k) \<in> L" "(q, l) \<in> L" "(p, k) \<noteq> (q, l)" "i < k" "j < l"
  shows "p + of_nat i \<noteq> q + of_nat j"
proof -
  obtain bl where ok: "heap_ok s hi bl" "L = areas bl" using assms(1) by (auto simp: heap_owns_def)
  obtain d n where d: "(d, n) \<in> in_use bl" "p = user_ptr d" "k = 8 * n - 8" using assms(2) by (auto simp: ok(2) areas_def)
  obtain c m where c: "(c, m) \<in> in_use bl" "q = user_ptr c" "l = 8 * m - 8" using assms(3) by (auto simp: ok(2) areas_def)
  have u: "unat (p + of_nat i) = d + 8 + i" "unat (q + of_nat j) = c + 8 + j"
    using user_area_mem(2) [OF ok(1) d(1), of i] user_area_mem(2) [OF ok(1) c(1), of j] assms(5,6) d c by auto
  have "(d, n) \<noteq> (c, m)" using assms(4) d c by auto
  then have "d + 8 * n \<le> c \<or> c + 8 * m \<le> d" using in_use_apart [OF ok(1) d(1) c(1)] by auto
  then have "unat (p + of_nat i) \<noteq> unat (q + of_nat j)" using u assms(5,6) d(3) c(3) by linarith
  then show ?thesis by metis
qed

interpretation pmon_heap: allocator libc_malloc libc_free "heap_owns hi" a_mem "\<lambda>m s. s\<lparr>a_mem := m\<rparr>" may_alloc for hi
  by unfold_locales (simp_all add: heap_alloc_law heap_release_law heap_write_law heap_apart_law)

section \<open>Properties\<close>

text \<open>The client of the step relation, seen through its areas.\<close>

lemma all_free_blocks:
  "coalesced bl \<Longrightarrow> in_use bl = {} \<Longrightarrow> bl = [] \<or> (\<exists>a n. bl = [(a, n, True)])"
proof -
  assume c: "coalesced bl" "in_use bl = {}"
  have f: "is_free x" if "x \<in> set bl" for x
  proof (rule ccontr)
    assume "\<not> is_free x"
    then obtain a b where "x = (a, b, False)" by (cases x) auto
    then show False using c(2) that by (auto simp: in_use_def)
  qed
  show ?thesis
  proof (cases bl)
    case (Cons x xs)
    then have "xs = []" using c(1) f by (cases xs) (auto simp: coalesced_Cons)
    then show ?thesis using Cons f by (cases x) auto
  qed simp
qed

lemma own_block:
  assumes "client_inv hi (s, own) bl" "own p = Some bs"
  obtains d n where "(d, n) \<in> in_use bl" "p = user_ptr d" "length bs + 8 \<le> 8 * n"
    "load_bytes (a_mem s) p (length bs) = bs" "unat p = d + 8"
proof -
  have "p \<in> (\<lambda>(d, n). user_ptr d) ` in_use bl" using assms by (auto simp: client_inv_def)
  then obtain d n where d: "(d, n) \<in> in_use bl" "p = user_ptr d" by auto
  moreover have "heap_ok s hi bl" using assms(1) by (simp add: client_inv_def)
  ultimately show ?thesis using that assms user_ptr_nat(1) by (auto simp: client_inv_def)
qed

lemma client_facts:
  assumes i: "client_inv hi (s, own) bl"
  shows "own p = Some bs \<Longrightarrow> load_bytes (a_mem s) p (length bs) = bs"
    "own p = Some bs \<Longrightarrow> own q = Some cs \<Longrightarrow> p \<noteq> q \<Longrightarrow> unat p + length bs \<le> unat q \<or> unat q + length cs \<le> unat p"
    "own p = Some bs \<Longrightarrow> \<exists>s'. libc_free p s = Some s'"
    "may_alloc s n \<Longrightarrow> \<exists>p s'. libc_malloc n s = Some (p, s') \<and> p \<noteq> 0 \<and> own p = None"
proof -
  have ok: "heap_ok s hi bl" using i by (simp add: client_inv_def)
  show "own p = Some bs \<Longrightarrow> load_bytes (a_mem s) p (length bs) = bs"
    using i by (auto elim: own_block)
  show "own p = Some bs \<Longrightarrow> \<exists>s'. libc_free p s = Some s'"
    using release_keeps [OF i] by blast
  show "unat p + length bs \<le> unat q \<or> unat q + length cs \<le> unat p"
    if o: "own p = Some bs" "own q = Some cs" "p \<noteq> q"
  proof -
    obtain d n where d: "(d, n) \<in> in_use bl" "p = user_ptr d" "length bs + 8 \<le> 8 * n" "unat p = d + 8"
      using own_block [OF i o(1)] by metis
    obtain c k where c: "(c, k) \<in> in_use bl" "q = user_ptr c" "length cs + 8 \<le> 8 * k" "unat q = c + 8"
      using own_block [OF i o(2)] by metis
    have "d + 8 * n \<le> c \<or> c + 8 * k \<le> d" using in_use_apart [OF ok d(1) c(1)] o(3) d(2) c(2) by auto
    then show ?thesis using d c by linarith
  qed
  show "\<exists>p s'. libc_malloc n s = Some (p, s') \<and> p \<noteq> 0 \<and> own p = None" if m: "may_alloc s n"
  proof -
    have "heap_owns hi s (areas bl)" using ok by (auto simp: heap_owns_def)
    from pmon_heap.alloc_law [OF this m] obtain p s' where p: "libc_malloc n s = Some (p, s')" "p \<noteq> 0" "p \<notin> fst ` areas bl"
      by blast
    have "own p = None"
    proof (rule ccontr)
      assume "own p \<noteq> None"
      then obtain bs where "own p = Some bs" by blast
      from own_block [OF i this] obtain d n where "(d, n) \<in> in_use bl" "p = user_ptr d" by metis
      then show False using p(3) by (force simp: areas_def)
    qed
    then show ?thesis using p by blast
  qed
qed

text \<open>C1. The allocator refines a map from pointers to byte arrays of their own: whatever sequence
  of requests, releases and writes inside its blocks a client makes, each block still holds what the client wrote
  there last, the blocks of two pointers do not overlap, every block the client has can be
  released, and every request for which there is room is answered with a pointer that is not in
  use; none of the loops of \<open>malloc\<close> and \<open>free\<close> runs for ever.\<close>

theorem heap_refines:
  assumes "start_heap s0" "heap_step\<^sup>*\<^sup>* (s0, \<lambda>_. None) (s, own)"
  shows "(\<forall>p bs. own p = Some bs \<longrightarrow> load_bytes (a_mem s) p (length bs) = bs \<and> (\<exists>s'. libc_free p s = Some s')) \<and>
    (\<forall>p q bs cs. own p = Some bs \<longrightarrow> own q = Some cs \<longrightarrow> p \<noteq> q \<longrightarrow>
       unat p + length bs \<le> unat q \<or> unat q + length cs \<le> unat p) \<and>
    (\<forall>n. may_alloc s n \<longrightarrow> (\<exists>p s'. libc_malloc n s = Some (p, s') \<and> p \<noteq> 0 \<and> own p = None))"
proof -
  obtain bl where i: "client_inv (unat (allocp1 s0)) (s, own) bl" using heap_run_inv [OF assms(2,1)] by blast
  show ?thesis using client_facts [OF i] by blast
qed

text \<open>C34. No memory is lost and none stays cut into pieces: when the client has released everything,
  the list of free blocks consists of a single block that reaches from the break to the top of
  the heap.\<close>

theorem heap_all_free:
  assumes "start_heap s0" "heap_step\<^sup>*\<^sup>* (s0, \<lambda>_. None) (s, \<lambda>_. None)" "allocp1 s \<noteq> allocp1 s0"
  shows "h_ptr (a_mem s) (a_base s) = allocp1 s \<and> h_ptr (a_mem s) (allocp1 s) = a_base s \<and>
    unat (allocp1 s) + 8 * unat (h_size (a_mem s) (allocp1 s)) = unat (allocp1 s0)"
proof -
  obtain bl where i: "client_inv (unat (allocp1 s0)) (s, \<lambda>_. None) bl" using heap_run_inv [OF assms(2,1)] by blast
  then have ok: "heap_ok s (unat (allocp1 s0)) bl" and u: "in_use bl = {}" by (auto simp: client_inv_def)
  have g: "geometry s (unat (allocp1 s0)) bl" using ok by (simp add: heap_ok_def)
  have "unat (allocp1 s) \<noteq> unat (allocp1 s0)" using assms(3) by (simp add: word_unat_eq_iff)
  then have "bl \<noteq> []" using g by (auto simp: geometry_def)
  then obtain a n where bl: "bl = [(a, n, True)]" using all_free_blocks [of bl] g u by (auto simp: geometry_def)
  have k: "linked s bl" using ok bl by (auto simp: heap_ok_def split: if_splits)
  have a: "a = unat (allocp1 s)" "a + 8 * n = unat (allocp1 s0)" using g bl by (auto simp: geometry_def)
  have l: "nx (a_mem s) (unat (a_base s)) = a" "nx (a_mem s) a = unat (a_base s)" "sz (a_mem s) a = n"
    using k by (auto simp: linked_def links_def ring_def bl)
  then show ?thesis using a by (auto simp: nx_def sz_def word_unat_eq_iff [where 'a = 32])
qed

text \<open>A request within eight bytes of \<open>2\<^sup>3\<^sup>2\<close> wraps around and is answered with a block of a header
  alone: the client gets a pointer, not a refusal, and no byte behind it belongs to the
  block.\<close>

theorem malloc_wraps:
  assumes "heap_ok s hi bl" "2 ^ 32 \<le> unat nbytes + 7" "heap_fits s nbytes"
  shows "\<exists>d s' bl'. libc_malloc nbytes s = Some (user_ptr d, s') \<and> heap_ok s' hi bl' \<and> in_use bl' = insert (d, 1) (in_use bl)"
proof -
  have n: "unat (nunits nbytes) = 1" using nunits_wraps [OF assms(2)] by simp
  obtain d s' bl' where "libc_malloc nbytes s = Some (user_ptr d, s')" "heap_ok s' hi bl'"
    "in_use bl' = insert (d, unat (nunits nbytes)) (in_use bl)"
    by (rule libc_malloc_ok [OF assms(1,3)]) (simp add: n)
  then show ?thesis unfolding n by blast
qed

lemma block_size:
  assumes "heap_ok s hi bl" "(d, n) \<in> in_use bl" 
  shows "unat (allocsize (user_ptr d) s) = 8 * n"
proof -
  have k: "linked s bl" using ok_linked [OF assms] by simp
  then have "sz (a_mem s) d = n" using assms(2) by (auto simp: linked_def links_def in_use_def)
  then have "h_size (a_mem s) (user_ptr d - HEADER) = of_nat n" using h_nat(2) [of "a_mem s" d] by (simp add: user_ptr_def)
  then have "allocsize (user_ptr d) s = of_nat (8 * n)" by (simp add: allocsize_def HEADER_def)
  then show ?thesis using user_ptr_nat(2) [OF assms] by (simp only: unat_u32)
qed

text \<open>\<open>realloc\<close> moves a block: the new block has room for the new size and starts with the contents
  of the old one as far as both reach, the old block is released, and all other blocks are as
  they were.\<close>

theorem realloc_moves:
  assumes "heap_ok s hi bl" "(d, n) \<in> in_use bl" "may_alloc s nbytes"
  defines "l \<equiv> min (unat nbytes) (8 * n - 8)"
  shows "\<exists>q m s'. libc_realloc (user_ptr d) nbytes s = Some (q, s') \<and> q \<noteq> 0 \<and> unat nbytes \<le> m \<and>
    heap_owns hi s' (insert (q, m) (areas bl - {(user_ptr d, 8 * n - 8)})) \<and>
    load_bytes (a_mem s') q l = load_bytes (a_mem s) (user_ptr d) l \<and>
    same_on (areas bl - {(user_ptr d, 8 * n - 8)}) (a_mem s) (a_mem s')"
proof -
  have o: "heap_owns hi s (areas bl)" using assms(1) by (auto simp: heap_owns_def)
  have p: "(user_ptr d, 8 * n - 8) \<in> areas bl" using assms(2) by (force simp: areas_def)
  have nb: "unat nbytes + 7 < 2 ^ 32" "heap_fits s nbytes" using assms(3) by (auto simp: may_alloc_def)
  have n0: "0 < unat (nunits nbytes)" using nunits_value [OF nb(1)] by simp
  obtain e s1 bl' where a: "libc_malloc nbytes s = Some (user_ptr e, s1)" "heap_ok s1 hi bl'"
    "in_use bl' = insert (e, unat (nunits nbytes)) (in_use bl)"
    by (rule libc_malloc_ok [OF assms(1) nb(2) n0])
  have "unat (allocsize (user_ptr d) s1) = 8 * n" using block_size [OF a(2), of d n] a(3) assms(2) by simp
  then have c: "unat (if allocsize (user_ptr d) s1 > nbytes then nbytes else allocsize (user_ptr d) s1) = min (unat nbytes) (8 * n)"
    by (simp add: word_less_nat_alt)
  have "min (unat nbytes) (8 * n) \<le> unat nbytes" by simp
  from pmon_heap.move_law [OF o p assms(3) this] obtain q m s2 s3 where m: "libc_malloc nbytes s = Some (q, s2)" "q \<noteq> 0"
    "unat nbytes \<le> m"
    "libc_free (user_ptr d) (s2\<lparr>a_mem := store_bytes (a_mem s2) q (load_bytes (a_mem s2) (user_ptr d) (min (unat nbytes) (8 * n)))\<rparr>) = Some s3"
    "heap_owns hi s3 (insert (q, m) (areas bl - {(user_ptr d, 8 * n - 8)}))"
    "load_bytes (a_mem s3) q (min (min (unat nbytes) (8 * n)) (8 * n - 8)) =
       load_bytes (a_mem s) (user_ptr d) (min (min (unat nbytes) (8 * n)) (8 * n - 8))"
    "same_on (areas bl - {(user_ptr d, 8 * n - 8)}) (a_mem s) (a_mem s3)"
    by blast
  have e: "q = user_ptr e" "s2 = s1" using m(1) a(1) by simp_all
  have "libc_realloc (user_ptr d) nbytes s = Some (q, s3)"
    using m(1,2,4) c e by (simp add: libc_realloc_def Let_def)
  moreover have "min (min (unat nbytes) (8 * n)) (8 * n - 8) = l" by (simp add: l_def)
  ultimately show ?thesis using m by auto
qed

text \<open>\<open>calloc\<close> gives zeros.\<close>

lemma calloc_zeros:
  assumes "heap_owns hi s L" "may_alloc s (nelem * elsize)" "unat nelem * unat elsize < 2 ^ 32"
  shows "\<exists>p k s'. libc_calloc nelem elsize s = Some (p, s') \<and> unat nelem * unat elsize \<le> k \<and> heap_owns hi s' (insert (p, k) L) \<and>
    load_bytes (a_mem s') p (unat nelem * unat elsize) = replicate (unat nelem * unat elsize) 0"
proof -
  have u: "unat (nelem * elsize) = unat nelem * unat elsize" using assms(3) unat_mult_lem [of nelem elsize] by simp
  obtain p k s' where p: "libc_malloc (nelem * elsize) s = Some (p, s')" "p \<noteq> 0" "unat (nelem * elsize) \<le> k"
    "heap_owns hi s' (insert (p, k) L)"
    using pmon_heap.alloc_law [OF assms(1,2)] by blast
  let ?z = "replicate (unat (nelem * elsize)) 0"
  have "heap_owns hi (s'\<lparr>a_mem := store_bytes (a_mem s') p ?z\<rparr>) (insert (p, k) L)"
    using pmon_heap.write_law [OF p(4), of p k ?z] p(3) by simp
  moreover have "load_bytes (store_bytes (a_mem s') p ?z) p (unat (nelem * elsize)) = ?z"
    using load_bytes_store_bytes [of ?z] unat_u32_less [of "nelem * elsize"] by simp
  ultimately show ?thesis using p unfolding u [symmetric] by (auto simp: libc_calloc_def)
qed

section \<open>A heap to start with\<close>

definition demo_heap :: heap where
  "demo_heap = \<lparr>a_mem = (\<lambda>_. 0), a_base = 0x80010000, allocp = 0, allocp1 = 0x8F800000\<rparr>"

lemma demo_start: "start_heap demo_heap"
  by (simp add: start_heap_def demo_heap_def)

lemma demo_may: "may_alloc demo_heap 10"
  by (simp add: may_alloc_def heap_fits_def demo_heap_def room_def nunits_def HEADER_def)

lemma libc_free_break: "libc_free p s = Some s' \<Longrightarrow> allocp1 s' = allocp1 s"
  by (auto simp: libc_free_def Let_def free_link_def split: if_splits option.splits)

theorem heap_refines_witness:
  "\<exists>p s1 s2. libc_malloc 10 demo_heap = Some (p, s1) \<and> libc_free p s1 = Some s2"
proof -
  from heap_refines [OF demo_start rtranclp.rtrancl_refl] demo_may
  obtain p s1 where p: "libc_malloc 10 demo_heap = Some (p, s1)" by blast
  then have "heap_step (demo_heap, \<lambda>_. None) (s1, [p \<mapsto> load_bytes (a_mem s1) p (unat (10 :: u32))])"
    by (rule Alloc) (use demo_may in \<open>simp_all add: may_alloc_def\<close>)
  then have "heap_step\<^sup>*\<^sup>* (demo_heap, \<lambda>_. None) (s1, [p \<mapsto> load_bytes (a_mem s1) p (unat (10 :: u32))])" by (rule r_into_rtranclp)
  from heap_refines [OF demo_start this] show ?thesis using p by (metis fun_upd_same)
qed

theorem heap_all_free_witness:
  "\<exists>p s1 s2. libc_malloc 10 demo_heap = Some (p, s1) \<and> libc_free p s1 = Some s2 \<and>
    h_ptr (a_mem s2) 0x80010000 = allocp1 s2"
proof -
  have "heap_owns (unat (allocp1 demo_heap)) demo_heap {}"
    using start_inv [OF demo_start] by (force simp: heap_owns_def areas_def client_inv_def)
  from heap_alloc_law [OF this demo_may]
  obtain p s1 where p: "libc_malloc 10 demo_heap = Some (p, s1)" by blast
  let ?bs = "load_bytes (a_mem s1) p (unat (10 :: u32))"
  have s1: "heap_step (demo_heap, \<lambda>_. None) (s1, [p \<mapsto> ?bs])"
    using p by (rule Alloc) (use demo_may in \<open>simp_all add: may_alloc_def\<close>)
  then obtain bl where bl: "client_inv (unat (allocp1 demo_heap)) (s1, [p \<mapsto> ?bs]) bl"
    using heap_step_inv [OF start_inv [OF demo_start]] by blast
  then obtain d n where d: "(d, n) \<in> in_use bl" by (rule own_block [of _ _ _ _ p ?bs]) auto
  have "allocp1 s1 \<noteq> allocp1 demo_heap"
  proof
    assume "allocp1 s1 = allocp1 demo_heap"
    then have "tiles (unat (allocp1 demo_heap)) bl (unat (allocp1 demo_heap))"
      using bl by (auto simp: client_inv_def heap_ok_def geometry_def)
    from tiles_mem [OF this, of d n False] d show False by (auto simp: in_use_def)
  qed
  moreover obtain s2 where f: "libc_free p s1 = Some s2" using client_facts(3) [OF bl, of p ?bs] by auto
  ultimately have ne: "allocp1 s2 \<noteq> allocp1 demo_heap" using libc_free_break [OF f] by simp
  have "heap_step (s1, [p \<mapsto> ?bs]) (s2, [p \<mapsto> ?bs](p := None))" by (rule Release [OF _ f]) simp
  then have "heap_step\<^sup>*\<^sup>* (demo_heap, \<lambda>_. None) (s2, \<lambda>_. None)" using s1 by (auto intro: converse_rtranclp_into_rtranclp)
  note final = heap_all_free [OF demo_start this ne]
  have "a_base s2 = a_base demo_heap"
  proof -
    have "a_base s2 = a_base s1" using f by (auto simp: libc_free_def Let_def free_link_def split: if_splits option.splits)
    moreover obtain e t bl' where "libc_malloc 10 demo_heap = Some (user_ptr e, t)" "a_base t = a_base demo_heap"
      by (rule libc_malloc_ok [of demo_heap "unat (allocp1 demo_heap)" "[]" 10])
        (use start_inv [OF demo_start] demo_may in \<open>simp_all add: client_inv_def may_alloc_def nunits_def HEADER_def\<close>)
    ultimately show ?thesis using p by simp
  qed
  then have "a_base s2 = 0x80010000" by (simp add: demo_heap_def)
  then show ?thesis using p f final by auto
qed

theorem malloc_wraps_witness: "\<exists>p s'. libc_malloc 0xFFFFFFFC demo_heap = Some (p, s')"
proof -
  have "heap_ok demo_heap (unat (allocp1 demo_heap)) []" using start_inv [OF demo_start] by (simp add: client_inv_def)
  moreover have "heap_fits demo_heap 0xFFFFFFFC" by (simp add: heap_fits_def demo_heap_def room_def nunits_def HEADER_def)
  ultimately show ?thesis using malloc_wraps [of demo_heap _ "[]" "0xFFFFFFFC"] by fastforce
qed

text \<open>The same heap with one block in use.\<close>

definition demo_used :: heap where
  "demo_used = \<lparr>a_mem = set_ptr 0x8F7FFFE0 0x8F7FFFE0 (set_size 0x8F7FFFE0 4 (set_ptr 0x80010000 0x80010000
     (set_size 0x80010000 0 (\<lambda>_. 0)))), a_base = 0x80010000, allocp = 0x80010000, allocp1 = 0x8F7FFFE0\<rparr>"

lemma demo_used_ok: "heap_ok demo_used 0x8F800000 [(0x8F7FFFE0, 4, False)]"
proof -
  let ?a = "0x8F7FFFE0 :: nat" and ?b = "0x80010000 :: nat"
  have h: "hdr_at ?a" "hdr_at ?b" by (simp_all add: hdr_at_def)
  have m: "a_mem demo_used = set_ptr (of_nat ?a) (of_nat ?a) (set_size (of_nat ?a) 4 (set_ptr (of_nat ?b) (of_nat ?b)
     (set_size (of_nat ?b) 0 (\<lambda>_. 0))))"
    by (simp add: demo_used_def)
  have "sz (a_mem demo_used) ?a = 4" "nx (a_mem demo_used) ?a = ?a" "sz (a_mem demo_used) ?b = 0" "nx (a_mem demo_used) ?b = ?b"
    unfolding m by (simp_all only: set_ptr_fields set_size_fields h unat_hdr) simp_all
  then show ?thesis
    by (simp add: heap_ok_def geometry_def linked_def links_def ring_def demo_used_def)
qed

theorem realloc_moves_witness:
  "\<exists>q s'. libc_realloc 0x8F7FFFE8 40 demo_used = Some (q, s') \<and> q \<noteq> 0 \<and>
    load_bytes (a_mem s') q 24 = load_bytes (a_mem demo_used) 0x8F7FFFE8 24"
proof -
  have u: "user_ptr 0x8F7FFFE0 = 0x8F7FFFE8" by (simp add: user_ptr_def HEADER_def)
  have i: "(0x8F7FFFE0, 4) \<in> in_use [(0x8F7FFFE0, 4, False)]" by simp
  have "may_alloc demo_used 40"
    by (simp add: may_alloc_def heap_fits_def demo_used_def room_def nunits_def HEADER_def)
  from realloc_moves [OF demo_used_ok i this, unfolded u] show ?thesis by auto
qed

end
