(* ===== verification/Devfs.thy ===== *)
theory Devfs
  imports Rsa
begin

text \<open>
  The raw device layer, \<^verbatim>\<open>pmon/fs/devfs.c\<close>: reads and writes of any offset and length are cut into
  block transfers of a device driver, with a bounce buffer for the blocks that are not
  transferred whole. One driver is modelled too, the loop device of \<^verbatim>\<open>pmon/dev/loopdev.c\<close> on a
  memory file of \<^verbatim>\<open>pmon/fs/ramfile.c\<close>. The lemmas show that the layer is a byte array for its clients.
\<close>

section \<open>Raw devices\<close>

definition DEV_BSIZE :: nat where "DEV_BSIZE = 512"
definition MAXPHYS :: nat where "MAXPHYS = 32 * 1024"

text \<open>A signed 64-bit value; offsets are kept as such.\<close>

definition s64 :: "int \<Rightarrow> int" where
  "s64 x = sint (word_of_int x :: 64 word)"

record biodev =
  bd_offs :: int
  bd_base :: int
  bd_end :: int

text \<open>The part of \<open>devio_open\<close> that reads \<open>start\<close> and \<open>start,size\<close> behind the device name; \<open>None\<close> when
  an expression has no value (it is too short to overrun the buffer of the evaluator), and when no separator is found in the buffer of 64 characters, behind
  which the code writes then.\<close>

definition devio_range :: "'n rsa_ctx \<Rightarrow> cstr \<Rightarrow> biodev option" where
  "devio_range c name =
     (if name = [] then Some \<lparr>bd_offs = 0, bd_base = 0, bd_end = 2 ^ 63 - 1\<rparr>
      else if hd name \<noteq> CHR ''@'' then None
      else
        (let str = take 64 (tl name)
         in case strpbrk str ''/,:'' of
              None \<Rightarrow> None
            | Some k \<Rightarrow>
                (let e = (if str ! k = CHR ''/'' then Some (2 ^ 63 - 1)
                          else if length str = 64 \<and> CHR ''/'' \<notin> set (drop (Suc k) str) then None
                          else map_option (\<lambda>v. s64 (int (unat v) * int DEV_BSIZE))
                                 (Option.bind (get_rsa c (takeWhile (\<lambda>x. x \<noteq> CHR ''/'') (drop (Suc k) str))) id))
                 in case (e, get_rsa c (take k str)) of
                      (Some e, Some (Some v)) \<Rightarrow>
                        (let b = s64 (int (unat v) * int DEV_BSIZE)
                         in Some \<lparr>bd_offs = b, bd_base = b, bd_end = s64 (e + b)\<rparr>)
                    | _ \<Rightarrow> None)))"

definition devio_lseek :: "int \<Rightarrow> int \<Rightarrow> biodev \<Rightarrow> int \<times> biodev" where
  "devio_lseek offs whence d =
     (let o1 = s64 ((if whence = 0 then bd_base d else bd_offs d) + offs);
          o2 = (if o1 > bd_end d then bd_end d else o1)
      in (s64 (o2 - bd_base d), d\<lparr>bd_offs := o2\<rparr>))"

text \<open>The next transfer when \<open>left\<close> bytes are to go: the bytes of the block that are skipped, the number
  of bytes, and whether it goes through the buffer.\<close>

definition devio_step :: "int \<Rightarrow> nat \<Rightarrow> nat \<times> nat \<times> bool" where
  "devio_step offs left =
     (let sub = nat (offs mod int DEV_BSIZE)
      in if sub \<noteq> 0 \<or> left < DEV_BSIZE then (sub, min (DEV_BSIZE - sub) left, True)
         else if left mod DEV_BSIZE \<noteq> 0 then (0, min (left - left mod DEV_BSIZE) MAXPHYS, False)
         else (0, min left MAXPHYS, False))"

lemma devio_step_less: "0 < left \<Longrightarrow> devio_step offs left = (sub, n, b) \<Longrightarrow> 0 < n \<and> n \<le> left"
  by (auto simp: devio_step_def Let_def DEV_BSIZE_def MAXPHYS_def min_def split: if_splits)
    (simp_all add: nat_less_iff)

lemma devio_step_len: "buf \<noteq> [] \<Longrightarrow> devio_step offs (length buf) = (sub, n, b) \<Longrightarrow> 0 < n \<and> n \<le> length buf"
  by (rule devio_step_less) simp_all

text \<open>The device is a parameter: \<open>rd\<close> and \<open>wr\<close> transfer whole blocks at an offset, \<open>None\<close> is an error of the
  driver. The result is the return value, the bytes read and the new offset.\<close>

function devio_read_loop :: "(int \<Rightarrow> nat \<Rightarrow> u8 list option) \<Rightarrow> nat \<Rightarrow> int \<Rightarrow> u8 list \<Rightarrow> u8 list option \<times> int" where
  "devio_read_loop rd left offs buf =
     (if left = 0 then (Some buf, offs)
      else case devio_step offs left of (sub, n, bounce) \<Rightarrow>
        if bounce then
          (case rd (offs - int sub) DEV_BSIZE of
             None \<Rightarrow> (None, offs - int sub)
           | Some blk \<Rightarrow> devio_read_loop rd (left - n) (offs + int n) (buf @ take n (drop sub blk)))
        else
          (case rd offs n of
             None \<Rightarrow> (None, offs)
           | Some bs \<Rightarrow> devio_read_loop rd (left - n) (offs + int n) (buf @ bs)))"
  by pat_completeness auto
termination devio_read_loop
  by (relation "measure (\<lambda>(rd, left, offs, buf). left)") (auto dest: devio_step_less [OF _ sym])

declare devio_read_loop.simps [simp del]

definition devio_read :: "(int \<Rightarrow> nat \<Rightarrow> u8 list option) \<Rightarrow> u32 \<Rightarrow> biodev \<Rightarrow> int \<times> u8 list \<times> biodev" where
  "devio_read rd blen d =
     (if bd_offs d < bd_base d \<or> bd_offs d > bd_end d then (- 1, [], d)
      else
        (let n = (if int (unat blen) > bd_end d - bd_offs d then nat (bd_end d - bd_offs d) else unat blen)
         in case devio_read_loop rd n (bd_offs d) [] of
              (None, offs) \<Rightarrow> (- 1, [], d\<lparr>bd_offs := offs\<rparr>)
            | (Some bs, offs) \<Rightarrow> (sint (of_nat n :: u32), bs, d\<lparr>bd_offs := offs\<rparr>)))"

text \<open>\<open>devio_write\<close> does not look at the end of the range.\<close>

function devio_write_loop ::
  "('d \<Rightarrow> int \<Rightarrow> nat \<Rightarrow> u8 list option) \<Rightarrow> ('d \<Rightarrow> int \<Rightarrow> u8 list \<Rightarrow> 'd option) \<Rightarrow> u8 list \<Rightarrow> int \<Rightarrow> 'd \<Rightarrow> bool \<times> int \<times> 'd"
where
  "devio_write_loop rd wr buf offs dev =
     (if buf = [] then (True, offs, dev)
      else case devio_step offs (length buf) of (sub, n, bounce) \<Rightarrow>
        if bounce then
          (case (if sub \<noteq> 0 \<or> n < DEV_BSIZE then rd dev (offs - int sub) DEV_BSIZE else Some (replicate DEV_BSIZE 0)) of
             None \<Rightarrow> (False, offs - int sub, dev)
           | Some blk \<Rightarrow>
               (case wr dev (offs - int sub) (take sub blk @ take n buf @ drop (sub + n) blk) of
                  None \<Rightarrow> (False, offs - int sub, dev)
                | Some dev' \<Rightarrow> devio_write_loop rd wr (drop n buf) (offs + int n) dev'))
        else
          (case wr dev offs (take n buf) of
             None \<Rightarrow> (False, offs, dev)
           | Some dev' \<Rightarrow> devio_write_loop rd wr (drop n buf) (offs + int n) dev'))"
  by pat_completeness auto
termination devio_write_loop
  by (relation "measure (\<lambda>(rd, wr, buf, offs, dev). length buf)") (auto dest: devio_step_len [OF _ sym])

declare devio_write_loop.simps [simp del]

definition devio_write ::
  "('d \<Rightarrow> int \<Rightarrow> nat \<Rightarrow> u8 list option) \<Rightarrow> ('d \<Rightarrow> int \<Rightarrow> u8 list \<Rightarrow> 'd option) \<Rightarrow> u8 list \<Rightarrow> biodev \<Rightarrow> 'd \<Rightarrow> int \<times> biodev \<times> 'd"
where
  "devio_write rd wr buf d dev =
     (case devio_write_loop rd wr buf (bd_offs d) dev of
        (ok, offs, dev') \<Rightarrow> (if ok then sint (of_nat (length buf) :: u32) else - 1, d\<lparr>bd_offs := offs\<rparr>, dev'))"

section \<open>Memory files\<close>

text \<open>The position is an argument and a result. The length is cut to the end of the file; behind the end
  it wraps, and the copy overruns the caller's buffer (\<open>None\<close>).\<close>

record ramfile =
  rf_base :: u32
  rf_size :: u32

definition ramfile_lseek :: "ramfile \<Rightarrow> int \<Rightarrow> int \<Rightarrow> int \<Rightarrow> int option" where
  "ramfile_lseek f posn offset whence =
     (if whence = 0 then Some offset
      else if whence = 1 then Some (s64 (posn + offset))
      else if whence = 2 then Some (s64 (int (unat (rf_size f)) + offset))
      else None)"

definition ramfile_clip :: "ramfile \<Rightarrow> int \<Rightarrow> u32 \<Rightarrow> u32" where
  "ramfile_clip f posn n =
     (if s64 (posn + int (unat n)) > int (unat (rf_size f)) then word_of_int (int (unat (rf_size f)) - posn) else n)"

definition ramfile_read :: "mem \<Rightarrow> ramfile \<Rightarrow> int \<Rightarrow> u32 \<Rightarrow> (u32 \<times> u8 list \<times> int) option" where
  "ramfile_read m f posn n =
     (let k = ramfile_clip f posn n
      in if k > n then None
         else Some (k, load_bytes m (rf_base f + word_of_int posn) (unat k), posn + int (unat k)))"

definition ramfile_write :: "ramfile \<Rightarrow> int \<Rightarrow> u8 list \<Rightarrow> mem \<Rightarrow> (u32 \<times> mem \<times> int) option" where
  "ramfile_write f posn buf m =
     (let n = of_nat (length buf); k = ramfile_clip f posn n
      in if k > n then None
         else Some (k, store_bytes m (rf_base f + word_of_int posn) (take (unat k) buf), posn + int (unat k)))"

section \<open>The loop device on a memory file\<close>

record loopdev =
  ld_bs :: int
  ld_file :: ramfile
  ld_mem :: mem

text \<open>The block number and the tests of the strategy routine; a block size below 512 divides by zero,
  which is an error here.\<close>

definition loop_block :: "loopdev \<Rightarrow> int \<Rightarrow> nat \<Rightarrow> u32 option" where
  "loop_block d offs n =
     (let blkno = offs div int DEV_BSIZE; bs = ld_bs d
      in if bs sdiv int DEV_BSIZE = 0 then None
         else if blkno < 0 \<or> int n smod bs \<noteq> 0 \<or> int n sdiv bs \<ge> 256 then None
         else Some (word_of_int blkno div word_of_int (bs sdiv int DEV_BSIZE)))"

definition loopdev_read :: "loopdev \<Rightarrow> int \<Rightarrow> nat \<Rightarrow> u8 list option" where
  "loopdev_read d offs n =
     (case loop_block d offs n of
        None \<Rightarrow> None
      | Some blkno \<Rightarrow>
          if n = 0 then Some []
          else case ramfile_lseek (ld_file d) 0 (int (unat (blkno * word_of_int (ld_bs d)))) 0 of
            None \<Rightarrow> None
          | Some posn \<Rightarrow>
              (case ramfile_read (ld_mem d) (ld_file d) posn (of_nat n) of
                 None \<Rightarrow> None
               | Some (k, bs, _) \<Rightarrow> if k = of_nat n then Some bs else None))"

definition loopdev_write :: "loopdev \<Rightarrow> int \<Rightarrow> u8 list \<Rightarrow> loopdev option" where
  "loopdev_write d offs buf =
     (case loop_block d offs (length buf) of
        None \<Rightarrow> None
      | Some blkno \<Rightarrow>
          if buf = [] then Some d
          else case ramfile_lseek (ld_file d) 0 (int (unat (blkno * word_of_int (ld_bs d)))) 0 of
            None \<Rightarrow> None
          | Some posn \<Rightarrow>
              (case ramfile_write (ld_file d) posn buf (ld_mem d) of
                 None \<Rightarrow> None
               | Some (k, m, _) \<Rightarrow> if k = of_nat (length buf) then Some (d\<lparr>ld_mem := m\<rparr>) else None))"

section \<open>Block devices\<close>

text \<open>\<open>overlay p bs l\<close> is \<open>l\<close> with \<open>bs\<close> written at \<open>p\<close>.\<close>

definition overlay :: "nat \<Rightarrow> 'a list \<Rightarrow> 'a list \<Rightarrow> 'a list" where
  "overlay p bs l = take p l @ bs @ drop (p + length bs) l"

lemma length_overlay [simp]: "p + length bs \<le> length l \<Longrightarrow> length (overlay p bs l) = length l"
  by (simp add: overlay_def)

lemma overlay_Nil [simp]: "overlay p [] l = l"
  by (simp add: overlay_def)

lemma nth_overlay:
  "p + length bs \<le> length l \<Longrightarrow> i < length l \<Longrightarrow>
   overlay p bs l ! i = (if p \<le> i \<and> i < p + length bs then bs ! (i - p) else l ! i)"
  by (auto simp: overlay_def nth_append)

lemma overlay_read: "p + length bs \<le> length l \<Longrightarrow> take (length bs) (drop p (overlay p bs l)) = bs"
  by (simp add: overlay_def)

lemma overlay_step:
  assumes "p + length buf \<le> length l" "n \<le> length buf"
  shows "overlay (p + n) (drop n buf) (overlay p (take n buf) l) = overlay p buf l"
  using assms by (intro nth_equalityI) (auto simp: nth_overlay min_def)

lemma overlay_block:
  assumes "q + b \<le> length l" "k + length bs \<le> b"
  shows "overlay q (take k (take b (drop q l)) @ bs @ drop (k + length bs) (take b (drop q l))) l = overlay (q + k) bs l"
proof (rule nth_equalityI, goal_cases)
  case (2 i)
  have len: "length (take k (take b (drop q l)) @ bs @ drop (k + length bs) (take b (drop q l))) = b" using assms by simp
  with 2 assms have "i < length l" by simp
  with assms len show ?case by (simp add: nth_overlay nth_append) auto
qed (use assms in simp)

lemma devio_step_facts:
  assumes "devio_step (int p) left = (sub, n, bounce)"
  shows "sub = p mod DEV_BSIZE" "bounce \<Longrightarrow> sub + n \<le> DEV_BSIZE" 
    "\<not> bounce \<Longrightarrow> sub = 0 \<and> n mod DEV_BSIZE = 0 \<and> n \<le> MAXPHYS"
proof -
  have sub: "nat (int p mod int DEV_BSIZE) = p mod DEV_BSIZE" by (simp flip: zmod_int)
  have "p mod DEV_BSIZE < DEV_BSIZE" by (simp add: DEV_BSIZE_def)
  with assms sub show "sub = p mod DEV_BSIZE" "bounce \<Longrightarrow> sub + n \<le> DEV_BSIZE"
    by (auto simp: devio_step_def Let_def min_def split: if_splits)
  have "(left - left mod DEV_BSIZE) mod DEV_BSIZE = 0" by (simp add: minus_mod_eq_mult_div)
  moreover have "MAXPHYS mod DEV_BSIZE = 0" by (simp add: MAXPHYS_def DEV_BSIZE_def)
  ultimately show "\<not> bounce \<Longrightarrow> sub = 0 \<and> n mod DEV_BSIZE = 0 \<and> n \<le> MAXPHYS"
    using assms by (auto simp: devio_step_def Let_def min_def split: if_splits)
qed

lemma block_fits:
  assumes "L mod DEV_BSIZE = 0" "p < L"
  shows "p - p mod DEV_BSIZE + DEV_BSIZE \<le> L"
proof -
  have "p div DEV_BSIZE < L div DEV_BSIZE" using assms by (metis div_less_iff_less_mult div_mult_mod_eq add_0_right DEV_BSIZE_def zero_less_numeral)
  then have "Suc (p div DEV_BSIZE) * DEV_BSIZE \<le> L div DEV_BSIZE * DEV_BSIZE" by (intro mult_right_mono) simp_all
  moreover have "L div DEV_BSIZE * DEV_BSIZE = L" using assms(1) by (metis add_0_right div_mult_mod_eq)
  ultimately show ?thesis by (simp add: minus_mod_eq_div_mult)
qed

text \<open>What the raw device layer needs of a driver that is read: an array of whole blocks.\<close>

locale disk =
  fixes rd :: "int \<Rightarrow> nat \<Rightarrow> u8 list option"
    and img :: "u8 list"
  assumes blocks: "length img mod DEV_BSIZE = 0"
    and rd_law: "\<lbrakk>p mod DEV_BSIZE = 0; n mod DEV_BSIZE = 0; 0 < n; n \<le> MAXPHYS; p + n \<le> length img\<rbrakk>
      \<Longrightarrow> rd (int p) n = Some (take n (drop p img))"
begin

lemma rd_block:
  assumes "p < length img"
  shows "rd (int p - int (p mod DEV_BSIZE)) DEV_BSIZE = Some (take DEV_BSIZE (drop (p - p mod DEV_BSIZE) img))"
proof -
  have "rd (int (p - p mod DEV_BSIZE)) DEV_BSIZE = Some (take DEV_BSIZE (drop (p - p mod DEV_BSIZE) img))"
    using assms block_fits [OF blocks assms]
    by (intro rd_law) (simp_all add: minus_mod_eq_mult_div, simp_all add: DEV_BSIZE_def MAXPHYS_def)
  then show ?thesis by (simp add: of_nat_diff)
qed

lemma read_all:
  assumes "p + left \<le> length img"
  shows "devio_read_loop rd left (int p) buf = (Some (buf @ take left (drop p img)), int (p + left))"
  using assms
proof (induction left arbitrary: p buf rule: less_induct)
  case (less left)
  show ?case
  proof (cases "left = 0")
    case True
    then show ?thesis by (simp add: devio_read_loop.simps)
  next
    case False
    obtain sub n bounce where st: "devio_step (int p) left = (sub, n, bounce)" by (metis prod_cases3)
    from False st have n: "0 < n" "n \<le> left" using devio_step_less by blast+
    from n less.prems have IH: "devio_read_loop rd (left - n) (int p + int n) (buf @ take n (drop p img))
        = (Some (buf @ take left (drop p img)), int (p + left))"
      using less.IH [of "left - n" "p + n" "buf @ take n (drop p img)"]
      using take_add [of n "left - n" "drop p img"] by (simp add: add.commute)
    note sf = devio_step_facts [OF st]
    show ?thesis
    proof (cases bounce)
      case True
      have "take n (drop sub (take DEV_BSIZE (drop (p - sub) img))) = take n (drop p img)"
        using sf(1) sf(2) [OF True] by (simp add: drop_take min_def)
      with True False st sf(1) n less.prems rd_block [of p] IH show ?thesis
        by (subst devio_read_loop.simps) simp
    next
      case nb: False
      have "rd (int p) n = Some (take n (drop p img))"
        using n less.prems sf(1) sf(3) [OF nb] by (intro rd_law) simp_all
      with nb False st IH show ?thesis by (subst devio_read_loop.simps) simp
    qed
  qed
qed

end

text \<open>A driver that is written too has states; in those that are in order a write changes the bytes it is
  given for and no other.\<close>

locale block_device =
  fixes rd :: "'d \<Rightarrow> int \<Rightarrow> nat \<Rightarrow> u8 list option"
    and wr :: "'d \<Rightarrow> int \<Rightarrow> u8 list \<Rightarrow> 'd option"
    and img :: "'d \<Rightarrow> u8 list"
    and ok :: "'d \<Rightarrow> bool"
  assumes rd_disk: "ok d \<Longrightarrow> disk (rd d) (img d)"
    and wr_law: "\<lbrakk>ok d; p mod DEV_BSIZE = 0; length bs mod DEV_BSIZE = 0; bs \<noteq> []; length bs \<le> MAXPHYS;
        p + length bs \<le> length (img d)\<rbrakk>
      \<Longrightarrow> \<exists>d'. wr d (int p) bs = Some d' \<and> ok d' \<and> img d' = overlay p bs (img d)"
begin

lemmas img_blocks = disk.blocks [OF rd_disk]
lemmas read_all = disk.read_all [OF rd_disk]
lemmas rd_block = disk.rd_block [OF rd_disk]

lemma write_all:
  assumes "ok d" "p + length buf \<le> length (img d)"
  shows "\<exists>d'. devio_write_loop rd wr buf (int p) d = (True, int (p + length buf), d') \<and> ok d' \<and> img d' = overlay p buf (img d)"
  using assms
proof (induction "length buf" arbitrary: p buf d rule: less_induct)
  case less
  show ?case
  proof (cases "buf = []")
    case True
    with less.prems show ?thesis by (simp add: devio_write_loop.simps)
  next
    case False
    obtain sub n bounce where st: "devio_step (int p) (length buf) = (sub, n, bounce)" by (metis prod_cases3)
    note sf = devio_step_facts [OF st]
    from False st have n: "0 < n" "n \<le> length buf" using devio_step_len by blast+
    have nxt: "\<exists>d''. devio_write_loop rd wr (drop n buf) (int p + int n) d' = (True, int (p + length buf), d'') \<and> ok d'' \<and>
        img d'' = overlay p buf (img d)"
      if "ok d'" "img d' = overlay p (take n buf) (img d)" for d'
      using that n less.prems less.hyps [of "drop n buf" d' "p + n"] by (simp add: overlay_step min_def)
    show ?thesis
    proof (cases bounce)
      case True
      let ?q = "p - sub" and ?blk = "take DEV_BSIZE (drop (p - sub) (img d))"
      have q: "?q + sub = p" "?q + DEV_BSIZE \<le> length (img d)" "int p - int sub = int ?q"
        using sf(1) block_fits [OF img_blocks [OF less.prems(1)], of p] n less.prems by (simp_all add: of_nat_diff)
      have len: "length (take n buf) = n" using n by simp
      have nb: "sub + n \<le> DEV_BSIZE" by (rule sf(2) [OF True])
      have blen: "length (take sub ?blk @ take n buf @ drop (sub + n) ?blk) = DEV_BSIZE" using q nb n by simp
      have "\<exists>d'. wr d (int ?q) (take sub ?blk @ take n buf @ drop (sub + n) ?blk) = Some d' \<and> ok d' \<and>
          img d' = overlay ?q (take sub ?blk @ take n buf @ drop (sub + n) ?blk) (img d)"
      proof (rule wr_law [OF less.prems(1)])
        show "?q mod DEV_BSIZE = 0" using sf(1) by (simp add: minus_mod_eq_mult_div)
        show "length (take sub ?blk @ take n buf @ drop (sub + n) ?blk) mod DEV_BSIZE = 0" using blen by (simp only: mod_self)
        show "take sub ?blk @ take n buf @ drop (sub + n) ?blk \<noteq> []" using n by auto
        show "length (take sub ?blk @ take n buf @ drop (sub + n) ?blk) \<le> MAXPHYS"
          unfolding blen by (simp add: DEV_BSIZE_def MAXPHYS_def)
        show "?q + length (take sub ?blk @ take n buf @ drop (sub + n) ?blk) \<le> length (img d)" unfolding blen by (rule q(2))
      qed
      then obtain d' where d': "wr d (int ?q) (take sub ?blk @ take n buf @ drop (sub + n) ?blk) = Some d'" "ok d'"
          "img d' = overlay p (take n buf) (img d)"
        using overlay_block [of ?q DEV_BSIZE "img d" sub "take n buf", OF q(2)] nb unfolding len q(1) by metis
      have "sub \<noteq> 0 \<or> n < DEV_BSIZE"
        using st True n by (auto simp: devio_step_def Let_def split: if_splits)
      with True False st sf(1) n less.prems rd_block [OF less.prems(1), of p] q(3) d' nxt [OF d'(2,3)] show ?thesis
        by (subst devio_write_loop.simps) auto
    next
      case nb: False
      have "\<exists>d'. wr d (int p) (take n buf) = Some d' \<and> ok d' \<and> img d' = overlay p (take n buf) (img d)"
        using n False less.prems sf(1) sf(3) [OF nb] by (intro wr_law) auto
      then obtain d' where "wr d (int p) (take n buf) = Some d'" "ok d'" "img d' = overlay p (take n buf) (img d)" by blast
      with nb False st nxt [of d'] show ?thesis by (subst devio_write_loop.simps) auto
    qed
  qed
qed

end

section \<open>The loop device as a block device\<close>

definition loop_ok :: "loopdev \<Rightarrow> bool" where
  "loop_ok d \<longleftrightarrow> ld_bs d = int DEV_BSIZE"

definition loop_img :: "loopdev \<Rightarrow> u8 list" where
  "loop_img d = load_bytes (ld_mem d) (rf_base (ld_file d)) (unat (rf_size (ld_file d)) div DEV_BSIZE * DEV_BSIZE)"

lemma length_loop_img [simp]: "length (loop_img d) = unat (rf_size (ld_file d)) div DEV_BSIZE * DEV_BSIZE"
  by (simp add: loop_img_def)

lemma loop_img_le: "length (loop_img d) \<le> unat (rf_size (ld_file d))"
  by (simp add: DEV_BSIZE_def)

lemma s64_id: "- (2 ^ 63) \<le> x \<Longrightarrow> x < 2 ^ 63 \<Longrightarrow> s64 x = x"
  by (simp add: s64_def signed_of_int signed_take_bit_int_eq_self)

lemma u32_less: "unat (x :: u32) < 4294967296"
  using unsigned_less [of x, where 'a = nat] by simp

lemma loop_block_ok:
  assumes "loop_ok d" "p mod DEV_BSIZE = 0" "n mod DEV_BSIZE = 0" "n \<le> MAXPHYS" "p < 2 ^ 32"
  shows "\<exists>b. loop_block d (int p) n = Some b \<and> unat (b * word_of_int (ld_bs d)) = p"
proof -
  have b: "unat (of_nat (p div DEV_BSIZE) :: u32) = p div DEV_BSIZE"
    by (rule unat_of_nat_less) (use assms(5) in \<open>simp add: DEV_BSIZE_def\<close>)
  have m: "p div DEV_BSIZE * DEV_BSIZE = p" using assms(2) by (metis add_0_right div_mult_mod_eq)
  have "(of_nat (p div DEV_BSIZE) :: u32) * word_of_int (ld_bs d) = of_nat p"
    using assms(1) by (metis loop_ok_def m of_nat_mult of_int_of_nat_eq)
  then have "unat ((of_nat (p div DEV_BSIZE) :: u32) * word_of_int (ld_bs d)) = p" using assms(5) by (simp add: unat_of_nat_less)
  moreover have "loop_block d (int p) n = Some (of_nat (p div DEV_BSIZE))"
  proof -
    have "n mod 512 = 0" "n div 512 < 256" using assms(3,4) by (simp_all add: MAXPHYS_def DEV_BSIZE_def)
    moreover have "int n mod 512 = int (n mod 512)" "int n div 512 = int (n div 512)"
      by (simp_all only: zmod_int zdiv_int of_nat_numeral)
    ultimately have "int n mod 512 = 0" "int n div 512 < 256" by linarith+
    then have n: "int n smod 512 = 0" "int n sdiv 512 < 256"
      by (simp_all add: signed_modulo_int_def signed_divide_int_def)
    have "int p div 512 = int (p div 512)" by (simp only: zdiv_int of_nat_numeral)
    then have "word_of_int (int p div 512) = (of_nat (p div 512) :: u32)" by (simp only: of_int_of_nat_eq)
    with assms(1) n show ?thesis
      unfolding loop_block_def loop_ok_def Let_def DEV_BSIZE_def by (simp add: signed_divide_int_def)
  qed
  ultimately show ?thesis by blast
qed

lemma ramfile_clip_in:
  assumes "p + n \<le> unat (rf_size f)"
  shows "ramfile_clip f (int p) (of_nat n) = of_nat n" "unat (of_nat n :: u32) = n"
proof -
  have lt: "unat (rf_size f) < 4294967296" using u32_less [of "rf_size f"] by simp
  with assms show n: "unat (of_nat n :: u32) = n" by (intro unat_of_nat_less) simp
  have "s64 (int p + int n) = int p + int n" using lt assms by (intro s64_id) simp_all
  moreover have "\<not> int p + int n > int (unat (rf_size f))" using assms by linarith
  ultimately show "ramfile_clip f (int p) (of_nat n) = of_nat n" unfolding ramfile_clip_def n by (simp only: if_False)
qed

lemma take_drop_load_bytes:
  "p + n \<le> k \<Longrightarrow> take n (drop p (load_bytes m a k)) = load_bytes m (a + of_nat p) n"
  by (intro nth_equalityI) (simp_all add: load_bytes_nth algebra_simps)

lemma load_store_overlay:
  assumes "p + length bs \<le> k" "k < 2 ^ 32"
  shows "load_bytes (store_bytes m (a + of_nat p) bs) a k = overlay p bs (load_bytes m a k)"
proof (rule nth_equalityI, goal_cases)
  case (2 i)
  then have i: "i < k" by simp
  show ?case
  proof (cases "p \<le> i \<and> i < p + length bs")
    case True
    have "load_bytes (store_bytes m (a + of_nat p) bs) (a + of_nat p) (length bs) ! (i - p) = bs ! (i - p)"
      using assms by (simp add: load_bytes_store_bytes)
    moreover have "load_bytes (store_bytes m (a + of_nat p) bs) (a + of_nat p) (length bs) ! (i - p)
        = store_bytes m (a + of_nat p) bs (a + of_nat p + of_nat (i - p))"
      using True by (intro load_bytes_nth) auto
    moreover have "a + of_nat p + of_nat (i - p) = (a + of_nat i :: u32)" using True by (simp add: of_nat_diff)
    ultimately have "store_bytes m (a + of_nat p) bs (a + of_nat i) = bs ! (i - p)" by metis
    with True i assms show ?thesis by (simp add: load_bytes_nth nth_overlay)
  next
    case False
    have "a + of_nat i \<noteq> a + of_nat p + of_nat j" if j: "j < length bs" for j
    proof -
      have "i \<noteq> p + j" using False j by linarith
      moreover have "i < 2 ^ LENGTH(32)" "p + j < 2 ^ LENGTH(32)" using i assms j by simp_all
      ultimately have "a + of_nat i \<noteq> a + of_nat (p + j)" using word_offset_inject by blast
      then show ?thesis by (simp only: of_nat_add add.assoc not_False_eq_True)
    qed
    then have "store_bytes m (a + of_nat p) bs (a + of_nat i) = m (a + of_nat i)" by (intro store_bytes_outside) blast
    with False i assms show ?thesis by (auto simp: load_bytes_nth nth_overlay)
  qed
qed (use assms in simp)

text \<open>A loop device as it is attached, with blocks of \<open>DEV_BSIZE\<close>.\<close>

definition loop_attach :: "ramfile \<Rightarrow> mem \<Rightarrow> loopdev" where
  "loop_attach f m = \<lparr>ld_bs = int DEV_BSIZE, ld_file = f, ld_mem = m\<rparr>"

lemma loop_ok_attach: "loop_ok d \<longleftrightarrow> d = loop_attach (ld_file d) (ld_mem d)"
  by (cases d) (simp add: loop_ok_def loop_attach_def)

interpretation loop_disk: disk "loopdev_read (loop_attach f m)" "loop_img (loop_attach f m)" for f m
proof (unfold_locales, goal_cases)
  case 1
  show ?case by simp
next
  case (2 p n)
  let ?d = "loop_attach f m"
  have ok: "loop_ok ?d" by (simp add: loop_ok_def loop_attach_def)
  from 2 have le: "p + n \<le> unat (rf_size (ld_file ?d))" using loop_img_le [of ?d] by linarith
  then have "p < 2 ^ 32" using u32_less [of "rf_size (ld_file ?d)"] by simp
  with 2 ok loop_block_ok [of ?d p n] obtain b where b: "loop_block ?d (int p) n = Some b" "unat (b * word_of_int (ld_bs ?d)) = p" by auto
  note clip = ramfile_clip_in [OF le]
  have "loopdev_read ?d (int p) n = Some (load_bytes (ld_mem ?d) (rf_base (ld_file ?d) + of_nat p) n)"
    using b clip 2(3) by (simp add: loopdev_read_def ramfile_lseek_def ramfile_read_def Let_def)
  then show ?case using 2(5) by (simp add: loop_img_def take_drop_load_bytes)
qed

lemma loop_ok_disk: "loop_ok d \<Longrightarrow> disk (loopdev_read d) (loop_img d)"
  by (metis loop_ok_attach loop_disk.disk_axioms)

interpretation loopdev: block_device loopdev_read loopdev_write loop_img loop_ok
proof (rule block_device.intro, goal_cases)
  case (1 d)
  then show ?case by (rule loop_ok_disk)
next
  case (2 d p bs)
  from 2 have le: "p + length bs \<le> unat (rf_size (ld_file d))" using loop_img_le [of d] by linarith
  then have "p < 2 ^ 32" using u32_less [of "rf_size (ld_file d)"] by simp
  with 2 loop_block_ok [of d p "length bs"] obtain b where b: "loop_block d (int p) (length bs) = Some b" "unat (b * word_of_int (ld_bs d)) = p" by auto
  note clip = ramfile_clip_in [OF le]
  have "loopdev_write d (int p) bs = Some (d\<lparr>ld_mem := store_bytes (ld_mem d) (rf_base (ld_file d) + of_nat p) bs\<rparr>)"
    using b clip 2(4) by (simp add: loopdev_write_def ramfile_lseek_def ramfile_write_def Let_def)
  moreover have "loop_img (d\<lparr>ld_mem := store_bytes (ld_mem d) (rf_base (ld_file d) + of_nat p) bs\<rparr>) = overlay p bs (loop_img d)"
  proof -
    have "length (loop_img d) < 2 ^ 32"
      using le_less_trans [OF loop_img_le [of d] u32_less [of "rf_size (ld_file d)"]] by simp
    with 2(6) have "load_bytes (store_bytes (ld_mem d) (rf_base (ld_file d) + of_nat p) bs) (rf_base (ld_file d)) (length (loop_img d))
        = overlay p bs (load_bytes (ld_mem d) (rf_base (ld_file d)) (length (loop_img d)))"
      by (rule load_store_overlay)
    then show ?thesis by (simp add: loop_img_def)
  qed
  ultimately show ?case using 2(1) by (simp add: loop_ok_def)
qed

section \<open>Properties\<close>

context disk
begin

lemma devio_read_ok:
  assumes "bd_base d = int base" "bd_offs d = int p" "base \<le> p" "int p \<le> bd_end d"
    and "n = nat (min (int (unat blen)) (bd_end d - int p))" "n < 2 ^ 31" "p + n \<le> length img"
  shows "devio_read rd blen d = (int n, take n (drop p img), d\<lparr>bd_offs := int (p + n)\<rparr>)"
proof -
  have c: "(if int (unat blen) > bd_end d - bd_offs d then nat (bd_end d - bd_offs d) else unat blen) = n"
    using assms(2,5) by (simp add: min_def)
  have "\<not> (bd_offs d < bd_base d \<or> bd_offs d > bd_end d)" using assms(1-4) by simp
  then show ?thesis
    unfolding devio_read_def c Let_def using read_all [OF assms(7), of "[]"] assms(2,6)
    by (simp add: sint_count)
qed

end

text \<open>C32. A read at any offset and of any length returns the bytes of the device at that offset, cut at the
  end of the range that was opened, and moves the offset behind them. (Loop device with the default
  block size, the range within the device.)\<close>

theorem devio_read_slice:
  assumes "loop_ok dev" "0 \<le> bd_base d" "bd_base d \<le> bd_offs d" "bd_offs d \<le> bd_end d"
    and "n = min (int (unat blen)) (bd_end d - bd_offs d)" "n < 2 ^ 31" "bd_offs d + n \<le> int (length (loop_img dev))"
  shows "devio_read (loopdev_read dev) blen d =
    (n, take (nat n) (drop (nat (bd_offs d)) (loop_img dev)), d\<lparr>bd_offs := bd_offs d + n\<rparr>)"
proof -
  define k p where "k = nat n" and "p = nat (bd_offs d)"
  have k: "int k = n" and p: "int p = bd_offs d" unfolding k_def p_def using assms(2-5) by simp_all
  have "devio_read (loopdev_read dev) blen d = (int k, take k (drop p (loop_img dev)), d\<lparr>bd_offs := int (p + k)\<rparr>)"
  proof (rule disk.devio_read_ok [OF loop_ok_disk [OF assms(1)]])
    show "bd_base d = int (nat (bd_base d))" "bd_offs d = int p" "nat (bd_base d) \<le> p" "int p \<le> bd_end d"
      unfolding p_def using assms(2-4) by simp_all
    show "k = nat (min (int (unat blen)) (bd_end d - int p))" unfolding k_def p by (simp only: assms(5))
    show "k < 2 ^ 31" using assms(6) unfolding k [symmetric] by simp
    show "p + k \<le> length (loop_img dev)" using k p assms(7) by linarith
  qed
  then have "devio_read (loopdev_read dev) blen d = (n, take k (drop p (loop_img dev)), d\<lparr>bd_offs := bd_offs d + n\<rparr>)"
    by (simp only: of_nat_add k p)
  then show ?thesis by (simp only: k_def p_def)
qed

definition demo_loop :: loopdev where
  "demo_loop = \<lparr>ld_bs = 512, ld_file = \<lparr>rf_base = 0x80400000, rf_size = 0x1000\<rparr>, ld_mem = (\<lambda>a. ucast a)\<rparr>"

lemma demo_loop_facts: "loop_ok demo_loop" "length (loop_img demo_loop) = 4096"
  by (simp_all add: demo_loop_def loop_ok_def loop_img_def DEV_BSIZE_def)

theorem devio_read_slice_witness:
  "devio_read (loopdev_read demo_loop) 1000 \<lparr>bd_offs = 700, bd_base = 512, bd_end = 1536\<rparr> =
     (836, take 836 (drop 700 (loop_img demo_loop)), \<lparr>bd_offs = 1536, bd_base = 512, bd_end = 1536\<rparr>)"
  using devio_read_slice [of demo_loop "\<lparr>bd_offs = 700, bd_base = 512, bd_end = 1536\<rparr>" 836 1000]
  by (simp add: demo_loop_facts del: length_loop_img)

text \<open>C6. Bytes written at an offset that need not be aligned are read back from there, and the rest of the
  device, the other bytes of the blocks at both ends included, is unchanged.\<close>

theorem devio_write_read:
  assumes "loop_ok dev" "0 \<le> bd_base d" "bd_base d \<le> bd_offs d" "bd_offs d + int (length buf) \<le> bd_end d"
    and "bd_end d < 2 ^ 62" "length buf < 2 ^ 31" "bd_offs d + int (length buf) \<le> int (length (loop_img dev))"
    and "devio_write loopdev_read loopdev_write buf d dev = (r, d', dev')"
    and "devio_lseek (bd_offs d - bd_base d) 0 d' = (pos, d'')"
  shows "r = int (length buf) \<and> loop_img dev' = overlay (nat (bd_offs d)) buf (loop_img dev) \<and>
    pos = bd_offs d - bd_base d \<and> (\<exists>e. devio_read (loopdev_read dev') (of_nat (length buf)) d'' = (r, buf, e))"
proof -
  let ?p = "nat (bd_offs d)"
  have p: "int ?p = bd_offs d" using assms(2,3) by simp
  have pl: "?p + length buf \<le> length (loop_img dev)" using assms(7) p by linarith
  obtain dv where "devio_write_loop loopdev_read loopdev_write buf (int ?p) dev = (True, int (?p + length buf), dv)"
      "loop_ok dv" and img: "loop_img dv = overlay ?p buf (loop_img dev)"
    using loopdev.write_all [OF assms(1) pl] by blast
  with assms(6,8) p have w: "r = int (length buf)" "d' = d\<lparr>bd_offs := int (?p + length buf)\<rparr>" "dev' = dv" "loop_ok dev'"
    by (auto simp: devio_write_def sint_count)
  have seek: "pos = bd_offs d - bd_base d" "d'' = d\<lparr>bd_offs := int ?p\<rparr>"
    using assms(2-5,9) p w(2) by (auto simp: devio_lseek_def Let_def s64_id)
  have "unat (of_nat (length buf) :: u32) = length buf" using assms(6) by (intro unat_of_nat_less) simp
  then have "devio_read (loopdev_read dev') (of_nat (length buf)) d'' =
      (int (length buf), take (length buf) (drop ?p (loop_img dev')), d''\<lparr>bd_offs := int (?p + length buf)\<rparr>)"
    using w(3,4) img pl seek(2) assms(2-4,6) p
    by (intro disk.devio_read_ok [OF loop_ok_disk, where base = "nat (bd_base d)"]) (simp_all add: min_def)
  then show ?thesis using w img seek pl by (simp add: overlay_read)
qed

theorem devio_write_read_witness:
  "\<exists>r d' dev' pos d''. devio_write loopdev_read loopdev_write [1, 2, 3] \<lparr>bd_offs = 700, bd_base = 512, bd_end = 1536\<rparr> demo_loop = (r, d', dev') \<and>
    devio_lseek 188 0 d' = (pos, d'') \<and> r = 3 \<and> pos = 188 \<and> (\<exists>e. devio_read (loopdev_read dev') 3 d'' = (3, [1, 2, 3], e))"
proof -
  let ?d = "\<lparr>bd_offs = 700, bd_base = 512, bd_end = 1536\<rparr>"
  obtain r d' dev' where 1: "devio_write loopdev_read loopdev_write [1, 2, 3] ?d demo_loop = (r, d', dev')" by (rule prod_cases3)
  obtain pos d'' where 2: "devio_lseek 188 0 d' = (pos, d'')" by (rule prod.exhaust)
  from devio_write_read [of demo_loop ?d "[1, 2, 3]" r d' dev' pos d''] 1 2 show ?thesis
    by (auto simp: demo_loop_facts simp del: length_loop_img)
qed

lemma strpbrk_append:
  "\<forall>x\<in>set e. strchr s x = None \<Longrightarrow> strchr s y \<noteq> None \<Longrightarrow> strpbrk (e @ y # r) s = Some (length e)"
  by (induction e) auto

text \<open>A device opened as \<^verbatim>\<open>name@start/\<close>, without a size, and a start behind the first block cannot be
  read: the default end, the largest offset, overflows when the start is added.\<close>

theorem devio_start_only:
  assumes "get_rsa c e = Some (Some v)" "v \<noteq> 0" "set e \<inter> {CHR ''/'', CHR '','', CHR '':'', NUL} = {}" "length e < 63"
    and "devio_range c (CHR ''@'' # e @ ''/'') = Some d"
  shows "devio_read rd blen d = (- 1, [], d)"
proof -
  have "\<forall>x\<in>set e. strchr ''/,:'' x = None" using assms(3) by auto
  then have k: "strpbrk (e @ ''/'') ''/,:'' = Some (length e)" by (intro strpbrk_append) simp_all
  have v: "0 < unat v" "unat v < 4294967296" using assms(2) u32_less [of v] by (simp_all add: unat_gt_0)
  obtain x where x: "int (unat v) * 512 = x" "0 < x" "x < 2 ^ 41"
  proof -
    have "0 < int (unat v)" "int (unat v) < 4294967296" using v by linarith+
    then have "0 < int (unat v) * 512" "int (unat v) * 512 < 2 ^ 41" by simp_all
    with that [OF refl] show thesis .
  qed
  have b: "s64 x = x" using x by (intro s64_id) simp_all
  have "(word_of_int (9223372036854775807 + x) :: 64 word) = word_of_int (x - 9223372036854775809)"
    by (simp add: word_of_int_eq_iff take_bit_eq_mod)
  then have "s64 (9223372036854775807 + x) = s64 (x - 9223372036854775809)" by (simp only: s64_def)
  also have "\<dots> = x - 9223372036854775809" using x by (intro s64_id) simp_all
  finally have "d = \<lparr>bd_offs = x, bd_base = x, bd_end = x - 9223372036854775809\<rparr>"
    using assms(1,4,5) k b x(1) unfolding devio_range_def DEV_BSIZE_def Let_def by (simp add: nth_append)
  then show ?thesis by (simp add: devio_read_def)
qed

lemma plain_16: "get_rsa plain_ctx ''16'' = Some (Some 16)"
  by code_simp

theorem devio_start_only_witness:
  "\<exists>d. devio_range plain_ctx ''@16/'' = Some d \<and> devio_read (\<lambda>_ n. Some (replicate n 0)) 512 d = (- 1, [], d)"
proof -
  have "strpbrk ''16/'' ''/,:'' = Some 2" by code_simp
  then obtain d where d: "devio_range plain_ctx ''@16/'' = Some d"
    by (auto simp: devio_range_def Let_def plain_16)
  with devio_start_only [of plain_ctx "''16''" 16 d "\<lambda>_ n. Some (replicate n 0)" 512] plain_16 show ?thesis by simp
qed

text \<open>A loop device whose block size is larger than the largest transfer fails every read that is not
  empty, the block size \<^verbatim>\<open>0x20000\<close> of the usage text of \<^verbatim>\<open>losetup\<close> included.\<close>

theorem loop_large_blocks:
  assumes "int MAXPHYS < ld_bs dev" "ld_bs dev < 2 ^ 31" "bd_base d \<le> bd_offs d" "bd_offs d < bd_end d" "blen \<noteq> 0"
  shows "fst (devio_read (loopdev_read dev) blen d) = - 1"
proof -
  have refuse: "loopdev_read dev offs n = None" if "0 < n" "n \<le> MAXPHYS" for offs n
  proof -
    have "int n smod ld_bs dev = int n" using that assms(1) by (simp add: signed_modulo_int_def MAXPHYS_def)
    with that show ?thesis by (simp add: loopdev_read_def loop_block_def Let_def)
  qed
  let ?n = "if int (unat blen) > bd_end d - bd_offs d then nat (bd_end d - bd_offs d) else unat blen"
  have n: "0 < ?n" using assms(4,5) by (simp add: unat_gt_0)
  obtain sub k bounce where st: "devio_step (bd_offs d) ?n = (sub, k, bounce)" by (metis prod_cases3)
  have k: "0 < k" using devio_step_less [OF n st] by simp
  have "\<not> bounce \<Longrightarrow> k \<le> MAXPHYS" using st by (auto simp: devio_step_def Let_def split: if_splits)
  with k st n refuse [of DEV_BSIZE "bd_offs d - int sub"] refuse [of k "bd_offs d"] have "\<exists>o1. devio_read_loop (loopdev_read dev) ?n (bd_offs d) [] = (None, o1)"
    by (subst devio_read_loop.simps) (auto simp: DEV_BSIZE_def MAXPHYS_def simp del: unat_eq_zero)
  with assms(3,4) show ?thesis by (auto simp: devio_read_def Let_def)
qed

theorem loop_large_blocks_witness:
  "fst (devio_read (loopdev_read (demo_loop\<lparr>ld_bs := 0x20000\<rparr>)) 512 \<lparr>bd_offs = 0, bd_base = 0, bd_end = 2 ^ 63 - 1\<rparr>) = - 1"
  by (rule loop_large_blocks) (simp_all add: MAXPHYS_def)

end
