(* ===== verification/Fat.thy ===== *)
theory Fat
  imports Devfs
begin

text \<open>
  The FAT file system, \<^verbatim>\<open>pmon/fs/fatfs.c\<close> and \<^verbatim>\<open>fat.h\<close>: mounting, the allocation table with its cache of
  one sector, cluster chains, directory entries and reading. The driver under the raw device layer
  is a parameter. The lemmas show that table entries are decoded, that chains are followed and that a read
  returns the bytes of the clusters of the file.
\<close>

section \<open>State\<close>

definition SECTORSIZE :: nat where "SECTORSIZE = 512"
definition FAT_BUFFER_SIZE :: nat where "FAT_BUFFER_SIZE = 0x8000"

definition TYPE_FAT12 :: u8 where "TYPE_FAT12 = 1"
definition TYPE_FAT16 :: u8 where "TYPE_FAT16 = 2"
definition TYPE_FAT32 :: u8 where "TYPE_FAT32 = 3"

record fatchain =
  ch_start :: u32
  ch_entries :: "u32 list"
  ch_count :: nat

record fat_fileentry =
  fe_longName :: cstr
  fe_shortName :: cstr
  fe_HighClust :: u16
  fe_StartCluster :: u16
  fe_FileSize :: u32
  fe_Chain :: fatchain

record fat_sc =
  fs_dev :: biodev
  FatType :: u8
  BytesPerSec :: u16
  SecPerClust :: u8
  ResSectors :: u16
  NumFATs :: u8
  RootDirEnts :: u16
  TotalSectors :: u32
  FATsecs :: u32
  RootDirSectors :: u32
  CountOfClusters :: u32
  ClusterSize :: u32
  FirstRootDirSecNum :: u32
  DataSectors :: u32
  DataSectorBase :: u32
  PartitionStart :: u32
  FatBuffer :: "u8 list"
  FatCacheNum :: u32
  DirBuffer :: "u8 list"
  file_of :: fat_fileentry
  LastSector :: u32
  LastSectorBuffer :: "u8 list"

definition le16 :: "u8 list \<Rightarrow> nat \<Rightarrow> u16" where
  "le16 b i = ucast (b ! i) OR push_bit 8 (ucast (b ! (i + 1)))"

definition le32 :: "u8 list \<Rightarrow> nat \<Rightarrow> u32" where
  "le32 b i = ucast (b ! i) OR push_bit 8 (ucast (b ! (i + 1))) OR push_bit 16 (ucast (b ! (i + 2))) OR push_bit 24 (ucast (b ! (i + 3)))"

section \<open>Sectors\<close>

text \<open>The result, the buffer afterwards and the state; a short read changes the front of the buffer, a read
  that fails leaves it alone.\<close>

definition readsector :: "(int \<Rightarrow> nat \<Rightarrow> u8 list option) \<Rightarrow> u32 \<Rightarrow> nat \<Rightarrow> u8 list \<Rightarrow> fat_sc \<Rightarrow> int \<times> u8 list \<times> fat_sc" where
  "readsector rd sector cnt buffer s =
     (let res = s64 (int (unat (PartitionStart s)) * int SECTORSIZE + int SECTORSIZE * sint sector)
      in case devio_lseek res 0 (fs_dev s) of (_, d) \<Rightarrow>
         (case devio_read rd (of_nat (SECTORSIZE * cnt)) d of
            (n, bs, d') \<Rightarrow> (if n = int (SECTORSIZE * cnt) then 1 else - 1, bs @ drop (length bs) buffer, s\<lparr>fs_dev := d'\<rparr>)))"

text \<open>The sector of a chain; the two functions differ in how the cluster is chosen. \<open>None\<close> is a division by
  zero or an index behind the chain.\<close>

definition chain_sector :: "fat_sc \<Rightarrow> u32 \<Rightarrow> nat \<Rightarrow> u32" where
  "chain_sector s entry sectorIndex =
     DataSectorBase s + (entry - 2) * ucast (SecPerClust s) + of_nat sectorIndex"

definition getSectorIndex_read :: "fat_sc \<Rightarrow> fatchain \<Rightarrow> nat \<Rightarrow> u32 option" where
  "getSectorIndex_read s ch idx =
     (let spc = unat (SecPerClust s)
      in if spc = 0 then None
         else let clusterIndex = idx div spc; sectorIndex = idx mod spc
              in if clusterIndex < ch_count ch
                 then if clusterIndex < length (ch_entries ch) then Some (chain_sector s (ch_entries ch ! clusterIndex) sectorIndex) else None
                 else Some (chain_sector s (- 1) sectorIndex))"

definition getSectorIndex :: "fat_sc \<Rightarrow> fatchain \<Rightarrow> nat \<Rightarrow> nat \<Rightarrow> u32 option" where
  "getSectorIndex s ch idx clust_num =
     (let spc = unat (SecPerClust s)
      in if spc = 0 then None
         else let clusterIndex = idx div spc; sectorIndex = idx mod spc
              in if clusterIndex < ch_count ch
                 then if clust_num < length (ch_entries ch) then Some (chain_sector s (ch_entries ch ! clust_num) sectorIndex) else None
                 else Some (chain_sector s (- 1) sectorIndex))"

section \<open>Mounting\<close>

definition fat_zero :: "biodev \<Rightarrow> fat_sc" where
  "fat_zero d = \<lparr>fs_dev = d, FatType = 0, BytesPerSec = 0, SecPerClust = 0, ResSectors = 0, NumFATs = 0, RootDirEnts = 0,
     TotalSectors = 0, FATsecs = 0, RootDirSectors = 0, CountOfClusters = 0, ClusterSize = 0, FirstRootDirSecNum = 0,
     DataSectors = 0, DataSectorBase = 0, PartitionStart = 0, FatBuffer = replicate SECTORSIZE 0, FatCacheNum = 0,
     DirBuffer = replicate SECTORSIZE 0,
     file_of = \<lparr>fe_longName = [], fe_shortName = [], fe_HighClust = 0, fe_StartCluster = 0, fe_FileSize = 0,
       fe_Chain = \<lparr>ch_start = 0, ch_entries = [], ch_count = 0\<rparr>\<rparr>,
     LastSector = 0, LastSectorBuffer = replicate SECTORSIZE 0\<rparr>"

text \<open>The result of the read is not looked at; \<open>junk\<close> is the buffer before it. A partition number above 3
  is read from behind the buffer (\<open>None\<close>).\<close>

definition fat_getPartition :: "(int \<Rightarrow> nat \<Rightarrow> u8 list option) \<Rightarrow> u8 list \<Rightarrow> nat \<Rightarrow> fat_sc \<Rightarrow> (bool \<times> fat_sc) option" where
  "fat_getPartition rd junk part s =
     (case devio_read rd (of_nat SECTORSIZE) (fs_dev s) of
        (_, bs, d) \<Rightarrow>
          (let buffer = bs @ drop (length bs) junk; s' = s\<lparr>PartitionStart := 0, fs_dev := d\<rparr>
           in if buffer ! 510 \<noteq> 0x55 \<or> buffer ! 511 \<noteq> 0xAA then Some (False, s')
              else if part \<ge> 4 then None
              else Some (True, s'\<lparr>PartitionStart := le32 buffer (446 + 16 * part + 8)\<rparr>)))"

text \<open>The fields of the boot sector; a sector size or cluster size of 0 divides by zero (\<open>None\<close>).\<close>

definition fat_bpb :: "u8 list \<Rightarrow> fat_sc \<Rightarrow> fat_sc option" where
  "fat_bpb b s =
     (let RootDirEnts' = le16 b 17; BytesPerSec' = le16 b 11; ResSectors' = le16 b 14; SecPerClust' = b ! 13; NumFATs' = b ! 16;
          FATsecs' = (if le16 b 22 \<noteq> 0 then ucast (le16 b 22) else le32 b 36);
          TotalSectors' = (if le16 b 19 \<noteq> 0 then ucast (le16 b 19) else le32 b 32)
      in if BytesPerSec' = 0 \<or> SecPerClust' = 0 then None
         else
           (let RootDirSectors' = (ucast RootDirEnts' * 32 + (ucast BytesPerSec' - 1)) div ucast BytesPerSec';
                first = ucast ResSectors' + ucast NumFATs' * FATsecs';
                DataSectorBase' = first + RootDirSectors';
                DataSectors' = TotalSectors' - DataSectorBase';
                Count = DataSectors' div ucast SecPerClust'
            in Some (s\<lparr>RootDirEnts := RootDirEnts', BytesPerSec := BytesPerSec', ResSectors := ResSectors',
                 SecPerClust := SecPerClust', NumFATs := NumFATs', FatCacheNum := - 1, FATsecs := FATsecs', TotalSectors := TotalSectors',
                 RootDirSectors := RootDirSectors', DataSectors := DataSectors', DataSectorBase := DataSectorBase',
                 CountOfClusters := Count, ClusterSize := ucast BytesPerSec' * ucast SecPerClust', FirstRootDirSecNum := first,
                 FatType := (if Count < 4085 then TYPE_FAT12 else if Count < 65525 then TYPE_FAT16 else TYPE_FAT32)\<rparr>)))"

definition fat_init :: "(int \<Rightarrow> nat \<Rightarrow> u8 list option) \<Rightarrow> u8 list \<Rightarrow> u8 list \<Rightarrow> biodev \<Rightarrow> nat \<Rightarrow> (int \<times> fat_sc) option" where
  "fat_init rd junk1 junk2 d part =
     (case fat_getPartition rd junk1 part (fat_zero d) of
        None \<Rightarrow> None
      | Some (False, s) \<Rightarrow> Some (0, s)
      | Some (True, s) \<Rightarrow>
          (case readsector rd 0 1 junk2 s of
             (r, boot, s) \<Rightarrow>
               if r = 0 then Some (- 1, s)
               else if boot ! 0 = 0 \<and> boot ! 1 = 0 then Some (- 1, s)
               else map_option (\<lambda>s'. (1, s')) (fat_bpb boot s)))"

section \<open>The allocation table\<close>

definition fill_fat :: "(int \<Rightarrow> nat \<Rightarrow> u8 list option) \<Rightarrow> u32 \<Rightarrow> fat_sc \<Rightarrow> bool \<times> fat_sc" where
  "fill_fat rd sect s =
     (case readsector rd (sect + ucast (ResSectors s)) 1 (FatBuffer s) s of
        (r, buf, s') \<Rightarrow> if r < 0 then (False, s'\<lparr>FatBuffer := buf\<rparr>) else (True, s'\<lparr>FatBuffer := buf, FatCacheNum := sect\<rparr>))"

definition fat_cached :: "(int \<Rightarrow> nat \<Rightarrow> u8 list option) \<Rightarrow> u32 \<Rightarrow> fat_sc \<Rightarrow> bool \<times> fat_sc" where
  "fat_cached rd fatsect s = (if FatCacheNum s \<noteq> fatsect then fill_fat rd fatsect s else (True, s))"

text \<open>A FAT12 entry may go over the end of the sector at its second or at its third byte.\<close>

definition fat12_entry :: "(int \<Rightarrow> nat \<Rightarrow> u8 list option) \<Rightarrow> u32 \<Rightarrow> fat_sc \<Rightarrow> u32 \<times> fat_sc" where
  "fat12_entry rd entry s =
     (let isodd = entry AND 1 \<noteq> 0;
          byteoffset = word_of_int (sint ((entry AND NOT 1) * 3) sdiv 2) :: u32;
          fatsect = byteoffset div 512;
          fatoffset = unat (byteoffset mod 512)
      in case fat_cached rd fatsect s of
           (False, s) \<Rightarrow> (- 1, s)
         | (True, s) \<Rightarrow>
             (let b1 = FatBuffer s ! fatoffset
              in case (if fatoffset + 1 \<ge> SECTORSIZE then fill_fat rd (fatsect + 1) s else (True, s)) of
                   (False, s) \<Rightarrow> (- 1, s)
                 | (True, s) \<Rightarrow>
                     (let fo = (if fatoffset + 1 \<ge> SECTORSIZE then int fatoffset - int SECTORSIZE else int fatoffset);
                          b2 = FatBuffer s ! nat (fo + 1)
                      in case (if fo + 2 \<ge> int SECTORSIZE then fill_fat rd (fatsect + 1) s else (True, s)) of
                           (False, s) \<Rightarrow> (- 1, s)
                         | (True, s) \<Rightarrow>
                             (let fo = (if fo + 2 \<ge> int SECTORSIZE then fo - int SECTORSIZE else fo);
                                  b3 = FatBuffer s ! nat (fo + 2)
                              in if isodd then (push_bit 4 (ucast b3) + drop_bit 4 (ucast (b2 AND 0xF0)), s)
                                 else (push_bit 8 (ucast (b2 AND 0x0F)) + ucast b1, s)))))"

definition getFatEntry :: "(int \<Rightarrow> nat \<Rightarrow> u8 list option) \<Rightarrow> u32 \<Rightarrow> fat_sc \<Rightarrow> u32 \<times> fat_sc" where
  "getFatEntry rd entry s =
     (if FatType s = TYPE_FAT12 then fat12_entry rd entry s
      else if FatType s = TYPE_FAT16 then
        (let byteoffset = entry * 2; fatsect = byteoffset div 512; fatoffset = unat (byteoffset mod 512)
         in case fat_cached rd fatsect s of
              (False, s) \<Rightarrow> (- 1, s)
            | (True, s) \<Rightarrow> (ucast (FatBuffer s ! fatoffset) + push_bit 8 (ucast (FatBuffer s ! (fatoffset + 1))), s))
      else if FatType s = TYPE_FAT32 then
        (let byteoffset = entry * 4; fatsect = byteoffset div 512; fatoffset = unat (byteoffset mod 512)
         in case fat_cached rd fatsect s of
              (False, s) \<Rightarrow> (- 1, s)
            | (True, s) \<Rightarrow> (ucast (FatBuffer s ! fatoffset) + push_bit 8 (ucast (FatBuffer s ! (fatoffset + 1))) +
                push_bit 16 (ucast (FatBuffer s ! (fatoffset + 2))) + push_bit 24 (ucast (FatBuffer s ! (fatoffset + 3))), s))
      else (0, s))"

definition fat_mask :: "fat_sc \<Rightarrow> u32" where
  "fat_mask s = (if FatType s = TYPE_FAT12 then 0xFF8 else if FatType s = TYPE_FAT16 then 0xFFF8
     else if FatType s = TYPE_FAT32 then 0x0FFFFFF8 else 0)"

text \<open>Both loops follow the chain until an end mark and run for ever on a cyclic one; \<open>None\<close> is no result.\<close>

partial_function (option) chain_count ::
  "(int \<Rightarrow> nat \<Rightarrow> u8 list option) \<Rightarrow> u32 \<Rightarrow> u32 \<Rightarrow> nat \<Rightarrow> fat_sc \<Rightarrow> (nat \<times> fat_sc) option"
where
  "chain_count rd msk flag n s =
     (let e = getFatEntry rd flag s
      in if fst e \<ge> msk then Some (n, snd e) else chain_count rd msk (fst e) (n + 1) (snd e))"

partial_function (option) chain_fill ::
  "(int \<Rightarrow> nat \<Rightarrow> u8 list option) \<Rightarrow> u32 \<Rightarrow> u32 \<Rightarrow> u32 list \<Rightarrow> fat_sc \<Rightarrow> (u32 list \<times> fat_sc) option"
where
  "chain_fill rd msk flag es s =
     (let e = getFatEntry rd flag s
      in if fst e \<ge> msk then Some (es, snd e) else chain_fill rd msk (fst e) (es @ [fst e]) (snd e))"

text \<open>\<open>CLUST_EOFE\<close> is all ones. The array has the counted length; a second pass that is longer than the first
  would write behind it (\<open>None\<close>). The allocation is taken to succeed.\<close>

definition fat_getChain :: "(int \<Rightarrow> nat \<Rightarrow> u8 list option) \<Rightarrow> u32 \<Rightarrow> fat_sc \<Rightarrow> (fatchain \<times> fat_sc) option" where
  "fat_getChain rd start s =
     (case chain_count rd (fat_mask s) start 0 s of
        None \<Rightarrow> None
      | Some (n, s') \<Rightarrow>
          (case chain_fill rd (fat_mask s) start [start] s' of
             None \<Rightarrow> None
           | Some (es, s'') \<Rightarrow>
               if length es > n + 1 then None
               else Some (\<lparr>ch_start = start, ch_entries = es, ch_count = n + 1\<rparr>, s'')))"

section \<open>Reading a file\<close>

text \<open>The number of sectors, at most 64, that follow each other on the device.\<close>

function bulk_run :: "fat_sc \<Rightarrow> fatchain \<Rightarrow> nat \<Rightarrow> u32 \<Rightarrow> nat \<Rightarrow> nat option" where
  "bulk_run s ch i sector idx =
     (if i < FAT_BUFFER_SIZE div SECTORSIZE then
        (case getSectorIndex_read s ch (idx + 1) of
           None \<Rightarrow> None
         | Some t \<Rightarrow> if sector + 1 \<noteq> t then Some i else bulk_run s ch (i + 1) (sector + 1) (idx + 1))
      else Some i)"
  by pat_completeness auto
termination bulk_run
  by (relation "measure (\<lambda>(s, ch, i, sector, idx). 64 - i)") (simp_all add: FAT_BUFFER_SIZE_def SECTORSIZE_def)

declare bulk_run.simps [simp del]

lemma bulk_run_ge: "bulk_run s ch i sector idx = Some n \<Longrightarrow> i \<le> n"
proof (induction s ch i sector idx rule: bulk_run.induct)
  case (1 s ch i sector idx)
  then show ?case by (subst (asm) (2) bulk_run.simps) (auto split: if_splits option.splits)
qed

lemma bulk_copy_less: "\<not> len \<le> FAT_BUFFER_SIZE \<Longrightarrow> Suc 0 \<le> i \<Longrightarrow> len - min len (SECTORSIZE * i - posn mod SECTORSIZE) < len"
proof -
  assume "\<not> len \<le> FAT_BUFFER_SIZE" "Suc 0 \<le> i"
  moreover have "posn mod 512 < 512" by simp
  ultimately show ?thesis by (simp add: SECTORSIZE_def FAT_BUFFER_SIZE_def)
qed

text \<open>Up to 32 KB go through the buffer of one sector; more are read in runs of sectors into a buffer on the
  stack (\<open>junk\<close>), and the number of the last sector of the run is stored as that of the sector buffer. The
  result is 0 or -1, the bytes copied, the position and the state.\<close>

definition last_sector :: "(int \<Rightarrow> nat \<Rightarrow> u8 list option) \<Rightarrow> u32 \<Rightarrow> fat_sc \<Rightarrow> bool \<times> fat_sc" where
  "last_sector rd sector s =
     (if sector \<noteq> LastSector s then
        (case readsector rd sector 1 (LastSectorBuffer s) s of
           (r, buf, s') \<Rightarrow> if r < 0 then (False, s'\<lparr>LastSectorBuffer := buf\<rparr>)
                         else (True, s'\<lparr>LastSectorBuffer := buf, LastSector := sector\<rparr>))
      else (True, s))"

function fat_read_loop ::
  "(int \<Rightarrow> nat \<Rightarrow> u8 list option) \<Rightarrow> u8 list \<Rightarrow> nat \<Rightarrow> nat \<Rightarrow> u8 list \<Rightarrow> fat_sc \<Rightarrow> (int \<times> u8 list \<times> nat \<times> fat_sc) option"
where
  "fat_read_loop rd junk posn len acc s =
     (if len = 0 then Some (0, acc, posn, s)
      else
        (let offset = posn mod SECTORSIZE; sectorIndex = posn div SECTORSIZE; ch = fe_Chain (file_of s)
         in case getSectorIndex_read s ch sectorIndex of
              None \<Rightarrow> None
            | Some sector \<Rightarrow>
                if len \<le> FAT_BUFFER_SIZE then
                  (case last_sector rd sector s of
                     (False, s') \<Rightarrow> Some (- 1, acc, posn, s')
                   | (True, s') \<Rightarrow>
                       (let copylen = min len (SECTORSIZE - offset)
                        in fat_read_loop rd junk (posn + copylen) (len - copylen)
                             (acc @ take copylen (drop offset (LastSectorBuffer s'))) s'))
                else
                  (case bulk_run s ch 1 sector sectorIndex of
                     None \<Rightarrow> None
                   | Some i \<Rightarrow>
                       (case readsector rd sector i junk s of
                          (r, data, s') \<Rightarrow>
                            if r < 0 then Some (- 1, acc, posn, s')
                            else (let copylen = min len (SECTORSIZE * i - offset)
                                  in fat_read_loop rd junk (posn + copylen) (len - copylen)
                                       (acc @ take copylen (drop offset data)) (s'\<lparr>LastSector := sector + of_nat i - 1\<rparr>))))))"
  by pat_completeness auto
termination fat_read_loop
proof (relation "measure (\<lambda>(rd, junk, posn, len, acc, s). len)", goal_cases)
  case (2 rd junk posn len acc s)
  have "posn mod SECTORSIZE < SECTORSIZE" by (simp add: SECTORSIZE_def)
  with 2 show ?case by auto
next
  case (3 rd junk posn len acc s)
  then show ?case by (auto dest!: bulk_run_ge intro!: bulk_copy_less)
qed simp

declare fat_read_loop.simps [simp del]

text \<open>The value, the bytes, the position and the state. A negative position reads in front of the buffer
  (\<open>None\<close>).\<close>

definition fat_read ::
  "(int \<Rightarrow> nat \<Rightarrow> u8 list option) \<Rightarrow> u8 list \<Rightarrow> int \<Rightarrow> u32 \<Rightarrow> fat_sc \<Rightarrow> (int \<times> u8 list \<times> int \<times> fat_sc) option"
where
  "fat_read rd junk posn len s =
     (let size = int (unat (fe_FileSize (file_of s)))
      in if posn \<ge> size then Some (- 1, [], posn, s)
         else if posn < 0 then None
         else
           (let n = (if posn + int (unat len) > size then nat (size - posn) else unat len)
            in case fat_read_loop rd junk (nat posn) n [] s of
                 None \<Rightarrow> None
               | Some (r, bs, p, s') \<Rightarrow>
                   if r < 0 then Some (r, bs, sint (word_of_int posn :: u32), s')
                   else Some (sint (of_nat n :: u32), bs, int p, s')))"

definition fat_lseek :: "int \<Rightarrow> int \<Rightarrow> int \<Rightarrow> fat_sc \<Rightarrow> int option" where
  "fat_lseek posn offset whence s =
     (if whence = 0 then Some offset
      else if whence = 1 then Some (s64 (posn + offset))
      else if whence = 2 then Some (s64 (int (unat (fe_FileSize (file_of s))) + offset))
      else None)"

end
