(* ===== verification/Fat_Table.thy ===== *)
theory Fat_Table
  imports Fat
begin

text \<open>
  The allocation table of the FAT file system: what a sector read returns on a device that is an array of
  blocks, the value of a table entry against a reference definition, the cache of one sector as an
  invariant, and cluster chains, those that end and those that do not.
\<close>

section \<open>Volumes\<close>

declare length_loop_img [simp del]

text \<open>The descriptor covers the device, and the device is smaller than \<open>2\<^sup>3\<^sup>1\<close> sectors.\<close>

definition fat_dev :: "u8 list \<Rightarrow> fat_sc \<Rightarrow> bool" where
  "fat_dev img s \<longleftrightarrow> 0 \<le> bd_base (fs_dev s) \<and> bd_base (fs_dev s) mod 512 = 0 \<and>
     int (length img) \<le> bd_end (fs_dev s) \<and> bd_end (fs_dev s) < 2 ^ 62 \<and> length img \<le> 2 ^ 40"

definition vol_pos :: "fat_sc \<Rightarrow> nat \<Rightarrow> nat" where
  "vol_pos s n = nat (bd_base (fs_dev s)) + 512 * (unat (PartitionStart s) + n)"

definition vol_read :: "u8 list \<Rightarrow> fat_sc \<Rightarrow> nat \<Rightarrow> nat \<Rightarrow> u8 list" where
  "vol_read img s n cnt = take (512 * cnt) (drop (vol_pos s n) img)"

text \<open>Two states that differ in the offset of the device and in the buffers only.\<close>

definition fat_same :: "fat_sc \<Rightarrow> fat_sc \<Rightarrow> bool" where
  "fat_same s s' \<longleftrightarrow> bd_base (fs_dev s') = bd_base (fs_dev s) \<and> bd_end (fs_dev s') = bd_end (fs_dev s) \<and>
     (length (LastSectorBuffer s) \<le> 512 \<longrightarrow> length (LastSectorBuffer s') \<le> 512) \<and>
     s' = s\<lparr>fs_dev := fs_dev s', FatBuffer := FatBuffer s', FatCacheNum := FatCacheNum s', DirBuffer := DirBuffer s',
            LastSector := LastSector s', LastSectorBuffer := LastSectorBuffer s'\<rparr>"

lemma fat_same_simps:
  assumes "fat_same s s'"
  shows "FatType s' = FatType s" "SecPerClust s' = SecPerClust s" "ResSectors s' = ResSectors s" "DataSectorBase s' = DataSectorBase s"
    "PartitionStart s' = PartitionStart s" "file_of s' = file_of s" "fat_dev img s' = fat_dev img s" "vol_pos s' n = vol_pos s n"
    "vol_read img s' n k = vol_read img s n k" "fat_mask s' = fat_mask s" "RootDirSectors s' = RootDirSectors s"
    "FirstRootDirSecNum s' = FirstRootDirSecNum s"
proof -
  from assms have b: "bd_base (fs_dev s') = bd_base (fs_dev s)" "bd_end (fs_dev s') = bd_end (fs_dev s)"
    and e: "s' = s\<lparr>fs_dev := fs_dev s', FatBuffer := FatBuffer s', FatCacheNum := FatCacheNum s', DirBuffer := DirBuffer s',
            LastSector := LastSector s', LastSectorBuffer := LastSectorBuffer s'\<rparr>" unfolding fat_same_def by blast+
  show t: "FatType s' = FatType s" "SecPerClust s' = SecPerClust s" "ResSectors s' = ResSectors s" "DataSectorBase s' = DataSectorBase s"
    and p: "PartitionStart s' = PartitionStart s" and "file_of s' = file_of s" "RootDirSectors s' = RootDirSectors s"
    "FirstRootDirSecNum s' = FirstRootDirSecNum s"
    by (subst e, simp)+
  show "fat_dev img s' = fat_dev img s" by (simp add: fat_dev_def b)
  show v: "vol_pos s' n = vol_pos s n" for n by (simp add: vol_pos_def b p)
  show "vol_read img s' n k = vol_read img s n k" by (simp add: vol_read_def v)
  show "fat_mask s' = fat_mask s" by (simp add: fat_mask_def t)
qed

lemma fat_same_refl [simp]: "fat_same s s"
  by (simp add: fat_same_def)

lemma fat_same_trans: "fat_same s s' \<Longrightarrow> fat_same s' s'' \<Longrightarrow> fat_same s s''"
  unfolding fat_same_def by (cases s; cases s'; cases s'') auto

lemma fat_same_updates [simp]:
  "fat_same s (s\<lparr>FatBuffer := b\<rparr>)" "fat_same s (s\<lparr>FatCacheNum := n\<rparr>)" "fat_same s (s\<lparr>FatBuffer := b, FatCacheNum := n\<rparr>)"
  "length b \<le> 512 \<Longrightarrow> fat_same s (s\<lparr>LastSectorBuffer := b\<rparr>)" "fat_same s (s\<lparr>LastSector := n\<rparr>)" "fat_same s (s\<lparr>DirBuffer := b\<rparr>)"
  "length b \<le> 512 \<Longrightarrow> fat_same s (s\<lparr>LastSectorBuffer := b, LastSector := n\<rparr>)"
  by (simp_all add: fat_same_def)

lemma vol_pos_aligned: "fat_dev img s \<Longrightarrow> vol_pos s n mod 512 = 0"
proof -
  assume "fat_dev img s"
  then have "bd_base (fs_dev s) mod 512 = 0" "0 \<le> bd_base (fs_dev s)" by (simp_all add: fat_dev_def)
  then have "nat (bd_base (fs_dev s)) mod 512 = 0" by presburger
  then show ?thesis unfolding vol_pos_def by presburger
qed

lemma vol_pos_bound: "vol_pos s n < 2 ^ 40 \<Longrightarrow> unat (PartitionStart s) + n < 2 ^ 31"
  by (simp add: vol_pos_def)

text \<open>A read of whole sectors within the device; the state changes in the offset of the descriptor.\<close>

context disk
begin

lemma readsector_ok:
  assumes "fat_dev img s" "0 < cnt" "cnt \<le> 64" "vol_pos s n + 512 * cnt \<le> length img"
  shows "\<exists>d. readsector rd (of_nat n) cnt buf s = (1, vol_read img s n cnt @ drop (512 * cnt) buf, s\<lparr>fs_dev := d\<rparr>) \<and> fat_same s (s\<lparr>fs_dev := d\<rparr>)"
proof -
  let ?d = "fs_dev s" and ?p = "vol_pos s n"
  from assms(1) have d: "0 \<le> bd_base ?d" "int (length img) \<le> bd_end ?d" "bd_end ?d < 2 ^ 62" "length img \<le> 2 ^ 40"
    by (simp_all add: fat_dev_def)
  have "?p < 2 ^ 40" using assms(2,4) d(4) by linarith
  then have n: "unat (PartitionStart s) + n < 2 ^ 31" by (rule vol_pos_bound)
  then have sint: "sint (of_nat n :: u32) = int n" by (intro sint_count) simp
  define r where "r = int (unat (PartitionStart s)) * 512 + 512 * int n"
  have pos: "bd_base ?d + r = int ?p" using d(1) by (simp add: r_def vol_pos_def algebra_simps)
  have "int (unat (PartitionStart s) + n) < 2 ^ 31" using n by (simp only: of_nat_less_iff [symmetric, where 'a = int] of_nat_power of_nat_numeral)
  then have r: "0 \<le> r" "r < 2 ^ 62" unfolding r_def of_nat_add by simp_all
  have s64r: "s64 r = r" using r by (intro s64_id) simp_all
  have s64p: "s64 (bd_base ?d + r) = int ?p" unfolding pos using \<open>?p < 2 ^ 40\<close> by (intro s64_id) simp_all
  have "\<not> int ?p > bd_end ?d" using assms(2,4) d(2) by linarith
  then have seek: "snd (devio_lseek r 0 ?d) = ?d\<lparr>bd_offs := int ?p\<rparr>"
    unfolding devio_lseek_def Let_def by (simp add: s64p)
  have cnt: "unat (of_nat (512 * cnt) :: u32) = 512 * cnt" using assms(3) by (intro unat_of_nat_less) simp
  have read: "devio_read rd (of_nat (512 * cnt)) (?d\<lparr>bd_offs := int ?p\<rparr>) =
      (int (512 * cnt), take (512 * cnt) (drop ?p img), ?d\<lparr>bd_offs := int ?p, bd_offs := int (?p + 512 * cnt)\<rparr>)"
  proof (rule devio_read_ok)
    show "bd_base (?d\<lparr>bd_offs := int ?p\<rparr>) = int (nat (bd_base ?d))" using d(1) by simp
    show "bd_offs (?d\<lparr>bd_offs := int ?p\<rparr>) = int ?p" by simp
    show "nat (bd_base ?d) \<le> ?p" by (simp add: vol_pos_def)
    show "int ?p \<le> bd_end (?d\<lparr>bd_offs := int ?p\<rparr>)" using assms(4) d(2) by simp
    show "512 * cnt = nat (min (int (unat (of_nat (512 * cnt) :: u32))) (bd_end (?d\<lparr>bd_offs := int ?p\<rparr>) - int ?p))"
      unfolding cnt using assms(4) d(2) by simp
    show "512 * cnt < 2 ^ 31" using assms(3) by simp
    show "?p + 512 * cnt \<le> length img" by (rule assms(4))
  qed
  have "readsector rd (of_nat n) cnt buf s = (1, vol_read img s n cnt @ drop (512 * cnt) buf, s\<lparr>fs_dev := ?d\<lparr>bd_offs := int (?p + 512 * cnt)\<rparr>\<rparr>)"
    using assms(4) seek read s64r
    by (simp add: readsector_def SECTORSIZE_def sint r_def vol_read_def split_beta)
  moreover have "fat_same s (s\<lparr>fs_dev := ?d\<lparr>bd_offs := int (?p + 512 * cnt)\<rparr>\<rparr>)" by (simp add: fat_same_def)
  ultimately show ?thesis by blast
qed

end

section \<open>Table entries\<close>

text \<open>The reference: entry \<open>e\<close> is the \<open>e\<close>-th group of 12, 16 or 32 bits of the table, least significant first.\<close>

definition fat_bits :: "u8 \<Rightarrow> nat" where
  "fat_bits ty = (if ty = TYPE_FAT12 then 12 else if ty = TYPE_FAT16 then 16 else 32)"

definition fat_value :: "nat \<Rightarrow> (nat \<Rightarrow> nat) \<Rightarrow> nat \<Rightarrow> nat" where
  "fat_value bits F e =
     (let i = bits * e div 8
      in (F i + 256 * F (i + 1) + (if bits = 32 then 65536 * F (i + 2) + 16777216 * F (i + 3) else 0))
           div 2 ^ (bits * e mod 8) mod 2 ^ bits)"

definition fat_byte :: "u8 list \<Rightarrow> fat_sc \<Rightarrow> nat \<Rightarrow> nat" where
  "fat_byte img s i = unat (img ! (vol_pos s (unat (ResSectors s)) + i))"

lemma fat_byte_less: "fat_byte img s i < 256"
  by (simp add: fat_byte_def)

text \<open>The cache: no sector, or the sector of the table that is named.\<close>

definition fat_cache_ok :: "u8 list \<Rightarrow> fat_sc \<Rightarrow> bool" where
  "fat_cache_ok img s \<longleftrightarrow> length (FatBuffer s) \<le> 512 \<and>
     (FatCacheNum s = - 1 \<or> FatBuffer s = vol_read img s (unat (ResSectors s) + unat (FatCacheNum s)) 1)"

lemma vol_pos_add: "vol_pos s (n + k) = vol_pos s n + 512 * k"
  by (simp add: vol_pos_def)

lemma length_vol_read [simp]: "vol_pos s n + 512 * k \<le> length img \<Longrightarrow> length (vol_read img s n k) = 512 * k"
  by (simp add: vol_read_def)

lemma fat_buffer_nth:
  assumes "FatBuffer s' = vol_read img s (unat (ResSectors s) + k) 1" "j < 512"
    and "vol_pos s (unat (ResSectors s) + k) + 512 \<le> length img"
  shows "unat (FatBuffer s' ! j) = fat_byte img s (512 * k + j)"
  using assms by (simp add: vol_read_def fat_byte_def vol_pos_add add.assoc)

context disk
begin

lemma sector_fits:
  assumes "fat_dev img s" "vol_pos s n + i < length img"
  shows "vol_pos s (n + i div 512) + 512 \<le> length img"
proof -
  let ?p = "vol_pos s n + i"
  have "?p - ?p mod 512 + 512 \<le> length img" using block_fits [OF blocks assms(2)] by (simp add: DEV_BSIZE_def)
  moreover have "?p - ?p mod 512 = vol_pos s (n + i div 512)"
  proof -
    have "?p mod 512 = i mod 512" using vol_pos_aligned [OF assms(1), of n] by (simp add: mod_add_left_eq [symmetric])
    moreover have "i = 512 * (i div 512) + i mod 512" by simp
    ultimately show ?thesis unfolding vol_pos_add by linarith
  qed
  ultimately show ?thesis by simp
qed

lemma fill_fat_ok:
  assumes "fat_dev img s" "length (FatBuffer s) \<le> 512" "vol_pos s (unat (ResSectors s) + k) + 512 \<le> length img"
  shows "\<exists>s'. fill_fat rd (of_nat k) s = (True, s') \<and> fat_same s s' \<and> FatCacheNum s' = of_nat k \<and>
    FatBuffer s' = vol_read img s (unat (ResSectors s) + k) 1 \<and> fat_cache_ok img s'"
proof -
  let ?n = "unat (ResSectors s) + k"
  obtain d where d: "readsector rd (of_nat ?n) 1 (FatBuffer s) s = (1, vol_read img s ?n 1, s\<lparr>fs_dev := d\<rparr>)" "fat_same s (s\<lparr>fs_dev := d\<rparr>)"
    using readsector_ok [OF assms(1), of 1 ?n "FatBuffer s"] assms(2,3) by auto
  have w: "of_nat k + ucast (ResSectors s) = (of_nat ?n :: u32)" by (simp add: add.commute)
  have same: "fat_same s (s\<lparr>fs_dev := d, FatBuffer := vol_read img s ?n 1, FatCacheNum := of_nat k\<rparr>)"
    using fat_same_trans [OF d(2), of "s\<lparr>fs_dev := d, FatBuffer := vol_read img s ?n 1, FatCacheNum := of_nat k\<rparr>"] by simp
  have "vol_pos s ?n < 2 ^ 40" using assms(1,3) by (simp add: fat_dev_def)
  then have "unat (of_nat k :: u32) = k" by (intro unat_of_nat_less) (simp add: vol_pos_def)
  then show ?thesis
    unfolding fill_fat_def w d(1) using same assms(3) fat_same_simps(9) [OF same]
    by (simp add: fat_cache_ok_def)
qed

lemma fat_cached_ok:
  assumes "fat_dev img s" "fat_cache_ok img s" "vol_pos s (unat (ResSectors s) + k) + 512 \<le> length img"
  shows "\<exists>s'. fat_cached rd (of_nat k) s = (True, s') \<and> fat_same s s' \<and>
    FatBuffer s' = vol_read img s (unat (ResSectors s) + k) 1 \<and> fat_cache_ok img s'"
proof (cases "FatCacheNum s = of_nat k")
  case True
  have "vol_pos s (unat (ResSectors s) + k) < 2 ^ 40" using assms(1,3) by (simp add: fat_dev_def)
  then have k: "k < 2 ^ 31" by (simp add: vol_pos_def)
  then have u: "unat (of_nat k :: u32) = k" by (intro unat_of_nat_less) simp
  moreover have "FatCacheNum s \<noteq> - 1"
  proof
    assume "FatCacheNum s = - 1"
    with True have "unat (of_nat k :: u32) = unat (- 1 :: u32)" by simp
    with u k show False by (simp add: unsigned_minus_1_eq_mask mask_eq_exp_minus_1)
  qed
  ultimately show ?thesis using assms True by (auto simp: fat_cached_def fat_cache_ok_def)
next
  case False
  with assms fill_fat_ok [of s k] show ?thesis by (auto simp: fat_cached_def fat_cache_ok_def)
qed

lemma fat_table_bytes:
  assumes "fat_dev img s" "fat_cache_ok img s" "vol_pos s (unat (ResSectors s)) + i < length img"
  shows "\<exists>s'. fat_cached rd (of_nat (i div 512)) s = (True, s') \<and> fat_same s s' \<and> fat_cache_ok img s' \<and>
    FatBuffer s' = vol_read img s (unat (ResSectors s) + i div 512) 1 \<and>
    vol_pos s (unat (ResSectors s) + i div 512) + 512 \<le> length img"
  using fat_cached_ok [OF assms(1,2) sector_fits [OF assms(1,3)]] sector_fits [OF assms(1,3)] by blast

end

lemma word_byte_sum: "ucast (b :: u8) = (of_nat (unat b) :: u32)" "push_bit k (of_nat n :: u32) = of_nat (2 ^ k * n)"
  by (simp_all add: push_bit_eq_mult)

lemma word_div_mod_512:
  assumes "n < 2 ^ 32"
  shows "(of_nat n :: u32) div 512 = of_nat (n div 512)" "unat ((of_nat n :: u32) mod 512) = n mod 512"
proof -
  have n: "unat (of_nat n :: u32) = n" using assms by (intro unat_of_nat_less) simp
  have "unat ((of_nat n :: u32) div 512) = unat (of_nat (n div 512) :: u32)"
    using assms n by (simp add: unat_div_distrib unat_of_nat_less)
  then show "(of_nat n :: u32) div 512 = of_nat (n div 512)" by (rule word_unat_eq_iff [THEN iffD2])
  show "unat ((of_nat n :: u32) mod 512) = n mod 512" using n by (simp add: unat_mod_distrib)
qed

context disk
begin

lemma getFatEntry_16_32:
  assumes "fat_dev img s" "fat_cache_ok img s" "e < 2 ^ 28" "FatType s = TYPE_FAT16 \<or> FatType s = TYPE_FAT32"
    and "vol_pos s (unat (ResSectors s)) + fat_bits (FatType s) * e div 8 + 4 \<le> length img"
  shows "\<exists>s'. getFatEntry rd (of_nat e) s = (of_nat (fat_value (fat_bits (FatType s)) (fat_byte img s) e), s') \<and>
    fat_same s s' \<and> fat_cache_ok img s'"
proof -
  define w where "w = (if FatType s = TYPE_FAT16 then 2 else 4 :: nat)"
  have bits: "fat_bits (FatType s) = 8 * w" using assms(4) by (auto simp: w_def fat_bits_def TYPE_FAT12_def TYPE_FAT16_def TYPE_FAT32_def)
  have i: "fat_bits (FatType s) * e div 8 = w * e" "fat_bits (FatType s) * e mod 8 = 0" unfolding bits by simp_all
  have lt: "w * e < 2 ^ 32" using assms(3) by (simp add: w_def)
  have "2 * e mod (2 * 256) = 2 * (e mod 256)" "4 * e mod (4 * 128) = 4 * (e mod 128)" by (rule mult_mod_right [symmetric])+
  moreover have "e mod 256 < 256" "e mod 128 < 128" by simp_all
  ultimately have "2 * e mod 512 + 2 \<le> 512" "4 * e mod 512 + 4 \<le> 512" by simp_all
  then have off: "w * e mod 512 + w \<le> 512" by (simp add: w_def)
  have "vol_pos s (unat (ResSectors s)) + w * e < length img" using assms(5) i(1) by linarith
  from fat_table_bytes [OF assms(1,2) this] obtain s' where s': "fat_cached rd (of_nat (w * e div 512)) s = (True, s')"
      "fat_same s s'" "fat_cache_ok img s'" "FatBuffer s' = vol_read img s (unat (ResSectors s) + w * e div 512) 1"
      "vol_pos s (unat (ResSectors s) + w * e div 512) + 512 \<le> length img"
    by blast
  have byte: "unat (FatBuffer s' ! (w * e mod 512 + j)) = fat_byte img s (w * e + j)" if "w * e mod 512 + j < 512" for j
  proof -
    have "512 * (w * e div 512) + (w * e mod 512 + j) = w * e + j" by simp
    with fat_buffer_nth [OF s'(4) that s'(5)] show ?thesis by simp
  qed
  have val: "ucast (FatBuffer s' ! (w * e mod 512 + j)) = (of_nat (fat_byte img s (w * e + j)) :: u32)" if "j < w" for j
    using byte [of j] off that by (simp only: word_byte_sum(1))
  have "(of_nat e :: u32) * of_nat w = of_nat (w * e)" by simp
  note arg = this word_div_mod_512 [OF lt]
  have "getFatEntry rd (of_nat e) s = (of_nat (fat_value (fat_bits (FatType s)) (fat_byte img s) e), s')"
  proof (cases "FatType s = TYPE_FAT16")
    case True
    then have w: "w = 2" by (simp add: w_def)
    note a = arg [unfolded w of_nat_numeral]
    have v: "fat_value (fat_bits (FatType s)) (fat_byte img s) e = fat_byte img s (2 * e) + 256 * fat_byte img s (2 * e + 1)"
      using i fat_byte_less [of img s "2 * e"] fat_byte_less [of img s "2 * e + 1"] unfolding fat_value_def Let_def
      by (simp add: bits w)
    from True have t: "FatType s \<noteq> TYPE_FAT12" by (simp add: TYPE_FAT12_def TYPE_FAT16_def)
    show ?thesis
      unfolding getFatEntry_def if_not_P [OF t] if_P [OF True] Let_def a s'(1) [unfolded w] v
      using val [of 0] val [of 1] by (simp add: w push_bit_eq_mult)
  next
    case False
    then have w: "w = 4" by (simp add: w_def)
    note a = arg [unfolded w of_nat_numeral]
    have v: "fat_value (fat_bits (FatType s)) (fat_byte img s) e =
        fat_byte img s (4 * e) + 256 * fat_byte img s (4 * e + 1) + 65536 * fat_byte img s (4 * e + 2) + 16777216 * fat_byte img s (4 * e + 3)"
      using i fat_byte_less [of img s "4 * e"] fat_byte_less [of img s "4 * e + 1"] fat_byte_less [of img s "4 * e + 2"]
        fat_byte_less [of img s "4 * e + 3"] unfolding fat_value_def Let_def
      by (simp add: bits w)
    from False assms(4) have ty: "FatType s = TYPE_FAT32" by blast
    then have t: "FatType s \<noteq> TYPE_FAT12" by (simp add: TYPE_FAT12_def TYPE_FAT32_def)
    show ?thesis
      unfolding getFatEntry_def if_not_P [OF t] if_not_P [OF False] if_P [OF ty] Let_def a s'(1) [unfolded w] v
      using val [of 0] val [of 1] val [of 2] val [of 3] by (simp add: w push_bit_eq_mult)
  qed
  with s'(2,3) show ?thesis by blast
qed

end

lemma nibble_mod: "(x :: nat) < 256 \<Longrightarrow> (x + 256 * y) mod 4096 = x + 256 * (y mod 16)"
  using mod_mult2_eq [of "x + 256 * y" 256 16] by simp

lemma nibble_low: "push_bit 8 (ucast (x AND 0x0F :: u8)) = (of_nat (256 * (unat x mod 16)) :: u32)"
proof -
  have "x AND 0x0F = take_bit 4 x" by (simp add: take_bit_eq_mask mask_eq_exp_minus_1)
  then have "unat (x AND 0x0F) = unat x mod 16" by (simp add: take_bit_eq_mod unat_mod_distrib)
  then show ?thesis by (simp only: word_byte_sum) simp
qed

lemma nibble_high: "drop_bit 4 (ucast (x AND 0xF0 :: u8)) = (of_nat (unat x div 16) :: u32)"
proof -
  have drop: "drop_bit 4 (ucast y :: u32) = ucast (drop_bit 4 y)" for y :: u8
    by (rule bit_word_eqI) (auto simp: bit_simps dest: bit_imp_le_length)
  have m: "drop_bit 4 (0xF0 :: u8) = mask 4" by (simp add: mask_eq_exp_minus_1)
  have "drop_bit 4 (ucast (x AND 0xF0 :: u8) :: u32) = ucast (drop_bit 4 x AND mask 4)" unfolding drop drop_bit_and m ..
  also have "drop_bit 4 x AND mask 4 = drop_bit 4 x"
    by (rule bit_word_eqI) (auto simp: bit_drop_bit_eq bit_and_iff bit_mask_iff dest: bit_imp_le_length)
  finally show ?thesis by (simp only: word_byte_sum(1) unat_drop_bit_eq) (simp add: drop_bit_eq_div)
qed

lemma fat12_offset:
  assumes "e < 2 ^ 28"
  shows "(word_of_int (sint (((of_nat e :: u32) AND NOT 1) * 3) sdiv 2) :: u32) = of_nat (3 * (e div 2))"
    "(of_nat e :: u32) AND 1 \<noteq> 0 \<longleftrightarrow> odd e"
proof -
  show "(of_nat e :: u32) AND 1 \<noteq> 0 \<longleftrightarrow> odd e"
    by (simp add: and_one_eq odd_iff_mod_2_eq_one [symmetric] even_word_iff) 
  have u: "unat (of_nat e :: u32) = e" using assms by (intro unat_of_nat_less) simp
  have "unat (drop_bit 1 (of_nat e :: u32)) = unat (of_nat (e div 2) :: u32)"
    using assms unfolding unat_drop_bit_eq u by (simp add: drop_bit_eq_div unat_of_nat_less)
  then have "drop_bit 1 (of_nat e :: u32) = of_nat (e div 2)" by (rule word_unat_eq_iff [THEN iffD2])
  moreover have "x AND NOT 1 = push_bit 1 (drop_bit 1 x)" for x :: u32
    by (rule bit_word_eqI) (auto simp only: bit_and_iff bit_not_iff bit_push_bit_iff bit_drop_bit_eq bit_1_iff comp_def
        le_add_diff_inverse impossible_bit; simp add: Suc_le_eq)
  ultimately have "(of_nat e :: u32) AND NOT 1 = of_nat (2 * (e div 2))" by (simp add: push_bit_eq_mult)
  then have "((of_nat e :: u32) AND NOT 1) * 3 = of_nat (6 * (e div 2))" by simp
  moreover have "sint (of_nat (6 * (e div 2)) :: u32) = int (6 * (e div 2))" using assms by (intro sint_count) simp
  moreover have "int (6 * (e div 2)) sdiv 2 = int (3 * (e div 2))"
    by (cases "e div 2 = 0") (simp_all add: signed_divide_int_def sgn_if)
  ultimately have "sint (((of_nat e :: u32) AND NOT 1) * 3) sdiv 2 = int (3 * (e div 2))" by (simp only:)
  then show "(word_of_int (sint (((of_nat e :: u32) AND NOT 1) * 3) sdiv 2) :: u32) = of_nat (3 * (e div 2))"
    by (simp only: of_int_of_nat_eq)
qed

text \<open>The bit position of an entry of 12 bits, as a byte and a bit of it.\<close>

lemma fat12_bit_odd:
  fixes e :: nat
  assumes "odd e"
  shows "12 * e div 8 = 3 * (e div 2) + 1" "12 * e mod 8 = 4"
proof -
  obtain k where "e = 2 * k + 1" using assms by (rule oddE)
  moreover have "12 * (2 * k + 1) = 8 * (3 * k + 1) + (4 :: nat)" by simp
  ultimately show "12 * e div 8 = 3 * (e div 2) + 1" "12 * e mod 8 = 4"
    by (simp_all only: div_mult_self4 mod_mult_self4) simp_all
qed

lemma fat12_bit_even:
  fixes e :: nat
  assumes "even e"
  shows "12 * e div 8 = 3 * (e div 2)" "12 * e mod 8 = 0"
proof -
  obtain k where "e = 2 * k" using assms by (rule evenE)
  then show "12 * e div 8 = 3 * (e div 2)" "12 * e mod 8 = 0" by simp_all
qed

context disk
begin

lemma getFatEntry_12:
  assumes "fat_dev img s" "fat_cache_ok img s" "e < 2 ^ 28" "FatType s = TYPE_FAT12"
    and "vol_pos s (unat (ResSectors s)) + fat_bits (FatType s) * e div 8 + 4 \<le> length img"
  shows "\<exists>s'. getFatEntry rd (of_nat e) s = (of_nat (fat_value (fat_bits (FatType s)) (fat_byte img s) e), s') \<and>
    fat_same s s' \<and> fat_cache_ok img s'"
proof -
  let ?R = "unat (ResSectors s)" and ?F = "fat_byte img s"
  define b q r where "b = 3 * (e div 2)" and "q = b div 512" and "r = b mod 512"
  have bqr: "b = 512 * q + r" "r < 512" by (simp_all add: q_def r_def)
  have bits: "fat_bits (FatType s) = 12" by (simp add: assms(4) fat_bits_def)
  have "12 * e div 8 \<ge> b" unfolding b_def using fat12_bit_odd [of e] fat12_bit_even [of e] by (cases "odd e") simp_all
  with assms(5) [unfolded bits] have lim: "vol_pos s ?R + (b + 2) < length img" by linarith
  have lt: "b < 2 ^ 32" using assms(3) by (simp add: b_def)
  have w: "(of_nat b :: u32) div 512 = of_nat q" "unat ((of_nat b :: u32) mod 512) = r"
    using word_div_mod_512 [OF lt] by (simp_all add: q_def r_def)
  from lim have "vol_pos s ?R + b < length img" by linarith
  from fat_table_bytes [OF assms(1,2) this] obtain s1 where s1: "fat_cached rd (of_nat q) s = (True, s1)"
      "fat_same s s1" "fat_cache_ok img s1" "FatBuffer s1 = vol_read img s (?R + q) 1" "vol_pos s (?R + q) + 512 \<le> length img"
    unfolding q_def by blast
  note same1 = fat_same_simps [OF s1(2)]
  have next_ok: "\<exists>s2. fill_fat rd (of_nat q + 1) s1 = (True, s2) \<and> fat_same s s2 \<and> fat_cache_ok img s2 \<and>
      (\<forall>j<512. unat (FatBuffer s2 ! j) = ?F (512 * (q + 1) + j))" if "b + 2 \<ge> 512 * (q + 1)"
  proof -
    have "(b + 2) div 512 = q + 1" using that bqr by (simp add: div_nat_eqI)
    with sector_fits [OF assms(1) lim] have fit: "vol_pos s (?R + (q + 1)) + 512 \<le> length img" by metis
    have "length (FatBuffer s1) \<le> 512" using s1(3) by (simp add: fat_cache_ok_def)
    with fill_fat_ok [of s1 "q + 1"] fit assms(1) same1 obtain s2 where
      "fill_fat rd (of_nat (q + 1)) s1 = (True, s2)" "fat_same s1 s2" "FatBuffer s2 = vol_read img s (?R + (q + 1)) 1" "fat_cache_ok img s2"
      by auto
    with fat_same_trans [OF s1(2)] fat_buffer_nth [of s2 img s "q + 1", OF _ _ fit] show ?thesis by (auto simp: add.commute)
  qed
  have F1: "unat (FatBuffer s1 ! j) = ?F (512 * q + j)" if "j < 512" for j
    by (rule fat_buffer_nth [OF s1(4) that s1(5)])
  have val: "fat_value (fat_bits (FatType s)) ?F e = (if odd e then ?F (b + 1) div 16 + 16 * ?F (b + 2) else ?F b + 256 * (?F (b + 1) mod 16))"
  proof (cases "odd e")
    case True
    then have "12 * e div 8 = b + 1" "12 * e mod 8 = 4" unfolding b_def by (rule fat12_bit_odd)+
    with True fat_byte_less [of img s "b + 1"] fat_byte_less [of img s "b + 2"] show ?thesis by (simp add: fat_value_def bits Let_def)
  next
    case False
    then have "12 * e div 8 = b" "12 * e mod 8 = 0" unfolding b_def by (simp_all add: fat12_bit_even)
    moreover have "(?F b + 256 * ?F (b + 1)) mod 4096 = ?F b + 256 * (?F (b + 1) mod 16)"
      by (rule nibble_mod [OF fat_byte_less])
    ultimately show ?thesis using False by (simp add: fat_value_def bits Let_def)
  qed
  have res: "(if odd e then (push_bit 4 (ucast b3) + drop_bit 4 (ucast (b2 AND 0xF0)), t)
              else (push_bit 8 (ucast (b2 AND 0x0F)) + ucast b1, t)) = (of_nat (fat_value (fat_bits (FatType s)) ?F e) :: u32, t)"
    if "unat b1 = ?F b" "unat b2 = ?F (b + 1)" "unat b3 = ?F (b + 2)" for b1 b2 b3 :: u8 and t :: fat_sc
    unfolding val nibble_high nibble_low word_byte_sum(1) [of b3] word_byte_sum(1) [of b1] word_byte_sum(2) that
    by (simp add: add.commute)
  note start = getFatEntry_def fat12_entry_def if_P [OF assms(4)] Let_def fat12_offset [OF assms(3)] b_def [symmetric] w s1(1) SECTORSIZE_def
  consider "r = 511" | "r = 510" | "r < 510" using bqr(2) by linarith
  then show ?thesis
  proof cases
    case 1
    obtain s2 where s2: "fill_fat rd (of_nat q + 1) s1 = (True, s2)" "fat_same s s2" "fat_cache_ok img s2"
        "\<forall>j<512. unat (FatBuffer s2 ! j) = ?F (512 * (q + 1) + j)" using next_ok 1 bqr by auto
    have "getFatEntry rd (of_nat e) s = (of_nat (fat_value (fat_bits (FatType s)) ?F e), s2)"
      unfolding start using 1 bqr s2(1) F1 [of 511] s2(4) res [of "FatBuffer s1 ! 511" "FatBuffer s2 ! 0" "FatBuffer s2 ! Suc 0" s2]
      by (cases "odd e") (simp_all add: ac_simps)
    with s2 show ?thesis by blast
  next
    case 2
    obtain s2 where s2: "fill_fat rd (of_nat q + 1) s1 = (True, s2)" "fat_same s s2" "fat_cache_ok img s2"
        "\<forall>j<512. unat (FatBuffer s2 ! j) = ?F (512 * (q + 1) + j)" using next_ok 2 bqr by auto
    have "getFatEntry rd (of_nat e) s = (of_nat (fat_value (fat_bits (FatType s)) ?F e), s2)"
      unfolding start using 2 bqr s2(1) F1 [of 510] F1 [of 511] s2(4) res [of "FatBuffer s1 ! 510" "FatBuffer s1 ! 511" "FatBuffer s2 ! 0" s2]
      by (cases "odd e") (simp_all add: ac_simps)
    with s2 show ?thesis by blast
  next
    case 3
    have "getFatEntry rd (of_nat e) s = (of_nat (fat_value (fat_bits (FatType s)) ?F e), s1)"
      unfolding start using 3 bqr F1 [of r] F1 [of "r + 1"] F1 [of "r + 2"]
        res [of "FatBuffer s1 ! r" "FatBuffer s1 ! (r + 1)" "FatBuffer s1 ! (r + 2)" s1]
      by (cases "odd e") (simp_all add: nat_add_distrib)
    with s1 show ?thesis by blast
  qed
qed

lemma getFatEntry_ok:
  assumes "fat_dev img s" "fat_cache_ok img s" "e < 2 ^ 28" "FatType s \<in> {TYPE_FAT12, TYPE_FAT16, TYPE_FAT32}"
    and "vol_pos s (unat (ResSectors s)) + fat_bits (FatType s) * e div 8 + 4 \<le> length img"
  shows "\<exists>s'. getFatEntry rd (of_nat e) s = (of_nat (fat_value (fat_bits (FatType s)) (fat_byte img s) e), s') \<and>
    fat_same s s' \<and> fat_cache_ok img s'"
  using assms getFatEntry_12 [of s e] getFatEntry_16_32 [of s e] by blast

end

section \<open>Chains\<close>

definition next_cluster :: "u8 list \<Rightarrow> fat_sc \<Rightarrow> nat \<Rightarrow> nat" where
  "next_cluster img s c = fat_value (fat_bits (FatType s)) (fat_byte img s) c"

text \<open>A cluster whose entry is on the device.\<close>

definition fat_entry_in :: "u8 list \<Rightarrow> fat_sc \<Rightarrow> nat \<Rightarrow> bool" where
  "fat_entry_in img s c \<longleftrightarrow> c < 2 ^ 28 \<and> vol_pos s (unat (ResSectors s)) + fat_bits (FatType s) * c div 8 + 4 \<le> length img"

text \<open>Every cluster of the list names the next one, and the last has an end mark.\<close>

fun fat_links :: "(nat \<Rightarrow> nat) \<Rightarrow> nat \<Rightarrow> nat list \<Rightarrow> bool" where
  "fat_links nx m [] = False"
| "fat_links nx m [c] = (m \<le> nx c)"
| "fat_links nx m (c # c' # cs) = (nx c = c' \<and> c' < m \<and> fat_links nx m (c' # cs))"

definition fat_ready :: "u8 list \<Rightarrow> fat_sc \<Rightarrow> bool" where
  "fat_ready img s \<longleftrightarrow> fat_dev img s \<and> fat_cache_ok img s \<and> FatType s \<in> {TYPE_FAT12, TYPE_FAT16, TYPE_FAT32}"

lemma next_cluster_less: "next_cluster img s c < 2 ^ 32"
proof -
  have "next_cluster img s c < 2 ^ fat_bits (FatType s)" by (simp add: next_cluster_def fat_value_def Let_def)
  also have "(2 :: nat) ^ fat_bits (FatType s) \<le> 2 ^ 32" by (intro power_increasing) (simp_all add: fat_bits_def)
  finally show ?thesis .
qed

lemma fat_same_next:
  assumes "fat_same s s'"
  shows "next_cluster img s' = next_cluster img s" "fat_entry_in img s' = fat_entry_in img s"
  using fat_same_simps [OF assms]
  by (simp_all add: fun_eq_iff next_cluster_def fat_entry_in_def fat_byte_def [abs_def])

lemma fat_mask_less: "unat (fat_mask s) < 2 ^ 28"
  by (simp add: fat_mask_def)

context disk
begin

lemma next_entry:
  assumes "fat_ready img s" "fat_entry_in img s c"
  shows "\<exists>s'. getFatEntry rd (of_nat c) s = (of_nat (next_cluster img s c), s') \<and> fat_same s s' \<and> fat_ready img s'"
proof -
  obtain s' where "getFatEntry rd (of_nat c) s = (of_nat (next_cluster img s c), s')" and same: "fat_same s s'" and "fat_cache_ok img s'"
    using getFatEntry_ok [of s c] assms unfolding fat_ready_def fat_entry_in_def next_cluster_def by blast
  with assms(1) fat_same_simps [OF same] show ?thesis by (auto simp: fat_ready_def)
qed

lemma mask_le: "fat_mask s \<le> of_nat (next_cluster img t c) \<longleftrightarrow> unat (fat_mask s) \<le> next_cluster img t c"
  using next_cluster_less [of img t c] by (simp add: word_le_nat_alt unat_of_nat_less)

lemma chain_count_ok:
  assumes "fat_ready img s" "fat_links (next_cluster img s) (unat msk) (c # cs)" "\<forall>x\<in>set (c # cs). fat_entry_in img s x" "msk = fat_mask s"
  shows "\<exists>s'. chain_count rd msk (of_nat c) n s = Some (n + length cs, s') \<and> fat_same s s' \<and> fat_ready img s'"
  using assms
proof (induction cs arbitrary: c n s)
  case Nil
  obtain s' where s': "getFatEntry rd (of_nat c) s = (of_nat (next_cluster img s c), s')" "fat_same s s'" "fat_ready img s'"
    using next_entry [OF Nil.prems(1), of c] Nil.prems(3) by auto
  moreover have "msk \<le> of_nat (next_cluster img s c)" using Nil.prems(2,4) by (simp add: mask_le)
  ultimately show ?case
    unfolding chain_count.simps [of rd msk "of_nat c"] s'(1) Let_def fst_conv snd_conv by simp
next
  case (Cons c' cs)
  obtain s' where s': "getFatEntry rd (of_nat c) s = (of_nat c', s')" "fat_same s s'" "fat_ready img s'"
    using next_entry [OF Cons.prems(1), of c] Cons.prems(2,3) by auto
  note same = fat_same_next [OF s'(2)] fat_same_simps(10) [OF s'(2)]
  have m: "\<not> msk \<le> of_nat c'" using Cons.prems(2,4) mask_le [of s s c] by auto
  obtain s'' where "chain_count rd msk (of_nat c') (n + 1) s' = Some (n + 1 + length cs, s'')" "fat_same s' s''" "fat_ready img s''"
    using Cons.IH [of s' c' "n + 1"] s'(3) Cons.prems(2-4) same by auto
  moreover from this have "fat_same s s''" by (blast intro: fat_same_trans s'(2))
  ultimately show ?case
    unfolding chain_count.simps [of rd msk "of_nat c"] s'(1) Let_def fst_conv snd_conv if_not_P [OF m] by simp
qed

lemma chain_fill_ok:
  assumes "fat_ready img s" "fat_links (next_cluster img s) (unat msk) (c # cs)" "\<forall>x\<in>set (c # cs). fat_entry_in img s x" "msk = fat_mask s"
  shows "\<exists>s'. chain_fill rd msk (of_nat c) es s = Some (es @ map of_nat cs, s') \<and> fat_same s s' \<and> fat_ready img s'"
  using assms
proof (induction cs arbitrary: c es s)
  case Nil
  obtain s' where s': "getFatEntry rd (of_nat c) s = (of_nat (next_cluster img s c), s')" "fat_same s s'" "fat_ready img s'"
    using next_entry [OF Nil.prems(1), of c] Nil.prems(3) by auto
  moreover have "msk \<le> of_nat (next_cluster img s c)" using Nil.prems(2,4) by (simp add: mask_le)
  ultimately show ?case
    unfolding chain_fill.simps [of rd msk "of_nat c"] s'(1) Let_def fst_conv snd_conv by simp
next
  case (Cons c' cs)
  obtain s' where s': "getFatEntry rd (of_nat c) s = (of_nat c', s')" "fat_same s s'" "fat_ready img s'"
    using next_entry [OF Cons.prems(1), of c] Cons.prems(2,3) by auto
  note same = fat_same_next [OF s'(2)] fat_same_simps(10) [OF s'(2)]
  have m: "\<not> msk \<le> of_nat c'" using Cons.prems(2,4) mask_le [of s s c] by auto
  obtain s'' where "chain_fill rd msk (of_nat c') (es @ [of_nat c']) s' = Some (es @ of_nat c' # map of_nat cs, s'')" "fat_same s' s''" "fat_ready img s''"
    using Cons.IH [of s' c' "es @ [of_nat c']"] s'(3) Cons.prems(2-4) same by auto
  moreover from this have "fat_same s s''" by (blast intro: fat_same_trans s'(2))
  ultimately show ?case
    unfolding chain_fill.simps [of rd msk "of_nat c"] s'(1) Let_def fst_conv snd_conv if_not_P [OF m] by simp
qed

lemma fat_getChain_ok:
  assumes "fat_ready img s" "fat_links (next_cluster img s) (unat (fat_mask s)) (c # cs)" "\<forall>x\<in>set (c # cs). fat_entry_in img s x"
  shows "\<exists>s'. fat_getChain rd (of_nat c) s = Some (\<lparr>ch_start = of_nat c, ch_entries = map of_nat (c # cs), ch_count = length (c # cs)\<rparr>, s') \<and>
    fat_same s s' \<and> fat_ready img s'"
proof -
  obtain s1 where s1: "chain_count rd (fat_mask s) (of_nat c) 0 s = Some (length cs, s1)" "fat_same s s1" "fat_ready img s1"
    using chain_count_ok [OF assms refl, of 0] unfolding add_0 by blast
  obtain s2 where s2: "chain_fill rd (fat_mask s) (of_nat c) [of_nat c] s1 = Some (of_nat c # map of_nat cs, s2)" "fat_same s1 s2" "fat_ready img s2"
    using chain_fill_ok [OF s1(3), of "fat_mask s" c cs "[of_nat c]"] assms
    unfolding fat_same_next [OF s1(2)] fat_same_simps(10) [OF s1(2)] append_Cons append_Nil by blast
  show ?thesis
    unfolding fat_getChain_def s1(1) option.case prod.case s2(1) using s2(3) fat_same_trans [OF s1(2) s2(2)] by simp
qed

lemma chain_count_cyclic:
  assumes "chain_count rd msk flag n s = Some r"
    and "fat_ready img s" "msk = fat_mask s" "flag = of_nat c" "c \<in> C"
    and "\<forall>c\<in>C. fat_entry_in img s c \<and> next_cluster img s c \<in> C \<and> next_cluster img s c < unat (fat_mask s)"
  shows False
proof -
  define P where "P = (\<lambda>rd' (msk :: u32) (flag :: u32) (n :: nat) s (r :: nat \<times> fat_sc). rd' = rd \<longrightarrow> (\<forall>c. fat_ready img s \<and> msk = fat_mask s \<and> flag = of_nat c \<and> c \<in> C \<and>
      (\<forall>c\<in>C. fat_entry_in img s c \<and> next_cluster img s c \<in> C \<and> next_cluster img s c < unat (fat_mask s)) \<longrightarrow> False))"
  have "P rd msk flag n s r"
  proof (rule chain_count.raw_induct [of P, OF _ assms(1)], goal_cases)
    case (1 f rd' msk flag n s r)
    show ?case unfolding P_def
    proof (intro impI allI, elim conjE)
      fix c assume rd': "rd' = rd" and a: "fat_ready img s" "msk = fat_mask s" "flag = of_nat c" "c \<in> C"
        and C: "\<forall>c\<in>C. fat_entry_in img s c \<and> next_cluster img s c \<in> C \<and> next_cluster img s c < unat (fat_mask s)"
      obtain s' where s': "getFatEntry rd flag s = (of_nat (next_cluster img s c), s')" "fat_same s s'" "fat_ready img s'"
        using next_entry [OF a(1), of c] a(3,4) C by blast
      have "\<not> msk \<le> of_nat (next_cluster img s c)" using C a(2,4) mask_le [of s s c] by auto
      with 1(2) s'(1) have "f rd' msk (of_nat (next_cluster img s c)) (n + 1) s' = Some r" by (simp add: rd' Let_def)
      from 1(1) [OF this, unfolded P_def] rd' have "\<not> (fat_ready img s' \<and> msk = fat_mask s' \<and> next_cluster img s c \<in> C \<and>
        (\<forall>c\<in>C. fat_entry_in img s' c \<and> next_cluster img s' c \<in> C \<and> next_cluster img s' c < unat (fat_mask s')))" by blast
      with s'(3) a C fat_same_next [OF s'(2)] fat_same_simps(10) [OF s'(2)] show False by auto
    qed
  qed
  with assms(2-6) show False unfolding P_def by blast
qed

end

section \<open>Properties\<close>

text \<open>C4. An entry of the allocation table is the group of 12, 16 or 32 bits of the table at its number, on
  both sides of a sector boundary, and the cache of one sector stays what it says. (The driver is an array of
  blocks, the entry is on the device.)\<close>

theorem fat_entry_value:
  assumes "disk rd img" "fat_dev img s" "fat_cache_ok img s" "e < 2 ^ 28" "FatType s \<in> {TYPE_FAT12, TYPE_FAT16, TYPE_FAT32}"
    and "vol_pos s (unat (ResSectors s)) + fat_bits (FatType s) * e div 8 + 4 \<le> length img"
  shows "\<exists>s'. getFatEntry rd (of_nat e) s = (of_nat (fat_value (fat_bits (FatType s)) (fat_byte img s) e), s') \<and>
    fat_same s s' \<and> fat_cache_ok img s'"
  using assms by (rule disk.getFatEntry_ok)

text \<open>A volume in memory: FAT16, one reserved sector, clusters of one sector from sector 3 on.\<close>

definition demo_file :: ramfile where
  "demo_file = \<lparr>rf_base = 0x80400000, rf_size = 0x1000\<rparr>"

definition demo_vol :: "mem \<Rightarrow> loopdev" where
  "demo_vol m = loop_attach demo_file m"

definition demo_fs :: fat_sc where
  "demo_fs = (fat_zero \<lparr>bd_offs = 0, bd_base = 0, bd_end = 2 ^ 61\<rparr>)\<lparr>FatType := TYPE_FAT16, SecPerClust := 1, ResSectors := 1,
     FatCacheNum := - 1, DataSectorBase := 3, LastSector := - 1\<rparr>"

lemma demo_vol_disk: "disk (loopdev_read (demo_vol m)) (loop_img (demo_vol m))"
  unfolding demo_vol_def by (rule loop_disk.disk_axioms)

lemma length_demo_vol [simp]: "length (loop_img (demo_vol m)) = 4096"
  by (simp add: length_loop_img demo_vol_def loop_attach_def demo_file_def DEV_BSIZE_def)

lemma nth_demo_vol: "i < 4096 \<Longrightarrow> loop_img (demo_vol m) ! i = m (0x80400000 + of_nat i)"
  by (simp add: loop_img_def demo_vol_def loop_attach_def demo_file_def DEV_BSIZE_def load_bytes_nth)

lemma demo_fs_simps: "vol_pos demo_fs n = 512 * n" "FatType demo_fs = TYPE_FAT16" "fat_bits TYPE_FAT16 = 16"
  "ResSectors demo_fs = 1" "fat_mask demo_fs = 0xFFF8"
  by (simp_all add: vol_pos_def demo_fs_def fat_zero_def fat_bits_def fat_mask_def TYPE_FAT12_def TYPE_FAT16_def)

lemma demo_ready: "fat_ready (loop_img (demo_vol m)) demo_fs"
  unfolding fat_ready_def fat_dev_def fat_cache_ok_def length_demo_vol demo_fs_simps
  by (simp add: demo_fs_def fat_zero_def SECTORSIZE_def)

lemma demo_next:
  assumes "c < 256"
  shows "next_cluster (loop_img (demo_vol m)) demo_fs c =
    unat (m (0x80400200 + of_nat (2 * c))) + 256 * unat (m (0x80400201 + of_nat (2 * c)))"
proof -
  have byte: "fat_byte (loop_img (demo_vol m)) demo_fs i = unat (m (0x80400200 + of_nat i))" if "i < 512" for i
    using that by (simp add: fat_byte_def demo_fs_simps nth_demo_vol)
  have i: "16 * c div 8 = 2 * c" "16 * c mod 8 = 0" by simp_all
  have "next_cluster (loop_img (demo_vol m)) demo_fs c =
      (fat_byte (loop_img (demo_vol m)) demo_fs (2 * c) + 256 * fat_byte (loop_img (demo_vol m)) demo_fs (2 * c + 1)) mod 65536"
    unfolding next_cluster_def fat_value_def demo_fs_simps Let_def i by simp
  moreover have "x < 256 \<Longrightarrow> y < 256 \<Longrightarrow> (x + 256 * y) mod 65536 = x + 256 * y" for x y :: nat by simp
  ultimately have "next_cluster (loop_img (demo_vol m)) demo_fs c =
      fat_byte (loop_img (demo_vol m)) demo_fs (2 * c) + 256 * fat_byte (loop_img (demo_vol m)) demo_fs (2 * c + 1)"
    using fat_byte_less by metis
  also have "fat_byte (loop_img (demo_vol m)) demo_fs (2 * c) = unat (m (0x80400200 + of_nat (2 * c)))"
    by (rule byte) (use assms in simp)
  also have "fat_byte (loop_img (demo_vol m)) demo_fs (2 * c + 1) = unat (m (0x80400200 + of_nat (2 * c + 1)))"
    by (rule byte) (use assms in simp)
  also have "0x80400200 + of_nat (2 * c + 1) = (0x80400201 + of_nat (2 * c) :: u32)" by simp
  finally show ?thesis .
qed

lemma demo_entry_in: "c < 256 \<Longrightarrow> fat_entry_in (loop_img (demo_vol m)) demo_fs c"
  by (simp add: fat_entry_in_def demo_fs_simps)

definition demo_table :: mem where
  "demo_table = (\<lambda>_. 0)(0x80400204 := 3, 0x80400206 := 0xFF, 0x80400207 := 0xFF)"

lemma demo_table_next:
  "next_cluster (loop_img (demo_vol demo_table)) demo_fs 2 = 3" "next_cluster (loop_img (demo_vol demo_table)) demo_fs 3 = 0xFFFF"
  by (simp_all add: demo_next demo_table_def)

theorem fat_entry_value_witness:
  "fst (getFatEntry (loopdev_read (demo_vol demo_table)) 2 demo_fs) = 3"
proof -
  let ?img = "loop_img (demo_vol demo_table)"
  from demo_ready have "fat_dev ?img demo_fs" "fat_cache_ok ?img demo_fs" by (simp_all add: fat_ready_def)
  with fat_entry_value [OF demo_vol_disk [of demo_table], of demo_fs 2] demo_table_next(1) show ?thesis
    by (auto simp: demo_fs_simps next_cluster_def)
qed

text \<open>C5. The chain of a file is the list of the clusters from its first one to the one with an end mark,
  in order, and its count is the number of clusters.\<close>

theorem fat_chain_complete:
  assumes "disk rd img" "fat_ready img s" "fat_links (next_cluster img s) (unat (fat_mask s)) (c # cs)"
    and "\<forall>x\<in>set (c # cs). fat_entry_in img s x"
  shows "\<exists>s'. fat_getChain rd (of_nat c) s = Some (\<lparr>ch_start = of_nat c, ch_entries = map of_nat (c # cs), ch_count = length (c # cs)\<rparr>, s') \<and>
    fat_same s s' \<and> fat_ready img s'"
  using assms by (rule disk.fat_getChain_ok)

theorem fat_chain_complete_witness:
  "\<exists>s'. fat_getChain (loopdev_read (demo_vol demo_table)) 2 demo_fs = Some (\<lparr>ch_start = 2, ch_entries = [2, 3], ch_count = 2\<rparr>, s')"
  using fat_chain_complete [OF demo_vol_disk demo_ready, of demo_table 2 "[3]"]
  by (auto simp: demo_table_next demo_entry_in demo_fs_simps)

text \<open>A chain that never comes to an end mark, as the entries of a damaged table may form, is followed for
  ever: the call has no result.\<close>

theorem fat_chain_cyclic:
  assumes "disk rd img" "fat_ready img s" "c \<in> C"
    and "\<forall>c\<in>C. fat_entry_in img s c \<and> next_cluster img s c \<in> C \<and> next_cluster img s c < unat (fat_mask s)"
  shows "fat_getChain rd (of_nat c) s = None"
proof (cases "chain_count rd (fat_mask s) (of_nat c) 0 s")
  case None
  then show ?thesis by (simp add: fat_getChain_def)
next
  case (Some r)
  from disk.chain_count_cyclic [OF assms(1) this assms(2) refl refl assms(3,4)] show ?thesis ..
qed

theorem fat_chain_cyclic_witness:
  "fat_getChain (loopdev_read (demo_vol ((\<lambda>_. 0)(0x80400204 := 3, 0x80400206 := 2)))) 2 demo_fs = None"
proof -
  let ?m = "(\<lambda>_. 0)(0x80400204 := 3, 0x80400206 := 2) :: mem"
  have "next_cluster (loop_img (demo_vol ?m)) demo_fs 2 = 3" "next_cluster (loop_img (demo_vol ?m)) demo_fs 3 = 2"
    by (simp_all add: demo_next)
  then have "fat_getChain (loopdev_read (demo_vol ?m)) (of_nat 2) demo_fs = None"
    by (intro fat_chain_cyclic [OF demo_vol_disk demo_ready, where C = "{2, 3}"]) (simp_all add: demo_entry_in demo_fs_simps)
  then show ?thesis by simp
qed

end
