(* ===== verification/Fat_Read.thy ===== *)
theory Fat_Read
  imports Fat_Table
begin

text \<open>
  Reading a file of the FAT file system: the contents of a file are the bytes of its clusters, a read at
  any position returns them through the sector buffer or in runs of sectors, and a read after a run and
  a seek back may return what the sector buffer held before.
\<close>

section \<open>The contents of a file\<close>

definition file_sector :: "fat_sc \<Rightarrow> nat list \<Rightarrow> nat \<Rightarrow> nat" where
  "file_sector s cs i = unat (DataSectorBase s) + (cs ! (i div unat (SecPerClust s)) - 2) * unat (SecPerClust s) + i mod unat (SecPerClust s)"

definition file_sectors :: "fat_sc \<Rightarrow> nat list \<Rightarrow> nat" where
  "file_sectors s cs = length cs * unat (SecPerClust s)"

definition cluster_bytes :: "u8 list \<Rightarrow> fat_sc \<Rightarrow> nat \<Rightarrow> u8 list" where
  "cluster_bytes img s c = vol_read img s (unat (DataSectorBase s) + (c - 2) * unat (SecPerClust s)) (unat (SecPerClust s))"

definition file_bytes :: "u8 list \<Rightarrow> fat_sc \<Rightarrow> nat list \<Rightarrow> u8 list" where
  "file_bytes img s cs = take (unat (fe_FileSize (file_of s))) (concat (map (cluster_bytes img s) cs))"

text \<open>The open file has the clusters \<open>cs\<close>, different ones that are on the device and hold its size.\<close>

definition fat_file :: "u8 list \<Rightarrow> fat_sc \<Rightarrow> nat list \<Rightarrow> bool" where
  "fat_file img s cs \<longleftrightarrow> fat_dev img s \<and> 0 < unat (SecPerClust s) \<and> distinct cs \<and>
     fe_Chain (file_of s) = \<lparr>ch_start = ch_start (fe_Chain (file_of s)), ch_entries = map of_nat cs, ch_count = length cs\<rparr> \<and>
     (\<forall>c\<in>set cs. 2 \<le> c \<and> c < 2 ^ 28 \<and> vol_pos s (unat (DataSectorBase s) + (c - 1) * unat (SecPerClust s)) \<le> length img) \<and>
     unat (fe_FileSize (file_of s)) \<le> 512 * file_sectors s cs"

text \<open>The sector buffer: nothing, or the sector that is named.\<close>

definition last_ok :: "u8 list \<Rightarrow> fat_sc \<Rightarrow> bool" where
  "last_ok img s \<longleftrightarrow> length (LastSectorBuffer s) \<le> 512 \<and>
     (LastSector s = - 1 \<or> LastSectorBuffer s = vol_read img s (unat (LastSector s)) 1)"

lemma fat_file_simps:
  assumes "fat_file img s cs"
  shows "fat_dev img s" "0 < unat (SecPerClust s)" "distinct cs" "ch_entries (fe_Chain (file_of s)) = map of_nat cs"
    "ch_count (fe_Chain (file_of s)) = length cs" "unat (fe_FileSize (file_of s)) \<le> 512 * file_sectors s cs"
proof -
  have "fe_Chain (file_of s) = \<lparr>ch_start = ch_start (fe_Chain (file_of s)), ch_entries = map of_nat cs, ch_count = length cs\<rparr>"
    using assms by (simp add: fat_file_def)
  then show "ch_entries (fe_Chain (file_of s)) = map of_nat cs" "ch_count (fe_Chain (file_of s)) = length cs"
    by (metis fatchain.select_convs)+
qed (use assms in \<open>simp_all add: fat_file_def\<close>)

lemma fat_same_file:
  assumes "fat_same s s'"
  shows "fat_file img s' cs = fat_file img s cs" "file_sector s' cs = file_sector s cs" "file_sectors s' cs = file_sectors s cs"
    "file_bytes img s' cs = file_bytes img s cs"
proof -
  note simps = fat_same_simps [OF assms]
  show sec: "file_sectors s' cs = file_sectors s cs" by (simp add: file_sectors_def simps)
  show "file_sector s' cs = file_sector s cs" by (simp add: file_sector_def [abs_def] simps)
  show "fat_file img s' cs = fat_file img s cs" by (simp add: fat_file_def simps sec)
  show "file_bytes img s' cs = file_bytes img s cs" by (simp add: file_bytes_def cluster_bytes_def [abs_def] simps)
qed

lemma cluster_in: "i < file_sectors s cs \<Longrightarrow> i div unat (SecPerClust s) < length cs"
  by (simp add: file_sectors_def less_mult_imp_div_less)

lemma cluster_ok:
  assumes f: "fat_file img s cs" and "i < file_sectors s cs"
  shows "2 \<le> cs ! (i div unat (SecPerClust s))" "cs ! (i div unat (SecPerClust s)) < 2 ^ 28"
    "vol_pos s (unat (DataSectorBase s) + (cs ! (i div unat (SecPerClust s)) - 1) * unat (SecPerClust s)) \<le> length img"
  using f cluster_in [OF assms(2)] by (auto simp: fat_file_def)

lemma sector_below:
  assumes f: "fat_file img s cs" and "i < file_sectors s cs"
  shows "file_sector s cs i < unat (DataSectorBase s) + (cs ! (i div unat (SecPerClust s)) - 1) * unat (SecPerClust s)"
proof -
  let ?n = "unat (SecPerClust s)" and ?c = "cs ! (i div unat (SecPerClust s))"
  have "i mod ?n < ?n" using fat_file_simps(2) [OF f] by simp
  moreover have "(?c - 1) * ?n = (?c - 2) * ?n + ?n" 
  proof -
    have "?c - 1 = Suc (?c - 2)" using cluster_ok(1) [OF assms] by simp
    then show ?thesis by (simp only: mult_Suc add.commute)
  qed
  ultimately show ?thesis by (simp add: file_sector_def)
qed

lemma sector_in:
  assumes f: "fat_file img s cs" and "i < file_sectors s cs"
  shows "vol_pos s (file_sector s cs i) + 512 \<le> length img" "file_sector s cs i < 2 ^ 31"
proof -
  show fit: "vol_pos s (file_sector s cs i) + 512 \<le> length img"
    using sector_below [OF assms] cluster_ok(3) [OF assms] by (simp add: vol_pos_def)
  have "length img \<le> 2 ^ 40" using fat_file_simps(1) [OF f] by (simp add: fat_dev_def)
  with fit show "file_sector s cs i < 2 ^ 31" by (simp add: vol_pos_def)
qed

lemma getSectorIndex_file:
  assumes f: "fat_file img s cs" and "i < file_sectors s cs"
  shows "getSectorIndex_read s (fe_Chain (file_of s)) i = Some (of_nat (file_sector s cs i))"
proof -
  let ?n = "unat (SecPerClust s)" and ?c = "cs ! (i div unat (SecPerClust s))"
  have "(of_nat ?c - 2 :: u32) = of_nat (?c - 2)" using cluster_ok(1) [OF assms] by (simp add: of_nat_diff)
  moreover have "(ucast (SecPerClust s) :: u32) = of_nat ?n" by simp
  ultimately have "chain_sector s (of_nat ?c) (i mod ?n) = of_nat (file_sector s cs i)"
    unfolding chain_sector_def file_sector_def by (simp only: of_nat_add of_nat_mult of_nat_unat ucast_id)
  then show ?thesis
    using fat_file_simps(2) [OF f] cluster_in [OF assms(2)] fat_file_simps(4,5) [OF f] by (simp add: getSectorIndex_read_def Let_def)
qed

lemma sector_inject:
  assumes f: "fat_file img s cs" and "i < file_sectors s cs" "j < file_sectors s cs" "file_sector s cs i = file_sector s cs j"
  shows "i = j"
proof -
  let ?n = "unat (SecPerClust s)"
  have n: "0 < ?n" by (rule fat_file_simps(2) [OF f])
  have split: "((a * ?n + r) div ?n, (a * ?n + r) mod ?n) = (a, r)" if "r < ?n" for a r :: nat using that by simp
  have "(cs ! (i div ?n) - 2) * ?n + i mod ?n = (cs ! (j div ?n) - 2) * ?n + j mod ?n"
    using assms(4) unfolding file_sector_def by linarith
  then have eq: "(cs ! (i div ?n) - 2, i mod ?n) = (cs ! (j div ?n) - 2, j mod ?n)"
    using split [OF mod_less_divisor [OF n], of "cs ! (i div ?n) - 2" i] split [OF mod_less_divisor [OF n], of "cs ! (j div ?n) - 2" j]
    by (simp only:)
  then have m: "i mod ?n = j mod ?n" by (simp only: prod.inject)
  have "cs ! (i div ?n) = cs ! (j div ?n)"
    using eq cluster_ok(1) [OF f assms(2)] cluster_ok(1) [OF f assms(3)] unfolding prod.inject by linarith
  with fat_file_simps(3) [OF f] cluster_in [OF assms(2)] cluster_in [OF assms(3)] have "i div ?n = j div ?n"
    by (simp add: nth_eq_iff_index_eq)
  with m show "i = j" by (metis div_mult_mod_eq)
qed

lemma vol_read_take:
  "k \<le> n \<Longrightarrow> take (512 * k) (vol_read img s m n) = vol_read img s m k"
  by (simp add: vol_read_def min_def)

lemma vol_read_drop: "vol_read img s m n = vol_read img s m k @ vol_read img s (m + k) (n - k)" if "k \<le> n"
proof -
  have "512 * n = 512 * k + 512 * (n - k)" using that by simp
  then show ?thesis unfolding vol_read_def vol_pos_add by (simp only: take_add drop_drop add.commute)
qed

lemma concat_nth_block:
  assumes "\<forall>x\<in>set xs. length (f x) = k" "i < length xs * k" "0 < k"
  shows "concat (map f xs) ! i = f (xs ! (i div k)) ! (i mod k)"
  using assms
proof (induction xs arbitrary: i)
  case (Cons x xs)
  show ?case
  proof (cases "i < k")
    case False
    then have "i div k = Suc ((i - k) div k)" "i mod k = (i - k) mod k" using Cons.prems(3) by (simp_all add: le_div_geq le_mod_geq)
    with False Cons.IH [of "i - k"] Cons.prems show ?thesis by (simp add: nth_append)
  qed (use Cons.prems in \<open>simp add: nth_append\<close>)
qed simp

text \<open>The byte of a file at a position is the byte of its sector.\<close>

lemma length_clusters:
  assumes f: "fat_file img s cs"
  shows "\<forall>c\<in>set cs. length (cluster_bytes img s c) = 512 * unat (SecPerClust s)"
    "length (concat (map (cluster_bytes img s) cs)) = 512 * file_sectors s cs"
    "length (file_bytes img s cs) = unat (fe_FileSize (file_of s))"
proof -
  let ?n = "unat (SecPerClust s)"
  show c: "\<forall>c\<in>set cs. length (cluster_bytes img s c) = 512 * ?n"
  proof
    fix c assume "c \<in> set cs"
    then have "2 \<le> c" "vol_pos s (unat (DataSectorBase s) + (c - 1) * ?n) \<le> length img" using f by (simp_all add: fat_file_def)
    moreover have "(c - 1) * ?n = (c - 2) * ?n + ?n"
    proof -
      have "c - 1 = Suc (c - 2)" using \<open>2 \<le> c\<close> by simp
      then show ?thesis by (simp only: mult_Suc add.commute)
    qed
    ultimately show "length (cluster_bytes img s c) = 512 * ?n"
      unfolding cluster_bytes_def by (intro length_vol_read) (simp add: vol_pos_def)
  qed
  have len: "length (concat (map g xs)) = length xs * k" if "\<forall>x\<in>set xs. length (g x) = k" for g :: "nat \<Rightarrow> u8 list" and xs k
    using that by (induction xs) auto
  show l: "length (concat (map (cluster_bytes img s) cs)) = 512 * file_sectors s cs"
    unfolding len [OF c] file_sectors_def by simp
  show "length (file_bytes img s cs) = unat (fe_FileSize (file_of s))"
    using fat_file_simps(6) [OF f] l by (simp add: file_bytes_def)
qed

lemma file_nth:
  assumes f: "fat_file img s cs" and "x < unat (fe_FileSize (file_of s))"
  shows "file_bytes img s cs ! x = img ! (vol_pos s (file_sector s cs (x div 512)) + x mod 512)"
    "x div 512 < file_sectors s cs"
proof -
  let ?n = "unat (SecPerClust s)"
  note n = fat_file_simps(2) [OF f]
  have "x < file_sectors s cs * 512" using assms(2) fat_file_simps(6) [OF f] by simp
  then show i: "x div 512 < file_sectors s cs" by (rule less_mult_imp_div_less)
  have x: "x < length cs * (512 * ?n)" using assms(2) fat_file_simps(6) [OF f] by (simp add: file_sectors_def algebra_simps)
  have c: "x div (512 * ?n) = x div 512 div ?n" "x mod (512 * ?n) = 512 * (x div 512 mod ?n) + x mod 512"
    by (simp_all add: div_mult2_eq mod_mult2_eq)
  have "file_bytes img s cs ! x = cluster_bytes img s (cs ! (x div 512 div ?n)) ! (x mod (512 * ?n))"
    using concat_nth_block [OF length_clusters(1) [OF f] x] n assms(2) by (simp add: file_bytes_def c(1))
  also have "\<dots> = img ! (vol_pos s (unat (DataSectorBase s) + (cs ! (x div 512 div ?n) - 2) * ?n) + x mod (512 * ?n))"
  proof -
    have "length (cluster_bytes img s (cs ! (x div 512 div ?n))) = 512 * ?n"
      using length_clusters(1) [OF f] cluster_in [OF i] by simp
    moreover have "x mod (512 * ?n) < 512 * ?n" using n by simp
    ultimately show ?thesis unfolding cluster_bytes_def vol_read_def by (simp add: min_def split: if_splits)
  qed
  also have "\<dots> = img ! (vol_pos s (file_sector s cs (x div 512)) + x mod 512)"
    unfolding c(2) file_sector_def vol_pos_def by (simp add: algebra_simps)
  finally show "file_bytes img s cs ! x = img ! (vol_pos s (file_sector s cs (x div 512)) + x mod 512)" .
qed

section \<open>Runs of sectors\<close>

definition run_of :: "fat_sc \<Rightarrow> nat list \<Rightarrow> nat \<Rightarrow> nat \<Rightarrow> bool" where
  "run_of s cs i k \<longleftrightarrow> (\<forall>j<k. file_sector s cs (i + j) = file_sector s cs i + j)"

lemma bulk_run_ok:
  assumes f: "fat_file img s cs" and "run_of s cs i0 i" "0 < i" "i \<le> 64" "i0 + 64 \<le> file_sectors s cs"
  shows "\<exists>k. bulk_run s (fe_Chain (file_of s)) i (of_nat (file_sector s cs (i0 + i - 1))) (i0 + i - 1) = Some k \<and>
    i \<le> k \<and> k \<le> 64 \<and> run_of s cs i0 k"
  using assms(2-4)
proof (induction "64 - i" arbitrary: i)
  case 0
  then have "i = 64" by simp
  with 0 show ?case by (subst bulk_run.simps) (simp add: FAT_BUFFER_SIZE_def SECTORSIZE_def)
next
  case (Suc n)
  then have lt: "i < FAT_BUFFER_SIZE div SECTORSIZE" "i < 64" by (simp_all add: FAT_BUFFER_SIZE_def SECTORSIZE_def)
  have prev: "i0 + i - 1 < file_sectors s cs" "i0 + i < file_sectors s cs" using assms(5) lt Suc.prems(2) by simp_all
  have idx: "i0 + i - 1 + 1 = i0 + i" using Suc.prems(2) by simp
  note get = getSectorIndex_file [OF f prev(2)]
  let ?a = "file_sector s cs (i0 + i - 1)" and ?b = "file_sector s cs (i0 + i)"
  have bound: "?a < 2 ^ 31" "?b < 2 ^ 31" by (rule sector_in(2) [OF f prev(1)], rule sector_in(2) [OF f prev(2)])
  have eq: "(of_nat ?a + 1 :: u32) = of_nat ?b \<longleftrightarrow> ?a + 1 = ?b"
  proof
    assume "(of_nat ?a + 1 :: u32) = of_nat ?b"
    then have "unat (of_nat (?a + 1) :: u32) = unat (of_nat ?b :: u32)" by (simp add: add.commute)
    moreover have "unat (of_nat (?a + 1) :: u32) = ?a + 1" using bound(1) by (intro unat_of_nat_less) simp
    moreover have "unat (of_nat ?b :: u32) = ?b" using bound(2) by (intro unat_of_nat_less) simp
    ultimately show "?a + 1 = ?b" by linarith
  qed (metis of_nat_1 of_nat_add)
  show ?case
  proof (cases "?a + 1 = ?b")
    case False
    then have "bulk_run s (fe_Chain (file_of s)) i (of_nat ?a) (i0 + i - 1) = Some i"
      using eq by (subst bulk_run.simps) (simp only: lt(1) if_True idx get option.case not_False_eq_True)
    with Suc.prems lt show ?thesis by auto
  next
    case True
    have a: "?a = file_sector s cs i0 + (i - 1)"
      using Suc.prems(1,2) unfolding run_of_def by (metis Nat.add_diff_assoc One_nat_def Suc_leI diff_less zero_less_one)
    have run: "run_of s cs i0 (i + 1)"
      unfolding run_of_def
    proof (intro allI impI)
      fix j assume "j < i + 1"
      then consider "j < i" | "j = i" by linarith
      then show "file_sector s cs (i0 + j) = file_sector s cs i0 + j"
        using Suc.prems(1,2) True a by cases (auto simp: run_of_def)
    qed
    have "bulk_run s (fe_Chain (file_of s)) i (of_nat ?a) (i0 + i - 1) = bulk_run s (fe_Chain (file_of s)) (i + 1) (of_nat ?b) (i0 + i)"
    proof -
      have w: "(of_nat ?a + 1 :: u32) = of_nat ?b" using eq True by (rule iffD2)
      show ?thesis by (subst bulk_run.simps) (simp only: lt(1) if_True idx get option.case w not_True_eq_False if_False simp_thms)
    qed
    moreover have "\<exists>k. bulk_run s (fe_Chain (file_of s)) (i + 1) (of_nat (file_sector s cs (i0 + (i + 1) - 1))) (i0 + (i + 1) - 1) = Some k \<and>
        i + 1 \<le> k \<and> k \<le> 64 \<and> run_of s cs i0 k"
      using Suc.hyps(2) run lt(2) by (intro Suc.hyps(1)) simp_all
    ultimately show ?thesis by auto
  qed
qed

lemma run_bytes:
  assumes f: "fat_file img s cs" and run: "run_of s cs (p div 512) k" and "0 < k" "n \<le> 512 * k - p mod 512"
    and "p + n \<le> unat (fe_FileSize (file_of s))" "p div 512 + k \<le> file_sectors s cs"
  shows "take n (drop (p mod 512) (vol_read img s (file_sector s cs (p div 512)) k)) = take n (drop p (file_bytes img s cs))"
    "vol_pos s (file_sector s cs (p div 512)) + 512 * k \<le> length img"
proof -
  let ?i = "p div 512"
  have "file_sector s cs (?i + (k - 1)) = file_sector s cs ?i + (k - 1)"
    using run [unfolded run_of_def, rule_format, of "k - 1"] assms(3) by linarith
  moreover have "?i + (k - 1) < file_sectors s cs" using assms(3,6) by linarith
  ultimately have "vol_pos s (file_sector s cs ?i + (k - 1)) + 512 \<le> length img" using sector_in(1) [OF f] by metis
  then have "vol_pos s (file_sector s cs ?i) + (512 * (k - 1) + 512) \<le> length img" by (simp add: vol_pos_add)
  moreover have "512 * (k - 1) + 512 = 512 * k" using assms(3) by (cases k) simp_all
  ultimately show fit: "vol_pos s (file_sector s cs ?i) + 512 * k \<le> length img" by simp
  show "take n (drop (p mod 512) (vol_read img s (file_sector s cs ?i) k)) = take n (drop p (file_bytes img s cs))"
  proof (rule nth_equalityI, goal_cases)
    case 1
    show ?case using assms(4,5) length_clusters(3) [OF f] fit by simp
  next
    case (2 y)
    then have y: "y < n" by simp
    then have x: "p + y < unat (fe_FileSize (file_of s))" using assms(5) by linarith
    define z where "z = p mod 512 + y"
    have z: "z < 512 * k" using y assms(4) by (simp add: z_def)
    then have zk: "z div 512 < k" by (simp add: less_mult_imp_div_less mult.commute)
    have pz: "p + y = z + 512 * ?i" by (simp add: z_def)
    then have dv: "(p + y) div 512 = ?i + z div 512" "(p + y) mod 512 = z mod 512" by simp_all
    have "file_bytes img s cs ! (p + y) = img ! (vol_pos s (file_sector s cs (?i + z div 512)) + z mod 512)"
      using file_nth(1) [OF f x] unfolding dv .
    also have "file_sector s cs (?i + z div 512) = file_sector s cs ?i + z div 512" using run zk by (simp add: run_of_def)
    also have "vol_pos s (file_sector s cs ?i + z div 512) + z mod 512 = vol_pos s (file_sector s cs ?i) + z"
      by (simp add: vol_pos_add)
    finally have "file_bytes img s cs ! (p + y) = vol_read img s (file_sector s cs ?i) k ! z"
      using z fit by (simp add: vol_read_def)
    with y z fit x length_clusters(3) [OF f] show ?case by (simp add: z_def)
  qed
qed

section \<open>The read loop\<close>

text \<open>After a run the number of the sector buffer is that of a sector in front of the position that the
  buffer does not hold.\<close>

definition stale_ok :: "u8 list \<Rightarrow> fat_sc \<Rightarrow> nat list \<Rightarrow> nat \<Rightarrow> bool" where
  "stale_ok img s cs p \<longleftrightarrow> last_ok img s \<or> (length (LastSectorBuffer s) \<le> 512 \<and>
     (\<exists>i < p div 512. i < file_sectors s cs \<and> LastSector s = of_nat (file_sector s cs i)))"

lemma stale_ok_mono: "stale_ok img s cs p \<Longrightarrow> p \<le> q \<Longrightarrow> stale_ok img s cs q"
  unfolding stale_ok_def by (meson div_le_mono less_le_trans)

lemma stale_last:
  assumes f: "fat_file img s cs" and "stale_ok img s cs p" "p div 512 < file_sectors s cs"
    "LastSector s = of_nat (file_sector s cs (p div 512))"
  shows "LastSectorBuffer s = vol_read img s (file_sector s cs (p div 512)) 1"
proof -
  have u: "unat (of_nat (file_sector s cs i) :: u32) = file_sector s cs i" if "i < file_sectors s cs" for i
    using sector_in(2) [OF f that] by (intro unat_of_nat_less) simp
  have "LastSector s \<noteq> - 1"
  proof
    assume "LastSector s = - 1"
    then have "file_sector s cs (p div 512) = unat (- 1 :: u32)" using u [OF assms(3)] assms(4) by simp
    with sector_in(2) [OF f assms(3)] show False by (simp add: unsigned_minus_1_eq_mask mask_eq_exp_minus_1)
  qed
  moreover have "\<not> (i < p div 512 \<and> i < file_sectors s cs \<and> LastSector s = of_nat (file_sector s cs i))" for i
  proof
    assume i: "i < p div 512 \<and> i < file_sectors s cs \<and> LastSector s = of_nat (file_sector s cs i)"
    then have "file_sector s cs i = file_sector s cs (p div 512)" using u [of i] u [OF assms(3)] assms(4) by metis
    with sector_inject [OF f _ assms(3)] i show False by auto
  qed
  ultimately show ?thesis using assms(2,4) u [OF assms(3)] unfolding stale_ok_def last_ok_def by metis
qed

context disk
begin

lemma last_sector_ok:
  assumes "fat_dev img s" "vol_pos s n + 512 \<le> length img" "length (LastSectorBuffer s) \<le> 512"
    and "LastSector s = of_nat n \<Longrightarrow> LastSectorBuffer s = vol_read img s n 1"
  shows "\<exists>s'. last_sector rd (of_nat n) s = (True, s') \<and> fat_same s s' \<and> LastSectorBuffer s' = vol_read img s n 1 \<and> last_ok img s'"
proof -
  have "vol_pos s n < 2 ^ 40" using assms(1,2) by (simp add: fat_dev_def)
  then have u: "unat (of_nat n :: u32) = n" by (intro unat_of_nat_less) (simp add: vol_pos_def)
  show ?thesis
  proof (cases "LastSector s = of_nat n")
    case True
    then show ?thesis using assms u by (simp add: last_sector_def last_ok_def)
  next
    case False
    obtain d where d: "readsector rd (of_nat n) 1 (LastSectorBuffer s) s = (1, vol_read img s n 1, s\<lparr>fs_dev := d\<rparr>)" "fat_same s (s\<lparr>fs_dev := d\<rparr>)"
      using readsector_ok [OF assms(1), of 1 n "LastSectorBuffer s"] assms(2,3) by auto
    let ?t = "s\<lparr>fs_dev := d, LastSectorBuffer := vol_read img s n 1, LastSector := of_nat n\<rparr>"
    have same: "fat_same s ?t" using fat_same_trans [OF d(2), of ?t] assms(2) by simp
    have "last_sector rd (of_nat n) s = (True, ?t)" using False unfolding last_sector_def d(1) by simp
    moreover have "last_ok img ?t" unfolding last_ok_def fat_same_simps(9) [OF same] using assms(2) u by simp
    ultimately show ?thesis using same by auto
  qed
qed

lemma fat_read_loop_ok:
  assumes "fat_file img s cs" "p + len \<le> unat (fe_FileSize (file_of s))" "stale_ok img s cs p"
  shows "\<exists>s'. fat_read_loop rd junk p len acc s = Some (0, acc @ take len (drop p (file_bytes img s cs)), p + len, s') \<and>
    fat_same s s' \<and> (0 < len \<or> last_ok img s \<longrightarrow> last_ok img s')"
  using assms
proof (induction len arbitrary: p acc s rule: less_induct)
  case (less len)
  show ?case
  proof (cases "len = 0")
    case True
    then show ?thesis using less.prems by (subst fat_read_loop.simps) simp
  next
    case False
    let ?i = "p div 512" and ?o = "p mod 512"
    note f = less.prems(1)
    have i: "?i < file_sectors s cs" using False less.prems(2) by (intro file_nth(2) [OF f]) simp
    note get = getSectorIndex_file [OF f i] and fit = sector_in(1) [OF f i]
    have o: "?o < 512" by simp
    have len512: "length (LastSectorBuffer s) \<le> 512" using less.prems(3) by (auto simp: stale_ok_def last_ok_def)
    have step: "\<exists>s''. fat_read_loop rd junk (p + k) (len - k) (acc @ take k (drop p (file_bytes img s cs))) s' =
          Some (0, acc @ take len (drop p (file_bytes img s cs)), p + len, s'') \<and>
        fat_same s s'' \<and> last_ok img s''"
      if "0 < k" "k \<le> len" "fat_same s s'" "stale_ok img s' cs (p + k)" "k < len \<or> last_ok img s'" for k s'
    proof -
      note same = fat_same_file [OF that(3)] fat_same_simps(6) [OF that(3)]
      have "acc @ take k (drop p (file_bytes img s cs)) @ take (len - k) (drop (p + k) (file_bytes img s cs)) =
          acc @ take len (drop p (file_bytes img s cs))"
        using take_add [of k "len - k" "drop p (file_bytes img s cs)"] that(2) by (simp add: add.commute)
      with less.IH [of "len - k" s' "p + k" "acc @ take k (drop p (file_bytes img s cs))"] that less.prems(1,2) same
      show ?thesis using fat_same_trans [OF that(3)] by auto
    qed
    show ?thesis
    proof (cases "len \<le> FAT_BUFFER_SIZE")
      case True
      obtain s' where s': "last_sector rd (of_nat (file_sector s cs ?i)) s = (True, s')" "fat_same s s'"
          "LastSectorBuffer s' = vol_read img s (file_sector s cs ?i) 1" "last_ok img s'"
        using last_sector_ok [OF fat_file_simps(1) [OF f] fit len512] stale_last [OF f less.prems(3) i] by blast
      let ?k = "min len (512 - ?o)"
      have "take ?k (drop ?o (LastSectorBuffer s')) = take ?k (drop p (file_bytes img s cs))"
        unfolding s'(3) using less.prems(2) i by (intro run_bytes(1) [OF f]) (auto simp: run_of_def)
      with step [of ?k s'] s' False True o show ?thesis
        by (subst fat_read_loop.simps) (auto simp: Let_def SECTORSIZE_def get stale_ok_def)
    next
      case nb: False
      have "512 * (?i + 64) \<le> p + 32768" by simp
      also have "\<dots> < p + len" using nb by (simp add: FAT_BUFFER_SIZE_def)
      also have "\<dots> \<le> 512 * file_sectors s cs" using less.prems(2) fat_file_simps(6) [OF f] by simp
      finally have i64: "?i + 64 \<le> file_sectors s cs" by simp
      have "run_of s cs ?i 1" by (simp add: run_of_def)
      from bulk_run_ok [OF f this _ _ i64] obtain k where k: "bulk_run s (fe_Chain (file_of s)) 1 (of_nat (file_sector s cs ?i)) ?i = Some k"
          "1 \<le> k" "k \<le> 64" "run_of s cs ?i k" by auto
      let ?c = "512 * k - ?o"
      have c: "?c < len" "0 < ?c" "?o + ?c = 512 * k" using nb k(2,3) o by (simp_all add: FAT_BUFFER_SIZE_def)
      have cmin: "min len ?c = ?c" and cle: "?c \<le> len" using c(1) by simp_all
      have "p + ?c \<le> unat (fe_FileSize (file_of s))" "?i + k \<le> file_sectors s cs" using less.prems(2) c(1) i64 k(3) by simp_all
      note rb = run_bytes [OF f k(4) _ order_refl this]
      have kfit: "vol_pos s (file_sector s cs ?i) + 512 * k \<le> length img" using rb(2) k(2) by simp
      obtain d where d: "readsector rd (of_nat (file_sector s cs ?i)) k junk s = (1, vol_read img s (file_sector s cs ?i) k @ drop (512 * k) junk, s\<lparr>fs_dev := d\<rparr>)"
          "fat_same s (s\<lparr>fs_dev := d\<rparr>)"
        using readsector_ok [OF fat_file_simps(1) [OF f] _ k(3) kfit, of junk] k(2) by auto
      let ?t = "s\<lparr>fs_dev := d, LastSector := of_nat (file_sector s cs ?i) + of_nat k - 1\<rparr>"
      have same: "fat_same s ?t" using fat_same_trans [OF d(2), of ?t] by simp
      have bytes: "take ?c (drop ?o (vol_read img s (file_sector s cs ?i) k @ drop (512 * k) junk)) = take ?c (drop p (file_bytes img s cs))"
      proof -
        have "length (drop ?o (vol_read img s (file_sector s cs ?i) k)) = ?c" using kfit by simp
        then have "take ?c (drop ?o (vol_read img s (file_sector s cs ?i) k @ drop (512 * k) junk)) =
            take ?c (drop ?o (vol_read img s (file_sector s cs ?i) k))"
          by (simp only: drop_append take_append diff_self_eq_0 take_0 append_Nil2)
        with rb(1) k(2) show ?thesis by simp
      qed
      have "(of_nat (file_sector s cs ?i) + of_nat k - 1 :: u32) = of_nat (file_sector s cs (?i + (k - 1)))"
        using k(2) k(4) [unfolded run_of_def, rule_format, of "k - 1"] by (simp add: of_nat_diff)
      moreover have "(p + ?c) div 512 = ?i + k"
      proof -
        have "p + ?c = 512 * (?i + k)" using c(3) 
          using mult_div_mod_eq [of 512 p] unfolding add_mult_distrib2 by linarith
        then show ?thesis by simp
      qed
      ultimately have "stale_ok img ?t cs (p + ?c)"
        unfolding stale_ok_def fat_same_file [OF same] using k(2) i64 k(3) len512
        by (intro disjI2 conjI exI [of _ "?i + (k - 1)"]) simp_all
      from step [OF c(2) cle same this disjI1 [OF c(1)]] nb False show ?thesis
        unfolding fat_read_loop.simps [of rd junk p] Let_def SECTORSIZE_def get option.case if_not_P [OF nb] if_not_P [OF False] k(1) d(1) prod.case cmin bytes
        by auto
    qed
  qed
qed

end

section \<open>Properties\<close>

lemma fat_read_contents0:
  assumes "disk rd img" "fat_file img s cs" "last_ok img s" "0 \<le> posn" "posn < int (unat (fe_FileSize (file_of s)))"
    and "n = min (unat len) (unat (fe_FileSize (file_of s)) - nat posn)" "n < 2 ^ 31"
  shows "\<exists>s'. fat_read rd junk posn len s = Some (int n, take n (drop (nat posn) (file_bytes img s cs)), posn + int n, s') \<and>
    fat_same s s' \<and> last_ok img s'"
proof -
  let ?size = "unat (fe_FileSize (file_of s))"
  obtain q where q: "posn = int q" using assms(4) nonneg_int_cases by blast
  have "nat (int ?size - int q) = ?size - q" by (simp add: nat_diff_distrib')
  moreover have "q < ?size" using assms(5) unfolding q of_nat_less_iff .
  ultimately have n: "(if posn + int (unat len) > int ?size then nat (int ?size - posn) else unat len) = n"
    using assms(6) unfolding q nat_int of_nat_add [symmetric] of_nat_less_iff by (simp only: min_def) auto
  have le: "nat posn + n \<le> ?size" using assms(6) \<open>q < ?size\<close> unfolding q nat_int by simp
  obtain s' where s': "fat_read_loop rd junk (nat posn) n [] s = Some (0, take n (drop (nat posn) (file_bytes img s cs)), nat posn + n, s')"
      "fat_same s s' \<and> last_ok img s'"
    using disk.fat_read_loop_ok [OF assms(1,2) le, of junk "[]"] assms(3) by (auto simp: stale_ok_def)
  have guard: "\<not> posn \<ge> int ?size" "\<not> posn < 0" using assms(4,5) by simp_all
  have "fat_read rd junk posn len s = Some (int n, take n (drop (nat posn) (file_bytes img s cs)), posn + int n, s')"
    unfolding fat_read_def Let_def if_not_P [OF guard(1)] if_not_P [OF guard(2)] n s'(1)
    using assms(4) sint_count [OF assms(7)] by simp
  with s'(2) show ?thesis by blast
qed

text \<open>C3. A read of an open file returns its bytes from the position on, cut at the end of the file, whether
  they come through the sector buffer or in runs of sectors; the position is behind them and the sector
  buffer again holds the sector it names, so that the next read, from any position, does the same. (The
  driver is an array of blocks that holds the clusters of the file.)\<close>

theorem fat_read_contents:
  assumes "disk rd img" "fat_file img s cs" "last_ok img s" "0 \<le> posn" "posn < int (unat (fe_FileSize (file_of s)))"
    and "n = min (unat len) (unat (fe_FileSize (file_of s)) - nat posn)" "n < 2 ^ 31"
  shows "\<exists>s'. fat_read rd junk posn len s = Some (int n, take n (drop (nat posn) (file_bytes img s cs)), posn + int n, s') \<and>
    fat_same s s' \<and> last_ok img s'"
  using assms by (rule fat_read_contents0)

definition demo_open :: fat_sc where
  "demo_open = demo_fs\<lparr>file_of := \<lparr>fe_longName = [], fe_shortName = ''A'', fe_HighClust = 0, fe_StartCluster = 2, fe_FileSize = 700,
     fe_Chain = \<lparr>ch_start = 2, ch_entries = [2, 3], ch_count = 2\<rparr>\<rparr>\<rparr>"

lemma demo_open_file:
  "fat_file (loop_img (demo_vol m)) demo_open [2, 3]" "last_ok (loop_img (demo_vol m)) demo_open"
  unfolding fat_file_def last_ok_def fat_dev_def length_demo_vol file_sectors_def vol_pos_def
  by (simp_all add: demo_open_def demo_fs_def fat_zero_def SECTORSIZE_def)

theorem fat_read_contents_witness:
  "\<exists>s'. fat_read (loopdev_read (demo_vol (\<lambda>_. 0))) [] 500 100 demo_open =
    Some (100, take 100 (drop 500 (file_bytes (loop_img (demo_vol (\<lambda>_. 0))) demo_open [2, 3])), 600, s')"
  using fat_read_contents [OF demo_vol_disk demo_open_file, of 500 100 100 "\<lambda>_. 0" "[]"]
  by (simp add: demo_open_def) blast

end
