(* ===== verification/Fat_Mount.thy ===== *)
theory Fat_Mount
  imports Fat_Read
begin

text \<open>
  Mounting a FAT volume: what \<open>fat_init\<close> of \<open>pmon/fs/fatfs.c\<close> takes from the partition table and the boot
  sector, stated over the numbers that stand in their bytes, and what it computes from them.
\<close>

section \<open>Numbers in a sector\<close>

text \<open>The number of \<open>n\<close> bytes at \<open>i\<close>, the lowest byte first.\<close>

definition bpb_num :: "u8 list \<Rightarrow> nat \<Rightarrow> nat \<Rightarrow> nat" where
  "bpb_num b i n = (\<Sum>k<n. unat (b ! (i + k)) * 256 ^ k)"

lemma bpb_num_less: "bpb_num b i n < 256 ^ n"
proof (induction n)
  case (Suc n)
  have "unat (b ! (i + n)) \<le> 255" using unat_byte_less [of "b ! (i + n)"] by linarith
  then have "unat (b ! (i + n)) * 256 ^ n \<le> 255 * 256 ^ n" by (rule mult_right_mono) simp
  then have "bpb_num b i n + unat (b ! (i + n)) * 256 ^ n < 256 ^ n + 255 * 256 ^ n" using Suc by (intro add_less_le_mono)
  then show ?case by (simp add: bpb_num_def)
qed (simp add: bpb_num_def)

lemma bpb_num_simps:
  "bpb_num b i 1 = unat (b ! i)"
  "bpb_num b i 2 = unat (b ! i) + 256 * unat (b ! (i + 1))"
  "bpb_num b i 4 = unat (b ! i) + 256 * unat (b ! (i + 1)) + 65536 * unat (b ! (i + 2)) + 16777216 * unat (b ! (i + 3))"
proof -
  have "{..<1} = {0 :: nat}" "{..<2} = {0, 1 :: nat}" "{..<4} = {0, 1, 2, 3 :: nat}" by auto
  then show "bpb_num b i 1 = unat (b ! i)" "bpb_num b i 2 = unat (b ! i) + 256 * unat (b ! (i + 1))"
    "bpb_num b i 4 = unat (b ! i) + 256 * unat (b ! (i + 1)) + 65536 * unat (b ! (i + 2)) + 16777216 * unat (b ! (i + 3))"
    by (simp_all add: bpb_num_def)
qed

lemma le16_plus: "le16 b i = ucast (b ! i) + push_bit 8 (ucast (b ! (i + 1)))"
  unfolding le16_def by (rule disjunctive_add [symmetric]) (auto simp: bit_simps dest!: bit_imp_le_length)

lemma le32_plus:
  "le32 b i = ucast (b ! i) + push_bit 8 (ucast (b ! (i + 1))) + push_bit 16 (ucast (b ! (i + 2))) + push_bit 24 (ucast (b ! (i + 3)))"
proof -
  let ?a = "ucast (b ! i) :: u32" and ?b = "push_bit 8 (ucast (b ! (i + 1))) :: u32"
    and ?c = "push_bit 16 (ucast (b ! (i + 2))) :: u32" and ?d = "push_bit 24 (ucast (b ! (i + 3))) :: u32"
  have 1: "?a OR ?b = ?a + ?b" by (rule disjunctive_add [symmetric]) (auto simp: bit_simps dest!: bit_imp_le_length)
  have 2: "(?a OR ?b) OR ?c = (?a OR ?b) + ?c" by (rule disjunctive_add [symmetric]) (auto simp: bit_simps dest!: bit_imp_le_length)
  have 3: "((?a OR ?b) OR ?c) OR ?d = ((?a OR ?b) OR ?c) + ?d" by (rule disjunctive_add [symmetric]) (auto simp: bit_simps dest!: bit_imp_le_length)
  have "le32 b i = ((?a OR ?b) OR ?c) OR ?d" by (simp only: le32_def or.assoc)
  then show ?thesis unfolding 3 unfolding 2 unfolding 1 .
qed

lemma unat_shifted:
  assumes "k + 8 \<le> LENGTH('a)"
  shows "unat (push_bit k (ucast (x :: u8)) :: 'a :: len word) = 2 ^ k * unat x"
proof -
  have "unat x * 2 ^ k < 2 ^ 8 * 2 ^ k" by simp
  also have "(2 :: nat) ^ 8 * 2 ^ k \<le> 2 ^ LENGTH('a)" unfolding power_add [symmetric] using assms by (intro power_increasing) simp_all
  finally have "unat (of_nat (unat x * 2 ^ k) :: 'a word) = unat x * 2 ^ k" by (rule unat_of_nat_less)
  moreover have "push_bit k (ucast x) = (of_nat (unat x * 2 ^ k) :: 'a word)" by (simp add: push_bit_eq_mult)
  ultimately show ?thesis by (simp add: mult.commute)
qed

lemma unat_le16: "unat (le16 b i) = bpb_num b i 2"
proof -
  have a: "unat (ucast (b ! i) :: u16) = unat (b ! i)" "unat (push_bit 8 (ucast (b ! (i + 1))) :: u16) = 256 * unat (b ! (i + 1))"
    using unat_shifted [where 'a = 16, of 0 "b ! i"] unat_shifted [where 'a = 16, of 8 "b ! (i + 1)"] by simp_all
  have "unat (b ! i) + 256 * unat (b ! (i + 1)) < 2 ^ LENGTH(16)" using bpb_num_less [of b i 2] unfolding bpb_num_simps by simp
  then show ?thesis unfolding le16_plus bpb_num_simps by (simp add: unat_word_ariths a del: One_nat_def add_Suc_right)
qed

lemma unat_le32: "unat (le32 b i) = bpb_num b i 4"
proof -
  have a: "unat (ucast (b ! i) :: u32) = unat (b ! i)" "unat (push_bit 8 (ucast (b ! (i + 1))) :: u32) = 256 * unat (b ! (i + 1))"
    "unat (push_bit 16 (ucast (b ! (i + 2))) :: u32) = 65536 * unat (b ! (i + 2))"
    "unat (push_bit 24 (ucast (b ! (i + 3))) :: u32) = 16777216 * unat (b ! (i + 3))"
    using unat_shifted [where 'a = 32, of 0 "b ! i"] unat_shifted [where 'a = 32, of 8 "b ! (i + 1)"]
      unat_shifted [where 'a = 32, of 16 "b ! (i + 2)"] unat_shifted [where 'a = 32, of 24 "b ! (i + 3)"] by simp_all
  have "unat (b ! i) + 256 * unat (b ! (i + 1)) + 65536 * unat (b ! (i + 2)) + 16777216 * unat (b ! (i + 3)) < 2 ^ LENGTH(32)" using bpb_num_less [of b i 4] unfolding bpb_num_simps by simp
  then show ?thesis unfolding le32_plus bpb_num_simps by (simp add: unat_word_ariths a mod_simps del: One_nat_def add_Suc_right add_2_eq_Suc')
qed

section \<open>The fields of the boot sector\<close>

lemma unat_diff_mod: "unat (a - b :: u32) = nat ((int (unat a) - int (unat b)) mod 2 ^ 32)"
  by (simp add: uint_nat [symmetric] uint_word_ariths flip: nat_uint_eq)

lemma unat_ucast16: "unat (ucast (x :: u16) :: u32) = unat x"
proof -
  have "unat x < 65536" using unsigned_less [of x] by simp
  then show ?thesis by (simp add: unsigned_ucast_eq take_bit_nat_eq_self_iff)
qed

lemma unat_ucast8: "unat (ucast (x :: u8) :: u32) = unat x"
  using less_trans [OF unat_byte_less [of x], of "2 ^ 32"] by (simp add: unsigned_ucast_eq take_bit_nat_eq_self_iff)

lemma unat_root_sectors:
  assumes "(bps :: u16) \<noteq> 0"
  shows "unat ((ucast (ents :: u16) * 32 + (ucast bps - 1)) div ucast bps :: u32) = (32 * unat ents + unat bps - 1) div unat bps"
proof -
  have e: "unat ents < 65536" "unat bps < 65536" using unsigned_less [of ents] unsigned_less [of bps] by simp_all
  have p: "0 < unat bps" using assms by (simp add: unat_gt_0)
  have m: "unat (ucast ents * 32 :: u32) = 32 * unat ents" "unat (ucast bps :: u32) = unat bps"
    using e by (simp_all add: unat_word_ariths unat_ucast16)
  have "ucast bps \<noteq> (0 :: u32)" using m(2) p by auto
  then have "unat (ucast bps - 1 :: u32) = unat bps - 1" by (metis m(2) unat_minus_one)
  with m e have "unat (ucast ents * 32 + (ucast bps - 1) :: u32) = 32 * unat ents + (unat bps - 1)"
    by (subst unat_word_ariths) simp
  with p show ?thesis by (simp add: unat_div m)
qed

lemma fat_bpb_fields:
  assumes "bps = bpb_num b 11 2" "spc = bpb_num b 13 1" "res = bpb_num b 14 2" "nfats = bpb_num b 16 1" "ents = bpb_num b 17 2"
    and "fatsecs = (if bpb_num b 22 2 \<noteq> 0 then bpb_num b 22 2 else bpb_num b 36 4)"
    and "sectors = (if bpb_num b 19 2 \<noteq> 0 then bpb_num b 19 2 else bpb_num b 32 4)"
    and "rootsecs = (32 * ents + bps - 1) div bps" "first = (res + nfats * fatsecs) mod 2 ^ 32" "data = (first + rootsecs) mod 2 ^ 32"
    and "clusters = nat ((int sectors - int data) mod 2 ^ 32) div spc" "bps \<noteq> 0" "spc \<noteq> 0"
  shows "\<exists>s'. fat_bpb b s = Some s' \<and> unat (BytesPerSec s') = bps \<and> unat (SecPerClust s') = spc \<and> unat (ResSectors s') = res \<and>
    unat (NumFATs s') = nfats \<and> unat (RootDirEnts s') = ents \<and> unat (FATsecs s') = fatsecs \<and> unat (TotalSectors s') = sectors \<and>
    unat (RootDirSectors s') = rootsecs \<and> unat (FirstRootDirSecNum s') = first \<and> unat (DataSectorBase s') = data \<and>
    unat (CountOfClusters s') = clusters \<and> unat (ClusterSize s') = bps * spc \<and> PartitionStart s' = PartitionStart s \<and>
    FatType s' = (if clusters < 4085 then TYPE_FAT12 else if clusters < 65525 then TYPE_FAT16 else TYPE_FAT32)"
proof -
  have u1: "unat (b ! 13) = spc" "unat (b ! 16) = nfats" unfolding assms(2,4) bpb_num_simps by (rule refl)+
  have u2: "unat (le16 b 11) = bps" "unat (le16 b 14) = res" "unat (le16 b 17) = ents" using assms(1,3,5) by (simp_all add: unat_le16)
  have nz: "le16 b 11 \<noteq> 0" "b ! 13 \<noteq> 0" using assms(12,13) u1 u2 by auto
  have f: "unat (if le16 b 22 \<noteq> 0 then ucast (le16 b 22) else le32 b 36 :: u32) = fatsecs"
    using unat_le16 [of b 22] unat_le32 [of b 36] assms(6) by (auto simp: unat_eq_0 unat_ucast16)
  have t: "unat (if le16 b 19 \<noteq> 0 then ucast (le16 b 19) else le32 b 32 :: u32) = sectors"
    using unat_le16 [of b 19] unat_le32 [of b 32] assms(7) by (auto simp: unat_eq_0 unat_ucast16)
  let ?f = "if le16 b 22 \<noteq> 0 then ucast (le16 b 22) else le32 b 36 :: u32"
  let ?t = "if le16 b 19 \<noteq> 0 then ucast (le16 b 19) else le32 b 32 :: u32"
  let ?r = "(ucast (le16 b 17) * 32 + (ucast (le16 b 11) - 1)) div ucast (le16 b 11) :: u32"
  let ?first = "ucast (le16 b 14) + ucast (b ! 16) * ?f :: u32"
  let ?count = "(?t - (?first + ?r)) div ucast (b ! 13) :: u32"
  have r: "unat ?r = rootsecs" unfolding unat_root_sectors [OF nz(1)] u2 assms(8) ..
  have fi: "unat ?first = first" unfolding assms(9) by (simp add: unat_word_ariths f u1 u2 mod_simps unat_ucast16 unat_ucast8)
  have da: "unat (?first + ?r) = data" unfolding assms(10) unat_word_ariths(1) [of ?first ?r] fi r by simp
  have co: "unat ?count = clusters" unfolding assms(11) by (simp add: unat_div unat_diff_mod da t u1 unat_ucast8)
  have cs: "unat (ucast (le16 b 11) * ucast (b ! 13) :: u32) = bps * spc"
  proof -
    have "bps < 65536" "spc < 256" using assms(1,2) bpb_num_less [of b 11 2] bpb_num_less [of b 13 1] by simp_all
    then have "bps * spc < 65536 * 256" by (intro mult_strict_mono) simp_all
    then show ?thesis by (simp add: unat_word_ariths u1 u2 unat_ucast16 unat_ucast8)
  qed
  have ty: "(?count < 4085) = (clusters < 4085)" "(?count < 65525) = (clusters < 65525)"
    unfolding word_less_nat_alt co by simp_all
  show ?thesis
    unfolding fat_bpb_def Let_def ty using nz by (simp only: if_False simp_thms) (simp add: u1 u2 f t r fi da co cs)
qed

lemma fat_bpb_ready:
  assumes "fat_bpb b s = Some s'" "fat_dev img s" "length (FatBuffer s) \<le> 512"
  shows "fat_ready img s' \<and> DirBuffer s' = DirBuffer s \<and> LastSectorBuffer s' = LastSectorBuffer s"
  using assms by (auto simp: fat_bpb_def Let_def fat_ready_def fat_dev_def fat_cache_ok_def split: if_splits)

section \<open>The partition and its boot sector\<close>

context disk
begin

lemma fat_getPartition_read:
  assumes "bd_offs d = int base" "bd_base d = int base" "base mod 512 = 0" "int (length img) \<le> bd_end d" "bd_end d < 2 ^ 62"
    and "base + 512 \<le> length img" "img ! (base + 510) = 0x55" "img ! (base + 511) = 0xAA" "part < 4"
  shows "fat_getPartition rd junk part (fat_zero d) =
    Some (True, (fat_zero d)\<lparr>PartitionStart := le32 img (base + 446 + 16 * part + 8), fs_dev := d\<lparr>bd_offs := int (base + 512)\<rparr>\<rparr>)"
proof -
  let ?bs = "take 512 (drop base img)"
  have "devio_read rd (of_nat SECTORSIZE) d = (int 512, ?bs, d\<lparr>bd_offs := int (base + 512)\<rparr>)"
    using assms(1-6) by (intro devio_read_ok) (auto simp: SECTORSIZE_def min_def)
  moreover have "(?bs @ drop (length ?bs) junk) ! i = img ! (base + i)" if "i < 512" for i
    using that assms(6) by (simp add: nth_append)
  moreover have "le32 (?bs @ drop (length ?bs) junk) (446 + 16 * part + 8) = le32 img (base + 446 + 16 * part + 8)"
  proof -
    have "(?bs @ drop (length ?bs) junk) ! (446 + 16 * part + 8 + k) = img ! (base + 446 + 16 * part + 8 + k)" if "k < 4" for k
      using that assms(6,9) by (simp add: nth_append add.assoc)
    from this [of 0] this [of 1] this [of 2] this [of 3] show ?thesis unfolding le32_def by simp
  qed
  ultimately show ?thesis
    using assms(7-9) unfolding fat_getPartition_def by (simp add: fat_zero_def Let_def)
qed

lemma fat_init_boot:
  assumes "bd_offs d = int base" "bd_base d = int base" "base mod 512 = 0" "int (length img) \<le> bd_end d" "bd_end d < 2 ^ 62"
    and "length img \<le> 2 ^ 40" "base + 512 \<le> length img" "img ! (base + 510) = 0x55" "img ! (base + 511) = 0xAA" "part < 4"
    and "start = bpb_num img (base + 446 + 16 * part + 8) 4"
    and "base + 512 * start + 512 \<le> length img" "boot = take 512 (drop (base + 512 * start) img)"
  shows "\<exists>s. fat_dev img s \<and> unat (PartitionStart s) = start \<and> length (FatBuffer s) \<le> 512 \<and> length (DirBuffer s) \<le> 512 \<and>
    length (LastSectorBuffer s) \<le> 512 \<and>
    fat_init rd junk1 junk2 d part =
      (if boot ! 0 = 0 \<and> boot ! 1 = 0 then Some (- 1, s) else map_option (\<lambda>s'. (1, s')) (fat_bpb boot s))"
proof -
  let ?s = "(fat_zero d)\<lparr>PartitionStart := le32 img (base + 446 + 16 * part + 8), fs_dev := d\<lparr>bd_offs := int (base + 512)\<rparr>\<rparr>"
  have s: "PartitionStart ?s = le32 img (base + 446 + 16 * part + 8)" "fs_dev ?s = d\<lparr>bd_offs := int (base + 512)\<rparr>" by simp_all
  note part = fat_getPartition_read [OF assms(1-5,7-10), of junk1]
  have "int base mod 512 = int (base mod 512)" by (simp add: zmod_int)
  then have dev: "fat_dev img ?s" using assms(2-6) unfolding fat_dev_def s by simp
  have pos: "vol_pos ?s 0 = base + 512 * start" unfolding vol_pos_def s unat_le32 assms(11) using assms(2) by simp
  obtain e where e: "readsector rd 0 1 junk2 ?s = (1, boot @ drop 512 junk2, ?s\<lparr>fs_dev := e\<rparr>)" "fat_same ?s (?s\<lparr>fs_dev := e\<rparr>)"
    using readsector_ok [OF dev, of 1 0 junk2] assms(12) unfolding pos vol_read_def assms(13) by auto
  have len: "length boot = 512" using assms(12,13) by simp
  have boot: "(boot @ drop 512 junk2) ! i = boot ! i" if "i < 512" for i using that len by (simp add: nth_append)
  have bpb: "fat_bpb (boot @ drop 512 junk2) t = fat_bpb boot t" for t
    unfolding fat_bpb_def le16_def le32_def by (simp add: boot)
  let ?t = "?s\<lparr>fs_dev := e\<rparr>"
  have "fat_init rd junk1 junk2 d part =
      (if boot ! 0 = 0 \<and> boot ! 1 = 0 then Some (- 1, ?t) else map_option (\<lambda>s'. (1, s')) (fat_bpb boot ?t))"
    unfolding fat_init_def part option.case prod.case bool.case e(1) bpb using boot [of 0] boot [of 1] by simp
  moreover have "fat_dev img ?t" using fat_same_simps(7) [OF e(2), of img] dev by simp
  moreover have "unat (PartitionStart ?t) = start" unfolding assms(11) unat_le32 [symmetric] by simp
  moreover have "length (FatBuffer ?t) \<le> 512" "length (DirBuffer ?t) \<le> 512" "length (LastSectorBuffer ?t) \<le> 512"
    by (simp_all add: fat_zero_def SECTORSIZE_def)
  ultimately show ?thesis by blast
qed

end

section \<open>Properties\<close>

text \<open>C33. Mounting a partition of a disk takes the fields of the boot sector, from the places where the FAT format has
  them, and computes from them the sectors of the root directory, its first sector, the first sector of the data
  and the number of clusters, which decides between FAT12, FAT16 and FAT32; the cache is empty and every buffer at
  most a sector. When the boot sector begins with two zeros the mount is refused, and when the sector or cluster
  size in it is 0 there is no result, since the code divides by zero. (The range of the raw device is sound, and the
  partition number is one of the table.)\<close>

theorem fat_init_geometry:
  assumes "disk rd img" "bd_offs d = int base" "bd_base d = int base" "base mod 512 = 0" "int (length img) \<le> bd_end d"
    and "bd_end d < 2 ^ 62" "length img \<le> 2 ^ 40" "base + 512 \<le> length img"
    and "img ! (base + 510) = 0x55" "img ! (base + 511) = 0xAA" "part < 4"
    and "start = bpb_num img (base + 446 + 16 * part + 8) 4"
    and "base + 512 * start + 512 \<le> length img" "b = take 512 (drop (base + 512 * start) img)"
    and "bps = bpb_num b 11 2" "spc = bpb_num b 13 1" "res = bpb_num b 14 2" "nfats = bpb_num b 16 1" "ents = bpb_num b 17 2"
    and "fatsecs = (if bpb_num b 22 2 \<noteq> 0 then bpb_num b 22 2 else bpb_num b 36 4)"
    and "sectors = (if bpb_num b 19 2 \<noteq> 0 then bpb_num b 19 2 else bpb_num b 32 4)"
    and "rootsecs = (32 * ents + bps - 1) div bps" "first = (res + nfats * fatsecs) mod 2 ^ 32" "data = (first + rootsecs) mod 2 ^ 32"
    and "clusters = nat ((int sectors - int data) mod 2 ^ 32) div spc"
  shows "if b ! 0 = 0 \<and> b ! 1 = 0 then \<exists>s. fat_init rd junk1 junk2 d part = Some (- 1, s)
    else if bps = 0 \<or> spc = 0 then fat_init rd junk1 junk2 d part = None
    else \<exists>s. fat_init rd junk1 junk2 d part = Some (1, s) \<and> fat_ready img s \<and> unat (PartitionStart s) = start \<and>
      unat (BytesPerSec s) = bps \<and> unat (SecPerClust s) = spc \<and> unat (ResSectors s) = res \<and>
      unat (NumFATs s) = nfats \<and> unat (RootDirEnts s) = ents \<and> unat (FATsecs s) = fatsecs \<and> unat (TotalSectors s) = sectors \<and>
      unat (RootDirSectors s) = rootsecs \<and> unat (FirstRootDirSecNum s) = first \<and> unat (DataSectorBase s) = data \<and>
      unat (CountOfClusters s) = clusters \<and> unat (ClusterSize s) = bps * spc \<and>
      FatType s = (if clusters < 4085 then TYPE_FAT12 else if clusters < 65525 then TYPE_FAT16 else TYPE_FAT32) \<and>
      length (DirBuffer s) \<le> 512 \<and> length (LastSectorBuffer s) \<le> 512"
proof -
  obtain s where s: "fat_dev img s" "unat (PartitionStart s) = start" "length (FatBuffer s) \<le> 512" "length (DirBuffer s) \<le> 512"
      "length (LastSectorBuffer s) \<le> 512"
    and init: "fat_init rd junk1 junk2 d part =
      (if b ! 0 = 0 \<and> b ! 1 = 0 then Some (- 1, s) else map_option (\<lambda>s'. (1, s')) (fat_bpb b s))"
    using disk.fat_init_boot [OF assms(1-14)] by blast
  show ?thesis
  proof (cases "bps = 0 \<or> spc = 0")
    case True
    then have "fat_bpb b s = None"
      using unat_le16 [of b 11] assms(15,16) by (auto simp: fat_bpb_def Let_def bpb_num_simps(1) [unfolded One_nat_def] unat_eq_0)
    with True init show ?thesis by simp
  next
    case False
    then obtain s' where s': "fat_bpb b s = Some s'" "unat (BytesPerSec s') = bps \<and> unat (SecPerClust s') = spc \<and> unat (ResSectors s') = res \<and>
    unat (NumFATs s') = nfats \<and> unat (RootDirEnts s') = ents \<and> unat (FATsecs s') = fatsecs \<and> unat (TotalSectors s') = sectors \<and>
    unat (RootDirSectors s') = rootsecs \<and> unat (FirstRootDirSecNum s') = first \<and> unat (DataSectorBase s') = data \<and>
    unat (CountOfClusters s') = clusters \<and> unat (ClusterSize s') = bps * spc \<and> PartitionStart s' = PartitionStart s \<and>
    FatType s' = (if clusters < 4085 then TYPE_FAT12 else if clusters < 65525 then TYPE_FAT16 else TYPE_FAT32)"
      using fat_bpb_fields [OF assms(15-25), of s] by blast
    from fat_bpb_ready [OF s'(1) s(1,3)] s s'(2) init False show ?thesis unfolding s'(1) by simp
  qed
qed

text \<open>A disk with one partition, at its second sector, that holds a small FAT12 volume.\<close>

definition demo_boot :: "u8 list" where
  "demo_boot = [0xEB, 0x3C, 0x90] @ replicate 8 0x20 @ [0, 2, 1, 1, 0, 2, 16, 0, 7, 0, 0xF8, 1, 0] @ replicate 488 0"

definition demo_disk :: "u8 list" where
  "demo_disk = replicate 454 0 @ [1, 0, 0, 0] @ replicate 52 0 @ [0x55, 0xAA] @ demo_boot"

definition demo_mbr :: mem where
  "demo_mbr a = (if unat (a - 0x80400000) < 1024 then demo_disk ! unat (a - 0x80400000) else 0)"

theorem fat_init_geometry_witness:
  "\<exists>s. fat_init (loopdev_read (demo_vol demo_mbr)) [] [] \<lparr>bd_offs = 0, bd_base = 0, bd_end = 2 ^ 61\<rparr> 0 = Some (1, s) \<and>
    unat (PartitionStart s) = 1 \<and> unat (FirstRootDirSecNum s) = 3 \<and> unat (DataSectorBase s) = 4 \<and> unat (CountOfClusters s) = 3 \<and>
    FatType s = TYPE_FAT12"
proof -
  define img b where "img = loop_img (demo_vol demo_mbr)" and "b = take 512 (drop (0 + 512 * 1) img)"
  let ?d = "\<lparr>bd_offs = 0, bd_base = 0, bd_end = 2 ^ 61\<rparr> :: biodev"
  have len: "length img = 4096" by (simp add: img_def)
  have img: "img ! i = demo_disk ! i" if "i < 1024" for i
  proof -
    have "unat (of_nat i :: u32) = i" using that by (intro unat_of_nat_less) simp
    with that show ?thesis by (simp add: img_def nth_demo_vol demo_mbr_def)
  qed
  have b: "bpb_num b i n = bpb_num demo_boot i n" if "i + n \<le> 512" for i n
    unfolding bpb_num_def using that by (intro sum.cong) (auto simp: b_def len img demo_disk_def nth_append)
  have nums: "bpb_num demo_boot 11 2 = 512" "bpb_num demo_boot 13 1 = 1" "bpb_num demo_boot 14 2 = 1" "bpb_num demo_boot 16 1 = 2"
    "bpb_num demo_boot 17 2 = 16" "bpb_num demo_boot 22 2 = 1" "bpb_num demo_boot 19 2 = 7"
    unfolding bpb_num_simps by code_simp+
  have n: "512 = bpb_num b 11 2" "1 = bpb_num b 13 1" "1 = bpb_num b 14 2" "2 = bpb_num b 16 1" "16 = bpb_num b 17 2"
    "1 = (if bpb_num b 22 2 \<noteq> 0 then bpb_num b 22 2 else bpb_num b 36 4)"
    "7 = (if bpb_num b 19 2 \<noteq> 0 then bpb_num b 19 2 else bpb_num b 32 4)"
    using b [of 11 2] b [of 13 1] b [of 14 2] b [of 16 1] b [of 17 2] b [of 22 2] b [of 19 2] nums by simp_all
  have m: "img ! (0 + 510) = 0x55" "img ! (0 + 511) = 0xAA" "1 = bpb_num img (0 + 446 + 16 * 0 + 8) 4"
    unfolding bpb_num_simps by (simp_all add: img demo_disk_def nth_append del: One_nat_def)
  have "b ! 0 = 0xEB" by (simp add: b_def len img demo_disk_def nth_append) code_simp
  have "if b ! 0 = 0 \<and> b ! 1 = 0 then \<exists>s. fat_init (loopdev_read (demo_vol demo_mbr)) [] [] ?d 0 = Some (- 1, s)
    else if (512 :: nat) = 0 \<or> (1 :: nat) = 0 then fat_init (loopdev_read (demo_vol demo_mbr)) [] [] ?d 0 = None
    else \<exists>s. fat_init (loopdev_read (demo_vol demo_mbr)) [] [] ?d 0 = Some (1, s) \<and> fat_ready img s \<and> unat (PartitionStart s) = 1 \<and>
      unat (BytesPerSec s) = 512 \<and> unat (SecPerClust s) = 1 \<and> unat (ResSectors s) = 1 \<and>
      unat (NumFATs s) = 2 \<and> unat (RootDirEnts s) = 16 \<and> unat (FATsecs s) = 1 \<and> unat (TotalSectors s) = 7 \<and>
      unat (RootDirSectors s) = 1 \<and> unat (FirstRootDirSecNum s) = 3 \<and> unat (DataSectorBase s) = 4 \<and>
      unat (CountOfClusters s) = 3 \<and> unat (ClusterSize s) = 512 * 1 \<and>
      FatType s = (if (3 :: nat) < 4085 then TYPE_FAT12 else if (3 :: nat) < 65525 then TYPE_FAT16 else TYPE_FAT32) \<and>
      length (DirBuffer s) \<le> 512 \<and> length (LastSectorBuffer s) \<le> 512"
    by (rule fat_init_geometry [OF demo_vol_disk [of demo_mbr, folded img_def] _ _ _ _ _ _ _ m(1,2) _ m(3) _ b_def n]) (simp_all add: len)
  with \<open>b ! 0 = 0xEB\<close> show ?thesis by auto
qed

end
