(* ===== verification/Fat_Dir.thy ===== *)
theory Fat_Dir
  imports Fat_Read
begin

text \<open>
  Directories of the FAT file system: short and long names, the search of a file in the root directory and
  in directories below it, and opening a file by its path. The lemmas show that names come back as they were stored
  and that a file that is found is read with its contents. What a directory listing prints is not modelled.
\<close>

section \<open>Directory entries\<close>

definition SLOT_EMPTY :: u8 where "SLOT_EMPTY = 0x00"
definition SLOT_DELETED :: u8 where "SLOT_DELETED = 0xE5"
definition ATTR_WIN95 :: u8 where "ATTR_WIN95 = 0x0F"
definition MAX_DIRBUF :: nat where "MAX_DIRBUF = 10"

text \<open>An entry is its 32 bytes; a name ends at the first blank, and as a C string at the first NUL.\<close>

definition c_str :: "u8 list \<Rightarrow> cstr" where
  "c_str bs = map char_of_byte (takeWhile (\<lambda>b. b \<noteq> 0) bs)"

definition parseShortFilename :: "u8 list \<Rightarrow> cstr" where
  "parseShortFilename d =
     c_str (takeWhile (\<lambda>b. b \<noteq> 0x20) (take 8 d) @ (if d ! 8 \<noteq> 0x20 then [0x2E] else []) @
            takeWhile (\<lambda>b. b \<noteq> 0x20) (take 3 (drop 8 d)))"

text \<open>The 13 characters of a long name entry: the low bytes of the 16-bit characters.\<close>

definition wine_chars :: "u8 list \<Rightarrow> u8 list" where
  "wine_chars d =
     (let buffer = take 10 (drop 1 d) @ take 12 (drop 14 d) @ take 4 (drop 28 d)
      in map (\<lambda>j. let c = buffer ! (2 * j) in if c = 0x0A then 0x5F else c) [0..<13])"

definition fat_parseDirEntries :: "u8 list list \<Rightarrow> nat \<Rightarrow> fat_fileentry \<Rightarrow> fat_fileentry" where
  "fat_parseDirEntries dirbuf dirc filee =
     (let dire = dirbuf ! dirc;
          filee = filee\<lparr>fe_HighClust := le16 dire 20, fe_StartCluster := le16 dire 26, fe_FileSize := le32 dire 28,
            fe_shortName := parseShortFilename dire\<rparr>
      in if dirc \<noteq> 0 then filee\<lparr>fe_longName := c_str (concat (map wine_chars (rev (take dirc dirbuf))))\<rparr> else filee)"

section \<open>Searching\<close>

record dirscan =
  ds_filee :: fat_fileentry
  ds_dirbuf :: "u8 list list"
  ds_long :: nat

datatype scan = Scan_end dirscan | Scan_return int | Scan_found fat_fileentry "u8 list list"

text \<open>The loop over the entries of a sector. A long name of ten entries starts the buffer again, and the
  name of the entry behind it is then not set.\<close>

fun scan_entries :: "cstr \<Rightarrow> bool \<Rightarrow> u8 list list \<Rightarrow> dirscan \<Rightarrow> scan" where
  "scan_entries name dir_list [] t = Scan_end t"
| "scan_entries name dir_list (d # ds) t =
     (if d ! 0 = SLOT_EMPTY then Scan_return (if dir_list then 2 else 0)
      else if d ! 0 = SLOT_DELETED then scan_entries name dir_list ds t
      else if d ! 11 = ATTR_WIN95 then
        (let long_name = ds_long t + 1
         in scan_entries name dir_list ds (t\<lparr>ds_dirbuf := (ds_dirbuf t)[ds_long t := d],
              ds_long := (if long_name > MAX_DIRBUF - 1 then 0 else long_name)\<rparr>))
      else
        (let dirbuf = (ds_dirbuf t)[ds_long t := d]; filee = fat_parseDirEntries dirbuf (ds_long t) (ds_filee t)
         in if \<not> dir_list \<and> (strcasecmp name (fe_shortName filee) = 0 \<or> strcasecmp name (fe_longName filee) = 0)
            then Scan_found filee dirbuf
            else scan_entries name dir_list ds \<lparr>ds_filee = filee, ds_dirbuf = dirbuf, ds_long = 0\<rparr>))"

definition entries_of :: "u8 list \<Rightarrow> u8 list list" where
  "entries_of buf = map (\<lambda>i. take 32 (drop (32 * i) buf)) [0..<16]"

text \<open>The sectors in their order; a read that fails leaves the buffer and is not noticed, as \<open>readsector\<close>
  returns 1 or -1 and the callers compare with 0.\<close>

fun scan_sectors ::
  "(int \<Rightarrow> nat \<Rightarrow> u8 list option) \<Rightarrow> cstr \<Rightarrow> bool \<Rightarrow> u32 list \<Rightarrow> dirscan \<Rightarrow> fat_sc \<Rightarrow> scan \<times> fat_sc"
where
  "scan_sectors rd name dir_list [] t s = (Scan_end t, s)"
| "scan_sectors rd name dir_list (x # xs) t s =
     (case readsector rd x 1 (DirBuffer s) s of
        (r, buf, s') \<Rightarrow>
          if r = 0 then (Scan_return 0, s')
          else (case scan_entries name dir_list (entries_of buf) t of
                  Scan_end t' \<Rightarrow> scan_sectors rd name dir_list xs t' (s'\<lparr>DirBuffer := buf\<rparr>)
                | res \<Rightarrow> (res, s'\<lparr>DirBuffer := buf\<rparr>)))"

definition split_path :: "cstr \<Rightarrow> cstr \<times> cstr option" where
  "split_path name =
     (case strchr name CHR ''/'' of None \<Rightarrow> (name, None) | Some k \<Rightarrow> (take k name, Some (drop (k + 1) name)))"

lemma strchr_less: "strchr s c = Some k \<Longrightarrow> k < length s"
  by (induction s arbitrary: k) (auto split: if_splits)

lemma split_path_less: "split_path name = (x, Some rest) \<Longrightarrow> length rest < length name"
  by (auto simp: split_path_def split: option.splits dest: strchr_less)

definition entry_cluster :: "fat_fileentry \<Rightarrow> u32" where
  "entry_cluster f = ucast (fe_StartCluster f) OR push_bit 16 (ucast (fe_HighClust f))"

definition bzero_filee :: fat_fileentry where
  "bzero_filee = \<lparr>fe_longName = [], fe_shortName = [], fe_HighClust = 0, fe_StartCluster = 0, fe_FileSize = 0,
     fe_Chain = \<lparr>ch_start = 0, ch_entries = [], ch_count = 0\<rparr>\<rparr>"

text \<open>The file that was found becomes the file of the volume, with its chain.\<close>

definition take_file :: "(int \<Rightarrow> nat \<Rightarrow> u8 list option) \<Rightarrow> fat_fileentry \<Rightarrow> fat_sc \<Rightarrow> (int \<times> fat_sc) option" where
  "take_file rd f s =
     (let s = s\<lparr>file_of := (file_of s)\<lparr>fe_shortName := fe_shortName f, fe_HighClust := fe_HighClust f,
                  fe_StartCluster := fe_StartCluster f, fe_FileSize := fe_FileSize f\<rparr>\<rparr>
      in case fat_getChain rd (entry_cluster f) s of
           None \<Rightarrow> None
         | Some (ch, s') \<Rightarrow> Some (1, s'\<lparr>file_of := (file_of s')\<lparr>fe_Chain := ch\<rparr>\<rparr>))"

text \<open>The sectors of a directory that is a chain; \<open>None\<close> is an index behind the chain or a division by zero.\<close>

definition chain_sectors :: "fat_sc \<Rightarrow> fatchain \<Rightarrow> u32 list option" where
  "chain_sectors s ch =
     those (concat (map (\<lambda>i. map (\<lambda>j. getSectorIndex s ch j i) [0..<unat (SecPerClust s)]) [0..<ch_count ch]))"

function fat_subdirscan ::
  "(int \<Rightarrow> nat \<Rightarrow> u8 list option) \<Rightarrow> cstr \<Rightarrow> fatchain \<Rightarrow> u8 list list \<Rightarrow> fat_sc \<Rightarrow> (int \<times> fat_sc) option"
where
  "fat_subdirscan rd name ch dirbuf s =
     (case split_path name of
        (first, rest) \<Rightarrow>
          (case chain_sectors s ch of
             None \<Rightarrow> None
           | Some xs \<Rightarrow>
               (case scan_sectors rd first (rest = None \<and> name = []) xs \<lparr>ds_filee = bzero_filee, ds_dirbuf = dirbuf, ds_long = 0\<rparr> s of
                  (Scan_end _, s') \<Rightarrow> Some (0, s')
                | (Scan_return r, s') \<Rightarrow> Some (r, s')
                | (Scan_found f dirbuf', s') \<Rightarrow>
                    (case rest of
                       None \<Rightarrow> take_file rd f s'
                     | Some dpath \<Rightarrow>
                         (case fat_getChain rd (entry_cluster f) s' of
                            None \<Rightarrow> None
                          | Some (ch', s'') \<Rightarrow> fat_subdirscan rd dpath ch' dirbuf' s'')))))"
  by pat_completeness auto
termination fat_subdirscan
  by (relation "measure (\<lambda>(rd, name, ch, dirbuf, s). length name)") (auto dest: split_path_less [OF sym])

declare fat_subdirscan.simps [simp del]

text \<open>The root directory: a chain that starts at cluster 2 on FAT32, else the sectors in front of the data, the
  first data sector included.\<close>

definition root_sectors :: "fat_sc \<Rightarrow> u32 list" where
  "root_sectors s = map of_nat [unat (FirstRootDirSecNum s)..<Suc (unat (RootDirSectors s + FirstRootDirSecNum s))]"

definition fat_findfile ::
  "(int \<Rightarrow> nat \<Rightarrow> u8 list option) \<Rightarrow> cstr \<Rightarrow> u8 list list \<Rightarrow> fat_sc \<Rightarrow> (int \<times> fat_sc) option"
where
  "fat_findfile rd name dirbuf s =
     (if FatType s = TYPE_FAT32 then
        (case fat_getChain rd 2 s of
           None \<Rightarrow> None
         | Some (ch, s') \<Rightarrow> fat_subdirscan rd name ch dirbuf s')
      else
        (case split_path name of
           (first, rest) \<Rightarrow>
             (case scan_sectors rd first (rest = None \<and> name = []) (root_sectors s)
                     \<lparr>ds_filee = bzero_filee, ds_dirbuf = dirbuf, ds_long = 0\<rparr> s of
                (Scan_end _, s') \<Rightarrow> Some (2, s')
              | (Scan_return r, s') \<Rightarrow> Some (r, s')
              | (Scan_found f dirbuf', s') \<Rightarrow>
                  (case rest of
                     None \<Rightarrow> take_file rd f s'
                   | Some dpath \<Rightarrow>
                       (case fat_getChain rd (entry_cluster f) s' of
                          None \<Rightarrow> None
                        | Some (ch', s'') \<Rightarrow> fat_subdirscan rd dpath ch' dirbuf' s'')))))"

section \<open>Opening\<close>

text \<open>The device name, the partition and the file name of a path; \<open>None\<close> for a path without a file name. A
  device name that does not fit into its buffer is not modelled.\<close>

definition fat_path :: "cstr \<Rightarrow> (cstr \<times> nat \<times> cstr) option" where
  "fat_path path =
     (let p1 = (if strncmp path ''/dev/'' 5 = 0 then drop 5 path else path);
          p2 = (if strncmp p1 ''fat/'' 4 = 0 \<or> strncmp p1 ''fat@'' 4 = 0 then drop 4 p1 else p1)
      in case strchr p2 CHR ''/'' of
           None \<Rightarrow> None
         | Some k \<Rightarrow>
             (let dpath = ''/dev/'' @ take k p2;
                  dpath = (case strchr dpath CHR ''@'' of None \<Rightarrow> dpath | Some j \<Rightarrow> dpath[j := CHR ''/'']);
                  l = last dpath
              in Some (if uchar CHR ''a'' \<le> uchar l \<and> uchar l \<le> uchar CHR ''z'' then (butlast dpath, uchar l - uchar CHR ''a'', drop (k + 1) p2)
                       else (dpath, 0, drop (k + 1) p2))))"

text \<open>\<open>devio\<close> is the descriptor that the raw device is opened with. A volume whose boot sector is not that of a
  file system is searched nevertheless.\<close>

definition fat_open ::
  "(int \<Rightarrow> nat \<Rightarrow> u8 list option) \<Rightarrow> u8 list \<Rightarrow> u8 list \<Rightarrow> u8 list list \<Rightarrow> (cstr \<Rightarrow> biodev) \<Rightarrow> cstr \<Rightarrow> fat_sc option option"
where
  "fat_open rd junk1 junk2 dirbuf devio path =
     (case fat_path path of
        None \<Rightarrow> Some None
      | Some (dpath, part, filename) \<Rightarrow>
          (case fat_init rd junk1 junk2 (devio dpath) part of
             None \<Rightarrow> None
           | Some (r, s) \<Rightarrow>
               if r = 0 then Some None
               else (case fat_findfile rd filename dirbuf s of
                       None \<Rightarrow> None
                     | Some (res, s') \<Rightarrow>
                         if res \<le> 0 \<or> res = 2 then Some None else Some (Some (s'\<lparr>LastSector := - 1\<rparr>)))))"

section \<open>Names\<close>

text \<open>A short entry as it is stored: name and extension filled with blanks, then the other fields.\<close>

definition blank_fill :: "nat \<Rightarrow> cstr \<Rightarrow> u8 list" where
  "blank_fill n w = map byte_of w @ replicate (n - length w) 0x20"

definition short_entry :: "cstr \<Rightarrow> cstr \<Rightarrow> u8 list \<Rightarrow> u8 list" where
  "short_entry base ext r = blank_fill 8 base @ blank_fill 3 ext @ r"

lemma byte_of_inject [simp]: "byte_of c = byte_of d \<longleftrightarrow> c = d"
  by (metis char_of_byte_of)

lemma byte_of_blank: "byte_of c = 0x20 \<longleftrightarrow> c = CHR '' ''" "byte_of c = 0 \<longleftrightarrow> c = NUL"
proof -
  have "byte_of CHR '' '' = 0x20" "byte_of NUL = 0" by (simp_all add: byte_of_def uchar_def)
  then show "byte_of c = 0x20 \<longleftrightarrow> c = CHR '' ''" "byte_of c = 0 \<longleftrightarrow> c = NUL" by (metis byte_of_inject)+
qed

lemma takeWhile_word:
  assumes "c \<notin> set w" "\<And>d. byte_of d = b \<longleftrightarrow> d = c" "bs \<noteq> [] \<longrightarrow> hd bs = b"
  shows "takeWhile (\<lambda>x. x \<noteq> b) (map byte_of w @ bs) = map byte_of w"
  using assms by (induction w) (cases bs; auto)+

lemma c_str_word: "NUL \<notin> set w \<Longrightarrow> c_str (map byte_of w @ bs) = w @ c_str bs"
  by (induction w) (auto simp: c_str_def byte_of_blank)

lemma c_str_append_0: "c_str (0 # bs) = []"
  by (simp add: c_str_def)

lemma c_str_map: "NUL \<notin> set w \<Longrightarrow> c_str (map byte_of w) = w"
  using c_str_word [of w "[]"] by (simp add: c_str_def)

lemma parse_short_entry:
  assumes "NUL \<notin> set (base @ ext)" "CHR '' '' \<notin> set (base @ ext)" "length base \<le> 8" "length ext \<le> 3"
  shows "parseShortFilename (short_entry base ext r) = (if ext = [] then base else base @ ''.'' @ ext)"
proof -
  have len: "length (blank_fill 8 base) = 8" "length (blank_fill 3 ext) = 3" using assms(3,4) by (simp_all add: blank_fill_def)
  have tw: "takeWhile (\<lambda>x. x \<noteq> 0x20) (blank_fill n w) = map byte_of w" if "CHR '' '' \<notin> set w" for n w
    unfolding blank_fill_def by (rule takeWhile_word [OF that byte_of_blank(1)]) (cases "n - length w"; simp)
  have ext: "short_entry base ext r ! 8 = (if ext = [] then 0x20 else byte_of (hd ext))"
    using len assms(4) by (cases ext) (simp_all add: short_entry_def nth_append blank_fill_def)
  have ne: "ext \<noteq> [] \<Longrightarrow> byte_of (hd ext) \<noteq> 0x20" using assms(2) by (cases ext) (auto simp: byte_of_blank)
  have dot: "[0x2E] = map byte_of ''.''" by (simp add: byte_of_def uchar_def)
  have "parseShortFilename (short_entry base ext r) = c_str (map byte_of (base @ (if ext = [] then [] else ''.'') @ ext))"
    using len tw [of base 8] tw [of ext 3] assms(2) ext ne unfolding parseShortFilename_def dot by (simp add: short_entry_def)
  then show ?thesis using assms(1) by (subst (asm) c_str_map) auto
qed

section \<open>Long names\<close>

lemma parse_vmlinux: "parseShortFilename (short_entry ''VMLINUX'' ''GZ'' r) = ''VMLINUX.GZ''"
  using parse_short_entry [of "''VMLINUX''" "''GZ''" r] by simp

text \<open>How a long name is stored: 16-bit characters, closed with a 0 and filled with \<^verbatim>\<open>0xFFFF\<close> up to a multiple
  of 13, in entries of 13 characters whose order is reversed.\<close>

definition lfn_chars :: "cstr \<Rightarrow> (u8 \<times> u8) list" where
  "lfn_chars name = map (\<lambda>c. (byte_of c, 0)) name @
     (if length name mod 13 = 0 then [] else (0, 0) # replicate (12 - length name mod 13) (0xFF, 0xFF))"

definition lfn_entry :: "u8 \<Rightarrow> u8 \<Rightarrow> (u8 \<times> u8) list \<Rightarrow> u8 list" where
  "lfn_entry sq ck cs =
     (let b = concat (map (\<lambda>(l, h). [l, h]) cs) in [sq] @ take 10 b @ [ATTR_WIN95, 0, ck] @ take 12 (drop 10 b) @ [0, 0] @ drop 22 b)"

fun lfn_split :: "nat \<Rightarrow> (u8 \<times> u8) list \<Rightarrow> (u8 \<times> u8) list list" where
  "lfn_split 0 cs = []"
| "lfn_split (Suc n) cs = take 13 cs # lfn_split n (drop 13 cs)"

definition lfn_count :: "cstr \<Rightarrow> nat" where
  "lfn_count name = (length name + 12) div 13"

definition lfn_entries :: "u8 \<Rightarrow> cstr \<Rightarrow> u8 list list" where
  "lfn_entries ck name =
     rev (map (\<lambda>(i, cs). lfn_entry (of_nat (i + 1) OR (if i + 1 = lfn_count name then 0x40 else 0)) ck cs)
              (List.enumerate 0 (lfn_split (lfn_count name) (lfn_chars name))))"

lemma length_lfn_chars: "length (lfn_chars name) = 13 * lfn_count name"
proof -
  obtain q r where n: "length name = 13 * q + r" "r < 13" by (metis mult_div_mod_eq mod_less_divisor zero_less_numeral)
  then have "length name mod 13 = r" by simp
  moreover have "(length name + 12) div 13 = (if r = 0 then q else q + 1)" using n by (auto intro: div_nat_eqI)
  ultimately show ?thesis using n unfolding lfn_chars_def lfn_count_def by (cases "r = 0") simp_all
qed

lemma lfn_split_props:
  "length cs = 13 * n \<Longrightarrow> length (lfn_split n cs) = n \<and> concat (lfn_split n cs) = cs \<and> (\<forall>x\<in>set (lfn_split n cs). length x = 13)"
proof (induction n arbitrary: cs)
  case (Suc n)
  then have "length (drop 13 cs) = 13 * n" by simp
  from Suc.IH [OF this] Suc.prems show ?case by auto
qed simp

lemma concat_pairs_nth: "j < length cs \<Longrightarrow> concat (map (\<lambda>(l, h). [l, h]) cs) ! (2 * j) = fst (cs ! j)"
proof (induction cs arbitrary: j)
  case (Cons c cs)
  then show ?case by (cases j) (auto split: prod.splits)
qed simp

lemma length_concat_pairs: "length (concat (map (\<lambda>(l, h). [l, h]) cs)) = 2 * length cs"
  by (induction cs) auto

definition lfn_clean :: "u8 \<Rightarrow> u8" where
  "lfn_clean c = (if c = 0x0A then 0x5F else c)"

lemma wine_chars_entry:
  assumes "length cs = 13"
  shows "wine_chars (lfn_entry sq ck cs) = map (\<lambda>c. lfn_clean (fst c)) cs" "lfn_entry sq ck cs ! 11 = ATTR_WIN95"
    "lfn_entry sq ck cs ! 0 = sq"
proof -
  define b where "b = concat (map (\<lambda>(l, h). [l, h]) cs)"
  have lb: "length b = 26" using assms by (simp add: b_def length_concat_pairs)
  have e: "lfn_entry sq ck cs = [sq] @ take 10 b @ [ATTR_WIN95, 0, ck] @ take 12 (drop 10 b) @ [0, 0] @ drop 22 b"
    by (simp add: lfn_entry_def b_def Let_def)
  show "lfn_entry sq ck cs ! 11 = ATTR_WIN95" "lfn_entry sq ck cs ! 0 = sq" using lb by (simp_all add: e nth_append)
  have "take 10 (drop 1 (lfn_entry sq ck cs)) @ take 12 (drop 14 (lfn_entry sq ck cs)) @ take 4 (drop 28 (lfn_entry sq ck cs)) =
      take 10 b @ take 12 (drop 10 b) @ drop 22 b"
    using lb by (simp add: e)
  also have "\<dots> = b" 
  proof -
    have "drop 22 b = drop 12 (drop 10 b)" by simp
    then show ?thesis by (simp only: append_take_drop_id)
  qed
  finally have buf: "take 10 (drop 1 (lfn_entry sq ck cs)) @ take 12 (drop 14 (lfn_entry sq ck cs)) @ take 4 (drop 28 (lfn_entry sq ck cs)) = b" .
  show "wine_chars (lfn_entry sq ck cs) = map (\<lambda>c. lfn_clean (fst c)) cs"
    unfolding wine_chars_def buf Let_def b_def
    by (rule nth_equalityI) (simp_all add: assms concat_pairs_nth lfn_clean_def)
qed

lemma lfn_entries_props:
  assumes "lfn_count name \<le> 10"
  shows "length (lfn_entries ck name) = lfn_count name"
    "\<forall>d\<in>set (lfn_entries ck name). d ! 0 \<noteq> SLOT_EMPTY \<and> d ! 0 \<noteq> SLOT_DELETED \<and> d ! 11 = ATTR_WIN95"
    "concat (map wine_chars (rev (lfn_entries ck name))) = map (\<lambda>c. lfn_clean (fst c)) (lfn_chars name)"
proof -
  let ?n = "lfn_count name" and ?e = "\<lambda>(i, cs). lfn_entry (of_nat (i + 1) OR (if i + 1 = lfn_count name then 0x40 else 0)) ck cs"
  note sp = lfn_split_props [OF length_lfn_chars, of name]
  show "length (lfn_entries ck name) = ?n" using sp by (simp add: lfn_entries_def)
  have sq: "(of_nat (i + 1) OR (if last then 0x40 else 0) :: u8) \<notin> {SLOT_EMPTY, SLOT_DELETED}" if "i < 10" for i last
  proof -
    have "i \<in> {0, 1, 2, 3, 4, 5, 6, 7, 8, 9}" using that by auto
    then show ?thesis by (auto simp: SLOT_EMPTY_def SLOT_DELETED_def)
  qed
  have elem: "snd x \<in> set (lfn_split ?n (lfn_chars name)) \<and> fst x < ?n" if "x \<in> set (List.enumerate 0 (lfn_split ?n (lfn_chars name)))" for x
  proof -
    have "fst x < length (lfn_split ?n (lfn_chars name))" "lfn_split ?n (lfn_chars name) ! fst x = snd x"
      using that by (simp_all add: in_set_enumerate_eq)
    then show ?thesis using sp nth_mem by metis
  qed
  show "\<forall>d\<in>set (lfn_entries ck name). d ! 0 \<noteq> SLOT_EMPTY \<and> d ! 0 \<noteq> SLOT_DELETED \<and> d ! 11 = ATTR_WIN95"
  proof
    fix d assume "d \<in> set (lfn_entries ck name)"
    then obtain i cs where "(i, cs) \<in> set (List.enumerate 0 (lfn_split ?n (lfn_chars name)))" and d: "d = ?e (i, cs)"
      by (auto simp: lfn_entries_def)
    with elem [of "(i, cs)"] sp have "length cs = 13" "i < 10" using assms by auto
    with wine_chars_entry [of cs] sq [of i "i + 1 = ?n"] show "d ! 0 \<noteq> SLOT_EMPTY \<and> d ! 0 \<noteq> SLOT_DELETED \<and> d ! 11 = ATTR_WIN95"
      unfolding d by simp
  qed
  have "map wine_chars (rev (lfn_entries ck name)) = map (\<lambda>x. map (\<lambda>c. lfn_clean (fst c)) (snd x)) (List.enumerate 0 (lfn_split ?n (lfn_chars name)))"
    unfolding lfn_entries_def rev_rev_ident map_map comp_def
    using elem sp wine_chars_entry(1) by (intro map_cong refl) (auto split: prod.splits)
  also have "\<dots> = map (map (\<lambda>c. lfn_clean (fst c))) (lfn_split ?n (lfn_chars name))"
    by (metis (no_types, lifting) comp_apply list.map_comp map_eq_conv map_snd_enumerate)
  finally show "concat (map wine_chars (rev (lfn_entries ck name))) = map (\<lambda>c. lfn_clean (fst c)) (lfn_chars name)"
    using sp by (simp flip: map_concat)
qed

lemma lfn_name:
  assumes "NUL \<notin> set name" "char_of (10 :: nat) \<notin> set name"
  shows "c_str (map (\<lambda>c. lfn_clean (fst c)) (lfn_chars name)) = name"
proof -
  have "byte_of c \<noteq> 0x0A" if "c \<in> set name" for c
  proof
    assume "byte_of c = 0x0A"
    then have "char_of_byte (byte_of c) = char_of_byte 0x0A" by (rule arg_cong)
    then have "c = char_of (10 :: nat)" unfolding char_of_byte_of by (simp add: char_of_byte_def)
    with that assms(2) show False by simp
  qed
  then have clean: "map (\<lambda>c. lfn_clean (fst c)) (map (\<lambda>c. (byte_of c, 0 :: u8)) name) = map byte_of name"
    by (simp add: lfn_clean_def)
  show ?thesis
    using c_str_word [OF assms(1)] c_str_map [OF assms(1)] c_str_append_0 unfolding lfn_chars_def map_append clean
    by (simp add: lfn_clean_def c_str_def [of "[]"])
qed

text \<open>The entries of a long name fill the buffer from its front; the tenth starts it again.\<close>

lemma scan_lfn:
  assumes "\<forall>d\<in>set es. d ! 0 \<noteq> SLOT_EMPTY \<and> d ! 0 \<noteq> SLOT_DELETED \<and> d ! 11 = ATTR_WIN95"
    and "ds_long t + length es \<le> 10" "length (ds_dirbuf t) = 10"
  shows "\<exists>b. scan_entries key dl (es @ ds) t = scan_entries key dl ds
      (t\<lparr>ds_dirbuf := b, ds_long := (if es \<noteq> [] \<and> ds_long t + length es = 10 then 0 else ds_long t + length es)\<rparr>) \<and>
    length b = 10 \<and> take (ds_long t + length es) b = take (ds_long t) (ds_dirbuf t) @ es"
  using assms
proof (induction es arbitrary: t)
  case Nil
  show ?case using Nil.prems by (intro exI [of _ "ds_dirbuf t"]) simp
next
  case (Cons d es)
  let ?t = "t\<lparr>ds_dirbuf := (ds_dirbuf t)[ds_long t := d], ds_long := (if ds_long t + 1 > MAX_DIRBUF - 1 then 0 else ds_long t + 1)\<rparr>"
  have 1: "scan_entries key dl ((d # es) @ ds) t = scan_entries key dl (es @ ds) ?t"
    using Cons.prems(1) by (simp add: Let_def)
  have tk: "take (Suc (ds_long t)) ((ds_dirbuf t)[ds_long t := d]) = take (ds_long t) (ds_dirbuf t) @ [d]"
    using Cons.prems(2,3) by (simp add: take_Suc_conv_app_nth)
  show ?case
  proof (cases "es = []")
    case True
    with 1 Cons.prems tk show ?thesis
      by (intro exI [of _ "(ds_dirbuf t)[ds_long t := d]"]) (auto simp: MAX_DIRBUF_def)
  next
    case False
    then have lt: "ds_long t + 1 \<le> 9" using Cons.prems(2) by (cases es) auto
    then have l: "ds_long ?t = ds_long t + 1" by (simp add: MAX_DIRBUF_def)
    have "\<exists>b. scan_entries key dl (es @ ds) ?t = scan_entries key dl ds
        (?t\<lparr>ds_dirbuf := b, ds_long := (if es \<noteq> [] \<and> ds_long ?t + length es = 10 then 0 else ds_long ?t + length es)\<rparr>) \<and>
      length b = 10 \<and> take (ds_long ?t + length es) b = take (ds_long ?t) (ds_dirbuf ?t) @ es"
      using Cons.prems l by (intro Cons.IH) simp_all
    with 1 False tk show ?thesis unfolding l by auto
  qed
qed

lemma scan_entries_append:
  "scan_entries key dl (xs @ ys) t = (case scan_entries key dl xs t of Scan_end t' \<Rightarrow> scan_entries key dl ys t' | r \<Rightarrow> r)"
  by (induction xs arbitrary: t) (auto simp: Let_def)

definition live_entry :: "u8 list \<Rightarrow> bool" where
  "live_entry d \<longleftrightarrow> d ! 0 \<noteq> SLOT_EMPTY \<and> d ! 0 \<noteq> SLOT_DELETED \<and> d ! 11 \<noteq> ATTR_WIN95"

definition entry_fields :: "u8 list \<Rightarrow> fat_fileentry \<Rightarrow> bool" where
  "entry_fields d f \<longleftrightarrow> fe_shortName f = parseShortFilename d \<and> fe_HighClust f = le16 d 20 \<and> fe_StartCluster f = le16 d 26 \<and>
     fe_FileSize f = le32 d 28"

lemma fat_long_name_found:
  assumes "NUL \<notin> set name" "char_of (10 :: nat) \<notin> set name" "name \<noteq> []" "length name \<le> 117" "live_entry d"
    and "length (ds_dirbuf t) = 10" "ds_long t = 0" "strcasecmp key name = 0"
  shows "\<exists>f b. scan_entries key False (lfn_entries ck name @ d # ds) t = Scan_found f b \<and> fe_longName f = name \<and> entry_fields d f"
proof -
  have n: "0 < lfn_count name" "lfn_count name \<le> 9" using assms(3,4) by (simp_all add: lfn_count_def div_le_mono Suc_le_eq div_greater_zero_iff)
  note lp = lfn_entries_props [of name ck]
  obtain b where scan: "scan_entries key False (lfn_entries ck name @ d # ds) t =
      scan_entries key False (d # ds) (t\<lparr>ds_dirbuf := b, ds_long := lfn_count name\<rparr>)"
    and b: "length b = 10" "take (lfn_count name) b = lfn_entries ck name"
    using scan_lfn [of "lfn_entries ck name" t key False "d # ds"] lp n assms(6,7) by auto
  let ?f = "fat_parseDirEntries (b[lfn_count name := d]) (lfn_count name) (ds_filee t)"
  have "take (lfn_count name) (b[lfn_count name := d]) = lfn_entries ck name" using b by simp
  then have "fe_longName ?f = name" "entry_fields d ?f"
    using n b lp(3) lfn_name [OF assms(1,2)] by (simp_all add: fat_parseDirEntries_def Let_def entry_fields_def)
  with scan assms(5,8) show ?thesis by (auto simp: live_entry_def Let_def)
qed

section \<open>The search over sectors\<close>

lemma scan_entries_dirbuf: "scan_entries key dl ds t = Scan_end t' \<Longrightarrow> length (ds_dirbuf t') = length (ds_dirbuf t)"
  by (induction ds arbitrary: t) (auto simp: Let_def split: if_splits)

definition dir_entries :: "u8 list \<Rightarrow> fat_sc \<Rightarrow> nat list \<Rightarrow> u8 list list" where
  "dir_entries img s ns = concat (map (\<lambda>n. entries_of (vol_read img s n 1)) ns)"

definition dir_fits :: "u8 list \<Rightarrow> fat_sc \<Rightarrow> nat list \<Rightarrow> bool" where
  "dir_fits img s ns \<longleftrightarrow> (\<forall>n\<in>set ns. vol_pos s n + 512 \<le> length img)"

lemma fat_ready_updates [simp]:
  "fat_ready img (s\<lparr>DirBuffer := b\<rparr>) = fat_ready img s" "fat_ready img (s\<lparr>file_of := f\<rparr>) = fat_ready img s"
  by (simp_all add: fat_ready_def fat_dev_def fat_cache_ok_def vol_read_def vol_pos_def)

lemma next_cluster_updates [simp]:
  "next_cluster img (s\<lparr>file_of := f\<rparr>) = next_cluster img s" "fat_entry_in img (s\<lparr>file_of := f\<rparr>) = fat_entry_in img s"
  "fat_mask (s\<lparr>file_of := f\<rparr>) = fat_mask s"
  by (simp_all add: fun_eq_iff next_cluster_def fat_entry_in_def fat_byte_def [abs_def] vol_pos_def fat_mask_def)

context disk
begin

lemma scan_sectors_ok:
  assumes "fat_ready img s" "length (DirBuffer s) \<le> 512" "dir_fits img s ns"
  shows "\<exists>s'. scan_sectors rd key dl (map of_nat ns) t s = (scan_entries key dl (dir_entries img s ns) t, s') \<and>
    fat_same s s' \<and> fat_ready img s' \<and> length (DirBuffer s') \<le> 512"
  using assms
proof (induction ns arbitrary: t s)
  case Nil
  then show ?case by (simp add: dir_entries_def)
next
  case (Cons n ns)
  have dev: "fat_dev img s" and fit: "vol_pos s n + 512 * 1 \<le> length img" using Cons.prems by (simp_all add: fat_ready_def dir_fits_def)
  obtain d where d: "readsector rd (of_nat n) 1 (DirBuffer s) s = (1, vol_read img s n 1, s\<lparr>fs_dev := d\<rparr>)" "fat_same s (s\<lparr>fs_dev := d\<rparr>)"
    using readsector_ok [OF dev _ _ fit, of "DirBuffer s"] Cons.prems(2) by auto
  let ?t = "s\<lparr>fs_dev := d, DirBuffer := vol_read img s n 1\<rparr>"
  have same: "fat_same s ?t" using fat_same_trans [OF d(2), of ?t] by simp
  have ready: "fat_ready img ?t"
    using Cons.prems(1) fat_same_simps [OF same] by (simp add: fat_ready_def fat_cache_ok_def)
  have len: "length (DirBuffer ?t) \<le> 512" using fit by simp
  have eq: "scan_sectors rd key dl (map of_nat (n # ns)) t s =
      (case scan_entries key dl (entries_of (vol_read img s n 1)) t of
         Scan_end t' \<Rightarrow> scan_sectors rd key dl (map of_nat ns) t' ?t | res \<Rightarrow> (res, ?t))"
    by (simp only: list.map scan_sectors.simps d(1) prod.case) (simp split: scan.split)
  have dirs: "dir_entries img ?t ns = dir_entries img s ns" "dir_fits img ?t ns = dir_fits img s ns"
    by (simp_all only: dir_entries_def dir_fits_def fat_same_simps(8,9) [OF same])
  have split: "scan_entries key dl (dir_entries img s (n # ns)) t =
      (case scan_entries key dl (entries_of (vol_read img s n 1)) t of Scan_end t' \<Rightarrow> scan_entries key dl (dir_entries img s ns) t' | r \<Rightarrow> r)"
    unfolding dir_entries_def by (simp add: scan_entries_append split: scan.split)
  have IH: "\<exists>s'. scan_sectors rd key dl (map of_nat ns) t' ?t = (scan_entries key dl (dir_entries img s ns) t', s') \<and>
      fat_same s s' \<and> fat_ready img s' \<and> length (DirBuffer s') \<le> 512" for t'
    using Cons.IH [OF ready len, of t'] Cons.prems(3) fat_same_trans [OF same] unfolding dirs by (auto simp: dir_fits_def)
  show ?case
  proof (cases "scan_entries key dl (entries_of (vol_read img s n 1)) t")
    case (Scan_end t')
    with IH [of t'] show ?thesis unfolding eq split by simp
  qed (use same ready len in \<open>auto simp only: eq split scan.case\<close>)
qed

end

lemma split_path_plain: "CHR ''/'' \<notin> set key \<Longrightarrow> split_path key = (key, None)"
proof -
  have none: "c \<notin> set s \<Longrightarrow> strchr s c = None" for s c by (induction s) auto
  show "CHR ''/'' \<notin> set key \<Longrightarrow> split_path key = (key, None)" by (simp add: split_path_def none)
qed

context disk
begin

text \<open>A file in the root directory of a FAT12 or FAT16 volume.\<close>

lemma fat_findfile_ok:
  assumes "fat_ready img s" "FatType s \<noteq> TYPE_FAT32" "length (DirBuffer s) \<le> 512"
    and "root_sectors s = map of_nat ns" "dir_fits img s ns" "CHR ''/'' \<notin> set key" "key \<noteq> []"
    and "scan_entries key False (dir_entries img s ns) \<lparr>ds_filee = bzero_filee, ds_dirbuf = dirbuf, ds_long = 0\<rparr> = Scan_found f b"
    and "entry_cluster f = of_nat c" "fat_links (next_cluster img s) (unat (fat_mask s)) (c # cs)" "\<forall>x\<in>set (c # cs). fat_entry_in img s x"
  shows "\<exists>s' g. fat_findfile rd key dirbuf s = Some (1, s') \<and> fat_same (s\<lparr>file_of := g\<rparr>) s' \<and> fe_FileSize g = fe_FileSize f \<and>
    fe_Chain g = \<lparr>ch_start = of_nat c, ch_entries = map of_nat (c # cs), ch_count = length (c # cs)\<rparr>"
proof -
  obtain s1 where s1: "scan_sectors rd key False (root_sectors s) \<lparr>ds_filee = bzero_filee, ds_dirbuf = dirbuf, ds_long = 0\<rparr> s = (Scan_found f b, s1)"
      "fat_same s s1" "fat_ready img s1"
    using scan_sectors_ok [OF assms(1,3,5), of key False] assms(8) unfolding assms(4) by metis
  let ?g = "(file_of s)\<lparr>fe_shortName := fe_shortName f, fe_HighClust := fe_HighClust f, fe_StartCluster := fe_StartCluster f, fe_FileSize := fe_FileSize f\<rparr>"
  let ?s1 = "s1\<lparr>file_of := ?g\<rparr>" and ?ch = "\<lparr>ch_start = of_nat c :: u32, ch_entries = map of_nat (c # cs), ch_count = length (c # cs)\<rparr>"
  obtain s2 where s2: "fat_getChain rd (of_nat c) ?s1 = Some (?ch, s2)" "fat_same ?s1 s2"
    using fat_getChain_ok [of ?s1 c cs] s1(3) assms(10,11) fat_same_next [OF s1(2)] fat_same_simps(10) [OF s1(2)] by auto
  have fs: "file_of s1 = file_of s" by (rule fat_same_simps(6) [OF s1(2)])
  have "fat_findfile rd key dirbuf s = Some (1, s2\<lparr>file_of := (file_of s2)\<lparr>fe_Chain := ?ch\<rparr>\<rparr>)"
    using assms(2,7) s1(1) s2(1) by (simp add: fat_findfile_def split_path_plain [OF assms(6)] take_file_def fs assms(9))
  moreover have "fat_same (s\<lparr>file_of := (file_of s2)\<lparr>fe_Chain := ?ch\<rparr>\<rparr>) (s2\<lparr>file_of := (file_of s2)\<lparr>fe_Chain := ?ch\<rparr>\<rparr>)"
    using s1(2) s2(2) unfolding fat_same_def by (cases s; cases s1; cases s2) auto
  moreover have "file_of s2 = ?g" using fat_same_simps(6) [OF s2(2)] by simp
  then have "fe_FileSize ((file_of s2)\<lparr>fe_Chain := ?ch\<rparr>) = fe_FileSize f" "fe_Chain ((file_of s2)\<lparr>fe_Chain := ?ch\<rparr>) = ?ch" by simp_all
  ultimately show ?thesis by blast
qed

end

section \<open>Properties\<close>

definition demo_scan :: dirscan where
  "demo_scan = \<lparr>ds_filee = bzero_filee, ds_dirbuf = replicate 10 [], ds_long = 0\<rparr>"

definition demo_entry :: "u8 list" where
  "demo_entry = short_entry ''BOOT~1'' ''CFG'' (0x20 # replicate 14 0 @ [2, 0, 0xBC, 2, 0, 0])"

lemma demo_entry_live: "live_entry demo_entry"
  by code_simp

text \<open>A long name of ten entries, 118 to 130 characters, fills the buffer of entries, which then starts
  again at its front: the name is lost, and the file is found under its short name only.\<close>

theorem fat_long_name_lost:
  assumes "118 \<le> length name" "length name \<le> 130" "live_entry d" "length (ds_dirbuf t) = 10" "ds_long t = 0"
    and "strcasecmp key (parseShortFilename d) \<noteq> 0" "strcasecmp key (fe_longName (ds_filee t)) \<noteq> 0"
  shows "\<exists>t'. scan_entries key False (lfn_entries ck name @ d # ds) t = scan_entries key False ds t' \<and>
    fe_longName (ds_filee t') = fe_longName (ds_filee t)"
proof -
  have n: "lfn_count name = 10" using assms(1,2) by (simp add: lfn_count_def div_nat_eqI)
  note lp = lfn_entries_props [of name ck, unfolded n, OF order_refl]
  have ne: "lfn_entries ck name \<noteq> []" using lp(1) by auto
  obtain b where scan: "scan_entries key False (lfn_entries ck name @ d # ds) t = scan_entries key False (d # ds) (t\<lparr>ds_dirbuf := b, ds_long := 0\<rparr>)"
    and b: "length b = 10"
    using scan_lfn [of "lfn_entries ck name" t key False "d # ds"] lp ne assms(4,5) by auto
  let ?f = "fat_parseDirEntries (b[0 := d]) 0 (ds_filee t)"
  have "fe_shortName ?f = parseShortFilename d" "fe_longName ?f = fe_longName (ds_filee t)"
    using b by (simp_all add: fat_parseDirEntries_def Let_def)
  with scan assms(3,6,7) show ?thesis by (auto simp: live_entry_def Let_def)
qed

theorem fat_long_name_lost_witness:
  "scan_entries (replicate 120 CHR ''n'') False (lfn_entries 7 (replicate 120 CHR ''n'') @ [demo_entry]) demo_scan \<noteq> Scan_return 0 \<and>
   (\<exists>t'. scan_entries (replicate 120 CHR ''n'') False (lfn_entries 7 (replicate 120 CHR ''n'') @ [demo_entry]) demo_scan = Scan_end t')"
proof -
  have "strcasecmp (CHR ''n'' # r) (parseShortFilename demo_entry) \<noteq> 0" for r
  proof -
    have p: "parseShortFilename demo_entry = CHR ''B'' # ''OOT~1.CFG''" by code_simp
    show ?thesis unfolding p by simp
  qed
  moreover have "replicate 120 CHR ''n'' = CHR ''n'' # replicate 119 CHR ''n''" by (simp flip: replicate_Suc)
  ultimately have "\<exists>t'. scan_entries (replicate 120 CHR ''n'') False (lfn_entries 7 (replicate 120 CHR ''n'') @ [demo_entry]) demo_scan =
      scan_entries (replicate 120 CHR ''n'') False [] t' \<and> fe_longName (ds_filee t') = fe_longName (ds_filee demo_scan)"
    by (intro fat_long_name_lost) (simp_all add: demo_entry_live demo_scan_def bzero_filee_def)
  then show ?thesis by auto
qed

text \<open>C2. A file in the root directory of a FAT12 or FAT16 volume, stored behind entries that do not match and
  with a long name, is found under that name, and a read of it from the start returns the first bytes of its
  clusters. (The driver is an array of blocks; the table links the clusters of the file, which are on the device,
  different and hold its size.)\<close>

theorem fat_find_read:
  assumes "disk rd img" "fat_ready img s" "FatType s \<noteq> TYPE_FAT32" "length (DirBuffer s) \<le> 512" "length (LastSectorBuffer s) \<le> 512"
    and "root_sectors s = map of_nat ns" "dir_fits img s ns" "CHR ''/'' \<notin> set key" "key \<noteq> []" "length dirbuf = 10"
    and "dir_entries img s ns = pre @ lfn_entries ck name @ d # post"
    and "scan_entries key False pre \<lparr>ds_filee = bzero_filee, ds_dirbuf = dirbuf, ds_long = 0\<rparr> = Scan_end t" "ds_long t = 0"
    and "NUL \<notin> set name" "char_of (10 :: nat) \<notin> set name" "name \<noteq> []" "length name \<le> 117" "live_entry d" "strcasecmp key name = 0"
    and "ucast (le16 d 26) OR push_bit 16 (ucast (le16 d 20)) = (of_nat c :: u32)"
    and "fat_links (next_cluster img s) (unat (fat_mask s)) (c # cs)" "\<forall>x\<in>set (c # cs). fat_entry_in img s x"
    and "0 < unat (SecPerClust s)" "distinct (c # cs)" "0 < unat (le32 d 28)" "unat (le32 d 28) \<le> 512 * file_sectors s (c # cs)"
    and "\<forall>x\<in>set (c # cs). 2 \<le> x \<and> vol_pos s (unat (DataSectorBase s) + (x - 1) * unat (SecPerClust s)) \<le> length img"
    and "n = min (unat len) (unat (le32 d 28))" "n < 2 ^ 31"
  shows "\<exists>s' s''. fat_findfile rd key dirbuf s = Some (1, s') \<and>
    fat_read rd junk 0 len (s'\<lparr>LastSector := - 1\<rparr>) =
      Some (int n, take n (take (unat (le32 d 28)) (concat (map (cluster_bytes img s) (c # cs)))), int n, s'')"
proof -
  have "length (ds_dirbuf t) = 10" using scan_entries_dirbuf [OF assms(12)] assms(10) by simp
  from fat_long_name_found [OF assms(14-18) this assms(13,19)] assms(11,12) obtain f b where
    f: "scan_entries key False (dir_entries img s ns) \<lparr>ds_filee = bzero_filee, ds_dirbuf = dirbuf, ds_long = 0\<rparr> = Scan_found f b"
      "entry_fields d f" by (metis (no_types, lifting) scan_entries_append scan.case(1))
  then have ec: "entry_cluster f = of_nat c" using assms(20) by (simp add: entry_fields_def entry_cluster_def)
  obtain s' g where s': "fat_findfile rd key dirbuf s = Some (1, s')" "fat_same (s\<lparr>file_of := g\<rparr>) s'" "fe_FileSize g = fe_FileSize f"
      "fe_Chain g = \<lparr>ch_start = of_nat c, ch_entries = map of_nat (c # cs), ch_count = length (c # cs)\<rparr>"
    using disk.fat_findfile_ok [OF assms(1-4,6-9) f(1) ec assms(21,22)] by blast
  let ?u = "s\<lparr>file_of := g\<rparr>" and ?t = "s'\<lparr>LastSector := - 1\<rparr>"
  have same: "fat_same ?u ?t" using fat_same_trans [OF s'(2), of ?t] by simp
  have size: "fe_FileSize g = le32 d 28" using s'(3) f(2) by (simp add: entry_fields_def)
  have vol: "vol_pos ?u = vol_pos s" "vol_read img ?u = vol_read img s" "file_sectors ?u = file_sectors s"
    by (simp_all add: fun_eq_iff vol_pos_def vol_read_def file_sectors_def)
  have "fat_dev img ?u" using assms(2) by (simp add: fat_ready_def fat_dev_def)
  moreover have "x < 2 ^ 28" if "x \<in> set (c # cs)" for x using assms(22) that by (auto simp: fat_entry_in_def)
  ultimately have ff: "fat_file img ?u (c # cs)"
    using assms(23,24,26,27) s'(4) size unfolding fat_file_def vol by simp
  then have ff': "fat_file img ?t (c # cs)" unfolding fat_same_file [OF same] .
  have last: "last_ok img ?t" using same assms(5) by (simp add: last_ok_def fat_same_def)
  have size': "fe_FileSize (file_of ?t) = le32 d 28" using fat_same_simps(6) [OF same] size by simp
  have sz: "0 < int (unat (fe_FileSize (file_of ?t)))" unfolding size' using assms(25) by linarith
  have bytes: "file_bytes img ?t (c # cs) = take (unat (le32 d 28)) (concat (map (cluster_bytes img s) (c # cs)))"
    unfolding fat_same_file(4) [OF same] by (simp add: file_bytes_def size cluster_bytes_def [abs_def] vol)
  obtain s'' where "fat_read rd junk 0 len ?t = Some (int n, take n (drop (nat 0) (file_bytes img ?t (c # cs))), 0 + int n, s'')"
    using fat_read_contents0 [OF assms(1) ff' last order_refl sz _ assms(29), of len junk] assms(28) size' by auto
  with s'(1) bytes show ?thesis by auto
qed

text \<open>A volume with one file of 700 bytes in the clusters 2 and 3.\<close>

lemma entries_of_concat:
  assumes "\<forall>e\<in>set es. length e = 32" "length es \<le> 16"
  shows "entries_of (concat es @ r) = es @ map (\<lambda>i. take 32 (drop (32 * i) (concat es @ r))) [length es..<16]"
proof -
  have "take 32 (drop (32 * i) (concat es @ r)) = es ! i" if "i < length es" for i
    using assms(1) that
  proof (induction es arbitrary: i)
    case (Cons e es)
    then show ?case by (cases i) simp_all
  qed simp
  then have "map (\<lambda>i. take 32 (drop (32 * i) (concat es @ r))) [0..<length es] = es"
    by (intro nth_equalityI) simp_all
  moreover have "[0..<16] = [0..<length es] @ [length es..<16]" using assms(2) by (metis le0 le_add_diff_inverse upt_add_eq_append)
  ultimately show ?thesis unfolding entries_of_def by simp
qed

definition demo_dir :: "u8 list list" where
  "demo_dir = lfn_entries 7 ''boot.config.txt'' @ [demo_entry]"

definition demo_content :: "u8 list" where
  "demo_content = (replicate 516 0 @ [3, 0, 0xFF, 0xFF] @ replicate 504 0) @ concat demo_dir @ replicate (3072 - length (concat demo_dir)) 0"

definition demo_mem :: mem where
  "demo_mem a = demo_content ! unat (a - 0x80400000)"

definition demo_root :: fat_sc where
  "demo_root = demo_fs\<lparr>RootDirSectors := 1, FirstRootDirSecNum := 2\<rparr>"

lemma demo_dir_length: "\<forall>e\<in>set demo_dir. length e = 32" "length demo_dir = 3" "length (concat demo_dir) = 96"
  by code_simp+

lemma demo_img: "loop_img (demo_vol demo_mem) = demo_content"
proof (rule nth_equalityI)
  show len: "length (loop_img (demo_vol demo_mem)) = length demo_content" by (simp add: demo_content_def demo_dir_length)
  fix i assume "i < length (loop_img (demo_vol demo_mem))"
  then have i: "i < 4096" by simp
  then have "unat (of_nat i :: u32) = i" by (intro unat_of_nat_less) simp
  with i show "loop_img (demo_vol demo_mem) ! i = demo_content ! i" by (simp add: nth_demo_vol demo_mem_def)
qed

lemma demo_root_facts:
  "fat_ready (loop_img (demo_vol m)) demo_root" "next_cluster img demo_root = next_cluster img demo_fs"
  "fat_entry_in img demo_root = fat_entry_in img demo_fs" "vol_pos demo_root n = 512 * n" "root_sectors demo_root = map of_nat [2, 3]"
proof -
  have vol: "vol_pos demo_root = vol_pos demo_fs" by (simp add: fun_eq_iff vol_pos_def demo_root_def)
  have same: "FatType demo_root = FatType demo_fs" "ResSectors demo_root = ResSectors demo_fs" "fs_dev demo_root = fs_dev demo_fs"
    "FatBuffer demo_root = FatBuffer demo_fs" "FatCacheNum demo_root = FatCacheNum demo_fs" by (simp_all add: demo_root_def)
  show "fat_ready (loop_img (demo_vol m)) demo_root"
    using demo_ready [of m] by (simp add: fat_ready_def fat_dev_def fat_cache_ok_def vol_read_def vol same)
  show "next_cluster img demo_root = next_cluster img demo_fs" "fat_entry_in img demo_root = fat_entry_in img demo_fs"
    by (simp_all add: fun_eq_iff next_cluster_def fat_entry_in_def fat_byte_def [abs_def] vol same)
  show "vol_pos demo_root n = 512 * n" unfolding vol by (rule demo_fs_simps)
  show "root_sectors demo_root = map of_nat [2, 3]" by (simp add: root_sectors_def demo_root_def upt_rec)
qed

lemma demo_entries:
  "\<exists>post. dir_entries (loop_img (demo_vol demo_mem)) demo_root [2, 3] = [] @ lfn_entries 7 ''boot.config.txt'' @ demo_entry # post"
proof -
  have "vol_read demo_content demo_root 2 1 = concat demo_dir @ replicate 416 0"
    using demo_dir_length(3) by (simp add: vol_read_def demo_root_facts demo_content_def)
  then have "entries_of (vol_read demo_content demo_root 2 1) =
      demo_dir @ map (\<lambda>i. take 32 (drop (32 * i) (concat demo_dir @ replicate 416 0))) [3..<16]"
    using entries_of_concat [OF demo_dir_length(1), of "replicate 416 0"] demo_dir_length(2) by simp
  then show ?thesis unfolding demo_img by (simp add: dir_entries_def demo_dir_def)
qed

lemma demo_mem_next:
  "next_cluster (loop_img (demo_vol demo_mem)) demo_root 2 = 3" "next_cluster (loop_img (demo_vol demo_mem)) demo_root 3 = 0xFFFF"
  unfolding demo_root_facts by (simp_all add: demo_next demo_mem_def demo_content_def nth_append)

theorem fat_find_read_witness:
  "\<exists>s' s''. fat_findfile (loopdev_read (demo_vol demo_mem)) ''BOOT.CONFIG.TXT'' (replicate 10 []) demo_root = Some (1, s') \<and>
    fat_read (loopdev_read (demo_vol demo_mem)) [] 0 1000 (s'\<lparr>LastSector := - 1\<rparr>) =
      Some (700, take 700 (take 700 (concat (map (cluster_bytes (loop_img (demo_vol demo_mem)) demo_root) [2, 3]))), 700, s'')"
proof -
  obtain post where post: "dir_entries (loop_img (demo_vol demo_mem)) demo_root [2, 3] = [] @ lfn_entries 7 ''boot.config.txt'' @ demo_entry # post"
    using demo_entries by blast
  have d: "le16 demo_entry 26 = 2" "le16 demo_entry 20 = 0" "le32 demo_entry 28 = 700" by code_simp+
  have k: "strcasecmp ''BOOT.CONFIG.TXT'' ''boot.config.txt'' = 0" "char_of (10 :: nat) \<notin> set ''boot.config.txt''" by code_simp+
  have mask: "fat_mask demo_root = 0xFFF8" "FatType demo_root \<noteq> TYPE_FAT32" by (simp_all add: demo_root_def demo_fs_def fat_mask_def TYPE_FAT12_def TYPE_FAT16_def TYPE_FAT32_def)
  let ?img = "loop_img (demo_vol demo_mem)"
  have "\<exists>s' s''. fat_findfile (loopdev_read (demo_vol demo_mem)) ''BOOT.CONFIG.TXT'' (replicate 10 []) demo_root = Some (1, s') \<and>
    fat_read (loopdev_read (demo_vol demo_mem)) [] 0 1000 (s'\<lparr>LastSector := - 1\<rparr>) =
      Some (int 700, take 700 (take (unat (le32 demo_entry 28)) (concat (map (cluster_bytes ?img demo_root) (2 # [3])))), int 700, s'')"
  proof (rule fat_find_read [OF demo_vol_disk demo_root_facts(1) mask(2) _ _ demo_root_facts(5) _ _ _ _ post])
    show "dir_fits ?img demo_root [2, 3]" by (simp add: dir_fits_def demo_root_facts)
    show "scan_entries ''BOOT.CONFIG.TXT'' False [] \<lparr>ds_filee = bzero_filee, ds_dirbuf = replicate 10 [], ds_long = 0\<rparr> = Scan_end demo_scan"
      by (simp add: demo_scan_def)
    show "fat_links (next_cluster ?img demo_root) (unat (fat_mask demo_root)) (2 # [3])" by (simp add: demo_mem_next mask)
    show "\<forall>x\<in>set (2 # [3]). fat_entry_in ?img demo_root x" by (simp add: demo_root_facts demo_entry_in)
    show "0 < unat (SecPerClust demo_root)" "unat (le32 demo_entry 28) \<le> 512 * file_sectors demo_root (2 # [3])"
      "length (DirBuffer demo_root) \<le> 512" "length (LastSectorBuffer demo_root) \<le> 512"
      by (simp_all add: demo_root_def demo_fs_def fat_zero_def file_sectors_def d SECTORSIZE_def)
    show "\<forall>x\<in>set (2 # [3]). 2 \<le> x \<and> vol_pos demo_root (unat (DataSectorBase demo_root) + (x - 1) * unat (SecPerClust demo_root)) \<le> length ?img"
      unfolding demo_root_facts by (simp add: demo_root_def demo_fs_def)
    show "char_of (10 :: nat) \<notin> set ''boot.config.txt''" by (rule k(2))
  qed (simp_all add: demo_scan_def k demo_entry_live d)
  then show ?thesis by (simp add: d)
qed

end
