(* ===== verification/Spec2Isabelle.thy ===== *)
theory Spec2Isabelle
  imports Prelude CString Number Crc Qsort Env Symtab Rsa Argv Hist Cmdparser Nvram Loader Fastload Xmodem Printf Memcmds Memops Blocks Malloc Malloc_Inv Malloc_Client Devfs Fat Fat_Table Fat_Read Fat_Mount Fat_Dir
begin

text \<open>
  A verification library for the boot monitor PMON.

  \<^bold>\<open>The program.\<close> PMON is the firmware of MIPS boards. After the board is initialised it
  reads the flash memory for its environment variables, then repeats: read a line with the line
  editor (\<^verbatim>\<open>pmon/cmds/hist.c\<close>), replace variables, cut the line into commands and words and call
  the command (\<^verbatim>\<open>pmon/common/cmdparser.c\<close>, \<^verbatim>\<open>pmon/cmds/cmdtable.c\<close>, \<^verbatim>\<open>lib/libc/argvize.c\<close>).
  Commands read their options with \<^verbatim>\<open>lib/libc/getopt.c\<close> and their addresses with the expression
  evaluator (\<^verbatim>\<open>pmon/common/rsa.c\<close>), which knows numbers, the registers of the client program and
  the symbols of the loaded program (\<^verbatim>\<open>pmon/cmds/sym.c\<close>). The \<^verbatim>\<open>set\<close> command changes the
  environment (\<^verbatim>\<open>pmon/common/env.c\<close>), which writes through to the flash
  (\<^verbatim>\<open>pmon/dev/fl_nvram.c\<close>). The \<^verbatim>\<open>load\<close> command stores a program in memory and defines its
  symbols (\<^verbatim>\<open>pmon/loaders\<close>); \<^verbatim>\<open>pmon/cmds/xmodem.c\<close> receives a file over the serial line.
  The commands of \<^verbatim>\<open>pmon/cmds/memcmds.c\<close> show, change, fill, copy, compare and search memory. Files come from raw devices (\<^verbatim>\<open>pmon/fs/devfs.c\<close>) and from the file
  systems on them, such as FAT (\<^verbatim>\<open>pmon/fs/fatfs.c\<close>); all parts share the heap of
  \<^verbatim>\<open>lib/libc/malloc.c\<close>.

  \<^bold>\<open>Configuration.\<close> The model is that of a little-endian MIPS board with 32-bit addresses
  and 64-bit registers (\<^verbatim>\<open>mipsel\<close>, o32 calling convention, signed \<^verbatim>\<open>char\<close>), with the
  modules for symbols, the debugger, networking, the history, the pager and fastload, with a
  non-volatile store and without decompression of loaded files.

  \<^bold>\<open>The theories,\<close> each with its definitions first and its lemmas after them:

    \<^item> \<open>Prelude\<close>: the types of the model (\<open>u8\<close> to \<open>u64\<close> are words, so arithmetic wraps; strings
      are lists without \<open>NUL\<close>, \<open>wf_cstr\<close>; buffers are lists of fixed length; memory is a map
      from addresses to bytes), the class and case tables of \<^verbatim>\<open>lib/libc/ctype_.c\<close>, and the
      lemmas on lists, words and strings that the other theories share.
    \<^item> \<open>CString\<close>: the string functions of \<^verbatim>\<open>lib/libc\<close>. Functions that write through a pointer
      work on a buffer with a position and answer \<open>None\<close> when they would leave it.
    \<^item> \<open>Number\<close>: \<^verbatim>\<open>lib/libc/atob.c\<close>, numbers read and printed in a base. \<open>Crc\<close>: the CRC-16 of
      \<^verbatim>\<open>pmon/cmds/crc16.c\<close> and \<^verbatim>\<open>pmon/cmds/xmodem.c\<close> and the CRC-32 of \<^verbatim>\<open>lib/libc/crc32.c\<close>.
      \<open>Qsort\<close>: \<^verbatim>\<open>lib/libc/qsort.c\<close> on arrays of pointers, with a comparator as parameter; the
      locale \<open>comparator\<close> states what callers promise of it.
    \<^item> \<open>Env\<close>: the environment. The record \<open>env\<close> holds the table of 64 slots and the table of
      standard variables with their hooks; the non-volatile store is a parameter, its
      operations a field of the state. The locale \<open>kv_store\<close> is the contract of a table of
      names and values; it is interpreted on \<open>env\<close> here and on the symbol table in \<open>Symtab\<close>.
    \<^item> \<open>Symtab\<close>: the hash table of symbols and its two sorted arrays, kept as indices into a
      heap of symbols; the comparators of the sort are interpretations of \<open>comparator\<close>.
    \<^item> \<open>Rsa\<close>: the expression evaluator; \<open>Argv\<close>: cutting a line into words and \<open>getopt\<close>.
    \<^item> \<open>Hist\<close>: the line editor with its terminal output and the history ring. \<open>Cmdparser\<close>:
      substitution, dispatch and the command tables; command functions are parameters, and the
      relation \<open>cmd_step\<close> says which calls a line may make.
    \<^item> \<open>Nvram\<close>: the variables in flash, bytes with a checksum; the locale \<open>nv_store\<close> is what
      \<open>Env\<close> relies on, interpreted on the flash operations, so the two are composed.
    \<^item> \<open>Loader\<close> and \<open>Fastload\<close>: the state of a download, the check of load addresses, the
      S-record and the fastload formats. \<open>Xmodem\<close>: the XMODEM receiver, on a line that is a list of
      bytes and of silences.
    \<^item> \<open>Printf\<close>: \<^verbatim>\<open>lib/libc/vsprintf.c\<close>, formatted output without floating point. \<open>Memcmds\<close>: the
      commands on memory, with \<^verbatim>\<open>bcopy\<close> and the pager they use; \<open>Memops\<close>: what they do to memory and
      what they list. The terminal input of the pager is a list of keys, that of \<^verbatim>\<open>m\<close> a list of lines.
    \<^item> \<open>Malloc\<close>: \<^verbatim>\<open>malloc\<close>, \<^verbatim>\<open>calloc\<close>, \<^verbatim>\<open>realloc\<close>, \<^verbatim>\<open>free\<close> and \<^verbatim>\<open>sbrk\<close> on the headers and the ring of
      free blocks in the bytes of memory. \<open>Blocks\<close>: the heap as a list of blocks in address order.
      \<open>Malloc_Inv\<close>: the invariant that relates the two, and what each operation does to the list.
      \<open>Malloc_Client\<close>: the locale \<open>allocator\<close>, the contract the callers rely on, interpreted on the
      code, and the step relation of a program that allocates, writes and frees.
    \<^item> \<open>Devfs\<close>: the raw device layer, which cuts reads and writes into transfers of blocks, and the
      loop device on a memory file as a driver. The locales \<open>disk\<close> (a driver that is read) and
      \<open>block_device\<close> (one that is written too) state what the layer needs of a driver.
    \<^item> \<open>Fat\<close>: the FAT file system over the raw device layer: mounting, the allocation table with its
      cache of one sector, chains, reading. \<open>Fat_Table\<close>: table entries and chains against a
      reference. \<open>Fat_Read\<close>: the contents of a file and the read loop. \<open>Fat_Dir\<close>: directory
      entries, long names, the search for a file and \<^verbatim>\<open>fat_open\<close>. Its lemmas are proved in \<open>disk\<close>, so
      they hold for every driver with that contract.

  \<^bold>\<open>What the lemmas show.\<close> For each component: that its operations keep its invariant, and
  what they compute on every branch, errors included; that the history ring, the symbol table
  and the flash area refine a list or a map; that what is printed or encoded is read back;
  that the bytes of the heap refine a set of disjoint blocks, and the raw device an array of bytes, and that
  a file found on a FAT volume is read with the bytes of its clusters; that a file sent over a bad line
  arrives, and that what arrives was checked;
  that buffers of fixed size are large enough, or under which condition they are; that loops
  end. Where C code may run past a buffer or not end, the model has a value for it
  (\<open>None\<close>, \<open>Inl\<close> of an error, or a partial function with result \<open>option\<close>), and the theorems
  say when it does not occur.

  \<^bold>\<open>Loops.\<close> Loops over a string or an array are recursive functions with a proof of
  termination. The binary search of the symbol table is written with
  \<open>partial_function\<close>, as its end depends on the data; the theorem \<open>getsymbyvalue_nearest\<close>
  contains that it returns. The loop of \<^verbatim>\<open>malloc\<close> over the ring of free blocks and the two loops
  over a cluster chain are written in the same way: \<open>heap_refines\<close> and \<open>fat_chain_complete\<close> contain
  that they return, and \<open>fat_chain_cyclic\<close> when they do not. The loops of the memory commands end
  unless the range ends with the last byte of memory; \<open>fill_repeats_pattern\<close>, \<open>compare_reports\<close> and
  \<open>search_finds\<close> contain that they return, \<open>compare_forever\<close> and \<open>fill_to_the_top\<close> are the exceptions.
  The receiver of XMODEM ends with the line it is given. The session of the
  line editor is a fold over the keys that were typed.

  \<^bold>\<open>Not modelled.\<close> Terminal output other than that of the line editor and the listings of the memory
  commands; floating point; cache flushes; the initialisation
  of boards and the device drivers other than the loop device; the debugger; the network; the other file
  systems; the other loaders; vendored code. Whether \<^verbatim>\<open>malloc\<close> succeeds is a parameter of the
  operations of \<open>Env\<close>, \<open>Symtab\<close> and the others that call it; in \<open>Fat\<close> it succeeds.
\<close>

end
